(* ===== verification/Prelude.thy ===== *)
theory Prelude
  imports Main "HOL-Library.Word"
begin

text \<open>
  Shared vocabulary of the development: the machine-integer types of the C++ code, the
  lemma collections that the component theories extend, and generic facts on words, bits
  and lists that more than one component needs.
\<close>

unbundle bit_operations_syntax

type_synonym u8 = "8 word"
type_synonym u32 = "32 word"
type_synonym u64 = "64 word"
type_synonym uint256 = "u8 list"

named_theorems limb_simps \<open>value of one step of a limb loop\<close>

named_theorems loop_simps \<open>one step of an index loop over an array\<close>

text \<open>The elements of an array from an index on, with their indices.\<close>

definition index_from :: "nat \<Rightarrow> 'a list \<Rightarrow> (nat \<times> 'a) list" where
  "index_from i xs = drop i (enumerate 0 xs)"

section \<open>Words\<close>

lemma unat_ucast: "unat (ucast (w :: 'a::len word) :: 'b::len word) = unat w mod 2 ^ LENGTH('b)"
  by (simp add: unsigned_ucast_eq take_bit_eq_mod unsigned_take_bit_eq flip: take_bit_eq_mod)

lemma unat_lt_pow: "unat (w :: 'a::len word) < 2 ^ LENGTH('a)"
  by (rule unsigned_less)

lemma unat_u32_lt: "unat (w :: u32) < 4294967296"
  using unat_lt_pow [of w] by simp

lemma unat_u64_lt: "unat (w :: u64) < 18446744073709551616"
  using unat_lt_pow [of w] by simp

lemma unat_ucast_32_64 [simp]: "unat (ucast (w :: u32) :: u64) = unat w"
proof -
  have "unat w < 2 ^ 64" by (rule less_trans [OF unat_u32_lt]) simp
  then show ?thesis by (simp add: unat_ucast)
qed

lemma unat_ucast_64_32: "unat (ucast (w :: u64) :: u32) = unat w mod 4294967296"
  by (simp add: unat_ucast)

lemma unat_drop_bit_div: "unat (drop_bit k (w :: 'a::len word)) = unat w div 2 ^ k"
  unfolding unat_drop_bit_eq by (rule drop_bit_eq_div)

lemma unat_push_bit: "unat (push_bit n (w :: 'a::len word)) = (unat w * 2 ^ n) mod 2 ^ LENGTH('a)"
  unfolding unsigned_push_bit_eq unfolding take_bit_eq_mod push_bit_eq_mult ..

lemma and_low32: "(w :: u64) AND 0xffffffff = take_bit 32 w"
  by (simp add: take_bit_eq_mask mask_eq_exp_minus_1)

lemma unat_and_low32: "unat ((w :: u64) AND 0xffffffff) = unat w mod 4294967296"
proof -
  have "unat (take_bit 32 w) = unat w mod 2 ^ 32"
    unfolding unsigned_take_bit_eq by (rule take_bit_eq_mod)
  then show ?thesis by (simp add: and_low32)
qed

lemma ucast_and_low32: "(ucast ((w :: u64) AND 0xffffffff) :: u32) = ucast w"
  unfolding and_low32 by (simp add: bit_eq_iff bit_simps)

lemma unat_add_no_wrap:
  "unat a + unat b < 2 ^ LENGTH('a) \<Longrightarrow> unat (a + b :: 'a::len word) = unat a + unat b"
  using unat_add_lem by blast

lemma unat_mult_no_wrap:
  "unat a * unat b < 2 ^ LENGTH('a) \<Longrightarrow> unat (a * b :: 'a::len word) = unat a * unat b"
  using unat_mult_lem by blast

section \<open>Index loops\<close>

lemma index_from_Cons [loop_simps]: "i < length xs \<Longrightarrow> index_from i xs = (i, xs ! i) # index_from (Suc i) xs"
  unfolding index_from_def by (subst Cons_nth_drop_Suc [symmetric]) (simp_all add: nth_enumerate_eq)

lemma index_from_Nil [loop_simps]: "\<not> i < length xs \<Longrightarrow> index_from i xs = []"
  by (simp add: index_from_def)

lemma map_snd_index_from [simp]: "map snd (index_from i xs) = drop i xs"
  by (simp add: index_from_def drop_map flip: drop_map)

lemma length_index_from [simp]: "length (index_from i xs) = length xs - i"
  by (simp add: index_from_def)

lemma nth_index_from: "j < length xs - i \<Longrightarrow> index_from i xs ! j = (i + j, xs ! (i + j))"
  by (simp add: index_from_def nth_enumerate_eq)

lemma in_set_index_from: "(k, v) \<in> set (index_from i xs) \<longleftrightarrow> i \<le> k \<and> k < length xs \<and> v = xs ! k"
proof
  assume "(k, v) \<in> set (index_from i xs)"
  then obtain j where "j < length xs - i" "index_from i xs ! j = (k, v)" by (auto simp: in_set_conv_nth)
  then show "i \<le> k \<and> k < length xs \<and> v = xs ! k" by (auto simp: nth_index_from)
next
  assume *: "i \<le> k \<and> k < length xs \<and> v = xs ! k"
  then have "index_from i xs ! (k - i) = (k, v)" using nth_index_from [of "k - i" xs i] by auto
  with * show "(k, v) \<in> set (index_from i xs)" by (metis nth_mem length_index_from diff_less_mono)
qed

end
