(* ===== verification/Arith256.thy ===== *)
theory Arith256
  imports Prelude
begin

text \<open>
  The big-integer class \<open>base_uint<256>\<close> (src/src/arith_uint256.h and .cpp). A value is the
  array \<open>pn\<close> of eight 32-bit limbs, least significant first. Every operator is the loop of
  the source over the limbs; \<open>limbs_val\<close> reads the limbs as a natural number, and each
  operator is shown to compute the corresponding operation on numbers modulo \<open>2 ^ 256\<close>.
\<close>

type_synonym base_uint = "u32 list"

definition WIDTH :: nat where
  "WIDTH = 8"

fun limbs_val :: "u32 list \<Rightarrow> nat" where
  "limbs_val [] = 0"
| "limbs_val (w # ws) = unat w + 4294967296 * limbs_val ws"

section \<open>Construction, bitwise and additive operators\<close>

definition base_uint_zero :: base_uint where
  "base_uint_zero = replicate WIDTH 0"

definition base_uint_of_u64 :: "u64 \<Rightarrow> base_uint" where
  "base_uint_of_u64 b = ucast b # ucast (drop_bit 32 b) # replicate (WIDTH - 2) 0"

definition base_uint_not :: "base_uint \<Rightarrow> base_uint" where
  "base_uint_not pn = map NOT pn"

fun base_uint_inc :: "base_uint \<Rightarrow> base_uint" where
  "base_uint_inc [] = []"
| "base_uint_inc (p # ps) = (if p + 1 = 0 then 0 # base_uint_inc ps else (p + 1) # ps)"

fun base_uint_dec :: "base_uint \<Rightarrow> base_uint" where
  "base_uint_dec [] = []"
| "base_uint_dec (p # ps) = (if p - 1 = 0xffffffff then (p - 1) # base_uint_dec ps else (p - 1) # ps)"

definition base_uint_neg :: "base_uint \<Rightarrow> base_uint" where
  "base_uint_neg pn = base_uint_inc (map NOT pn)"

fun add_loop :: "u64 \<Rightarrow> base_uint \<Rightarrow> base_uint \<Rightarrow> base_uint" where
  "add_loop carry (p # ps) (b # bs) =
     (let n = carry + ucast p + ucast b
      in ucast (n AND 0xffffffff) # add_loop (drop_bit 32 n) ps bs)"
| "add_loop carry ps bs = ps"

definition base_uint_add :: "base_uint \<Rightarrow> base_uint \<Rightarrow> base_uint" where
  "base_uint_add pn b = add_loop 0 pn b"

definition base_uint_sub :: "base_uint \<Rightarrow> base_uint \<Rightarrow> base_uint" where
  "base_uint_sub pn b = base_uint_add pn (base_uint_neg b)"

section \<open>Shifts\<close>

definition shl_step :: "base_uint \<Rightarrow> nat \<Rightarrow> nat \<Rightarrow> nat \<Rightarrow> base_uint \<Rightarrow> base_uint" where
  "shl_step a k s i pn =
     (let pn1 = (if i + k + 1 < WIDTH \<and> s \<noteq> 0
                 then pn[i + k + 1 := pn ! (i + k + 1) OR drop_bit (32 - s) (a ! i)] else pn)
      in if i + k < WIDTH then pn1[i + k := pn1 ! (i + k) OR push_bit s (a ! i)] else pn1)"

definition base_uint_shl :: "base_uint \<Rightarrow> nat \<Rightarrow> base_uint" where
  "base_uint_shl a shift =
     fold (shl_step a (shift div 32) (shift mod 32)) [0..<WIDTH] (replicate WIDTH 0)"

definition shr_step :: "base_uint \<Rightarrow> nat \<Rightarrow> nat \<Rightarrow> nat \<Rightarrow> base_uint \<Rightarrow> base_uint" where
  "shr_step a k s i pn =
     (let pn1 = (if i \<ge> k + 1 \<and> s \<noteq> 0
                 then pn[i - k - 1 := pn ! (i - k - 1) OR push_bit (32 - s) (a ! i)] else pn)
      in if i \<ge> k then pn1[i - k := pn1 ! (i - k) OR drop_bit s (a ! i)] else pn1)"

definition base_uint_shr :: "base_uint \<Rightarrow> nat \<Rightarrow> base_uint" where
  "base_uint_shr a shift =
     fold (shr_step a (shift div 32) (shift mod 32)) [0..<WIDTH] (replicate WIDTH 0)"

section \<open>Multiplication\<close>

fun mul32_loop :: "u32 \<Rightarrow> u64 \<Rightarrow> base_uint \<Rightarrow> base_uint" where
  "mul32_loop b32 carry [] = []"
| "mul32_loop b32 carry (p # ps) =
     (let n = carry + ucast b32 * ucast p
      in ucast (n AND 0xffffffff) # mul32_loop b32 (drop_bit 32 n) ps)"

definition base_uint_mul32 :: "base_uint \<Rightarrow> u32 \<Rightarrow> base_uint" where
  "base_uint_mul32 pn b32 = mul32_loop b32 0 pn"

text \<open>
  The inner loop of the full product: it runs over \<open>a.pn[i + j]\<close>, the limbs of the
  accumulator from position \<open>j\<close> on, and over the limbs of \<open>b\<close> from position 0.
\<close>

fun mul_inner :: "u32 \<Rightarrow> u64 \<Rightarrow> base_uint \<Rightarrow> base_uint \<Rightarrow> base_uint" where
  "mul_inner pj carry (x # xs) (b # bs) =
     (let n = carry + ucast x + ucast pj * ucast b
      in ucast (n AND 0xffffffff) # mul_inner pj (drop_bit 32 n) xs bs)"
| "mul_inner pj carry xs bs = xs"

definition mul_outer :: "base_uint \<Rightarrow> base_uint \<Rightarrow> nat \<Rightarrow> base_uint \<Rightarrow> base_uint" where
  "mul_outer pn b j a = take j a @ mul_inner (pn ! j) 0 (drop j a) b"

definition base_uint_mul :: "base_uint \<Rightarrow> base_uint \<Rightarrow> base_uint" where
  "base_uint_mul pn b = fold (mul_outer pn b) [0..<WIDTH] (replicate WIDTH 0)"

section \<open>Comparison, bit length, low words\<close>

fun compare_loop :: "base_uint \<Rightarrow> base_uint \<Rightarrow> nat \<Rightarrow> int" where
  "compare_loop pn b 0 = 0"
| "compare_loop pn b (Suc i) =
     (if pn ! i < b ! i then -1 else if pn ! i > b ! i then 1 else compare_loop pn b i)"

definition base_uint_CompareTo :: "base_uint \<Rightarrow> base_uint \<Rightarrow> int" where
  "base_uint_CompareTo pn b = compare_loop pn b WIDTH"

definition base_uint_EqualTo :: "base_uint \<Rightarrow> u64 \<Rightarrow> bool" where
  "base_uint_EqualTo pn b =
     (if (\<exists>i \<in> set [2..<WIDTH]. pn ! i \<noteq> 0) then False
      else if ucast (pn ! 1) \<noteq> drop_bit 32 b then False
      else if ucast (pn ! 0) \<noteq> b AND 0xffffffff then False
      else True)"

fun top_bit_loop :: "u32 \<Rightarrow> nat \<Rightarrow> nat \<Rightarrow> nat" where
  "top_bit_loop w pos 0 = 32 * pos + 1"
| "top_bit_loop w pos (Suc nbits) =
     (if bit w (Suc nbits) then 32 * pos + Suc nbits + 1 else top_bit_loop w pos nbits)"

fun bits_loop :: "base_uint \<Rightarrow> nat \<Rightarrow> nat" where
  "bits_loop pn 0 = 0"
| "bits_loop pn (Suc pos) =
     (if pn ! pos \<noteq> 0 then top_bit_loop (pn ! pos) pos 31 else bits_loop pn pos)"

definition base_uint_bits :: "base_uint \<Rightarrow> nat" where
  "base_uint_bits pn = bits_loop pn WIDTH"

definition base_uint_GetLow64 :: "base_uint \<Rightarrow> u64" where
  "base_uint_GetLow64 pn = ucast (pn ! 0) OR push_bit 32 (ucast (pn ! 1))"

section \<open>Division\<close>

datatype uint_error = DivisionByZero

text \<open>
  The loop \<open>while (shift >= 0)\<close> runs with \<open>shift = n - 1, \<dots>, 0\<close>; the argument is
  \<open>n = shift + 1\<close>.
\<close>

fun div_loop :: "nat \<Rightarrow> base_uint \<Rightarrow> base_uint \<Rightarrow> base_uint \<Rightarrow> base_uint" where
  "div_loop 0 num dv pn = pn"
| "div_loop (Suc shift) num dv pn =
     (if base_uint_CompareTo num dv \<ge> 0
      then div_loop shift (base_uint_sub num dv) (base_uint_shr dv 1)
             (pn[shift div 32 := pn ! (shift div 32) OR push_bit (shift mod 32) 1])
      else div_loop shift num (base_uint_shr dv 1) pn)"

definition base_uint_div :: "base_uint \<Rightarrow> base_uint \<Rightarrow> uint_error + base_uint" where
  "base_uint_div num b =
     (let num_bits = base_uint_bits num; div_bits = base_uint_bits b
      in if div_bits = 0 then Inl DivisionByZero
         else if div_bits > num_bits then Inr base_uint_zero
         else (let shift = num_bits - div_bits
               in Inr (div_loop (Suc shift) num (base_uint_shl b shift) base_uint_zero)))"

section \<open>The compact encoding\<close>

record compact_result =
  cr_value :: base_uint
  cr_negative :: bool
  cr_overflow :: bool

definition SetCompact :: "u32 \<Rightarrow> compact_result" where
  "SetCompact nCompact =
     (let nSize = unat (drop_bit 24 nCompact);
          nWord0 = nCompact AND 0x007fffff;
          nWord = (if nSize \<le> 3 then drop_bit (8 * (3 - nSize)) nWord0 else nWord0);
          v = (if nSize \<le> 3 then base_uint_of_u64 (ucast nWord)
               else base_uint_shl (base_uint_of_u64 (ucast nWord)) (8 * (nSize - 3)))
      in \<lparr>cr_value = v,
          cr_negative = (nWord \<noteq> 0 \<and> nCompact AND 0x00800000 \<noteq> 0),
          cr_overflow = (nWord \<noteq> 0 \<and> (nSize > 34 \<or> (nWord > 0xff \<and> nSize > 33) \<or>
                                      (nWord > 0xffff \<and> nSize > 32)))\<rparr>)"

text \<open>
  The two \<open>assert\<close> statements of \<open>GetCompact\<close> are the \<open>None\<close> branch: an aborted program.
\<close>

definition GetCompact :: "base_uint \<Rightarrow> bool \<Rightarrow> u32 option" where
  "GetCompact pn fNegative =
     (let nSize0 = (base_uint_bits pn + 7) div 8;
          c0 = (if nSize0 \<le> 3 then ucast (push_bit (8 * (3 - nSize0)) (base_uint_GetLow64 pn))
                else ucast (base_uint_GetLow64 (base_uint_shr pn (8 * (nSize0 - 3))))) :: u32;
          c1 = (if c0 AND 0x00800000 \<noteq> 0 then drop_bit 8 c0 else c0);
          nSize = (if c0 AND 0x00800000 \<noteq> 0 then nSize0 + 1 else nSize0)
      in if c1 AND NOT 0x007fffff \<noteq> 0 then None
         else if \<not> nSize < 256 then None
         else (let c2 = c1 OR push_bit 24 (word_of_nat nSize)
               in Some (c2 OR (if fNegative \<and> c2 AND 0x007fffff \<noteq> 0 then 0x00800000 else 0))))"

section \<open>Specification vocabulary\<close>

text \<open>
  Well-formed values have eight limbs. The remaining definitions say, limb by limb or on
  numbers, what a loop has to produce; they are used in statements and proofs only.
\<close>

abbreviation limb_wf :: "base_uint \<Rightarrow> bool" where
  "limb_wf pn \<equiv> length pn = WIDTH"

definition shl_limb :: "base_uint \<Rightarrow> nat \<Rightarrow> nat \<Rightarrow> nat \<Rightarrow> nat \<Rightarrow> u32" where
  "shl_limb a k s i m =
     (if k \<le> m \<and> m - k < i then push_bit s (a ! (m - k)) else 0) OR
     (if k + 1 \<le> m \<and> m - k - 1 < i \<and> s \<noteq> 0 then drop_bit (32 - s) (a ! (m - k - 1)) else 0)"

definition shr_limb :: "base_uint \<Rightarrow> nat \<Rightarrow> nat \<Rightarrow> nat \<Rightarrow> nat \<Rightarrow> u32" where
  "shr_limb a k s i m =
     (if m + k < i then drop_bit s (a ! (m + k)) else 0) OR
     (if m + k + 1 < i \<and> s \<noteq> 0 then push_bit (32 - s) (a ! (m + k + 1)) else 0)"

definition compact_bytes :: "nat \<Rightarrow> nat \<Rightarrow> nat" where
  "compact_bytes b v = (if b \<le> 3 then v * 256 ^ (3 - b) else v div 256 ^ (b - 3))"

text \<open>
  The precision of the compact format, on numbers: a value keeps its 23 most significant
  bits, cut at a byte boundary.
\<close>

fun compact_round :: "nat \<Rightarrow> nat" where
  "compact_round v = (if v < 8388608 then v else 256 * compact_round (v div 256))"

declare compact_round.simps [simp del]

section \<open>Carry loops\<close>

lemma unat_add_loop_step:
  fixes c :: u64 and p b :: u32
  assumes "unat c < 4294967296"
  shows "unat (c + ucast p + ucast b) = unat c + unat p + unat b"
proof -
  have 1: "unat (c + ucast p) = unat c + unat p"
    by (subst unat_add_no_wrap) (use assms unat_u32_lt [of p] in simp_all)
  show ?thesis 
    by (subst unat_add_no_wrap) (use assms unat_u32_lt [of p] unat_u32_lt [of b] 1 in simp_all)
qed

lemma limb_split:
  fixes n :: u64
  shows "unat (ucast (n AND 0xffffffff) :: u32) + 4294967296 * unat (drop_bit 32 n) = unat n"
  by (simp add: ucast_and_low32 unat_ucast_64_32 unat_drop_bit_div)

lemma limbs_val_bound: "limbs_val ws < 4294967296 ^ length ws"
proof (induction ws)
  case (Cons w ws)
  have "unat w + 4294967296 * limbs_val ws < 4294967296 + 4294967296 * limbs_val ws"
    using unat_u32_lt [of w] by simp
  also have "\<dots> = 4294967296 * Suc (limbs_val ws)" by simp
  also have "\<dots> \<le> 4294967296 * 4294967296 ^ length ws"
    using Cons.IH by (intro mult_le_mono2) simp
  finally show ?case by simp
qed simp

lemma bit_limbs_val:
  "bit (limbs_val a) n \<longleftrightarrow> n div 32 < length a \<and> bit (a ! (n div 32)) (n mod 32)"
proof (induction a arbitrary: n)
  case (Cons w ws)
  show ?case
  proof (cases "n < 32")
    case True
    have eq: "(4294967296::nat) = 2 ^ n * 2 ^ (32 - n)" using True by (simp flip: power_add)
    have "(unat w + 4294967296 * limbs_val ws) div 2 ^ n = unat w div 2^n + 2 ^ (32 - n) * limbs_val ws"
      unfolding eq mult.assoc by simp
    moreover have "even (2 ^ (32 - n) * limbs_val ws)" using True by simp
    ultimately have "bit (limbs_val (w # ws)) n = bit (unat w) n"
      by (simp add: bit_iff_odd)
    also have "\<dots> = bit w n" using True by (simp add: bit_unsigned_iff)
    finally show ?thesis using True by simp
  next
    case False
    then obtain m where m: "n = 32 + m" by (metis le_add_diff_inverse not_less)
    have w0: "unat w div 4294967296 = 0" using unat_u32_lt [of w] by simp
    have "(unat w + 4294967296 * limbs_val ws) div 2 ^ n = limbs_val ws div 2 ^ m"
      by (simp add: m power_add div_mult2_eq w0)
    then have "bit (limbs_val (w # ws)) n = bit (limbs_val ws) m" by (simp add: bit_iff_odd)
    moreover have "n div 32 = Suc (m div 32)" "n mod 32 = m mod 32" by (simp_all add: m)
    ultimately show ?thesis by (simp add: Cons.IH)
  qed
qed simp

lemma carry_step:
  fixes r :: nat
  assumes "r < B"
  shows "r + B * (x mod M) = (r + B * x) mod (B * M)"
  using assms by (simp add: mod_mult2_eq)

lemma limb_carry:
  fixes n :: u64
  shows "unat (ucast (n AND 0xffffffff) :: u32) + 4294967296 * ((unat (drop_bit 32 n) + x) mod M)
         = (unat n + 4294967296 * x) mod (4294967296 * M)"
proof -
  let ?r = "unat (ucast (n AND 0xffffffff) :: u32)"
  have "?r + 4294967296 * ((unat (drop_bit 32 n) + x) mod M)
      = (?r + 4294967296 * (unat (drop_bit 32 n) + x)) mod (4294967296 * M)"
    by (rule carry_step [OF unat_u32_lt])
  also have "?r + 4294967296 * (unat (drop_bit 32 n) + x) = unat n + 4294967296 * x"
    using limb_split [of n] by simp
  finally show ?thesis .
qed

lemma limbs_val_add_loop:
  "\<lbrakk>length ps = length bs; unat c < 4294967296\<rbrakk> \<Longrightarrow>
   limbs_val (add_loop c ps bs) = (unat c + limbs_val ps + limbs_val bs) mod 4294967296 ^ length ps"
proof (induction c ps bs rule: add_loop.induct)
  case (1 c p ps b bs)
  define n where "n = c + ucast p + ucast b"
  have n: "unat n = unat c + unat p + unat b"
    unfolding n_def by (rule unat_add_loop_step) (use "1.prems" in simp)
  have c': "unat (drop_bit 32 n) < 4294967296"
    using "1.prems" unat_u32_lt [of p] unat_u32_lt [of b] unfolding unat_drop_bit_div n by simp
  have IH: "limbs_val (add_loop (drop_bit 32 n) ps bs)
      = (unat (drop_bit 32 n) + limbs_val ps + limbs_val bs) mod 4294967296 ^ length ps"
    using "1.IH" [OF n_def] "1.prems"(1) c' by simp
  have unf: "add_loop c (p # ps) (b # bs) = ucast (n AND 0xffffffff) # add_loop (drop_bit 32 n) ps bs"
    by (simp add: n_def Let_def)
  show ?case
    using limb_carry [of n "limbs_val ps + limbs_val bs" "4294967296 ^ length ps"]
    unfolding unf by (simp add: IH n algebra_simps)
qed auto

lemma unat_mul_loop_step:
  fixes c :: u64 and x p b :: u32
  assumes "unat c < 4294967296"
  shows "unat (c + ucast x + ucast p * ucast b) = unat c + unat x + unat p * unat b" (is ?A)
    and "unat (c + ucast p * ucast b) = unat c + unat p * unat b" (is ?B)
    and "(unat c + unat x + unat p * unat b) div 4294967296 < 4294967296"
proof -
  have le: "unat p * unat b \<le> 4294967295 * 4294967295"
    using unat_u32_lt [of p] unat_u32_lt [of b] by (intro mult_le_mono) simp_all
  have m: "unat (ucast p * ucast b :: u64) = unat p * unat b"
    by (subst unat_mult_no_wrap) (use le in simp_all)
  have 1: "unat (c + ucast x) = unat c + unat x"
    by (subst unat_add_no_wrap) (use assms unat_u32_lt [of x] in simp_all)
  show ?A
    by (subst unat_add_no_wrap) (use assms unat_u32_lt [of x] 1 m le in simp_all)
  show ?B
    by (subst unat_add_no_wrap) (use assms m le in simp_all)
  show "(unat c + unat x + unat p * unat b) div 4294967296 < 4294967296"
    using assms le unat_u32_lt [of x] by linarith
qed

lemma limbs_val_mul32_loop:
  "unat c < 4294967296 \<Longrightarrow>
   limbs_val (mul32_loop b32 c ps) = (unat c + unat b32 * limbs_val ps) mod 4294967296 ^ length ps"
proof (induction b32 c ps rule: mul32_loop.induct)
  case (2 b32 c p ps)
  define n where "n = c + ucast b32 * ucast p"
  have n: "unat n = unat c + unat b32 * unat p"
    unfolding n_def by (rule unat_mul_loop_step(2)) (use "2.prems" in simp)
  have c': "unat (drop_bit 32 n) < 4294967296"
    using unat_mul_loop_step(3) [OF "2.prems", of 0 b32 p] unfolding unat_drop_bit_div n by simp
  have unf: "mul32_loop b32 c (p # ps) = ucast (n AND 0xffffffff) # mul32_loop b32 (drop_bit 32 n) ps"
    by (simp add: n_def Let_def)
  show ?case
    using limb_carry [of n "unat b32 * limbs_val ps" "4294967296 ^ length ps"]
    unfolding unf by (simp add: "2.IH" [OF n_def c'] n algebra_simps)
qed auto

lemma limbs_val_mul_inner:
  "\<lbrakk>length xs \<le> length bs; unat c < 4294967296\<rbrakk> \<Longrightarrow>
   limbs_val (mul_inner pj c xs bs)
     = (unat c + limbs_val xs + unat pj * limbs_val bs) mod 4294967296 ^ length xs"
proof (induction pj c xs bs rule: mul_inner.induct)
  case (1 pj c x xs b bs)
  define n where "n = c + ucast x + ucast pj * ucast b"
  have n: "unat n = unat c + unat x + unat pj * unat b"
    unfolding n_def by (rule unat_mul_loop_step(1)) (use "1.prems" in simp)
  have c': "unat (drop_bit 32 n) < 4294967296"
    using unat_mul_loop_step(3) [OF "1.prems"(2), of x pj b] unfolding unat_drop_bit_div n by simp
  have len: "length xs \<le> length bs" using "1.prems" by simp
  have unf: "mul_inner pj c (x # xs) (b # bs)
      = ucast (n AND 0xffffffff) # mul_inner pj (drop_bit 32 n) xs bs"
    by (simp add: n_def Let_def)
  show ?case
    using limb_carry [of n "limbs_val xs + unat pj * limbs_val bs" "4294967296 ^ length xs"]
    unfolding unf by (simp add: "1.IH" [OF n_def len c'] n algebra_simps)
qed auto

section \<open>Addition, subtraction, multiplication\<close>

lemma limbs_val_append: "limbs_val (xs @ ys) = limbs_val xs + 4294967296 ^ length xs * limbs_val ys"
  by (induction xs) (simp_all add: algebra_simps)

lemma limbs_val_replicate0 [simp]: "limbs_val (replicate n 0) = 0"
  by (induction n) simp_all

lemma limbs_val_take_Suc:
  "i < length pn \<Longrightarrow> limbs_val (take (Suc i) pn) = limbs_val (take i pn) + 4294967296 ^ i * unat (pn ! i)"
  by (simp add: take_Suc_conv_app_nth limbs_val_append)

lemma limbs_val_take_drop:
  "i \<le> length pn \<Longrightarrow> limbs_val pn = limbs_val (take i pn) + 4294967296 ^ i * limbs_val (drop i pn)"
  using limbs_val_append [of "take i pn" "drop i pn"] by simp

lemma limbs_val_bound_wf: "limb_wf pn \<Longrightarrow> limbs_val pn < 2 ^ 256"
  using limbs_val_bound [of pn] by (simp add: WIDTH_def)

lemma pow_limb_width: "(4294967296::nat) ^ WIDTH = 2 ^ 256"
  by (simp add: WIDTH_def)

lemma length_add_loop [simp]: "length (add_loop c ps bs) = length ps"
  by (induction c ps bs rule: add_loop.induct) (auto simp: Let_def)

lemma length_mul32_loop [simp]: "length (mul32_loop b c ps) = length ps"
  by (induction b c ps rule: mul32_loop.induct) (auto simp: Let_def)

lemma length_mul_inner [simp]: "length (mul_inner p c xs bs) = length xs"
  by (induction p c xs bs rule: mul_inner.induct) (auto simp: Let_def)

lemma length_base_uint_inc [simp]: "length (base_uint_inc ps) = length ps"
  by (induction ps rule: base_uint_inc.induct) auto

lemma length_base_uint_dec [simp]: "length (base_uint_dec ps) = length ps"
  by (induction ps rule: base_uint_dec.induct) auto

lemma unat_max_u32: "unat (- 1 :: u32) = 4294967295"
  by (simp add: unsigned_minus_1_eq_mask mask_eq_exp_minus_1)

lemma unat_not: "unat (NOT w :: u32) = 4294967295 - unat w"
proof -
  have "NOT w = - 1 - w" by (simp add: not_eq_complement)
  moreover have "unat (- 1 - w) = unat (- 1 :: u32) - unat w"
    by (rule unat_sub) simp
  ultimately show ?thesis by (simp only: unat_max_u32)
qed

lemma limbs_val_not: "limbs_val (map NOT ps) + limbs_val ps + 1 = 4294967296 ^ length ps"
proof (induction ps)
  case (Cons p ps)
  have "unat (NOT p) + unat p = 4294967295" using unat_not [of p] unat_u32_lt [of p] by simp
  then have "limbs_val (map NOT (p # ps)) + limbs_val (p # ps) + 1
     = 4294967296 * (limbs_val (map NOT ps) + limbs_val ps + 1)"  by simp
  with Cons show ?case by simp
qed simp

lemma unat_succ_zero: "(p :: u32) + 1 = 0 \<longleftrightarrow> unat p = 4294967295"
proof -
  have "p + 1 = 0 \<longleftrightarrow> p = - 1" by (simp add: eq_neg_iff_add_eq_0)
  also have "\<dots> \<longleftrightarrow> unat p = unat (- 1 :: u32)" by (simp add: word_unat_eq_iff)
  finally show ?thesis by (simp only: unat_max_u32)
qed

lemma limbs_val_inc: "limbs_val (base_uint_inc ps) = (limbs_val ps + 1) mod 4294967296 ^ length ps"
proof (induction ps rule: base_uint_inc.induct)
  case (2 p ps)
  show ?case
  proof (cases "p + 1 = 0")
    case True
    then have "unat p = 4294967295" by (simp add: unat_succ_zero)
    with True 2 show ?thesis by (simp add: mult_mod_right)
  next
    case False
    then have "unat p \<noteq> 4294967295" by (simp add: unat_succ_zero)
    then have "unat p + 1 < 4294967296" using unat_u32_lt [of p] by simp
    then have "unat (p + 1) = unat p + 1" by (subst unat_add_no_wrap) simp_all
    with False limbs_val_bound [of "(p + 1) # ps"] show ?thesis by simp
  qed
qed simp

lemma limbs_val_dec:
  "limbs_val (base_uint_dec ps) = (limbs_val ps + (4294967296 ^ length ps - 1)) mod 4294967296 ^ length ps"
proof (induction ps rule: base_uint_dec.induct)
  case (2 p ps)
  let ?M = "4294967296 ^ length ps :: nat"
  show ?case
  proof (cases "p = 0")
    case True
    have pos: "0 < ?M" by simp
    have "limbs_val (base_uint_dec (p # ps))
        = 4294967295 + 4294967296 * ((limbs_val ps + (?M - 1)) mod ?M)"
      using True 2 by (simp add: unat_max_u32)
    also have "\<dots> = (4294967295 + 4294967296 * (limbs_val ps + (?M - 1))) mod (4294967296 * ?M)"
      by (rule carry_step) simp
    also have "4294967295 + 4294967296 * (limbs_val ps + (?M - 1))
        = limbs_val (p # ps) + (4294967296 * ?M - 1)"
    proof -
      from pos obtain N where "?M = Suc N" by (cases ?M) auto
      with True show ?thesis by simp
    qed
    finally show ?thesis by simp
  next
    case False
    then have u: "unat (p - 1) = unat p - 1" "0 < unat p" 
      by (simp_all add: unat_minus_one unat_gt_0)
    have "unat (p - 1) \<noteq> unat (0xffffffff :: u32)"
      using u unat_u32_lt [of p] by simp
    then have d: "base_uint_dec (p # ps) = (p - 1) # ps" by auto
    have pos: "0 < 4294967296 * ?M" by simp
    have "limbs_val (p # ps) + (4294967296 * ?M - 1) = limbs_val ((p - 1) # ps) + 4294967296 * ?M"
      using u pos by simp
    then show ?thesis
      using limbs_val_bound [of "(p - 1) # ps"] unfolding d by (simp only: mod_add_self2 length_Cons power_Suc) simp
  qed
qed simp

lemma limbs_val_neg:
  "limbs_val (base_uint_neg b) = (4294967296 ^ length b - limbs_val b) mod 4294967296 ^ length b"
proof -
  have "limbs_val (map NOT b) + 1 = 4294967296 ^ length b - limbs_val b"
    using limbs_val_not [of b] by simp
  then show ?thesis by (simp add: base_uint_neg_def limbs_val_inc)
qed

lemma length_base_uint_neg [simp]: "length (base_uint_neg b) = length b"
  by (simp add: base_uint_neg_def)

lemma limbs_val_add:
  assumes "limb_wf a" "limb_wf b"
  shows "limbs_val (base_uint_add a b) = (limbs_val a + limbs_val b) mod 2 ^ 256"
  using limbs_val_add_loop [of a b 0] assms by (simp add: base_uint_add_def pow_limb_width)

lemma limb_wf_add [simp]: "length (base_uint_add a b) = length a"
  by (simp add: base_uint_add_def)

lemma limbs_val_sub:
  assumes "limb_wf a" "limb_wf b"
  shows "limbs_val (base_uint_sub a b) = (limbs_val a + (2 ^ 256 - limbs_val b)) mod 2 ^ 256"
  using assms by (simp add: base_uint_sub_def limbs_val_add limbs_val_neg pow_limb_width mod_add_right_eq)

lemma limbs_val_sub_le:
  assumes "limb_wf a" "limb_wf b" "limbs_val b \<le> limbs_val a"
  shows "limbs_val (base_uint_sub a b) = limbs_val a - limbs_val b"
proof -
  have a: "limbs_val a < 2 ^ 256" by (rule limbs_val_bound_wf [OF assms(1)])
  have "limbs_val a + (2 ^ 256 - limbs_val b) = (limbs_val a - limbs_val b) + 2 ^ 256"
    using assms(3) a by linarith
  then have "limbs_val (base_uint_sub a b) = ((limbs_val a - limbs_val b) + 2 ^ 256) mod 2 ^ 256"
    by (simp only: limbs_val_sub [OF assms(1,2)])
  then show ?thesis using a by (simp only: mod_add_self2) simp
qed

lemma limb_wf_sub [simp]: "length (base_uint_sub a b) = length a"
  by (simp add: base_uint_sub_def)

lemma mul_outer_val:
  assumes "limb_wf a" "limb_wf b" "j < WIDTH"
  shows "limbs_val (mul_outer pn b j a)
     = (limbs_val a + 4294967296 ^ j * unat (pn ! j) * limbs_val b) mod 2 ^ 256"
proof -
  let ?B = "4294967296 :: nat"
  have len: "length (drop j a) \<le> length b" using assms by simp
  have "limbs_val (mul_outer pn b j a)
      = limbs_val (take j a) + ?B ^ j * ((limbs_val (drop j a) + unat (pn ! j) * limbs_val b) mod ?B ^ (WIDTH - j))"
    using assms limbs_val_mul_inner [OF len, of 0 "pn ! j"]
    by (simp add: mul_outer_def limbs_val_append)
  also have "\<dots> = (limbs_val (take j a) + ?B ^ j * (limbs_val (drop j a) + unat (pn ! j) * limbs_val b))
        mod (?B ^ j * ?B ^ (WIDTH - j))"
    by (rule carry_step) (use limbs_val_bound [of "take j a"] assms in simp)
  also have "?B ^ j * ?B ^ (WIDTH - j) = 2 ^ 256"
    using assms(3) pow_limb_width by (simp flip: power_add)
  finally show ?thesis using limbs_val_take_drop [of j a] assms
    by (simp add: algebra_simps)
qed

lemma length_mul_outer [simp]: "length (mul_outer pn b j a) = length a"
  by (simp add: mul_outer_def)

lemma mul_fold_val:
  assumes "limb_wf pn" "limb_wf b" "k \<le> WIDTH"
  shows "length (fold (mul_outer pn b) [0..<k] (replicate WIDTH 0)) = WIDTH \<and>
    limbs_val (fold (mul_outer pn b) [0..<k] (replicate WIDTH 0))
      = (limbs_val (take k pn) * limbs_val b) mod 2 ^ 256"
  using assms(3)
proof (induction k)
  case (Suc k)
  let ?a = "fold (mul_outer pn b) [0..<k] (replicate WIDTH 0)"
  from Suc have l: "limb_wf ?a" and v: "limbs_val ?a = (limbs_val (take k pn) * limbs_val b) mod 2 ^ 256"
    by simp_all
  have k: "k < WIDTH" using Suc.prems by simp
  have "limbs_val (mul_outer pn b k ?a)
     = (limbs_val (take k pn) * limbs_val b + 4294967296 ^ k * unat (pn ! k) * limbs_val b) mod 2 ^ 256"
    unfolding mul_outer_val [OF l assms(2) k] v by (rule mod_add_left_eq)
  also have "limbs_val (take k pn) * limbs_val b + 4294967296 ^ k * unat (pn ! k) * limbs_val b
     = limbs_val (take (Suc k) pn) * limbs_val b"
    using k assms(1) by (simp add: limbs_val_take_Suc algebra_simps)
  finally show ?case using l by simp
qed simp

lemma limbs_val_mul:
  assumes "limb_wf a" "limb_wf b"
  shows "limbs_val (base_uint_mul a b) = (limbs_val a * limbs_val b) mod 2 ^ 256"
  using mul_fold_val [OF assms, of WIDTH] assms by (simp add: base_uint_mul_def)

lemma limb_wf_mul [simp]: "limb_wf a \<Longrightarrow> limb_wf b \<Longrightarrow> limb_wf (base_uint_mul a b)"
  using mul_fold_val [of a b WIDTH] by (simp add: base_uint_mul_def)

lemma limbs_val_mul32:
  assumes "limb_wf a"
  shows "limbs_val (base_uint_mul32 a b) = (limbs_val a * unat b) mod 2 ^ 256"
  using limbs_val_mul32_loop [of 0 b a] assms by (simp add: base_uint_mul32_def pow_limb_width mult.commute)

lemma limb_wf_mul32 [simp]: "length (base_uint_mul32 a b) = length a"
  by (simp add: base_uint_mul32_def)

section \<open>Comparison and bit length\<close>

lemma compare_loop_val:
  assumes "length pn = length b" "i \<le> length pn"
  shows "compare_loop pn b i =
    (if limbs_val (take i pn) < limbs_val (take i b) then -1
     else if limbs_val (take i pn) > limbs_val (take i b) then 1 else 0)"
  using assms(2)
proof (induction i)
  case (Suc i)
  let ?B = "4294967296 :: nat"
  have lp: "limbs_val (take i pn) < ?B ^ i" and lb: "limbs_val (take i b) < ?B ^ i"
    using limbs_val_bound [of "take i pn"] limbs_val_bound [of "take i b"] Suc.prems assms(1) by simp_all
  have sp: "limbs_val (take (Suc i) pn) = limbs_val (take i pn) + ?B ^ i * unat (pn ! i)"
   and sb: "limbs_val (take (Suc i) b) = limbs_val (take i b) + ?B ^ i * unat (b ! i)"
    using Suc.prems assms(1) by (simp_all add: limbs_val_take_Suc)
  have step: "x + ?B ^ i * u < y + ?B ^ i * v" if "x < ?B ^ i" "u < v" for x y u v
  proof -
    have "x + ?B ^ i * u < ?B ^ i * Suc u" using that by simp
    also have "\<dots> \<le> ?B ^ i * v" using that by (intro mult_le_mono2) simp
    finally show ?thesis by simp
  qed
  consider "pn ! i < b ! i" | "b ! i < pn ! i" | "pn ! i = b ! i" by (rule linorder_cases)
  then show ?case
  proof cases
    case 1
    then have "unat (pn ! i) < unat (b ! i)" by (simp add: word_less_nat_alt)
    with 1 step [OF lp this, of "limbs_val (take i b)"] show ?thesis by (simp add: sp sb)
  next
    case 2
    then have "unat (b ! i) < unat (pn ! i)" by (simp add: word_less_nat_alt)
    with 2 step [OF lb this, of "limbs_val (take i pn)"] show ?thesis by (simp add: sp sb)
  next
    case 3
    with Suc show ?thesis by (simp add: sp sb)
  qed
qed simp

lemma CompareTo_val:
  assumes "limb_wf a" "limb_wf b"
  shows "base_uint_CompareTo a b =
    (if limbs_val a < limbs_val b then -1 else if limbs_val a > limbs_val b then 1 else 0)"
  using compare_loop_val [of a b WIDTH] assms by (simp add: base_uint_CompareTo_def)

lemma top_bit_loop_val:
  assumes "w \<noteq> 0" "n < 32" "\<And>m. n < m \<Longrightarrow> \<not> bit w m"
  shows "\<exists>h \<le> n. bit w h \<and> (\<forall>m > h. \<not> bit w m) \<and> top_bit_loop w pos n = 32 * pos + h + 1"
  using assms(2,3)
proof (induction n)
  case 0
  have "bit w 0"
  proof (rule ccontr)
    assume "\<not> bit w 0"
    with 0 have "\<not> bit w m" for m by (cases m) auto
    then have "w = 0" by (simp add: bit_eq_iff)
    with assms(1) show False by simp
  qed
  with 0 show ?case by auto
next
  case (Suc n)
  show ?case
  proof (cases "bit w (Suc n)")
    case True
    with Suc.prems show ?thesis by (intro exI [of _ "Suc n"]) auto
  next
    case False
    have "\<not> bit w m" if "n < m" for m
      using that False Suc.prems by (cases "m = Suc n") auto
    with Suc.IH Suc.prems obtain h where "h \<le> n" "bit w h" "\<forall>m > h. \<not> bit w m"
      "top_bit_loop w pos n = 32 * pos + h + 1" by auto
    with False show ?thesis by (intro exI [of _ h]) auto
  qed
qed

lemma bits_loop_val:
  assumes "n \<le> length pn"
  shows "bits_loop pn n = 0 \<and> limbs_val (take n pn) = 0 \<or>
     bits_loop pn n > 0 \<and> 2 ^ (bits_loop pn n - 1) \<le> limbs_val (take n pn)
       \<and> limbs_val (take n pn) < 2 ^ bits_loop pn n"
  using assms
proof (induction n)
  case (Suc n)
  let ?B = "4294967296 :: nat" and ?w = "pn ! n"
  have s: "limbs_val (take (Suc n) pn) = limbs_val (take n pn) + ?B ^ n * unat ?w"
    using Suc.prems by (simp add: limbs_val_take_Suc)
  have l: "limbs_val (take n pn) < ?B ^ n"
    using limbs_val_bound [of "take n pn"] Suc.prems by simp
  have B: "?B ^ n = 2 ^ (32 * n)" by (simp add: power_mult)
  show ?case
  proof (cases "?w = 0")
    case True
    with Suc s show ?thesis by simp
  next
    case False
    have "\<not> bit ?w m" if "31 < m" for m
      using that bit_imp_le_length [of ?w m] by auto
    then obtain h where h: "h \<le> 31" "bit ?w h" "\<forall>m > h. \<not> bit ?w m"
      "top_bit_loop ?w n 31 = 32 * n + h + 1"
      using top_bit_loop_val [OF False, of 31 n] by auto
    have up: "unat ?w < 2 ^ Suc h"
    proof -
      have "take_bit (Suc h) (unat ?w) = unat ?w"
        using h(3) by (auto simp: bit_eq_iff bit_simps not_less_eq)
      then show ?thesis using take_bit_nat_less_exp [of "Suc h" "unat ?w"] by simp
    qed
    have lo: "2 ^ h \<le> unat ?w"
    proof -
      have "odd (unat ?w div 2 ^ h)" using h(1,2) by (simp add: bit_unsigned_iff flip: bit_iff_odd)
      then have "unat ?w div 2 ^ h \<noteq> 0" by (intro notI) simp
      then show ?thesis by (simp add: div_eq_0_iff)
    qed
    have "2 ^ (32 * n + h) \<le> limbs_val (take (Suc n) pn)"
      using lo unfolding s B by (simp add: power_add trans_le_add2)
    moreover have "limbs_val (take (Suc n) pn) < 2 ^ (32 * n + h + 1)"
    proof -
      have "limbs_val (take (Suc n) pn) < 2 ^ (32 * n) * Suc (unat ?w)" using l unfolding s B by simp
      also have "\<dots> \<le> 2 ^ (32 * n) * 2 ^ Suc h" using up by (intro mult_le_mono2) simp
      finally show ?thesis by (simp add: power_add)
    qed
    ultimately show ?thesis using False h(4) by simp
  qed
qed simp

lemma base_uint_bits_val:
  assumes "limb_wf pn"
  shows "base_uint_bits pn = 0 \<longleftrightarrow> limbs_val pn = 0"
    and "limbs_val pn < 2 ^ base_uint_bits pn"
    and "limbs_val pn \<noteq> 0 \<Longrightarrow> 2 ^ (base_uint_bits pn - 1) \<le> limbs_val pn"
    and "base_uint_bits pn \<le> 256"
proof -
  note b = bits_loop_val [of WIDTH pn, folded base_uint_bits_def]
  show 1: "base_uint_bits pn = 0 \<longleftrightarrow> limbs_val pn = 0"
    using b assms by (auto simp: )
  show "limbs_val pn < 2 ^ base_uint_bits pn" using b assms by auto
  show 2: "2 ^ (base_uint_bits pn - 1) \<le> limbs_val pn" if "limbs_val pn \<noteq> 0" using b assms that by auto
  show "base_uint_bits pn \<le> 256"
  proof (cases "limbs_val pn = 0")
    case False
    then have "2 ^ (base_uint_bits pn - 1) < (2::nat) ^ 256"
      using 2 limbs_val_bound_wf [OF assms] by (blast intro: le_less_trans)
    then have "base_uint_bits pn - 1 < 256" by (rule power_less_imp_less_exp [rotated]) simp
    then show ?thesis by simp
  qed (use 1 in simp)
qed

section \<open>Shifts on numbers\<close>

lemma shl_step_nth:
  assumes l: "length r = WIDTH" and v: "\<And>m. m < WIDTH \<Longrightarrow> r ! m = shl_limb a k s i m" and m: "m < WIDTH"
  shows "shl_step a k s i r ! m = shl_limb a k s (Suc i) m"
proof -
  consider "m = i + k" | "m = i + k + 1" | "m \<noteq> i + k" "m \<noteq> i + k + 1" by blast
  then show ?thesis
  proof cases
    case 1
    with m show ?thesis
      by (auto simp: shl_step_def Let_def l v shl_limb_def nth_list_update or.commute)
  next
    case 2
    with m show ?thesis by (auto simp: shl_step_def Let_def l v shl_limb_def nth_list_update)
  next
    case 3
    then have "(k \<le> m \<and> m - k < Suc i) = (k \<le> m \<and> m - k < i)"
      "(k + 1 \<le> m \<and> m - k - 1 < Suc i \<and> s \<noteq> 0) = (k + 1 \<le> m \<and> m - k - 1 < i \<and> s \<noteq> 0)" by auto
    then have "shl_limb a k s (Suc i) m = shl_limb a k s i m" unfolding shl_limb_def by presburger
    with 3 m show ?thesis by (simp add: shl_step_def Let_def l v nth_list_update)
  qed
qed

lemma length_shl_step [simp]: "length (shl_step a k s i r) = length r"
  by (simp add: shl_step_def Let_def)

lemma shl_fold:
  "length (fold (shl_step a k s) [0..<i] (replicate WIDTH 0)) = WIDTH \<and>
   (\<forall>m < WIDTH. fold (shl_step a k s) [0..<i] (replicate WIDTH 0) ! m = shl_limb a k s i m)"
proof (induction i)
  case 0
  then show ?case by (simp add: shl_limb_def)
next
  case (Suc i)
  then show ?case using shl_step_nth [of "fold (shl_step a k s) [0..<i] (replicate WIDTH 0)" a k s i]
    by simp
qed

lemma limb_wf_shl [simp]: "length (base_uint_shl a n) = WIDTH"
  using shl_fold by (simp add: base_uint_shl_def)

lemma nth_shl:
  "m < WIDTH \<Longrightarrow> base_uint_shl a n ! m = shl_limb a (n div 32) (n mod 32) WIDTH m"
  using shl_fold by (simp add: base_uint_shl_def)

lemma div_mod_of_split: "t < 32 \<Longrightarrow> j = 32 * m + t \<Longrightarrow> j div 32 = m \<and> j mod (32::nat) = t"
  by simp

lemma limbs_val_shl:
  assumes "limb_wf a"
  shows "limbs_val (base_uint_shl a n) = (limbs_val a * 2 ^ n) mod 2 ^ 256"
proof -
  define k s where "k = n div 32" and "s = n mod 32"
  have n: "n = 32 * k + s" and s32: "s < 32" by (simp_all add: k_def s_def)
  have "bit (limbs_val (base_uint_shl a n)) j = bit (take_bit 256 (push_bit n (limbs_val a))) j" for j
  proof -
    define m t where "m = j div 32" and "t = j mod 32"
    have j: "j = 32 * m + t" and t32: "t < 32" by (simp_all add: m_def t_def)
    have lhs: "bit (limbs_val (base_uint_shl a n)) j = (m < WIDTH \<and> bit (shl_limb a k s WIDTH m) t)"
      by (auto simp: bit_limbs_val nth_shl m_def t_def k_def s_def)
    have rhs: "bit (take_bit 256 (push_bit n (limbs_val a))) j
        = (m < WIDTH \<and> n \<le> j \<and> (j - n) div 32 < WIDTH \<and> bit (a ! ((j - n) div 32)) ((j - n) mod 32))"
      using assms j t32 by (auto simp: bit_take_bit_iff bit_push_bit_iff bit_limbs_val WIDTH_def)
    consider "j < n" | "n \<le> j" "s \<le> t" | "n \<le> j" "t < s" by linarith
    then show ?thesis
    proof cases
      case 1
      then have "m < k \<or> (m = k \<and> t < s)" using j n t32 s32 by linarith
      then show ?thesis unfolding lhs rhs using 1
        by (auto simp: shl_limb_def bit_or_iff bit_push_bit_iff)
    next
      case 2
      then have km: "k \<le> m" using j n t32 s32 by linarith
      then have "j - n = 32 * (m - k) + (t - s)" using 2 j n by (simp add: diff_mult_distrib2)
      with t32 have q: "(j - n) div 32 = m - k" "(j - n) mod 32 = t - s"
        using div_mod_of_split [of "t - s" "j - n" "m - k"] by auto
      have "\<not> bit (drop_bit (32 - s) w) t" if "s \<noteq> 0" for w :: u32
        using 2 that s32 bit_imp_le_length [of w "32 - s + t"] by (auto simp: bit_drop_bit_eq)
      then show ?thesis unfolding lhs rhs q using 2 km t32
        by (auto simp: shl_limb_def bit_or_iff bit_push_bit_iff)
    next
      case 3
      then have km: "k + 1 \<le> m" using j n t32 s32 by linarith
      then obtain d where d: "m = k + 1 + d" using le_Suc_ex by blast
      have "j - n = 32 * d + (32 - s + t)" using 3 j n d s32 by simp
      moreover have "32 - s + t < 32" using 3 s32 by simp
      ultimately have q: "(j - n) div 32 = m - k - 1" "(j - n) mod 32 = 32 - s + t"
        using div_mod_of_split [of "32 - s + t" "j - n" d] d by auto
      show ?thesis unfolding lhs rhs q using 3 km
        by (auto simp: shl_limb_def bit_or_iff bit_push_bit_iff bit_drop_bit_eq)
    qed
  qed
  then have "limbs_val (base_uint_shl a n) = take_bit 256 (push_bit n (limbs_val a))"
    by (simp add: bit_eq_iff)
  then show ?thesis by (simp add: take_bit_eq_mod push_bit_eq_mult)
qed

lemma shr_step_nth:
  assumes l: "length r = WIDTH" and v: "\<And>m. m < WIDTH \<Longrightarrow> r ! m = shr_limb a k s i m"
    and m: "m < WIDTH" and i: "i < WIDTH"
  shows "shr_step a k s i r ! m = shr_limb a k s (Suc i) m"
proof -
  consider "i = m + k" | "i = m + k + 1" | "i \<noteq> m + k" "i \<noteq> m + k + 1" by blast
  then show ?thesis
  proof cases
    case 1
    with m i show ?thesis
      by (auto simp: shr_step_def Let_def l v shr_limb_def nth_list_update or.commute)
  next
    case 2
    with m i show ?thesis
      by (auto simp: shr_step_def Let_def l v shr_limb_def nth_list_update or.commute)
  next
    case 3
    then have "(m + k < Suc i) = (m + k < i)" "(m + k + 1 < Suc i \<and> s \<noteq> 0) = (m + k + 1 < i \<and> s \<noteq> 0)"
      by auto
    then have "shr_limb a k s (Suc i) m = shr_limb a k s i m" unfolding shr_limb_def by presburger
    moreover have "shr_step a k s i r ! m = r ! m"
      using 3 m i by (auto simp: shr_step_def Let_def l nth_list_update)
    ultimately show ?thesis by (simp only: v [OF m])
  qed
qed

lemma length_shr_step [simp]: "length (shr_step a k s i r) = length r"
  by (simp add: shr_step_def Let_def)

lemma shr_fold:
  "i \<le> WIDTH \<Longrightarrow> length (fold (shr_step a k s) [0..<i] (replicate WIDTH 0)) = WIDTH \<and>
   (\<forall>m < WIDTH. fold (shr_step a k s) [0..<i] (replicate WIDTH 0) ! m = shr_limb a k s i m)"
proof (induction i)
  case 0
  then show ?case by (simp add: shr_limb_def)
next
  case (Suc i)
  then show ?case using shr_step_nth [of "fold (shr_step a k s) [0..<i] (replicate WIDTH 0)" a k s i]
    by simp
qed

lemma limb_wf_shr [simp]: "length (base_uint_shr a n) = WIDTH"
  using shr_fold [of WIDTH] by (simp add: base_uint_shr_def)

lemma nth_shr:
  "m < WIDTH \<Longrightarrow> base_uint_shr a n ! m = shr_limb a (n div 32) (n mod 32) WIDTH m"
  using shr_fold [of WIDTH] by (simp add: base_uint_shr_def)

lemma limbs_val_shr:
  assumes "limb_wf a"
  shows "limbs_val (base_uint_shr a n) = limbs_val a div 2 ^ n"
proof -
  define k s where "k = n div 32" and "s = n mod 32"
  have n: "n = 32 * k + s" and s32: "s < 32" by (simp_all add: k_def s_def)
  have "bit (limbs_val (base_uint_shr a n)) j = bit (drop_bit n (limbs_val a)) j" for j
  proof -
    define m t where "m = j div 32" and "t = j mod 32"
    have j: "j = 32 * m + t" and t32: "t < 32" by (simp_all add: m_def t_def)
    have lhs: "bit (limbs_val (base_uint_shr a n)) j = (m < WIDTH \<and> bit (shr_limb a k s WIDTH m) t)"
      by (auto simp: bit_limbs_val nth_shr m_def t_def k_def s_def)
    have rhs: "bit (drop_bit n (limbs_val a)) j
        = ((n + j) div 32 < WIDTH \<and> bit (a ! ((n + j) div 32)) ((n + j) mod 32))"
      using assms by (simp add: bit_drop_bit_eq bit_limbs_val)
    show ?thesis
    proof (cases "s + t < 32")
      case True
      have q: "(n + j) div 32 = m + k" "(n + j) mod 32 = s + t"
        using div_mod_of_split [OF True, of "n + j" "m + k"] j n by auto
      have "\<not> bit (push_bit (32 - s) w) t" if "s \<noteq> 0" for w :: u32
        using True that by (auto simp: bit_push_bit_iff)
      then show ?thesis unfolding lhs rhs q
        by (auto simp: shr_limb_def bit_or_iff bit_drop_bit_eq add.commute)
    next
      case False
      then have q: "(n + j) div 32 = m + k + 1" "(n + j) mod 32 = s + t - 32"
        using div_mod_of_split [of "s + t - 32" "n + j" "m + k + 1"] j n s32 t32 by auto
      have "\<not> bit (drop_bit s w) t" for w :: u32
        using False bit_imp_le_length [of w "s + t"] by (auto simp: bit_drop_bit_eq)
      moreover have "s \<noteq> 0" "s + t - 32 = t - (32 - s)" "32 - s \<le> t" using False t32 s32 by auto
      ultimately show ?thesis unfolding lhs rhs q using t32
        by (auto simp: shr_limb_def bit_or_iff bit_push_bit_iff)
    qed
  qed
  then have "limbs_val (base_uint_shr a n) = drop_bit n (limbs_val a)"
    by (simp add: bit_eq_iff)
  then show ?thesis by (simp add: drop_bit_eq_div)
qed

section \<open>Division, construction and equality on numbers\<close>

lemma limbs_val_set_bit:
  assumes "limb_wf pn" "sh < 256" "2 ^ Suc sh dvd limbs_val pn"
  shows "limbs_val (pn[sh div 32 := pn ! (sh div 32) OR push_bit (sh mod 32) 1]) = limbs_val pn + 2 ^ sh"
proof -
  let ?pn = "pn[sh div 32 := pn ! (sh div 32) OR push_bit (sh mod 32) 1]"
  have q: "sh div 32 < WIDTH" using assms(2) by (simp add: WIDTH_def)
  have nb: "\<not> bit (limbs_val pn) sh"
  proof -
    from assms(3) obtain c where "limbs_val pn = 2 ^ Suc sh * c" by auto
    then have "limbs_val pn div 2 ^ sh = 2 * c" by simp
    then show ?thesis by (simp add: bit_iff_odd)
  qed
  have "bit (limbs_val ?pn) j = (bit (limbs_val pn) j \<or> j = sh)" for j
  proof (cases "j div 32 = sh div 32")
    case True
    have "j = sh \<longleftrightarrow> j mod 32 = sh mod 32" using True by (metis div_mult_mod_eq)
    moreover have "j mod 32 < 32" by simp
    ultimately show ?thesis using True q assms(1)
      by (auto simp: bit_limbs_val bit_or_iff bit_exp_iff)
  next
    case False
    then show ?thesis using q assms(1) by (auto simp: bit_limbs_val)
  qed
  then have "limbs_val ?pn = limbs_val pn OR 2 ^ sh"
    by (auto simp: bit_eq_iff bit_or_iff bit_exp_iff)
  also have "\<dots> = limbs_val pn + 2 ^ sh"
    by (rule disjunctive_add [symmetric]) (use nb in \<open>auto simp: bit_exp_iff\<close>)
  finally show ?thesis .
qed

lemma div_loop_val:
  assumes "limb_wf num" "limb_wf dv" "limb_wf pn" "0 < D" "n \<le> 256"
    "\<And>sh. n = Suc sh \<Longrightarrow> limbs_val dv = D * 2 ^ sh"
    "limbs_val num < D * 2 ^ n" "2 ^ n dvd limbs_val pn"
  shows "limb_wf (div_loop n num dv pn) \<and>
    limbs_val (div_loop n num dv pn) = limbs_val pn + limbs_val num div D"
  using assms
proof (induction n arbitrary: num dv pn)
  case 0
  then show ?case by simp
next
  case (Suc sh)
  have dv: "limbs_val dv = D * 2 ^ sh" using Suc.prems(6) by simp
  have half: "limbs_val (base_uint_shr dv 1) = D * 2 ^ s'" if "sh = Suc s'" for s'
    using dv that Suc.prems(2) by (simp add: limbs_val_shr)
  have dvd: "2 ^ sh dvd limbs_val pn" using Suc.prems(8) by (meson dvd_trans le_imp_power_dvd lessI less_imp_le)
  show ?case
  proof (cases "base_uint_CompareTo num dv \<ge> 0")
    case True
    let ?pn = "pn[sh div 32 := pn ! (sh div 32) OR push_bit (sh mod 32) 1]"
    let ?num = "base_uint_sub num dv"
    have le: "limbs_val dv \<le> limbs_val num"
      using True Suc.prems by (auto simp: CompareTo_val split: if_splits)
    have num: "limbs_val ?num = limbs_val num - D * 2 ^ sh"
      using limbs_val_sub_le [OF Suc.prems(1,2) le] dv by simp
    have pn: "limbs_val ?pn = limbs_val pn + 2 ^ sh"
      by (rule limbs_val_set_bit) (use Suc.prems in auto)
    have "limb_wf (div_loop sh ?num (base_uint_shr dv 1) ?pn) \<and>
       limbs_val (div_loop sh ?num (base_uint_shr dv 1) ?pn) = limbs_val ?pn + limbs_val ?num div D"
    proof (rule Suc.IH)
      show "limbs_val ?num < D * 2 ^ sh" using Suc.prems(7) le dv unfolding num by simp
      show "2 ^ sh dvd limbs_val ?pn" unfolding pn using dvd by simp
    qed (use Suc.prems half in auto)
    moreover have "limbs_val num div D = 2 ^ sh + limbs_val ?num div D"
    proof -
      have "limbs_val num = limbs_val ?num + 2 ^ sh * D" using num le dv by (simp add: mult.commute)
      then show ?thesis using Suc.prems(4) by simp
    qed
    ultimately show ?thesis using True by (simp only: div_loop.simps if_True pn add.assoc)
  next
    case False
    have "limb_wf (div_loop sh num (base_uint_shr dv 1) pn) \<and>
       limbs_val (div_loop sh num (base_uint_shr dv 1) pn) = limbs_val pn + limbs_val num div D"
    proof (rule Suc.IH)
      show "limbs_val num < D * 2 ^ sh"
        using False Suc.prems(1,2) dv by (auto simp: CompareTo_val split: if_splits)
    qed (use Suc.prems half dvd in auto)
    then show ?thesis using False by simp
  qed
qed

lemma limbs_val_zero [simp]: "limbs_val base_uint_zero = 0" "limb_wf base_uint_zero"
  by (simp_all add: base_uint_zero_def)

lemma base_uint_div_zero:
  "limb_wf b \<Longrightarrow> limbs_val b = 0 \<Longrightarrow> base_uint_div a b = Inl DivisionByZero"
  by (simp add: base_uint_div_def base_uint_bits_val(1))

lemma base_uint_div_val:
  assumes "limb_wf a" "limb_wf b" "limbs_val b \<noteq> 0"
  shows "\<exists>q. base_uint_div a b = Inr q \<and> limb_wf q \<and> limbs_val q = limbs_val a div limbs_val b"
proof -
  let ?nb = "base_uint_bits a" and ?db = "base_uint_bits b"
  have db: "?db \<noteq> 0" using assms(3) base_uint_bits_val(1) [OF assms(2)] by simp
  note aup = base_uint_bits_val(2) [OF assms(1)] and blo = base_uint_bits_val(3) [OF assms(2,3)]
    and bup = base_uint_bits_val(2) [OF assms(2)]
  show ?thesis
  proof (cases "?nb < ?db")
    case True
    then have "(2::nat) ^ ?nb \<le> 2 ^ (?db - 1)" by (intro power_increasing) auto
    then have "limbs_val a < limbs_val b" using aup blo by linarith
    then have "limbs_val a div limbs_val b = 0" by simp
    with True db show ?thesis by (simp add: base_uint_div_def)
  next
    case False
    let ?s = "?nb - ?db"
    have nb: "?nb \<le> 256" using base_uint_bits_val(4) [OF assms(1)] .
    have small: "limbs_val b * 2 ^ ?s < 2 ^ 256"
    proof -
      have "limbs_val b * 2 ^ ?s < 2 ^ ?db * 2 ^ ?s" using bup by simp
      also have "\<dots> = 2 ^ ?nb" using False by (simp flip: power_add)
      also have "\<dots> \<le> (2::nat) ^ 256" using nb by (intro power_increasing) auto
      finally show ?thesis .
    qed
    have dv: "limbs_val (base_uint_shl b ?s) = limbs_val b * 2 ^ ?s"
      unfolding limbs_val_shl [OF assms(2)] by (rule mod_less [OF small])
    have num: "limbs_val a < limbs_val b * 2 ^ Suc ?s"
    proof -
      have e: "(?db - 1) + Suc ?s = ?nb" using False db by simp
      have "2 ^ ?nb = 2 ^ (?db - 1) * (2::nat) ^ Suc ?s" unfolding power_add [symmetric] e ..
      also have "\<dots> \<le> limbs_val b * 2 ^ Suc ?s" using blo by (intro mult_le_mono1)
      finally show ?thesis using aup by simp
    qed
    have "limb_wf (div_loop (Suc ?s) a (base_uint_shl b ?s) base_uint_zero) \<and>
      limbs_val (div_loop (Suc ?s) a (base_uint_shl b ?s) base_uint_zero)
        = limbs_val base_uint_zero + limbs_val a div limbs_val b"
    proof (rule div_loop_val)
      show "limbs_val (base_uint_shl b ?s) = limbs_val b * 2 ^ sh" if "Suc ?s = Suc sh" for sh
        using dv that by simp
      show "Suc ?s \<le> 256" using nb db False by linarith
      show "limbs_val a < limbs_val b * 2 ^ Suc ?s" by (rule num)
    qed (use assms in simp_all)
    moreover have "base_uint_div a b = Inr (div_loop (Suc ?s) a (base_uint_shl b ?s) base_uint_zero)"
      using False db by (simp only: base_uint_div_def Let_def if_False)
    ultimately show ?thesis by (simp only: limbs_val_zero add_0_left) blast
  qed
qed

lemma limbs_val_of_u64: "limbs_val (base_uint_of_u64 b) = unat b" "limb_wf (base_uint_of_u64 b)"
proof -
  have "unat (drop_bit 32 b) < 4294967296"
    using unat_u64_lt [of b] by (simp add: unat_drop_bit_div less_mult_imp_div_less)
  then show "limbs_val (base_uint_of_u64 b) = unat b"
    by (simp add: base_uint_of_u64_def unat_ucast_64_32 unat_drop_bit_div)
  show "limb_wf (base_uint_of_u64 b)" by (simp add: base_uint_of_u64_def WIDTH_def)
qed

lemma unat_GetLow64:
  assumes "limb_wf pn"
  shows "unat (base_uint_GetLow64 pn) = limbs_val pn mod 2 ^ 64"
proof -
  have "unat (base_uint_GetLow64 pn) = take_bit 64 (limbs_val pn)"
  proof (rule bit_eqI)
    fix j
    show "bit (unat (base_uint_GetLow64 pn)) j = bit (take_bit 64 (limbs_val pn)) j"
    proof -
      consider "j < 32" | "32 \<le> j" "j < 64" | "64 \<le> j" by linarith
      then show ?thesis
      proof cases
        case 1
        then show ?thesis using assms
          by (simp add: base_uint_GetLow64_def bit_unsigned_iff bit_simps bit_limbs_val WIDTH_def)
      next
        case 2
        then have "j div 32 = 1" "j mod 32 = j - 32" by (simp_all add: le_mod_geq)
        with 2 show ?thesis using assms
          by (auto simp: base_uint_GetLow64_def bit_unsigned_iff bit_simps bit_limbs_val WIDTH_def
              dest: bit_imp_le_length)
      next
        case 3
        then show ?thesis
          using bit_imp_le_length [of "base_uint_GetLow64 pn" j] by (auto simp: bit_unsigned_iff bit_take_bit_iff)
      qed
    qed
  qed
  then show ?thesis by (simp add: take_bit_eq_mod)
qed

lemma limb_eqI:
  assumes "length a = length b" "limbs_val a = limbs_val b"
  shows "a = b"
  using assms
proof (induction a b rule: list_induct2)
  case (Cons x xs y ys)
  have "(unat x + 4294967296 * limbs_val xs) mod 4294967296 = (unat y + 4294967296 * limbs_val ys) mod 4294967296"
    using Cons.prems by simp
  then have u: "unat x = unat y" using unat_u32_lt [of x] unat_u32_lt [of y] by simp
  with Cons show ?case by (simp add: word_unat_eq_iff)
qed simp

lemma EqualTo_val:
  assumes "limb_wf pn"
  shows "base_uint_EqualTo pn b \<longleftrightarrow> limbs_val pn = unat b"
proof -
  have "base_uint_EqualTo pn b \<longleftrightarrow> pn = base_uint_of_u64 b"
  proof -
    have hi: "unat (drop_bit 32 b) < 4294967296"
      using unat_u64_lt [of b] by (simp add: unat_drop_bit_div less_mult_imp_div_less)
    have 0: "(ucast (pn ! 0) = b AND 0xffffffff) \<longleftrightarrow> pn ! 0 = ucast b"
      by (simp add: word_unat_eq_iff unat_ucast_64_32 unat_and_low32)
    have 1: "(ucast (pn ! 1) = drop_bit 32 b) \<longleftrightarrow> pn ! 1 = ucast (drop_bit 32 b)"
      using hi by (auto simp: word_unat_eq_iff unat_ucast_64_32)
    have "pn = base_uint_of_u64 b \<longleftrightarrow> (\<forall>i < 8. pn ! i = base_uint_of_u64 b ! i)"
      using assms limbs_val_of_u64(2) [of b] by (auto simp: list_eq_iff_nth_eq WIDTH_def)
    also have "\<dots> \<longleftrightarrow> pn ! 0 = ucast b \<and> pn ! 1 = ucast (drop_bit 32 b) \<and> (\<forall>i \<in> set [2..<WIDTH]. pn ! i = 0)"
      by (simp add: All_less_Suc eval_nat_numeral base_uint_of_u64_def WIDTH_def upt_rec) auto
    finally show ?thesis unfolding base_uint_EqualTo_def using 0 1 by auto
  qed
  then show ?thesis
    using limb_eqI [of pn "base_uint_of_u64 b"] assms limbs_val_of_u64 [of b] by auto
qed

section \<open>The compact encoding on numbers\<close>

lemma unat_and_mantissa: "unat ((c :: u32) AND 0x007fffff) = unat c mod 8388608"
proof -
  have "unat (take_bit 23 c) = unat c mod 2 ^ 23"
    unfolding unsigned_take_bit_eq by (rule take_bit_eq_mod)
  moreover have "c AND 0x007fffff = take_bit 23 c"
    by (simp add: take_bit_eq_mask mask_eq_exp_minus_1)
  ultimately show ?thesis by simp
qed

lemma sign_bit_iff: "(c :: u32) AND 0x00800000 \<noteq> 0 \<longleftrightarrow> bit (unat c) 23"
proof -
  have "c AND 2 ^ 23 = 0 \<longleftrightarrow> \<not> bit c 23" by (rule and_exp_eq_0_iff_not_bit)
  then show ?thesis by (simp add: bit_unsigned_iff)
qed

lemma sign_bit_iff_ge: "unat (c :: u32) < 16777216 \<Longrightarrow> c AND 0x00800000 \<noteq> 0 \<longleftrightarrow> 8388608 \<le> unat c"
proof (cases "unat c < 8388608")
  case True
  then show ?thesis unfolding sign_bit_iff bit_iff_odd by simp
next
  case False
  moreover assume "unat c < 16777216"
  ultimately have "unat c div 2 ^ 23 = 1" by (intro div_nat_eqI) simp_all
  with False show ?thesis unfolding sign_bit_iff bit_iff_odd by simp
qed

lemma mantissa_fits: "unat (c :: u32) < 8388608 \<Longrightarrow> c AND NOT 0x007fffff = 0"
proof -
  assume a: "unat c < 8388608"
  then have "unat c mod 8388608 = unat c" by simp
  then have "c AND 0x007fffff = c" by (simp add: word_unat_eq_iff unat_and_mantissa)
  then have "c AND NOT 0x007fffff = (c AND 0x007fffff) AND NOT 0x007fffff" by simp
  also have "\<dots> = 0" by (simp only: and.assoc bit.conj_cancel_right and_zero_eq)
  finally show ?thesis .
qed

lemma unat_join_exponent:
  assumes "unat (c :: u32) < 16777216" "n < 256"
  shows "unat (c OR push_bit 24 (word_of_nat n)) = unat c + n * 16777216"
proof -
  have p: "unat (push_bit 24 (word_of_nat n :: u32)) = n * 16777216"
    using assms(2) by (simp add: push_bit_eq_mult unat_word_ariths unat_of_nat)
  have disj: "\<not> bit c j \<or> \<not> bit (push_bit 24 (word_of_nat n :: u32)) j" for j
  proof (cases "j < 24")
    case False
    have "unat c div 2 ^ j = 0"
    proof -
      have "(16777216::nat) = 2 ^ 24" by simp
      also have "\<dots> \<le> 2 ^ j" using False by (intro power_increasing) auto
      finally show ?thesis using assms(1) by simp
    qed
    then have "\<not> bit (unat c) j" by (simp add: bit_iff_odd)
    moreover have "bit c j \<Longrightarrow> bit (unat c) j" using bit_imp_le_length by (simp add: bit_unsigned_iff)
    ultimately show ?thesis by blast
  qed (simp add: bit_push_bit_iff)
  have "c OR push_bit 24 (word_of_nat n) = c + push_bit 24 (word_of_nat n)"
    by (rule disjunctive_add [symmetric]) (use disj in auto)
  moreover have "unat (c + push_bit 24 (word_of_nat n)) = unat c + n * 16777216"
    by (subst unat_add_no_wrap) (use assms p in simp_all)
  ultimately show ?thesis by simp
qed

lemma SetCompact_val:
  "limb_wf (cr_value (SetCompact c))"
  "limbs_val (cr_value (SetCompact c)) =
     (if unat c div 16777216 \<le> 3 then unat c mod 8388608 div 256 ^ (3 - unat c div 16777216)
      else (unat c mod 8388608 * 256 ^ (unat c div 16777216 - 3)) mod 2 ^ 256)"
proof -
  show "limb_wf (cr_value (SetCompact c))"
    by (simp add: SetCompact_def Let_def limbs_val_of_u64)
  show "limbs_val (cr_value (SetCompact c)) =
     (if unat c div 16777216 \<le> 3 then unat c mod 8388608 div 256 ^ (3 - unat c div 16777216)
      else (unat c mod 8388608 * 256 ^ (unat c div 16777216 - 3)) mod 2 ^ 256)"
    by (simp add: SetCompact_def Let_def limbs_val_of_u64 limbs_val_shl unat_drop_bit_div unat_and_mantissa
        power_mult del: drop_bit_and)
qed

lemma byte_length_bounds:
  assumes "limb_wf pn"
  defines "b \<equiv> (base_uint_bits pn + 7) div 8"
  shows "b \<le> 32" "limbs_val pn < 256 ^ b" "compact_bytes b (limbs_val pn) < 16777216"
proof -
  show "b \<le> 32" using base_uint_bits_val(4) [OF assms(1)] by (simp add: b_def)
  have "limbs_val pn < 2 ^ base_uint_bits pn" by (rule base_uint_bits_val(2) [OF assms(1)])
  also have "\<dots> \<le> (2::nat) ^ (8 * b)" by (rule power_increasing) (simp_all add: b_def)
  finally show v: "limbs_val pn < 256 ^ b" by (simp add: power_mult)
  show "compact_bytes b (limbs_val pn) < 16777216"
  proof (cases "b \<le> 3")
    case True
    have "limbs_val pn * 256 ^ (3 - b) < 256 ^ b * 256 ^ (3 - b)" using v by simp
    also have "\<dots> = 16777216" using True by (simp flip: power_add)
    finally show ?thesis using True by (simp add: compact_bytes_def)
  next
    case False
    then have "256 ^ b = (16777216::nat) * 256 ^ (b - 3)" 
      using power_add [of "256::nat" 3 "b - 3"] by simp
    with v False show ?thesis by (simp add: compact_bytes_def less_mult_imp_div_less)
  qed
qed

lemma GetCompact_spec:
  assumes "limb_wf pn"
  defines "b \<equiv> (base_uint_bits pn + 7) div 8"
  defines "m \<equiv> compact_bytes b (limbs_val pn)"
  defines "s \<equiv> (if 8388608 \<le> m then b + 1 else b)"
  defines "m' \<equiv> (if 8388608 \<le> m then m div 256 else m)"
  shows "\<exists>c. GetCompact pn False = Some c \<and> unat c = m' + s * 16777216"
    and "m' < 8388608" and "s \<le> 33" and "s = 33 \<Longrightarrow> m' < 65536"
    and "m' = compact_bytes s (limbs_val pn)"
    and "s \<le> 3 \<Longrightarrow> limbs_val pn * 256 ^ (3 - s) = m'"
proof -
  note B = byte_length_bounds [OF assms(1), folded b_def, folded m_def]
  define c0 :: u32 where "c0 = (if b \<le> 3 then ucast (push_bit (8 * (3 - b)) (base_uint_GetLow64 pn))
                else ucast (base_uint_GetLow64 (base_uint_shr pn (8 * (b - 3)))))"
  have c0: "unat c0 = m"
  proof (cases "b \<le> 3")
    case True
    have "unat (base_uint_GetLow64 pn) = limbs_val pn"
    proof -
      have "(256::nat) ^ b \<le> 256 ^ 3" using True by (intro power_increasing) auto
      with B(2) have "limbs_val pn < 2 ^ 64" by simp
      then show ?thesis by (simp add: unat_GetLow64 [OF assms(1)])
    qed
    then have "unat (push_bit (8 * (3 - b)) (base_uint_GetLow64 pn)) = m"
      using True B(3) by (simp add: unat_push_bit m_def compact_bytes_def power_mult)
    then show ?thesis using True B(3) by (simp add: c0_def unat_ucast_64_32)
  next
    case False
    have "limbs_val (base_uint_shr pn (8 * (b - 3))) = m"
      using False by (simp add: limbs_val_shr assms(1) m_def compact_bytes_def power_mult)
    then have "unat (base_uint_GetLow64 (base_uint_shr pn (8 * (b - 3)))) = m"
      using B(3) by (simp add: unat_GetLow64)
    then show ?thesis using False B(3) by (simp add: c0_def unat_ucast_64_32)
  qed
  have sgn: "c0 AND 0x00800000 \<noteq> 0 \<longleftrightarrow> 8388608 \<le> m"
    using sign_bit_iff_ge [of c0] B(3) c0 by simp
  define c1 where "c1 = (if c0 AND 0x00800000 \<noteq> 0 then drop_bit 8 c0 else c0)"
  have c1: "unat c1 = m'"
    unfolding c1_def sgn m'_def using c0 by (simp add: unat_drop_bit_div)
  show m': "m' < 8388608" using B(3) by (auto simp: m'_def)
  show s: "s \<le> 33" using B(1) by (simp add: s_def)
  show "m' < 65536" if "s = 33" using that B by (auto simp: s_def m'_def split: if_splits)
  show "\<exists>c. GetCompact pn False = Some c \<and> unat c = m' + s * 16777216"
  proof -
    have "GetCompact pn False = Some (c1 OR push_bit 24 (word_of_nat s))"
      unfolding GetCompact_def b_def [symmetric] c0_def [symmetric] Let_def c1_def [symmetric]
      unfolding sgn s_def [symmetric] using mantissa_fits [of c1] c1 m' s by simp
    moreover have "unat (c1 OR push_bit 24 (word_of_nat s)) = m' + s * 16777216"
      using unat_join_exponent [of c1 s] c1 m' s by simp
    ultimately show ?thesis by blast
  qed
  show 5: "m' = compact_bytes s (limbs_val pn)"
  proof (cases "8388608 \<le> m")
    case True
    consider "b \<le> 2" | "b = 3" | "4 \<le> b" by linarith
    then show ?thesis
    proof cases
      case 1
      then have "3 - b = Suc (2 - b)" by simp
      with 1 True show ?thesis by (simp add: m'_def s_def m_def compact_bytes_def)
    next
      case 2
      with True show ?thesis by (simp add: m'_def s_def m_def compact_bytes_def)
    next
      case 3
      have "(256::nat) ^ (b - 2) = 256 ^ (b - 3) * 256"
      proof -
        have e: "b - 2 = Suc (b - 3)" using 3 by simp
        show ?thesis unfolding e by (rule power_Suc2)
      qed
      with 3 True show ?thesis
        by (simp add: m'_def s_def m_def compact_bytes_def div_mult2_eq)
    qed
  qed (simp add: m'_def s_def m_def)
  show "limbs_val pn * 256 ^ (3 - s) = m'" if "s \<le> 3" using 5 that by (simp add: compact_bytes_def)
qed

lemma compact_round_eq:
  assumes "v div 256 ^ k < 8388608" "k = 0 \<or> 8388608 \<le> v div 256 ^ (k - 1)"
  shows "v div 256 ^ k * 256 ^ k = compact_round v"
  using assms
proof (induction k arbitrary: v)
  case 0
  then show ?case by (simp add: compact_round.simps)
next
  case (Suc k)
  have big: "8388608 \<le> v div 256 ^ k" using Suc.prems(2) by simp
  have "v div 256 ^ k \<le> v" by simp
  with big have v: "\<not> v < 8388608" by linarith
  have "(v div 256) div 256 ^ k * 256 ^ k = compact_round (v div 256)"
  proof (rule Suc.IH)
    show "v div 256 div 256 ^ k < 8388608" using Suc.prems(1) by (simp add: div_mult2_eq)
    show "k = 0 \<or> 8388608 \<le> v div 256 div 256 ^ (k - 1)"
      using big by (cases k) (simp_all add: div_mult2_eq)
  qed
  then show ?case using v by (simp add: compact_round.simps [of v] div_mult2_eq)
qed

lemma compact_round_le: "compact_round v \<le> v"
proof (induction v rule: compact_round.induct)
  case (1 v)
  then show ?case by (auto simp: compact_round.simps [of v])
qed

lemma compact_round_ge: "32768 \<le> v \<Longrightarrow> 32768 \<le> compact_round v"
proof (induction v rule: compact_round.induct)
  case (1 v)
  show ?case
  proof (cases "v < 8388608")
    case False
    then have "32768 \<le> compact_round (v div 256)" by (intro 1) simp_all
    with False show ?thesis by (simp add: compact_round.simps [of v])
  qed (use 1 in \<open>simp add: compact_round.simps [of v]\<close>)
qed

lemma compact_round_mono: "v \<le> w \<Longrightarrow> compact_round v \<le> compact_round w"
proof (induction v arbitrary: w rule: compact_round.induct)
  case (1 v)
  consider "w < 8388608" | "v < 8388608" "8388608 \<le> w" | "8388608 \<le> v" "8388608 \<le> w" by linarith
  then show ?case
  proof cases
    case 1
    with "1.prems" show ?thesis by (simp add: compact_round.simps)
  next
    case 2
    then have "32768 \<le> compact_round (w div 256)" by (intro compact_round_ge) simp
    with 2 show ?thesis by (simp add: compact_round.simps [of v] compact_round.simps [of w])
  next
    case 3
    then have "compact_round (v div 256) \<le> compact_round (w div 256)"
      using "1.IH" "1.prems" by (simp add: div_le_mono)
    with 3 show ?thesis by (simp add: compact_round.simps [of v] compact_round.simps [of w])
  qed
qed

lemma byte_length_lower:
  assumes "limb_wf pn" "limbs_val pn \<noteq> 0"
  shows "256 ^ ((base_uint_bits pn + 7) div 8 - 1) \<le> limbs_val pn"
proof -
  have "8 * ((base_uint_bits pn + 7) div 8 - 1) \<le> base_uint_bits pn - 1"
    by (cases "base_uint_bits pn") auto
  then have "(2::nat) ^ (8 * ((base_uint_bits pn + 7) div 8 - 1)) \<le> 2 ^ (base_uint_bits pn - 1)"
    by (rule power_increasing) simp
  also have "\<dots> \<le> limbs_val pn" by (rule base_uint_bits_val(3) [OF assms])
  finally show ?thesis by (simp add: power_mult)
qed

lemma GetCompact_SetCompact:
  assumes "limb_wf pn"
  shows "\<exists>c. GetCompact pn False = Some c \<and>
     limb_wf (cr_value (SetCompact c)) \<and>
     limbs_val (cr_value (SetCompact c)) = compact_round (limbs_val pn) \<and>
     \<not> cr_negative (SetCompact c) \<and> \<not> cr_overflow (SetCompact c)"
proof -
  define b where "b = (base_uint_bits pn + 7) div 8"
  define m where "m = compact_bytes b (limbs_val pn)"
  define s where "s = (if 8388608 \<le> m then b + 1 else b)"
  define m' where "m' = (if 8388608 \<le> m then m div 256 else m)"
  note G = GetCompact_spec [OF assms, folded b_def, folded m_def, folded s_def, folded m'_def]
  note B = byte_length_bounds [OF assms, folded b_def, folded m_def]
  obtain c where c: "GetCompact pn False = Some c" "unat c = m' + s * 16777216" using G(1) by blast
  have c2: "unat c = m' + (2 * s) * 8388608" using c(2) by simp
  have size: "unat c div 16777216 = s" using c(2) G(2) by simp
  have word: "unat c mod 8388608 = m'" using G(2) unfolding c2 by (simp only: mod_mult_self1 mod_less)
  have neg: "\<not> bit c 23"
  proof -
    have "unat c div 2 ^ 23 = 2 * s" using G(2) unfolding c2 by simp
    then have "\<not> bit (unat c) 23" by (simp add: bit_iff_odd)
    then show ?thesis by (simp add: bit_unsigned_iff)
  qed
  have k: "s - 3 = 0 \<or> 8388608 \<le> limbs_val pn div 256 ^ (s - 3 - 1)" 
  proof (cases "s \<le> 3")
    case False
    show ?thesis
    proof (cases "8388608 \<le> m")
      case True
      with False have "m = limbs_val pn div 256 ^ (b - 3)" "s - 3 - 1 = b - 3"
        by (auto simp: s_def m_def compact_bytes_def)
      with True show ?thesis by simp
    next
      case F: False
      with False have s: "s = b" "4 \<le> b" by (auto simp: s_def)
      then have "limbs_val pn \<noteq> 0" using base_uint_bits_val(1) [OF assms] by (auto simp: b_def)
      then have "256 ^ (b - 1) \<le> limbs_val pn" using byte_length_lower [OF assms] by (simp add: b_def)
      then have "256 ^ (b - 1) div 256 ^ (b - 4) \<le> limbs_val pn div 256 ^ (b - 4)" by (rule div_le_mono)
      moreover have "(256::nat) ^ (b - 1) div 256 ^ (b - 4) = 256 ^ 3"
      proof -
        have e: "b - 1 = 3 + (b - 4)" using s(2) by simp
        have "(256::nat) ^ (b - 1) = 256 ^ 3 * 256 ^ (b - 4)" unfolding e by (rule power_add)
        then show ?thesis by (simp only: nonzero_mult_div_cancel_right power_not_zero zero_neq_numeral) simp
      qed
      ultimately show ?thesis using s by simp
    qed
  qed simp
  have val: "limbs_val (cr_value (SetCompact c)) = limbs_val pn div 256 ^ (s - 3) * 256 ^ (s - 3)"
  proof (cases "s \<le> 3")
    case True
    then have "m' div 256 ^ (3 - s) = limbs_val pn" using G(6) by (metis nonzero_mult_div_cancel_right power_not_zero zero_neq_numeral)
    with True show ?thesis unfolding SetCompact_val(2) size word by simp
  next
    case False
    then have m': "m' = limbs_val pn div 256 ^ (s - 3)" using G(5) by (simp add: compact_bytes_def)
    have "m' * 256 ^ (s - 3) \<le> limbs_val pn" unfolding m' by simp
    then have "m' * 256 ^ (s - 3) < 2 ^ 256" using limbs_val_bound_wf [OF assms] by (rule le_less_trans)
    with False show ?thesis unfolding SetCompact_val(2) size word by (simp only: if_False mod_less m')
  qed
  also have "\<dots> = compact_round (limbs_val pn)"
  proof (rule compact_round_eq [OF _ k])
    show "limbs_val pn div 256 ^ (s - 3) < 8388608"
    proof (cases "s \<le> 3")
      case True
      have "limbs_val pn * 1 \<le> limbs_val pn * 256 ^ (3 - s)" by (intro mult_le_mono2) simp
      with G(2,6) True show ?thesis by simp
    qed (use G(2,5) in \<open>simp add: compact_bytes_def\<close>)
  qed
  finally have v: "limbs_val (cr_value (SetCompact c)) = compact_round (limbs_val pn)" .
  have "\<not> cr_negative (SetCompact c)"
    using neg by (simp add: SetCompact_def Let_def sign_bit_iff bit_unsigned_iff)
  moreover have "\<not> cr_overflow (SetCompact c)"
    using G(3,4) size word
    by (auto simp: SetCompact_def Let_def unat_drop_bit_div word_less_nat_alt unat_and_mantissa)
  ultimately show ?thesis using c(1) v SetCompact_val(1) by blast
qed

section \<open>The contract the difficulty code relies on\<close>

text \<open>
  The retargeting code only compares, scales by a machine integer and divides. The locale
  states what it relies on, over any representation of bounded naturals; its lemmas are the
  two idioms of src/src/pow.cpp (scale by a ratio, clamp to a limit).
\<close>

locale bounded_nat =
  fixes wf :: "'w \<Rightarrow> bool" and val :: "'w \<Rightarrow> nat" and M :: nat
    and cmp :: "'w \<Rightarrow> 'w \<Rightarrow> int" and mulk :: "'w \<Rightarrow> 'k \<Rightarrow> 'w" and kval :: "'k \<Rightarrow> nat"
    and quot :: "'w \<Rightarrow> 'w \<Rightarrow> 'e + 'w"
  assumes cmp_val: "wf a \<Longrightarrow> wf b \<Longrightarrow> cmp a b = (if val a < val b then -1 else if val a > val b then 1 else 0)"
    and mulk_wf: "wf a \<Longrightarrow> wf (mulk a k)"
    and mulk_val: "wf a \<Longrightarrow> val (mulk a k) = (val a * kval k) mod M"
    and quot_val: "wf a \<Longrightarrow> wf b \<Longrightarrow> val b \<noteq> 0 \<Longrightarrow> \<exists>q. quot a b = Inr q \<and> wf q \<and> val q = val a div val b"
begin

lemma scale:
  assumes "wf a" "wf d" "val d \<noteq> 0"
  shows "\<exists>q. quot (mulk a k) d = Inr q \<and> wf q \<and> val q = (val a * kval k) mod M div val d"
  using quot_val [OF mulk_wf [OF assms(1)] assms(2,3)] mulk_val [OF assms(1)] by simp

lemma scale_exact:
  assumes "wf a" "wf d" "val d \<noteq> 0" "val a * kval k < M"
  shows "\<exists>q. quot (mulk a k) d = Inr q \<and> wf q \<and> val q = val a * kval k div val d"
  using scale [OF assms(1-3), of k] assms(4) by simp

lemma clamp:
  assumes "wf a" "wf l"
  shows "wf (if cmp a l > 0 then l else a)" "val (if cmp a l > 0 then l else a) = min (val a) (val l)"
  using assms by (auto simp: cmp_val)

lemma less_iff: "wf a \<Longrightarrow> wf b \<Longrightarrow> cmp a b < 0 \<longleftrightarrow> val a < val b"
  by (simp add: cmp_val)

lemma greater_iff: "wf a \<Longrightarrow> wf b \<Longrightarrow> cmp a b > 0 \<longleftrightarrow> val a > val b"
  by (simp add: cmp_val)

end

interpretation au: bounded_nat "\<lambda>pn. length pn = WIDTH" limbs_val "2 ^ 256"
  base_uint_CompareTo base_uint_mul32 unat base_uint_div
  by unfold_locales (rule CompareTo_val limbs_val_mul32 base_uint_div_val | simp)+

lemma compact_round_cut:
  "\<exists>k. compact_round v = v div 256 ^ k * 256 ^ k \<and> (k = 0 \<or> 32768 \<le> v div 256 ^ k)"
proof (induction v rule: compact_round.induct)
  case (1 v)
  show ?case
  proof (cases "v < 8388608")
    case True
    then show ?thesis by (intro exI [of _ 0]) (simp add: compact_round.simps [of v])
  next
    case False
    then obtain k where k: "compact_round (v div 256) = v div 256 div 256 ^ k * 256 ^ k"
      "k = 0 \<or> 32768 \<le> v div 256 div 256 ^ k" using 1 by blast
    have "32768 \<le> v div 256" using False by simp
    then show ?thesis using k False
      by (intro exI [of _ "Suc k"]) (auto simp: compact_round.simps [of v] div_mult2_eq)
  qed
qed

lemma compact_round_loss: "(v - compact_round v) * 2 ^ 15 \<le> v"
proof -
  obtain k where k: "compact_round v = v div 256 ^ k * 256 ^ k" "k = 0 \<or> 32768 \<le> v div 256 ^ k"
    using compact_round_cut by blast
  show ?thesis
  proof (cases "k = 0")
    case False
    have "v - compact_round v = v mod 256 ^ k" unfolding k(1) by (rule minus_div_mult_eq_mod)
    also have "\<dots> \<le> 256 ^ k" by (rule less_imp_le) simp
    finally have "(v - compact_round v) * 2 ^ 15 \<le> 256 ^ k * 2 ^ 15" by (rule mult_le_mono1)
    also have "\<dots> \<le> 256 ^ k * (v div 256 ^ k)" using k(2) False by (intro mult_le_mono2) simp
    also have "\<dots> \<le> v" by simp
    finally show ?thesis .
  qed (use k(1) in simp)
qed

section \<open>Properties\<close>

text \<open>
  (C3) The limb loops of \<open>base_uint<256>\<close> compute addition, subtraction, both
  multiplications, negation and the shifts modulo \<open>2 ^ 256\<close>, and \<open>CompareTo\<close> orders values
  as numbers; every result has eight limbs again.
\<close>

theorem base_uint_refines_arithmetic:
  assumes "limb_wf a" "limb_wf b"
  shows "limbs_val (base_uint_add a b) = (limbs_val a + limbs_val b) mod 2 ^ 256 \<and>
    limbs_val (base_uint_sub a b) = (limbs_val a + (2 ^ 256 - limbs_val b)) mod 2 ^ 256 \<and>
    limbs_val (base_uint_mul a b) = limbs_val a * limbs_val b mod 2 ^ 256 \<and>
    limbs_val (base_uint_mul32 a k) = limbs_val a * unat k mod 2 ^ 256 \<and>
    limbs_val (base_uint_shl a n) = limbs_val a * 2 ^ n mod 2 ^ 256 \<and>
    limbs_val (base_uint_shr a n) = limbs_val a div 2 ^ n \<and>
    base_uint_CompareTo a b = sgn (int (limbs_val a) - int (limbs_val b)) \<and>
    limb_wf (base_uint_add a b) \<and> limb_wf (base_uint_sub a b) \<and> limb_wf (base_uint_mul a b) \<and>
    limb_wf (base_uint_mul32 a k)"
  using assms
  by (simp add: limbs_val_add limbs_val_sub limbs_val_mul limbs_val_mul32 limbs_val_shl limbs_val_shr
      CompareTo_val limb_wf_sub)

theorem base_uint_refines_arithmetic_witness:
  "limbs_val (base_uint_mul (base_uint_of_u64 0xffffffff) (base_uint_of_u64 0xffffffff))
     = limbs_val (base_uint_of_u64 0xffffffff) * limbs_val (base_uint_of_u64 0xffffffff) mod 2 ^ 256"
  using base_uint_refines_arithmetic [OF limbs_val_of_u64(2) limbs_val_of_u64(2)] by blast

text \<open>
  (C4) Long division: \<open>operator/=\<close> throws on a zero divisor and only then; otherwise it
  returns the exact quotient.
\<close>

theorem base_uint_div_exact:
  assumes "limb_wf a" "limb_wf b"
  shows "(limbs_val b = 0 \<and> base_uint_div a b = Inl DivisionByZero) \<or>
    (\<exists>q. 0 < limbs_val b \<and> base_uint_div a b = Inr q \<and> limb_wf q \<and> limbs_val q = limbs_val a div limbs_val b)"
  using base_uint_div_zero [OF assms(2)] base_uint_div_val [OF assms] by auto

theorem base_uint_div_exact_witness:
  "\<exists>q. base_uint_div (base_uint_of_u64 1000) (base_uint_of_u64 7) = Inr q \<and> limbs_val q = 142"
  using base_uint_div_exact [OF limbs_val_of_u64(2) limbs_val_of_u64(2), of 7 1000]
  by (auto simp: limbs_val_of_u64)

text \<open>
  (C5) Compact encoding: \<open>GetCompact\<close> never fails its asserts, and \<open>SetCompact\<close> of its
  result is a non-negative, non-overflowing value: the original one with all but its leading
  bytes cleared. The loss is below one part in \<open>2 ^ 15\<close>, and values of at most 23 bits are
  encoded exactly.
\<close>

theorem compact_round_trip:
  assumes "limb_wf pn"
  shows "\<exists>c. GetCompact pn False = Some c \<and> \<not> cr_negative (SetCompact c) \<and> \<not> cr_overflow (SetCompact c) \<and>
    limbs_val (cr_value (SetCompact c)) = compact_round (limbs_val pn) \<and>
    compact_round (limbs_val pn) \<le> limbs_val pn \<and>
    (limbs_val pn - compact_round (limbs_val pn)) * 2 ^ 15 \<le> limbs_val pn \<and>
    (limbs_val pn < 2 ^ 23 \<longrightarrow> compact_round (limbs_val pn) = limbs_val pn)"
proof -
  obtain c where "GetCompact pn False = Some c" "limbs_val (cr_value (SetCompact c)) = compact_round (limbs_val pn)"
    "\<not> cr_negative (SetCompact c)" "\<not> cr_overflow (SetCompact c)"
    using GetCompact_SetCompact [OF assms] by blast
  moreover have "compact_round (limbs_val pn) = limbs_val pn" if "limbs_val pn < 2 ^ 23"
    using that by (simp add: compact_round.simps [of "limbs_val pn"])
  ultimately show ?thesis using compact_round_le compact_round_loss by blast
qed

theorem compact_round_trip_witness:
  "\<exists>c. GetCompact (base_uint_of_u64 0x123456) False = Some c \<and> limbs_val (cr_value (SetCompact c)) = 0x123456"
  using compact_round_trip [of "base_uint_of_u64 0x123456", OF limbs_val_of_u64(2)] by (auto simp: limbs_val_of_u64)

end
