(* ===== verification/Blob.thy ===== *)
theory Blob
  imports Arith256
begin

text \<open>
  Opaque byte blobs: the endian accessors of src/src/crypto/common.h, the class
  \<open>base_blob\<close> behind \<open>uint256\<close> (src/src/uint256.h) and the conversions between \<open>uint256\<close> and
  \<open>arith_uint256\<close> at the end of src/src/arith_uint256.cpp. A pointer into a buffer is the
  list of the bytes from there on; the value read does not depend on the host's byte order,
  which is the point of the accessors.
\<close>

section \<open>Endian accessors\<close>

fun le_val :: "u8 list \<Rightarrow> nat" where
  "le_val [] = 0"
| "le_val (b # bs) = unat b + 256 * le_val bs"

definition ReadLE16 :: "u8 list \<Rightarrow> 16 word" where
  "ReadLE16 p = word_of_nat (le_val (take 2 p))"

definition ReadLE32 :: "u8 list \<Rightarrow> u32" where
  "ReadLE32 p = word_of_nat (le_val (take 4 p))"

definition ReadLE64 :: "u8 list \<Rightarrow> u64" where
  "ReadLE64 p = word_of_nat (le_val (take 8 p))"

definition le_bytes :: "nat \<Rightarrow> 'a::len word \<Rightarrow> u8 list" where
  "le_bytes n x = map (\<lambda>i. ucast (drop_bit (8 * i) x)) [0..<n]"

definition WriteLE16 :: "16 word \<Rightarrow> u8 list" where
  "WriteLE16 x = le_bytes 2 x"

definition WriteLE32 :: "u32 \<Rightarrow> u8 list" where
  "WriteLE32 x = le_bytes 4 x"

definition WriteLE64 :: "u64 \<Rightarrow> u8 list" where
  "WriteLE64 x = le_bytes 8 x"

definition ReadBE16 :: "u8 list \<Rightarrow> 16 word" where
  "ReadBE16 p = word_of_nat (le_val (rev (take 2 p)))"

definition ReadBE32 :: "u8 list \<Rightarrow> u32" where
  "ReadBE32 p = word_of_nat (le_val (rev (take 4 p)))"

definition ReadBE64 :: "u8 list \<Rightarrow> u64" where
  "ReadBE64 p = word_of_nat (le_val (rev (take 8 p)))"

definition WriteBE32 :: "u32 \<Rightarrow> u8 list" where
  "WriteBE32 x = rev (le_bytes 4 x)"

definition WriteBE64 :: "u64 \<Rightarrow> u8 list" where
  "WriteBE64 x = rev (le_bytes 8 x)"

section \<open>Blobs\<close>

definition blob_IsNull :: "u8 list \<Rightarrow> bool" where
  "blob_IsNull d = list_all (\<lambda>v. v = 0) d"

definition blob_SetNull :: "u8 list \<Rightarrow> u8 list" where
  "blob_SetNull d = replicate (length d) 0"

fun blob_Compare :: "u8 list \<Rightarrow> u8 list \<Rightarrow> int" where
  "blob_Compare (a # as) (b # bs) =
     (if a < b then -1 else if b < a then 1 else blob_Compare as bs)"
| "blob_Compare as bs = 0"

definition blob_GetUint64 :: "u8 list \<Rightarrow> nat \<Rightarrow> u64" where
  "blob_GetUint64 d pos = ReadLE64 (drop (pos * 8) d)"

definition ArithToUint256 :: "base_uint \<Rightarrow> uint256" where
  "ArithToUint256 a = concat (map (\<lambda>x. WriteLE32 (a ! x)) [0..<WIDTH])"

definition UintToArith256 :: "uint256 \<Rightarrow> base_uint" where
  "UintToArith256 a = map (\<lambda>x. ReadLE32 (drop (x * 4) a)) [0..<WIDTH]"

section \<open>Lemmas\<close>

lemma le_val_append: "le_val (xs @ ys) = le_val xs + 256 ^ length xs * le_val ys"
  by (induction xs) (simp_all add: algebra_simps)

lemma le_val_bound: "le_val bs < 256 ^ length bs"
proof (induction bs)
  case (Cons b bs)
  have "unat b < 256" using unat_lt_pow [of b] by simp
  then have "unat b + 256 * le_val bs < 256 * Suc (le_val bs)" by simp
  also have "\<dots> \<le> 256 * 256 ^ length bs" using Cons by (intro mult_le_mono2) simp
  finally show ?case by simp
qed simp

lemma length_le_bytes [simp]: "length (le_bytes n x) = n"
  by (simp add: le_bytes_def)

lemma le_bytes_Suc: "le_bytes (Suc n) x = ucast x # le_bytes n (drop_bit 8 x)"
  by (simp add: le_bytes_def upt_conv_Cons map_Suc_upt [symmetric] add.commute del: upt_Suc)

lemma le_val_le_bytes: "le_val (le_bytes n x) = unat x mod 256 ^ n"
proof (induction n arbitrary: x)
  case (Suc n)
  have "le_val (le_bytes (Suc n) x) = unat x mod 256 + 256 * (unat x div 256 mod 256 ^ n)"
    by (simp add: le_bytes_Suc Suc unat_ucast unat_drop_bit_div)
  also have "\<dots> = unat x mod (256 * 256 ^ n)" by (simp add: mod_mult2_eq)
  finally show ?case by simp
qed (simp add: le_bytes_def)

lemma le_val_inj: "length xs = length ys \<Longrightarrow> le_val xs = le_val ys \<Longrightarrow> xs = ys"
proof (induction xs ys rule: list_induct2)
  case (Cons x xs y ys)
  have b: "unat x < 256" "unat y < 256" using unat_lt_pow [of x] unat_lt_pow [of y] by simp_all
  have e: "unat x + 256 * le_val xs = unat y + 256 * le_val ys" using Cons.prems by simp
  then have "(unat x + 256 * le_val xs) mod 256 = (unat y + 256 * le_val ys) mod 256" by (rule arg_cong)
  then have "unat x = unat y" using b by simp
  moreover from e this have "le_val xs = le_val ys" by simp
  ultimately have "unat x = unat y" "le_val xs = le_val ys" by simp_all
  with Cons.IH show ?case by (simp add: word_unat_eq_iff)
qed simp

lemma ReadLE32_WriteLE32 [simp]: "ReadLE32 (WriteLE32 x @ p) = x"
  using unat_u32_lt [of x]
  by (simp add: ReadLE32_def WriteLE32_def le_val_le_bytes)

lemma unat_ReadLE32: "unat (ReadLE32 p) = le_val (take 4 p)"
proof -
  have "le_val (take 4 p) < 256 ^ length (take 4 p)" by (rule le_val_bound)
  also have "\<dots> \<le> 256 ^ 4" by (intro power_increasing) simp_all
  finally show ?thesis by (simp add: ReadLE32_def unat_of_nat take_bit_eq_mod)
qed

lemma WriteLE32_ReadLE32: "4 \<le> length p \<Longrightarrow> WriteLE32 (ReadLE32 p) = take 4 p"
  using le_val_bound [of "take 4 p"]
  by (intro le_val_inj) (simp_all add: WriteLE32_def le_val_le_bytes unat_ReadLE32)

lemma length_UintToArith256 [simp]: "length (UintToArith256 a) = WIDTH"
  by (simp add: UintToArith256_def)

lemma take_chunk: "take (n * k + k) a = take (n * k) a @ take k (drop (n * k) a)"
  by (simp add: take_add)

lemma limbs_val_read_chunks:
  "n * 4 \<le> length a \<Longrightarrow> limbs_val (map (\<lambda>x. ReadLE32 (drop (x * 4) a)) [0..<n]) = le_val (take (n * 4) a)"
proof (induction n)
  case (Suc n)
  have "le_val (take (Suc n * 4) a) = le_val (take (n * 4) a) + 256 ^ (n * 4) * le_val (take 4 (drop (n * 4) a))"
    using Suc.prems take_chunk [of n 4 a] by (simp add: le_val_append add.commute)
  moreover have "(256 :: nat) ^ (n * 4) = 4294967296 ^ n"
    using power_mult [of "256 :: nat" 4 n] by (simp add: mult.commute)
  ultimately show ?case using Suc by (simp add: limbs_val_append unat_ReadLE32)
qed simp

lemma limbs_val_UintToArith256: "length a = 32 \<Longrightarrow> limbs_val (UintToArith256 a) = le_val a"
  using limbs_val_read_chunks [of WIDTH a] by (simp add: UintToArith256_def WIDTH_def)

lemma concat_chunks: "n * k \<le> length a \<Longrightarrow> concat (map (\<lambda>x. take k (drop (x * k) a)) [0..<n]) = take (n * k) a"
proof (induction n)
  case (Suc n)
  then show ?case using take_chunk [of n k a] by (simp add: add.commute)
qed simp

lemma ArithToUint256_UintToArith256: "length a = 32 \<Longrightarrow> ArithToUint256 (UintToArith256 a) = a"
proof -
  assume a: "length a = 32"
  have "ArithToUint256 (UintToArith256 a) = concat (map (\<lambda>x. take 4 (drop (x * 4) a)) [0..<WIDTH])"
    unfolding ArithToUint256_def
    by (intro arg_cong [where f = concat] map_cong) (auto simp: UintToArith256_def a WIDTH_def intro!: WriteLE32_ReadLE32)
  then show ?thesis using concat_chunks [of WIDTH 4 a] a by (simp add: WIDTH_def)
qed

lemma length_ArithToUint256: "length (ArithToUint256 a) = 32"
  by (simp add: ArithToUint256_def WIDTH_def WriteLE32_def upt_conv_Cons)

lemma UintToArith256_ArithToUint256: "limb_wf a \<Longrightarrow> UintToArith256 (ArithToUint256 a) = a"
proof (rule nth_equalityI)
  assume a: "limb_wf a"
  show "length (UintToArith256 (ArithToUint256 a)) = length a" using a by simp
  fix i assume "i < length (UintToArith256 (ArithToUint256 a))"
  then have i: "i < WIDTH" by simp
  have "[0..<WIDTH] = [0..<i] @ i # [Suc i..<WIDTH]"
    using i by (metis less_imp_le_nat upt_add_eq_append le_add_diff_inverse upt_conv_Cons zero_le)
  then have "ArithToUint256 a = concat (map (\<lambda>x. WriteLE32 (a ! x)) [0..<i]) @ WriteLE32 (a ! i) @
      concat (map (\<lambda>x. WriteLE32 (a ! x)) [Suc i..<WIDTH])"
    by (simp add: ArithToUint256_def)
  moreover have "length (concat (map (\<lambda>x. WriteLE32 (a ! x)) [0..<i])) = i * 4"
    by (induction i) (simp_all add: WriteLE32_def)
  ultimately have "drop (i * 4) (ArithToUint256 a) = WriteLE32 (a ! i) @
      concat (map (\<lambda>x. WriteLE32 (a ! x)) [Suc i..<WIDTH])" by simp
  then show "UintToArith256 (ArithToUint256 a) ! i = a ! i" using i by (simp add: UintToArith256_def)
qed

lemma blob_Compare_eq: "length a = length b \<Longrightarrow> blob_Compare a b = 0 \<longleftrightarrow> a = b"
  by (induction a b rule: blob_Compare.induct) auto

section \<open>Properties\<close>

text \<open>
  (C34) \<open>UintToArith256\<close> and \<open>ArithToUint256\<close> are inverse to each other, and the number an
  \<open>arith_uint256\<close> holds is the little-endian value of the blob's bytes.
\<close>

theorem uint256_conversions:
  assumes "length a = 32" "limb_wf w"
  shows "ArithToUint256 (UintToArith256 a) = a \<and> UintToArith256 (ArithToUint256 w) = w \<and>
    limbs_val (UintToArith256 a) = le_val a \<and> le_val (ArithToUint256 w) = limbs_val w"
  using assms ArithToUint256_UintToArith256 [OF assms(1)] UintToArith256_ArithToUint256 [OF assms(2)]
    limbs_val_UintToArith256 [OF assms(1)] limbs_val_UintToArith256 [OF length_ArithToUint256 [of w]] by simp

theorem uint256_conversions_witness:
  "ArithToUint256 (UintToArith256 (replicate 32 7)) = replicate 32 7 \<and>
   UintToArith256 (ArithToUint256 base_uint_zero) = base_uint_zero"
proof -
  have "length (replicate 32 (7 :: u8)) = 32" "limb_wf base_uint_zero"
    by (rule length_replicate) (simp add: base_uint_zero_def)
  from uint256_conversions [OF this] show ?thesis by blast
qed

end
