(* ===== verification/Chain.thy ===== *)
theory Chain
  imports Blob
begin

text \<open>
  The block tree (src/src/chain.h, src/src/chain.cpp and the insertion routine of
  src/src/node/blockstorage.cpp). The map \<open>m_block_index\<close> from block hashes to
  \<open>CBlockIndex\<close> entries owns every entry, so a pointer to an entry is the hash it is stored
  under, and a null pointer is \<open>None\<close>. Heights are natural numbers: an entry has height 0 or
  one more than its predecessor, and a height that does not fit the 32-bit type of the code is an error.
\<close>

record CBlockIndex =
  pprev :: "uint256 option"
  pskip :: "uint256 option"
  nHeight :: nat
  nFile :: int
  nDataPos :: u32
  nUndoPos :: u32
  nChainWork :: base_uint
  nTx :: u32
  nChainTx :: u32
  nStatus :: u32
  nVersion :: "32 word"
  hashMerkleRoot :: uint256
  nTime :: u32
  nBits :: u32
  nNonce :: u32
  btcpPrevCommitment :: uint256
  nSequenceId :: int
  nTimeMax :: u32

type_synonym BlockMap = "uint256 \<Rightarrow> CBlockIndex option"

text \<open>
  A failed \<open>assert\<close>, a null dereference, an integer division by zero, a signed overflow and an exception of the big-integer class are error
  values. \<open>OutOfFuel\<close> is the value of a bounded loop that did not finish; it is shown not to
  occur on well-formed trees.
\<close>

datatype chain_error = AssertFailed | NullDeref | ArithError uint_error | IntDivisionByZero | IntOverflow | OutOfFuel

definition INT_MAX :: int where
  "INT_MAX = 2147483647"

section \<open>Skip heights and ancestors\<close>

definition InvertLowestOne :: "nat \<Rightarrow> nat" where
  "InvertLowestOne n = n AND (n - 1)"

definition GetSkipHeight :: "nat \<Rightarrow> nat" where
  "GetSkipHeight height =
     (if height < 2 then 0
      else if odd height then InvertLowestOne (InvertLowestOne (height - 1)) + 1
      else InvertLowestOne height)"

lemma InvertLowestOne_le: "InvertLowestOne n \<le> n - 1"
proof -
  have "int n AND int (n - 1) \<le> int (n - 1)" by (rule AND_upper2) simp
  then show ?thesis by (simp add: InvertLowestOne_def flip: of_nat_and_eq)
qed

lemma GetSkipHeight_less: "0 < h \<Longrightarrow> GetSkipHeight h < h"
  using InvertLowestOne_le [of h] InvertLowestOne_le [of "h - 1"]
    InvertLowestOne_le [of "InvertLowestOne (h - 1)"]
  by (auto simp: GetSkipHeight_def)

text \<open>
  The loop of \<open>GetAncestor\<close>. Its measure is \<open>heightWalk\<close>, which the skip height and the
  predecessor step both decrease.
\<close>

function get_ancestor_loop :: "BlockMap \<Rightarrow> nat \<Rightarrow> uint256 \<Rightarrow> nat \<Rightarrow> chain_error + uint256" where
  "get_ancestor_loop m height pindexWalk heightWalk =
     (if heightWalk > height then
        (let heightSkip = GetSkipHeight heightWalk;
             heightSkipPrev = GetSkipHeight (heightWalk - 1)
         in case m pindexWalk of
              None \<Rightarrow> Inl NullDeref
            | Some b \<Rightarrow>
                if pskip b \<noteq> None \<and>
                   (heightSkip = height \<or>
                    (heightSkip > height \<and>
                     \<not> (int heightSkipPrev < int heightSkip - 2 \<and> heightSkipPrev \<ge> height)))
                then get_ancestor_loop m height (the (pskip b)) heightSkip
                else (case pprev b of
                        None \<Rightarrow> Inl AssertFailed
                      | Some p \<Rightarrow> get_ancestor_loop m height p (heightWalk - 1)))
      else Inr pindexWalk)"
  by pat_completeness auto
termination
  by (relation "measure (\<lambda>(m, height, p, heightWalk). heightWalk)") (auto intro!: GetSkipHeight_less)

declare get_ancestor_loop.simps [simp del]

definition GetAncestor :: "BlockMap \<Rightarrow> uint256 \<Rightarrow> int \<Rightarrow> chain_error + uint256 option" where
  "GetAncestor m pindex height =
     (case m pindex of
        None \<Rightarrow> Inl NullDeref
      | Some b \<Rightarrow>
          if height > int (nHeight b) \<or> height < 0 then Inr None
          else (case get_ancestor_loop m (nat height) pindex (nHeight b) of
                  Inl e \<Rightarrow> Inl e
                | Inr p \<Rightarrow> Inr (Some p)))"

definition BuildSkip :: "BlockMap \<Rightarrow> uint256 \<Rightarrow> chain_error + BlockMap" where
  "BuildSkip m pindex =
     (case m pindex of
        None \<Rightarrow> Inl NullDeref
      | Some b \<Rightarrow>
          (case pprev b of
             None \<Rightarrow> Inr m
           | Some p \<Rightarrow>
               (case GetAncestor m p (int (GetSkipHeight (nHeight b))) of
                  Inl e \<Rightarrow> Inl e
                | Inr a \<Rightarrow> Inr (m(pindex \<mapsto> b\<lparr>pskip := a\<rparr>)))))"

section \<open>Work\<close>

definition GetBlockProof :: "u32 \<Rightarrow> chain_error + base_uint" where
  "GetBlockProof bits =
     (let r = SetCompact bits; bnTarget = cr_value r
      in if cr_negative r \<or> cr_overflow r \<or> base_uint_EqualTo bnTarget 0
         then Inr (base_uint_of_u64 0)
         else (case base_uint_div (base_uint_not bnTarget) (base_uint_add bnTarget (base_uint_of_u64 1)) of
                 Inl e \<Rightarrow> Inl (ArithError e)
               | Inr q \<Rightarrow> Inr (base_uint_add q (base_uint_of_u64 1))))"

definition GetBlockProofEquivalentTime ::
  "base_uint \<Rightarrow> base_uint \<Rightarrow> u32 \<Rightarrow> u64 \<Rightarrow> chain_error + int" where
  "GetBlockProofEquivalentTime to_work from_work tip_bits nPowTargetSpacing =
     (let (r, sgn) = (if base_uint_CompareTo to_work from_work > 0
                      then (base_uint_sub to_work from_work, 1)
                      else (base_uint_sub from_work to_work, -1))
      in case GetBlockProof tip_bits of
           Inl e \<Rightarrow> Inl e
         | Inr proof_tip \<Rightarrow>
             (case base_uint_div (base_uint_mul r (base_uint_of_u64 nPowTargetSpacing)) proof_tip of
                Inl e \<Rightarrow> Inl (ArithError e)
              | Inr r2 \<Rightarrow>
                  if base_uint_bits r2 > 63 then Inr (sgn * 9223372036854775807)
                  else Inr (sgn * int (unat (base_uint_GetLow64 r2)))))"

section \<open>Validity flags and insertion\<close>

definition BLOCK_VALID_TREE :: u32 where
  "BLOCK_VALID_TREE = 2"

definition BLOCK_VALID_SCRIPTS :: u32 where
  "BLOCK_VALID_SCRIPTS = 5"

definition BLOCK_VALID_MASK :: u32 where
  "BLOCK_VALID_MASK = 7"

definition BLOCK_FAILED_MASK :: u32 where
  "BLOCK_FAILED_MASK = 96"

definition BLOCK_ASSUMED_VALID :: u32 where
  "BLOCK_ASSUMED_VALID = 256"

definition RaiseValidity :: "CBlockIndex \<Rightarrow> u32 \<Rightarrow> chain_error + CBlockIndex \<times> bool" where
  "RaiseValidity b nUpTo =
     (if nUpTo AND NOT BLOCK_VALID_MASK \<noteq> 0 then Inl AssertFailed
      else if nStatus b AND BLOCK_FAILED_MASK \<noteq> 0 then Inr (b, False)
      else if nStatus b AND BLOCK_VALID_MASK < nUpTo then
        (let st = (if nStatus b AND BLOCK_ASSUMED_VALID \<noteq> 0 \<and> nUpTo \<ge> BLOCK_VALID_SCRIPTS
                   then nStatus b AND NOT BLOCK_ASSUMED_VALID else nStatus b)
         in Inr (b\<lparr>nStatus := (st AND NOT BLOCK_VALID_MASK) OR nUpTo\<rparr>, True))
      else Inr (b, False))"

record CBlockHeader =
  hdr_nVersion :: "32 word"
  hdr_hashPrevBlock :: uint256
  hdr_hashMerkleRoot :: uint256
  hdr_nTime :: u32
  hdr_nBits :: u32
  hdr_nNonce :: u32

record BlockManager =
  m_block_index :: BlockMap
  best_header :: "uint256 option"
  m_dirty_blockindex :: "uint256 set"
  m_prev_block_index :: "(uint256 \<times> uint256) list"

definition new_block_index :: "CBlockHeader \<Rightarrow> CBlockIndex" where
  "new_block_index blk =
     \<lparr>pprev = None, pskip = None, nHeight = 0, nFile = 0, nDataPos = 0, nUndoPos = 0,
      nChainWork = base_uint_zero, nTx = 0, nChainTx = 0, nStatus = 0, nVersion = hdr_nVersion blk,
      hashMerkleRoot = hdr_hashMerkleRoot blk, nTime = hdr_nTime blk, nBits = hdr_nBits blk,
      nNonce = hdr_nNonce blk, btcpPrevCommitment = replicate 32 0, nSequenceId = 0, nTimeMax = 0\<rparr>"

text \<open>
  \<open>AddToBlockIndex\<close> links the new entry to its predecessor and builds the skip pointer
  (\<open>link_block\<close>), then fills in the cumulative fields (\<open>accumulate_block\<close>), raises the
  validity level and updates the best header. The block hash \<open>h\<close> is the value of
  \<open>block.GetHash()\<close>.
\<close>

definition link_block :: "BlockMap \<Rightarrow> uint256 \<Rightarrow> CBlockHeader \<Rightarrow> chain_error + BlockMap" where
  "link_block m h blk =
     (case m (hdr_hashPrevBlock blk) of
        None \<Rightarrow> Inr m
      | Some prv \<Rightarrow>
          if int (nHeight prv) + 1 > INT_MAX then Inl IntOverflow
          else BuildSkip (m(h \<mapsto> (the (m h))\<lparr>pprev := Some (hdr_hashPrevBlock blk),
                                          nHeight := nHeight prv + 1\<rparr>)) h)"

definition accumulate_block :: "BlockMap \<Rightarrow> uint256 \<Rightarrow> chain_error + CBlockIndex" where
  "accumulate_block m h =
     (case m h of
        None \<Rightarrow> Inl NullDeref
      | Some b \<Rightarrow>
          (let prv = (case pprev b of None \<Rightarrow> None | Some p \<Rightarrow> m p)
           in case GetBlockProof (nBits b) of
                Inl e \<Rightarrow> Inl e
              | Inr prf \<Rightarrow>
                  Inr (b\<lparr>nTimeMax := (case prv of Some pb \<Rightarrow> max (nTimeMax pb) (nTime b) | None \<Rightarrow> nTime b),
                         nChainWork := base_uint_add
                            (case prv of Some pb \<Rightarrow> nChainWork pb | None \<Rightarrow> base_uint_of_u64 0) prf\<rparr>)))"

definition AddToBlockIndex ::
  "BlockManager \<Rightarrow> uint256 \<Rightarrow> CBlockHeader \<Rightarrow> u32 \<Rightarrow> chain_error + BlockManager" where
  "AddToBlockIndex bm h blk status =
     (if status AND BLOCK_FAILED_MASK \<noteq> 0 then Inl AssertFailed
      else if m_block_index bm h \<noteq> None then Inr bm
      else (case link_block ((m_block_index bm)(h \<mapsto> new_block_index blk)) h blk of
              Inl e \<Rightarrow> Inl e
            | Inr m1 \<Rightarrow>
                (case accumulate_block m1 h of
                   Inl e \<Rightarrow> Inl e
                 | Inr b \<Rightarrow>
                     (case RaiseValidity b BLOCK_VALID_TREE of
                        Inl e \<Rightarrow> Inl e
                      | Inr (b1, _) \<Rightarrow>
                          (let valid = (status AND BLOCK_VALID_MASK \<noteq> 0);
                               b2 = (if valid then b1 else b1\<lparr>nStatus := nStatus b1 OR status\<rparr>);
                               better = (case best_header bm of
                                           None \<Rightarrow> True
                                         | Some bh \<Rightarrow>
                                             (case m1 bh of
                                                None \<Rightarrow> True
                                              | Some bb \<Rightarrow>
                                                  base_uint_CompareTo (nChainWork bb) (nChainWork b2) < 0))
                           in Inr (bm\<lparr>m_block_index := m1(h \<mapsto> b2),
                                      best_header := (if valid \<and> better then Some h else best_header bm),
                                      m_dirty_blockindex := insert h (m_dirty_blockindex bm),
                                      m_prev_block_index :=
                                        (case pprev b2 of None \<Rightarrow> m_prev_block_index bm
                                         | Some p \<Rightarrow> m_prev_block_index bm @ [(p, h)])\<rparr>))))))"

section \<open>The active chain\<close>

type_synonym CChain = "uint256 option list"

definition CChain_Tip :: "CChain \<Rightarrow> uint256 option" where
  "CChain_Tip vChain = (if length vChain > 0 then vChain ! (length vChain - 1) else None)"

definition CChain_at :: "CChain \<Rightarrow> int \<Rightarrow> uint256 option" where
  "CChain_at vChain h = (if h < 0 \<or> h \<ge> int (length vChain) then None else vChain ! nat h)"

definition CChain_Height :: "CChain \<Rightarrow> int" where
  "CChain_Height vChain = int (length vChain) - 1"

definition CChain_Contains :: "BlockMap \<Rightarrow> CChain \<Rightarrow> uint256 \<Rightarrow> bool" where
  "CChain_Contains m vChain p =
     (case m p of None \<Rightarrow> False | Some b \<Rightarrow> CChain_at vChain (int (nHeight b)) = Some p)"

definition CChain_Next :: "BlockMap \<Rightarrow> CChain \<Rightarrow> uint256 \<Rightarrow> uint256 option" where
  "CChain_Next m vChain p =
     (if CChain_Contains m vChain p
      then (case m p of None \<Rightarrow> None | Some b \<Rightarrow> CChain_at vChain (int (nHeight b) + 1))
      else None)"

definition vector_resize :: "nat \<Rightarrow> 'a \<Rightarrow> 'a list \<Rightarrow> 'a list" where
  "vector_resize n x xs = take n xs @ replicate (n - length xs) x"

text \<open>
  The loop of \<open>SetTip\<close> stops at the first entry that is already in place. It runs over the
  predecessors of the tip, so the number of entries from the tip to the root bounds it; the
  fuel is the height of the tip plus one.
\<close>

fun set_tip_loop :: "nat \<Rightarrow> BlockMap \<Rightarrow> uint256 option \<Rightarrow> CChain \<Rightarrow> CChain option" where
  "set_tip_loop fuel m None vChain = Some vChain"
| "set_tip_loop 0 m (Some p) vChain = None"
| "set_tip_loop (Suc fuel) m (Some p) vChain =
     (case m p of
        None \<Rightarrow> None
      | Some b \<Rightarrow>
          if nHeight b < length vChain then
            (if vChain ! nHeight b \<noteq> Some p
             then set_tip_loop fuel m (pprev b) (vChain[nHeight b := Some p])
             else Some vChain)
          else None)"

definition SetTip :: "BlockMap \<Rightarrow> uint256 \<Rightarrow> CChain \<Rightarrow> CChain option" where
  "SetTip m p vChain =
     (case m p of
        None \<Rightarrow> None
      | Some b \<Rightarrow>
          set_tip_loop (nHeight b + 1) m (Some p) (vector_resize (nHeight b + 1) None vChain))"

fun find_fork_loop :: "nat \<Rightarrow> BlockMap \<Rightarrow> CChain \<Rightarrow> uint256 option \<Rightarrow> uint256 option option" where
  "find_fork_loop fuel m vChain None = Some None"
| "find_fork_loop 0 m vChain (Some p) = None"
| "find_fork_loop (Suc fuel) m vChain (Some p) =
     (if CChain_Contains m vChain p then Some (Some p)
      else (case m p of None \<Rightarrow> None | Some b \<Rightarrow> find_fork_loop fuel m vChain (pprev b)))"

definition FindFork :: "BlockMap \<Rightarrow> CChain \<Rightarrow> uint256 option \<Rightarrow> uint256 option option" where
  "FindFork m vChain pindex =
     (case pindex of
        None \<Rightarrow> Some None
      | Some p \<Rightarrow>
          (case m p of
             None \<Rightarrow> None
           | Some b \<Rightarrow>
               if int (nHeight b) > CChain_Height vChain then
                 (case GetAncestor m p (CChain_Height vChain) of
                    Inl e \<Rightarrow> None
                  | Inr a \<Rightarrow> find_fork_loop (nHeight b + 1) m vChain a)
               else find_fork_loop (nHeight b + 1) m vChain (Some p)))"

fun lca_loop :: "nat \<Rightarrow> BlockMap \<Rightarrow> uint256 option \<Rightarrow> uint256 option \<Rightarrow> chain_error + uint256 option" where
  "lca_loop 0 m pa pb = Inl OutOfFuel"
| "lca_loop (Suc fuel) m pa pb =
     (if pa = pb then Inr pa
      else (case (pa, pb) of
              (Some a, Some b) \<Rightarrow>
                (case (m a, m b) of
                   (Some ba, Some bb) \<Rightarrow> lca_loop fuel m (pprev ba) (pprev bb)
                 | _ \<Rightarrow> Inl NullDeref)
            | _ \<Rightarrow> Inl AssertFailed))"

definition LastCommonAncestor :: "BlockMap \<Rightarrow> uint256 \<Rightarrow> uint256 \<Rightarrow> chain_error + uint256 option" where
  "LastCommonAncestor m pa pb =
     (case (m pa, m pb) of
        (Some ba, Some bb) \<Rightarrow>
          (let ra = (if nHeight ba > nHeight bb then GetAncestor m pa (int (nHeight bb)) else Inr (Some pa));
               rb = (if nHeight bb > nHeight ba then GetAncestor m pb (int (nHeight ba)) else Inr (Some pb))
           in case ra of
                Inl e \<Rightarrow> Inl e
              | Inr a \<Rightarrow>
                  (case rb of
                     Inl e \<Rightarrow> Inl e
                   | Inr b \<Rightarrow> lca_loop (nHeight ba + nHeight bb + 1) m a b))
      | _ \<Rightarrow> Inl NullDeref)"

section \<open>Specification vocabulary\<close>

fun walk_back :: "BlockMap \<Rightarrow> nat \<Rightarrow> uint256 \<Rightarrow> uint256 option" where
  "walk_back m 0 p = Some p"
| "walk_back m (Suc n) p =
     (case m p of None \<Rightarrow> None
      | Some b \<Rightarrow> (case pprev b of None \<Rightarrow> None | Some q \<Rightarrow> walk_back m n q))"

definition linked :: "BlockMap \<Rightarrow> CBlockIndex \<Rightarrow> bool" where
  "linked m b = (case pprev b of
     None \<Rightarrow> nHeight b = 0
   | Some q \<Rightarrow> (case m q of None \<Rightarrow> False | Some bq \<Rightarrow> nHeight b = Suc (nHeight bq)))"

definition skip_ok :: "BlockMap \<Rightarrow> uint256 \<Rightarrow> CBlockIndex \<Rightarrow> bool" where
  "skip_ok m p b = (case pskip b of
     None \<Rightarrow> True
   | Some q \<Rightarrow> walk_back m (nHeight b - GetSkipHeight (nHeight b)) p = Some q)"

definition chain_wf :: "BlockMap \<Rightarrow> bool" where
  "chain_wf m = (\<forall>p b. m p = Some b \<longrightarrow> linked m b \<and> skip_ok m p b)"

definition target_valid :: "u32 \<Rightarrow> bool" where
  "target_valid bits = (let r = SetCompact bits in
     \<not> cr_negative r \<and> \<not> cr_overflow r \<and> limbs_val (cr_value r) \<noteq> 0)"

definition target_of :: "u32 \<Rightarrow> nat" where
  "target_of bits = limbs_val (cr_value (SetCompact bits))"

definition block_work :: "u32 \<Rightarrow> nat" where
  "block_work bits = (if target_valid bits then 2 ^ 256 div (target_of bits + 1) else 0)"

definition cumulative :: "BlockMap \<Rightarrow> CBlockIndex \<Rightarrow> bool" where
  "cumulative m b =
     (let prv = (case pprev b of None \<Rightarrow> None | Some q \<Rightarrow> m q);
          w0 = (case prv of None \<Rightarrow> 0 | Some pb \<Rightarrow> limbs_val (nChainWork pb));
          t0 = (case prv of None \<Rightarrow> 0 | Some pb \<Rightarrow> nTimeMax pb)
      in limb_wf (nChainWork b) \<and>
         limbs_val (nChainWork b) = (w0 + block_work (nBits b)) mod 2 ^ 256 \<and>
         nTimeMax b = max t0 (nTime b))"

definition block_tree_wf :: "BlockMap \<Rightarrow> bool" where
  "block_tree_wf m = (chain_wf m \<and> (\<forall>p b. m p = Some b \<longrightarrow> cumulative m b))"

definition path_to :: "BlockMap \<Rightarrow> uint256 \<Rightarrow> nat \<Rightarrow> CChain" where
  "path_to m p H = map (\<lambda>h. walk_back m (H - h) p) [0..<H + 1]"

definition active_chain :: "BlockMap \<Rightarrow> CChain \<Rightarrow> bool" where
  "active_chain m c = (\<forall>h < length c. \<exists>q b. c ! h = Some q \<and> m q = Some b \<and> nHeight b = h \<and>
     (0 < h \<longrightarrow> c ! (h - 1) = pprev b))"

text \<open>Common ancestors.\<close>

definition is_ancestor :: "BlockMap \<Rightarrow> uint256 \<Rightarrow> uint256 \<Rightarrow> bool" where
  "is_ancestor m a p = (\<exists>n. walk_back m n p = Some a)"

text \<open>The first entry on the way down from \<open>p\<close> that the active chain contains, if any.\<close>

definition is_fork :: "BlockMap \<Rightarrow> CChain \<Rightarrow> uint256 \<Rightarrow> uint256 option \<Rightarrow> bool" where
  "is_fork m c p r = (case r of
     None \<Rightarrow> (\<forall>k y. walk_back m k p = Some y \<longrightarrow> \<not> CChain_Contains m c y)
   | Some q \<Rightarrow> CChain_Contains m c q \<and> (\<exists>n. walk_back m n p = Some q \<and>
       (\<forall>k < n. \<forall>y. walk_back m k p = Some y \<longrightarrow> \<not> CChain_Contains m c y)))"

definition prev_index_exact :: "BlockManager \<Rightarrow> bool" where
  "prev_index_exact bm = (distinct (m_prev_block_index bm) \<and>
     (\<forall>p h. (p, h) \<in> set (m_prev_block_index bm) \<longleftrightarrow>
        (\<exists>b. m_block_index bm h = Some b \<and> pprev b = Some p)))"

text \<open>Every entry but the roots has its skip pointer, and heights fit their type.\<close>

definition skips_built :: "BlockMap \<Rightarrow> bool" where
  "skips_built m = (\<forall>p b. m p = Some b \<longrightarrow> (pskip b = None \<longleftrightarrow> pprev b = None) \<and> int (nHeight b) \<le> INT_MAX)"

definition block_manager_inv :: "BlockManager \<Rightarrow> bool" where
  "block_manager_inv bm = (block_tree_wf (m_block_index bm) \<and> skips_built (m_block_index bm) \<and> prev_index_exact bm \<and>
     m_dirty_blockindex bm \<subseteq> dom (m_block_index bm) \<and>
     (\<forall>h. best_header bm = Some h \<longrightarrow> m_block_index bm h \<noteq> None))"

definition empty_block_manager :: BlockManager where
  "empty_block_manager =
     \<lparr>m_block_index = Map.empty, best_header = None, m_dirty_blockindex = {}, m_prev_block_index = []\<rparr>"

text \<open>The block managers that calls of \<open>AddToBlockIndex\<close> with a list of headers lead to.\<close>

inductive block_manager_reachable :: "(CBlockHeader \<Rightarrow> uint256) \<Rightarrow> CBlockHeader list \<Rightarrow> BlockManager \<Rightarrow> bool"
  for GetHash :: "CBlockHeader \<Rightarrow> uint256" where
  init: "block_manager_reachable GetHash [] empty_block_manager"
| add: "\<lbrakk>block_manager_reachable GetHash hdrs bm; AddToBlockIndex bm (GetHash blk) blk status = Inr bm'\<rbrakk> \<Longrightarrow>
    block_manager_reachable GetHash (hdrs @ [blk]) bm'"

definition example_hash :: "CBlockHeader \<Rightarrow> uint256" where
  "example_hash blk = [ucast (hdr_nTime blk)]"

definition example_header :: "uint256 \<Rightarrow> u32 \<Rightarrow> CBlockHeader" where
  "example_header prv t = \<lparr>hdr_nVersion = 1, hdr_hashPrevBlock = prv, hdr_hashMerkleRoot = [], hdr_nTime = t,
     hdr_nBits = 0, hdr_nNonce = 0\<rparr>"

definition example_root :: BlockManager where
  "example_root = projr (AddToBlockIndex empty_block_manager [1] (example_header [0] 1) 1)"

definition example_manager :: BlockManager where
  "example_manager = projr (AddToBlockIndex example_root [2] (example_header [1] 2) 1)"

section \<open>Lemmas\<close>

lemma chain_wfD: "chain_wf m \<Longrightarrow> m p = Some b \<Longrightarrow> linked m b \<and> skip_ok m p b"
  by (simp add: chain_wf_def)

lemma linked_pprev:
  "linked m b \<Longrightarrow> 0 < nHeight b \<Longrightarrow> \<exists>q bq. pprev b = Some q \<and> m q = Some bq \<and> nHeight b = Suc (nHeight bq)"
  by (auto simp: linked_def split: option.splits)

lemma linked_root: "linked m b \<Longrightarrow> nHeight b = 0 \<Longrightarrow> pprev b = None"
  by (auto simp: linked_def split: option.splits)

lemma walk_back_exists:
  "chain_wf m \<Longrightarrow> m p = Some b \<Longrightarrow> n \<le> nHeight b \<Longrightarrow>
   \<exists>q bq. walk_back m n p = Some q \<and> m q = Some bq \<and> nHeight bq = nHeight b - n"
proof (induction n arbitrary: p b)
  case (Suc n)
  from Suc.prems obtain q bq where q: "pprev b = Some q" "m q = Some bq" "nHeight b = Suc (nHeight bq)"
    using linked_pprev [of m b] chain_wfD [of m p b] by auto
  with Suc.IH [of q bq] Suc.prems show ?case by simp
qed simp

lemma walk_back_add: "walk_back m (i + j) p = Option.bind (walk_back m i p) (walk_back m j)"
  by (induction m i p rule: walk_back.induct) (auto split: option.splits)

lemma walk_back_trans:
  "walk_back m i p = Some q \<Longrightarrow> walk_back m (i + j) p = walk_back m j q"
  by (simp add: walk_back_add)

lemma get_ancestor_loop_correct:
  "chain_wf m \<Longrightarrow> m p = Some b \<Longrightarrow> nHeight b = hw \<Longrightarrow> h \<le> hw \<Longrightarrow>
    \<exists>q. get_ancestor_loop m h p hw = Inr q \<and> walk_back m (hw - h) p = Some q"
proof (induction m h p hw arbitrary: b rule: get_ancestor_loop.induct)
  case (1 m h p hw)
  have wf: "linked m b" "skip_ok m p b" using chain_wfD [OF "1.prems"(1,2)] by auto
  let ?sk = "GetSkipHeight hw" and ?skp = "GetSkipHeight (hw - 1)"
  let ?c = "pskip b \<noteq> None \<and> (?sk = h \<or> (?sk > h \<and> \<not> (int ?skp < int ?sk - 2 \<and> ?skp \<ge> h)))"
  show ?case
  proof (cases "hw > h")
    case False
    with "1.prems" show ?thesis by (simp add: get_ancestor_loop.simps)
  next
    case True
    show ?thesis
    proof (cases ?c)
      case c: True
      then obtain q where q: "pskip b = Some q" and h: "h \<le> ?sk" by auto
      have w: "walk_back m (hw - ?sk) p = Some q" using wf(2) q "1.prems"(3) by (simp add: skip_ok_def)
      have lt: "?sk < hw" using True by (intro GetSkipHeight_less) simp
      obtain bq where bq: "m q = Some bq" "nHeight bq = ?sk"
        using walk_back_exists [OF "1.prems"(1,2), of "hw - ?sk"] w lt "1.prems"(3) by auto
      obtain r where r: "get_ancestor_loop m h q ?sk = Inr r" "walk_back m (?sk - h) q = Some r"
        using "1.IH"(1) [OF True refl refl "1.prems"(2) c "1.prems"(1), of bq] q bq h by auto
      have "walk_back m ((hw - ?sk) + (?sk - h)) p = Some r" using walk_back_trans [OF w] r(2) by simp
      moreover have "(hw - ?sk) + (?sk - h) = hw - h" using lt h by simp
      moreover have "get_ancestor_loop m h p hw = Inr r"
        using True c q r(1) "1.prems"(2) by (simp add: get_ancestor_loop.simps [of m h p hw] Let_def)
      ultimately show ?thesis by simp
    next
      case c: False
      obtain q bq where q: "pprev b = Some q" "m q = Some bq" "hw = Suc (nHeight bq)"
        using linked_pprev [OF wf(1)] True "1.prems"(3) by auto
      obtain r where r: "get_ancestor_loop m h q (hw - 1) = Inr r" "walk_back m (hw - 1 - h) q = Some r"
        using "1.IH"(2) [OF True refl refl "1.prems"(2) c q(1) "1.prems"(1) q(2)] q(3) True by auto
      have "get_ancestor_loop m h p hw = Inr r"
        unfolding get_ancestor_loop.simps [of m h p hw] Let_def
        using True c q(1) r(1) "1.prems"(2) by (simp only: if_True if_False option.case)
      moreover have "hw - h = Suc (hw - 1 - h)" using True by simp
      ultimately show ?thesis using r(2) q "1.prems"(2) by simp
    qed
  qed
qed

lemma GetAncestor_correct:
  assumes "chain_wf m" "m p = Some b" "0 \<le> h" "h \<le> int (nHeight b)"
  shows "\<exists>q bq. GetAncestor m p h = Inr (Some q) \<and> walk_back m (nHeight b - nat h) p = Some q \<and>
    m q = Some bq \<and> nHeight bq = nat h"
proof -
  obtain q where q: "get_ancestor_loop m (nat h) p (nHeight b) = Inr q"
      "walk_back m (nHeight b - nat h) p = Some q"
    using get_ancestor_loop_correct [OF assms(1,2) refl, of "nat h"] assms(4) by (auto simp: nat_le_iff)
  obtain bq where "m q = Some bq" "nHeight bq = nHeight b - (nHeight b - nat h)"
    using walk_back_exists [OF assms(1,2), of "nHeight b - nat h"] q(2) by auto
  moreover have "nHeight b - (nHeight b - nat h) = nat h" using assms(4) by (simp add: nat_le_iff)
  ultimately show ?thesis using q assms by (auto simp: GetAncestor_def)
qed

lemma target_not_max: "target_of bits + 1 < 2 ^ 256"
proof (cases "unat bits div 16777216 \<le> 3")
  case True
  then have "target_of bits \<le> unat bits mod 8388608"
    unfolding target_of_def SetCompact_val(2) by (simp add: div_le_dividend)
  also have "\<dots> < 8388608" by simp
  finally show ?thesis by simp
next
  case False
  then have "256 dvd target_of bits"
    unfolding target_of_def SetCompact_val(2)
    by (simp add: dvd_mod_iff) 
  moreover have "target_of bits < 2 ^ 256"
    unfolding target_of_def by (rule limbs_val_bound_wf [OF SetCompact_val(1)])
  moreover have "\<not> 256 dvd (2 ^ 256 - 1 :: nat)" by simp
  ultimately have "target_of bits \<noteq> 2 ^ 256 - 1" by metis
  with \<open>target_of bits < 2 ^ 256\<close> show ?thesis by linarith
qed

lemma pow256_div:
  fixes t :: nat
  assumes "0 < t" "t + 1 < 2 ^ 256"
  shows "(2 ^ 256 - 1 - t) div (t + 1) + 1 = 2 ^ 256 div (t + 1)" "2 ^ 256 div (t + 1) < (2 ^ 256 :: nat)"
proof -
  have "(2 ^ 256 :: nat) = (2 ^ 256 - 1 - t) + (t + 1)" using assms(2) by linarith
  then have "(2 ^ 256 :: nat) div (t + 1) = ((2 ^ 256 - 1 - t) + (t + 1)) div (t + 1)" by (rule arg_cong)
  also have "\<dots> = (2 ^ 256 - 1 - t) div (t + 1) + 1" by (rule div_add_self2) simp
  finally show "(2 ^ 256 - 1 - t) div (t + 1) + 1 = 2 ^ 256 div (t + 1)" by (rule sym)
  show "2 ^ 256 div (t + 1) < (2 ^ 256 :: nat)" by (rule div_less_dividend) (use assms(1) in simp_all)
qed

lemma GetBlockProof_work:
  "\<exists>w. GetBlockProof bits = Inr w \<and> limb_wf w \<and> limbs_val w = block_work bits"
proof -
  let ?r = "SetCompact bits" and ?t = "target_of bits"
  have wf: "limb_wf (cr_value ?r)" by (rule SetCompact_val(1))
  have eq0: "base_uint_EqualTo (cr_value ?r) 0 \<longleftrightarrow> ?t = 0"
    using EqualTo_val [OF wf, of 0] by (simp add: target_of_def)
  have u1: "limbs_val (base_uint_of_u64 1) = 1" "limb_wf (base_uint_of_u64 1)"
    using limbs_val_of_u64 [of 1] by simp_all
  show ?thesis
  proof (cases "target_valid bits")
    case False
    then have "GetBlockProof bits = Inr (base_uint_of_u64 0)"
      using eq0 by (auto simp: GetBlockProof_def Let_def target_valid_def target_of_def)
    then show ?thesis using False limbs_val_of_u64 [of 0] by (simp add: block_work_def)
  next
    case True
    let ?n = "base_uint_not (cr_value ?r)" and ?d = "base_uint_add (cr_value ?r) (base_uint_of_u64 1)"
    have n: "limb_wf ?n" "limbs_val ?n = 2 ^ 256 - 1 - ?t"
      using wf limbs_val_not [of "cr_value ?r"] pow_limb_width
      by (simp_all add: base_uint_not_def target_of_def)
    have d: "limb_wf ?d" "limbs_val ?d = ?t + 1"
    proof -
      show "limb_wf ?d" using wf by simp
      have "limbs_val ?d = (?t + 1) mod 2 ^ 256"
        using limbs_val_add [OF wf u1(2)] u1(1) by (simp only: target_of_def)
      then show "limbs_val ?d = ?t + 1" using target_not_max [of bits] by (simp only: mod_less)
    qed
    obtain q where q: "base_uint_div ?n ?d = Inr q" "limb_wf q" "limbs_val q = (2 ^ 256 - 1 - ?t) div (?t + 1)"
      using base_uint_div_val [OF n(1) d(1)] d(2) n(2) by (metis Suc_eq_plus1 nat.distinct(1))
    have pos: "0 < ?t" using True by (simp add: target_valid_def target_of_def Let_def)
    have "limbs_val (base_uint_add q (base_uint_of_u64 1)) = 2 ^ 256 div (?t + 1)"
      using limbs_val_add [OF q(2) u1(2)] u1(1) q(3) pow256_div [OF pos target_not_max [of bits]]
      by (simp only: mod_less)
    moreover have "GetBlockProof bits = Inr (base_uint_add q (base_uint_of_u64 1))"
      using True q(1) eq0 by (auto simp: GetBlockProof_def Let_def target_valid_def target_of_def)
    ultimately show ?thesis using True q(2) by (simp add: block_work_def)
  qed
qed

lemma walk_back_cong:
  assumes "\<And>p. map_option pprev (m p) = map_option pprev (m' p)"
  shows "walk_back m n p = walk_back m' n p"
proof (induction n arbitrary: p)
  case (Suc n)
  show ?case using assms [of p] Suc by (cases "m p"; cases "m' p") (auto split: option.splits)
qed simp

lemma walk_back_fresh:
  "chain_wf m \<Longrightarrow> m p = Some b \<Longrightarrow> m h = None \<Longrightarrow> walk_back (m(h \<mapsto> x)) n p = walk_back m n p"
proof (induction n arbitrary: p b)
  case (Suc n)
  have l: "linked m b" using chain_wfD [OF Suc.prems(1,2)] by simp
  have "p \<noteq> h" using Suc.prems by auto
  then show ?case using Suc l by (auto simp: linked_def split: option.splits)
qed simp

text \<open>Adding a childless entry under a fresh hash keeps every old entry well-formed.\<close>

lemma chain_wf_insert:
  assumes "chain_wf m" "m h = None" "linked m b" "skip_ok (m(h \<mapsto> b)) h b"
  shows "chain_wf (m(h \<mapsto> b))"
  unfolding chain_wf_def
proof (intro allI impI)
  fix p c assume c: "(m(h \<mapsto> b)) p = Some c"
  show "linked (m(h \<mapsto> b)) c \<and> skip_ok (m(h \<mapsto> b)) p c"
  proof (cases "p = h")
    case True
    with c assms show ?thesis by (auto simp: linked_def split: option.splits)
  next
    case False
    with c have mp: "m p = Some c" by simp
    with chain_wfD [OF assms(1) mp] show ?thesis
      using assms(2) walk_back_fresh [OF assms(1) mp assms(2)]
      by (auto simp: linked_def skip_ok_def split: option.splits)
  qed
qed

lemma block_tree_wf_insert:
  assumes "block_tree_wf m" "m h = None" "linked m b" "skip_ok (m(h \<mapsto> b)) h b" "cumulative m b"
  shows "block_tree_wf (m(h \<mapsto> b))"
  unfolding block_tree_wf_def
proof (intro conjI allI impI)
  show "chain_wf (m(h \<mapsto> b))" using assms by (intro chain_wf_insert) (auto simp: block_tree_wf_def)
  fix p c assume c: "(m(h \<mapsto> b)) p = Some c"
  have "linked m c \<and> cumulative m c"
    using c assms by (auto simp: block_tree_wf_def chain_wf_def split: if_splits)
  then show "cumulative (m(h \<mapsto> b)) c"
    using assms(2) by (auto simp: cumulative_def linked_def split: option.splits)
qed

lemma skip_ok_same_links:
  assumes "pprev b' = pprev b" "pskip b' = pskip b" "nHeight b' = nHeight b" "skip_ok (m(h \<mapsto> b)) h b"
  shows "skip_ok (m(h \<mapsto> b')) h b'"
proof -
  have "walk_back (m(h \<mapsto> b)) n p = walk_back (m(h \<mapsto> b')) n p" for n p
    by (rule walk_back_cong) (simp add: assms(1))
  with assms show ?thesis by (auto simp: skip_ok_def split: option.splits)
qed

lemma link_block_result:
  assumes wf: "chain_wf m" and fresh: "m h = None" and ne: "hdr_hashPrevBlock blk \<noteq> h"
    and fits: "\<And>prv. m (hdr_hashPrevBlock blk) = Some prv \<Longrightarrow> int (nHeight prv) + 1 \<le> INT_MAX"
  shows "\<exists>b. link_block (m(h \<mapsto> new_block_index blk)) h blk = Inr (m(h \<mapsto> b)) \<and>
    linked m b \<and> skip_ok (m(h \<mapsto> b)) h b \<and> (pskip b = None \<longleftrightarrow> pprev b = None) \<and> int (nHeight b) \<le> INT_MAX \<and>
    nTime b = hdr_nTime blk \<and> nBits b = hdr_nBits blk \<and> nStatus b = 0 \<and>
    pprev b = (if m (hdr_hashPrevBlock blk) = None then None else Some (hdr_hashPrevBlock blk))"
proof (cases "m (hdr_hashPrevBlock blk)")
  case None
  then show ?thesis using ne
    by (intro exI [of _ "new_block_index blk"])
      (simp add: link_block_def new_block_index_def linked_def skip_ok_def INT_MAX_def)
next
  case (Some prv)
  let ?p = "hdr_hashPrevBlock blk"
  let ?b = "(new_block_index blk)\<lparr>pprev := Some ?p, nHeight := nHeight prv + 1\<rparr>"
  let ?m = "m(h \<mapsto> ?b)" and ?sk = "GetSkipHeight (nHeight prv + 1)"
  have lk: "linked m ?b" using Some by (simp add: linked_def)
  have wf1: "chain_wf ?m"
    by (rule chain_wf_insert [OF wf fresh lk]) (simp add: skip_ok_def new_block_index_def)
  have sk: "?sk \<le> nHeight prv" using GetSkipHeight_less [of "nHeight prv + 1"] by simp
  have mp: "?m ?p = Some prv" using Some ne by simp
  obtain q where q: "GetAncestor ?m ?p (int ?sk) = Inr (Some q)"
      "walk_back ?m (nHeight prv - ?sk) ?p = Some q"
    using GetAncestor_correct [OF wf1 mp of_nat_0_le_iff, unfolded of_nat_le_iff nat_int, OF sk] by blast
  let ?b2 = "?b\<lparr>pskip := Some q\<rparr>"
  have "walk_back ?m (nHeight prv + 1 - ?sk) h = Some q"
  proof -
    have "nHeight prv + 1 - ?sk = Suc (nHeight prv - ?sk)" using sk by simp
    then show ?thesis using q(2) by simp
  qed
  moreover have "walk_back ?m n p = walk_back (m(h \<mapsto> ?b2)) n p" for n p
    by (rule walk_back_cong) simp
  ultimately have "skip_ok (m(h \<mapsto> ?b2)) h ?b2" by (simp add: skip_ok_def)
  moreover have "link_block (m(h \<mapsto> new_block_index blk)) h blk = Inr (m(h \<mapsto> ?b2))"
    using Some ne q(1) fits [OF Some] by (simp add: link_block_def BuildSkip_def)
  moreover have "linked m ?b2" using Some by (simp add: linked_def)
  ultimately show ?thesis using Some fits [OF Some]
    by (intro exI [of _ ?b2]) (simp add: new_block_index_def)
qed

lemma accumulate_block_result:
  assumes "block_tree_wf m" "m h = None" "linked m b"
  shows "\<exists>b'. accumulate_block (m(h \<mapsto> b)) h = Inr b' \<and> cumulative m b' \<and>
    pprev b' = pprev b \<and> pskip b' = pskip b \<and> nHeight b' = nHeight b \<and> nStatus b' = nStatus b"
proof -
  obtain w where w: "GetBlockProof (nBits b) = Inr w" "limb_wf w" "limbs_val w = block_work (nBits b)"
    using GetBlockProof_work by blast
  show ?thesis
  proof (cases "pprev b")
    case None
    then show ?thesis
      using w limbs_val_of_u64 [of 0] limbs_val_add [OF limbs_val_of_u64(2) [of 0] w(2)]
      by (auto simp: accumulate_block_def cumulative_def)
  next
    case (Some p)
    then obtain pb where pb: "m p = Some pb"
      using assms(3) by (auto simp: linked_def split: option.splits)
    with assms(2) have ne: "p \<noteq> h" by auto
    from pb have "limb_wf (nChainWork pb)"
      using assms(1) by (auto simp: block_tree_wf_def cumulative_def Let_def)
    then show ?thesis
      using w Some pb ne limbs_val_add [of "nChainWork pb" w]
      by (auto simp: accumulate_block_def cumulative_def)
  qed
qed

lemma RaiseValidity_fresh:
  "nStatus b = 0 \<Longrightarrow> RaiseValidity b BLOCK_VALID_TREE = Inr (b\<lparr>nStatus := BLOCK_VALID_TREE\<rparr>, True)"
  by (simp add: RaiseValidity_def BLOCK_VALID_TREE_def BLOCK_VALID_MASK_def BLOCK_FAILED_MASK_def)

lemma length_path_to [simp]: "length (path_to m p H) = H + 1"
  by (simp add: path_to_def)

lemma nth_path_to: "h \<le> H \<Longrightarrow> path_to m p H ! h = walk_back m (H - h) p"
  by (simp add: path_to_def nth_append)

lemma active_chain_walk:
  assumes "active_chain m c" "h < length c" "c ! h = Some q" "d \<le> h"
  shows "c ! (h - d) = walk_back m d q"
  using assms
proof (induction d arbitrary: h q)
  case (Suc d)
  from Suc.prems obtain b where b: "m q = Some b" "c ! (h - 1) = pprev b"
    unfolding active_chain_def by (metis Suc_le_lessD option.inject zero_less_Suc order_less_le_trans)
  from Suc.prems obtain q' where q': "c ! (h - 1) = Some q'"
    unfolding active_chain_def by (meson diff_le_self order_le_less_trans)
  have "c ! (h - 1 - d) = walk_back m d q'"
    using Suc.IH [of "h - 1" q'] Suc.prems q' by simp
  with b q' show ?case by simp
qed simp

lemma active_chain_path_to:
  assumes "chain_wf m" "m p = Some b"
  shows "active_chain m (path_to m p (nHeight b))"
  unfolding active_chain_def
proof (intro allI impI)
  let ?H = "nHeight b"
  fix h assume "h < length (path_to m p ?H)"
  then have h: "h \<le> ?H" by simp
  obtain q bq where q: "walk_back m (?H - h) p = Some q" "m q = Some bq" "nHeight bq = ?H - (?H - h)"
    using walk_back_exists [OF assms, of "?H - h"] by auto
  have "walk_back m (?H - (h - 1)) p = pprev bq" if "0 < h"
  proof -
    have e: "?H - (h - 1) = (?H - h) + 1" using that h by simp
    have "walk_back m (?H - (h - 1)) p = walk_back m 1 q"
      unfolding e by (rule walk_back_trans [OF q(1)])
    then show ?thesis using q(2) by (simp split: option.splits)
  qed
  then show "\<exists>q b'. path_to m p ?H ! h = Some q \<and> m q = Some b' \<and> nHeight b' = h \<and>
      (0 < h \<longrightarrow> path_to m p ?H ! (h - 1) = pprev b')"
    using q h by (intro exI [of _ q] exI [of _ bq]) (simp add: nth_path_to)
qed

lemma set_tip_loop_path:
  assumes wf: "chain_wf m" and p: "m p = Some b" and H: "H = nHeight b"
    and old: "active_chain m c"
  shows "\<lbrakk>length v = H + 1; j \<le> H; j < fuel; walk_back m (H - j) p = Some q;
      \<And>h. j < h \<Longrightarrow> h \<le> H \<Longrightarrow> v ! h = walk_back m (H - h) p;
      \<And>h. h \<le> j \<Longrightarrow> v ! h = (if h < length c then c ! h else None)\<rbrakk>
    \<Longrightarrow> set_tip_loop fuel m (Some q) v = Some (path_to m p H)"
proof (induction j arbitrary: fuel q v)
  case 0
  obtain bq where bq: "m q = Some bq" "nHeight bq = 0"
    using walk_back_exists [OF wf p, of H] 0 H by auto
  obtain f where f: "fuel = Suc f" using 0 by (cases fuel) auto
  have pp: "pprev bq = None" using linked_root bq chain_wfD [OF wf bq(1)] by blast
  have eq: "v[0 := Some q] = path_to m p H"
    using 0 by (intro nth_equalityI) (auto simp: nth_path_to nth_list_update simp flip: less_Suc_eq_le)
  show ?case
  proof (cases "v ! 0 = Some q")
    case True
    then have "v[0 := Some q] = v" by (metis list_update_id)
    with True eq f bq 0 show ?thesis by simp
  next
    case False
    with eq f bq pp 0 show ?thesis by simp
  qed
next
  case (Suc j)
  obtain bq where bq: "m q = Some bq" "nHeight bq = Suc j"
    using walk_back_exists [OF wf p, of "H - Suc j"] Suc.prems H by auto
  obtain f where f: "fuel = Suc f" "j < f" using Suc.prems(3) by (cases fuel) auto
  obtain q' where q': "pprev bq = Some q'"
    using linked_pprev [of m bq] bq chain_wfD [OF wf bq(1)] by auto
  show ?case
  proof (cases "v ! Suc j = Some q")
    case True
    then have lt: "Suc j < length c" and c: "c ! Suc j = Some q"
      using Suc.prems(6) [of "Suc j"] by (auto split: if_splits)
    have "v = path_to m p H"
    proof (rule nth_equalityI)
      fix h assume "h < length v"
      then have h: "h \<le> H" using Suc.prems(1) by simp
      show "v ! h = path_to m p H ! h"
      proof (cases "h \<le> Suc j")
        case h2: True
        have "v ! h = c ! (Suc j - (Suc j - h))" using Suc.prems(6) [OF h2] h2 lt by simp
        also have "\<dots> = walk_back m (Suc j - h) q"
          by (rule active_chain_walk [OF old lt c]) simp
        also have "\<dots> = walk_back m ((H - Suc j) + (Suc j - h)) p"
          by (rule walk_back_trans [OF Suc.prems(4), symmetric])
        finally show ?thesis using h h2 Suc.prems(2) by (simp add: nth_path_to)
      qed (use Suc.prems(5) h in \<open>simp add: nth_path_to\<close>)
    qed (use Suc.prems(1) in simp)
    with True f bq Suc.prems(1,2) show ?thesis by simp
  next
    case False
    have e: "H - j = (H - Suc j) + 1" using Suc.prems(2) by simp
    have "walk_back m (H - j) p = walk_back m 1 q"
      unfolding e by (rule walk_back_trans [OF Suc.prems(4)])
    then have w: "walk_back m (H - j) p = Some q'" using bq q' by simp
    have "set_tip_loop f m (Some q') (v[Suc j := Some q]) = Some (path_to m p H)"
    proof (rule Suc.IH)
      show "v[Suc j := Some q] ! h = walk_back m (H - h) p" if "j < h" "h \<le> H" for h
        using that Suc.prems by (cases "h = Suc j") auto
      show "v[Suc j := Some q] ! h = (if h < length c then c ! h else None)" if "h \<le> j" for h
        using that Suc.prems(6) [of h] by simp
    qed (use Suc.prems f w in auto)
    with False f bq q' Suc.prems(1,2) show ?thesis by simp
  qed
qed

lemma SetTip_path:
  assumes "chain_wf m" "m p = Some b" "active_chain m c"
  shows "SetTip m p c = Some (path_to m p (nHeight b))"
proof -
  let ?H = "nHeight b" and ?v = "vector_resize (nHeight b + 1) None c"
  have "set_tip_loop (?H + 1) m (Some p) ?v = Some (path_to m p ?H)"
    by (rule set_tip_loop_path [OF assms(1,2) refl assms(3), where j = ?H])
      (auto simp: vector_resize_def nth_append)
  then show ?thesis using assms(2) by (simp add: SetTip_def)
qed

lemma lca_loop_correct:
  assumes wf: "chain_wf m"
  shows "\<lbrakk>m a = Some ba; m b = Some bb; nHeight ba = nHeight bb; nHeight ba < fuel;
     \<exists>n. walk_back m n a = walk_back m n b \<and> walk_back m n a \<noteq> None\<rbrakk> \<Longrightarrow>
    \<exists>n q. lca_loop fuel m (Some a) (Some b) = Inr (Some q) \<and> walk_back m n a = Some q \<and>
      walk_back m n b = Some q \<and> (\<forall>k < n. walk_back m k a \<noteq> walk_back m k b)"
proof (induction fuel arbitrary: a b ba bb)
  case (Suc f)
  show ?case
  proof (cases "a = b")
    case True
    then show ?thesis by (intro exI [of _ 0] exI [of _ a]) simp
  next
    case False
    from Suc.prems(5) obtain n where n: "walk_back m n a = walk_back m n b" "walk_back m n a \<noteq> None" by blast
    with False obtain n' where n': "n = Suc n'" by (cases n) auto
    obtain pa pba where pa: "pprev ba = Some pa" "m pa = Some pba" "nHeight ba = Suc (nHeight pba)"
      using n n' Suc.prems(1) linked_pprev [of m ba] linked_root [of m ba] chain_wfD [OF wf Suc.prems(1)]
      by (cases "nHeight ba") auto
    obtain pb pbb where pb: "pprev bb = Some pb" "m pb = Some pbb" "nHeight bb = Suc (nHeight pbb)"
      using pa(3) Suc.prems(3) linked_pprev [of m bb] chain_wfD [OF wf Suc.prems(2)] by auto
    have "\<exists>n. walk_back m n pa = walk_back m n pb \<and> walk_back m n pa \<noteq> None"
      using n n' pa pb Suc.prems(1,2) by auto
    then obtain k q where k: "lca_loop f m (Some pa) (Some pb) = Inr (Some q)" "walk_back m k pa = Some q"
      "walk_back m k pb = Some q" "\<forall>j < k. walk_back m j pa \<noteq> walk_back m j pb"
      using Suc.IH [OF pa(2) pb(2)] pa(3) pb(3) Suc.prems(3,4) by auto
    have "\<forall>j < Suc k. walk_back m j a \<noteq> walk_back m j b"
    proof (intro allI impI)
      fix j assume "j < Suc k"
      then show "walk_back m j a \<noteq> walk_back m j b"
        using k(4) False pa(1) pb(1) Suc.prems(1,2) by (cases j) auto
    qed
    with k(1-3) False pa(1) pb(1) Suc.prems(1,2) show ?thesis
      by (intro exI [of _ "Suc k"] exI [of _ q]) simp
  qed
qed simp

lemma walk_back_height:
  "chain_wf m \<Longrightarrow> m p = Some b \<Longrightarrow> walk_back m n p = Some q \<Longrightarrow>
   n \<le> nHeight b \<and> (\<exists>bq. m q = Some bq \<and> nHeight bq = nHeight b - n)"
proof (induction n arbitrary: p b)
  case (Suc n)
  from Suc.prems obtain p' where p': "pprev b = Some p'" "walk_back m n p' = Some q"
    by (auto split: option.splits)
  then obtain b' where b': "m p' = Some b'" "nHeight b = Suc (nHeight b')"
    using chain_wfD [OF Suc.prems(1,2)] by (auto simp: linked_def split: option.splits)
  with Suc.IH [OF Suc.prems(1) b'(1) p'(2)] show ?case by auto
qed auto

lemma ancestor_at_height:
  assumes "chain_wf m" "m p = Some b" "h \<le> nHeight b"
  shows "\<exists>q bq. (if nHeight b > h then GetAncestor m p (int h) else Inr (Some p)) = Inr (Some q) \<and>
    m q = Some bq \<and> nHeight bq = h \<and> walk_back m (nHeight b - h) p = Some q"
proof (cases "nHeight b > h")
  case True
  then show ?thesis
    using GetAncestor_correct [OF assms(1,2) of_nat_0_le_iff, unfolded of_nat_le_iff nat_int, OF assms(3)]
    by auto
qed (use assms in auto)

text \<open>An ancestor below the cut height is reached through the entry at the cut height.\<close>

lemma ancestor_below_cut:
  assumes "chain_wf m" "m p = Some b" "walk_back m (nHeight b - h) p = Some p'" "h \<le> nHeight b"
    and "walk_back m n p = Some x" "m x = Some bx" "nHeight bx \<le> h"
  shows "walk_back m (h - nHeight bx) p' = Some x"
proof -
  have "nHeight bx = nHeight b - n" "n \<le> nHeight b"
    using walk_back_height [OF assms(1,2,5)] assms(6) by auto
  then have "n = (nHeight b - h) + (h - nHeight bx)" using assms(4,7) by simp
  then show ?thesis using walk_back_trans [OF assms(3)] assms(5) by simp
qed

lemma LastCommonAncestor_correct:
  assumes wf: "chain_wf m" and a: "m a = Some ba" and b: "m b = Some bb"
    and x: "is_ancestor m x a" "is_ancestor m x b"
  shows "\<exists>q. LastCommonAncestor m a b = Inr (Some q) \<and> is_ancestor m q a \<and> is_ancestor m q b \<and>
    (\<forall>y. is_ancestor m y a \<and> is_ancestor m y b \<longrightarrow> is_ancestor m y q)"
proof -
  let ?h = "min (nHeight ba) (nHeight bb)"
  obtain a' ba' where a': "(if nHeight ba > ?h then GetAncestor m a (int ?h) else Inr (Some a)) = Inr (Some a')"
    "m a' = Some ba'" "nHeight ba' = ?h" "walk_back m (nHeight ba - ?h) a = Some a'"
    using ancestor_at_height [OF wf a, of ?h] by auto
  obtain b' bb' where b': "(if nHeight bb > ?h then GetAncestor m b (int ?h) else Inr (Some b)) = Inr (Some b')"
    "m b' = Some bb'" "nHeight bb' = ?h" "walk_back m (nHeight bb - ?h) b = Some b'"
    using ancestor_at_height [OF wf b, of ?h] by auto
  have common: "\<exists>d. walk_back m d a' = Some y \<and> walk_back m d b' = Some y"
    if y: "is_ancestor m y a" "is_ancestor m y b" for y
  proof -
    obtain i j where i: "walk_back m i a = Some y" and j: "walk_back m j b = Some y"
      using y by (auto simp: is_ancestor_def)
    obtain ly where ly: "m y = Some ly" "nHeight ly = nHeight ba - i" using walk_back_height [OF wf a i] by auto
    moreover have "nHeight ly = nHeight bb - j" using walk_back_height [OF wf b j] ly by auto
    ultimately have "nHeight ly \<le> ?h" by simp
    then show ?thesis
      using ancestor_below_cut [OF wf a a'(4) _ i ly(1)] ancestor_below_cut [OF wf b b'(4) _ j ly(1)] by auto
  qed
  have e: "\<exists>n. walk_back m n a' = walk_back m n b' \<and> walk_back m n a' \<noteq> None"
    using common [OF x] by (metis option.distinct(1))
  have eq: "nHeight ba' = nHeight bb'" and lt: "nHeight ba' < nHeight ba + nHeight bb + 1"
    using a'(3) b'(3) by simp_all
  obtain n q where n: "lca_loop (nHeight ba + nHeight bb + 1) m (Some a') (Some b') = Inr (Some q)"
    "walk_back m n a' = Some q" "walk_back m n b' = Some q" "\<forall>k < n. walk_back m k a' \<noteq> walk_back m k b'"
    using lca_loop_correct [OF wf a'(2) b'(2) eq lt e] by blast
  have "LastCommonAncestor m a b = lca_loop (nHeight ba + nHeight bb + 1) m (Some a') (Some b')"
    using a b a'(1) b'(1) by (auto simp: LastCommonAncestor_def Let_def min_def simp del: lca_loop.simps split: if_splits)
  moreover have "is_ancestor m q a" "is_ancestor m q b"
    unfolding is_ancestor_def
    using walk_back_trans [OF a'(4), of n] walk_back_trans [OF b'(4), of n] n(2,3) by auto
  moreover have "is_ancestor m y q" if y: "is_ancestor m y a" "is_ancestor m y b" for y
  proof -
    obtain d where d: "walk_back m d a' = Some y" "walk_back m d b' = Some y" using common [OF y] by blast
    with n(4) have "n \<le> d" by (metis not_less)
    then have "walk_back m (d - n) q = Some y"
      using walk_back_trans [OF n(2), of "d - n"] d(1) by simp
    then show ?thesis by (auto simp: is_ancestor_def)
  qed
  ultimately show ?thesis using n(1) by metis
qed

lemma is_fork_step:
  assumes "\<not> CChain_Contains m c p" "m p = Some b" "pprev b = Some q" "is_fork m c q r"
  shows "is_fork m c p r"
proof (cases r)
  case None
  have "\<not> CChain_Contains m c y" if "walk_back m k p = Some y" for k y
    using that assms None by (cases k) (auto simp: is_fork_def)
  then show ?thesis using None by (simp add: is_fork_def)
next
  case (Some x)
  with assms(4) obtain n where n: "CChain_Contains m c x" "walk_back m n q = Some x"
    "\<forall>k < n. \<forall>y. walk_back m k q = Some y \<longrightarrow> \<not> CChain_Contains m c y" by (auto simp: is_fork_def)
  have "\<not> CChain_Contains m c y" if "k < Suc n" "walk_back m k p = Some y" for k y
    using that n(3) assms(1-3) by (cases k) auto
  then show ?thesis using Some n assms(2,3) by (auto simp: is_fork_def intro!: exI [of _ "Suc n"])
qed

lemma find_fork_loop_correct:
  "chain_wf m \<Longrightarrow> m p = Some b \<Longrightarrow> nHeight b < fuel \<Longrightarrow>
   \<exists>r. find_fork_loop fuel m c (Some p) = Some r \<and> is_fork m c p r"
proof (induction fuel arbitrary: p b)
  case (Suc fuel)
  show ?case
  proof (cases "CChain_Contains m c p")
    case True
    then show ?thesis by (auto simp: is_fork_def intro!: exI [of _ 0])
  next
    case False
    note lk = chain_wfD [OF Suc.prems(1,2)]
    show ?thesis
    proof (cases "pprev b")
      case None
      have "\<not> CChain_Contains m c y" if "walk_back m k p = Some y" for k y
        using that False None Suc.prems(2) by (cases k) auto
      then show ?thesis using False None Suc.prems(2) by (auto simp: is_fork_def)
    next
      case (Some q)
      then obtain bq where "m q = Some bq" "nHeight b = Suc (nHeight bq)"
        using lk by (auto simp: linked_def split: option.splits)
      with Suc.IH [of q bq] Suc.prems Some False show ?thesis
        by (auto intro: is_fork_step)
    qed
  qed
qed simp

lemma not_contained_above:
  assumes "m y = Some b" "CChain_Height c < int (nHeight b)"
  shows "\<not> CChain_Contains m c y"
  using assms by (simp add: CChain_Contains_def CChain_at_def CChain_Height_def)

lemma FindFork_correct:
  assumes wf: "chain_wf m" and p: "m p = Some b"
  shows "\<exists>r. FindFork m c (Some p) = Some r \<and> is_fork m c p r"
proof (cases "int (nHeight b) > CChain_Height c")
  case False
  then show ?thesis
    using find_fork_loop_correct [OF wf p, of "nHeight b + 1" c] p
    by (simp add: FindFork_def del: find_fork_loop.simps)
next
  case True
  have above: "\<not> CChain_Contains m c y"
    if w: "walk_back m k p = Some y" and h: "int (nHeight b - k) > CChain_Height c" for k y
  proof -
    obtain l where "m y = Some l" "nHeight l = nHeight b - k" using walk_back_height [OF wf p w] by auto
    then show ?thesis using not_contained_above [of m y l c] h by simp
  qed
  show ?thesis
  proof (cases "CChain_Height c < 0")
    case neg: True
    then have "FindFork m c (Some p) = Some None"
      using True p by (simp add: FindFork_def GetAncestor_def)
    moreover have "is_fork m c p None"
      using above neg by (simp add: is_fork_def)
    ultimately show ?thesis by blast
  next
    case nn: False
    obtain a ba where a: "GetAncestor m p (CChain_Height c) = Inr (Some a)" "m a = Some ba"
      "walk_back m (nHeight b - nat (CChain_Height c)) p = Some a" "nHeight ba = nat (CChain_Height c)"
      using GetAncestor_correct [OF wf p, of "CChain_Height c"] nn True by auto
    have lt: "nHeight ba < nHeight b + 1" using a(4) True nn by simp
    obtain r where r: "find_fork_loop (nHeight b + 1) m c (Some a) = Some r" "is_fork m c a r"
      using find_fork_loop_correct [OF wf a(2) lt] by blast
    have "FindFork m c (Some p) = Some r"
      using True p a(1) r(1) by (simp add: FindFork_def del: find_fork_loop.simps)
    moreover have "is_fork m c p r"
    proof -
      let ?d = "nHeight b - nat (CChain_Height c)"
      have hi: "\<not> CChain_Contains m c y" if "walk_back m k p = Some y" "k < ?d" for k y
        using above [OF that(1)] that(2) nn by simp
      have lo: "walk_back m k p = walk_back m (k - ?d) a" if "?d \<le> k" for k
        using walk_back_trans [OF a(3), of "k - ?d"] that by simp
      show ?thesis
      proof (cases r)
        case None
        then have n: "\<not> CChain_Contains m c y" if "walk_back m k a = Some y" for k y
          using r(2) that by (auto simp: is_fork_def)
        have "\<not> CChain_Contains m c y" if "walk_back m k p = Some y" for k y
          using hi [OF that] lo [of k] n [of "k - ?d" y] that by (cases "k < ?d") auto
        then show ?thesis using None by (simp add: is_fork_def)
      next
        case (Some x)
        then obtain n where n: "CChain_Contains m c x" "walk_back m n a = Some x"
          "\<forall>k < n. \<forall>y. walk_back m k a = Some y \<longrightarrow> \<not> CChain_Contains m c y"
          using r(2) by (auto simp: is_fork_def)
        have "\<not> CChain_Contains m c y" if "k < ?d + n" "walk_back m k p = Some y" for k y
        proof (cases "k < ?d")
          case False
          then have "walk_back m (k - ?d) a = Some y" "k - ?d < n" using lo [of k] that by auto
          then show ?thesis using n(3) by blast
        qed (use hi [OF that(2)] in simp)
        then show ?thesis using Some n walk_back_trans [OF a(3), of n]
          by (auto simp: is_fork_def intro!: exI [of _ "?d + n"])
      qed
    qed
    ultimately show ?thesis by blast
  qed
qed

lemma AddToBlockIndex_fresh:
  assumes wf: "block_tree_wf (m_block_index bm)" and fresh: "m_block_index bm h = None"
    and st: "status AND BLOCK_FAILED_MASK = 0" and ne: "hdr_hashPrevBlock blk \<noteq> h"
    and fits: "\<And>prv. m_block_index bm (hdr_hashPrevBlock blk) = Some prv \<Longrightarrow> int (nHeight prv) + 1 \<le> INT_MAX"
  shows "\<exists>bm' b. AddToBlockIndex bm h blk status = Inr bm' \<and>
    m_block_index bm' = (m_block_index bm)(h \<mapsto> b) \<and> block_tree_wf (m_block_index bm') \<and>
    (pskip b = None \<longleftrightarrow> pprev b = None) \<and> int (nHeight b) \<le> INT_MAX \<and>
    best_header bm' \<in> {best_header bm, Some h} \<and>
    m_dirty_blockindex bm' = insert h (m_dirty_blockindex bm) \<and>
    m_prev_block_index bm' = m_prev_block_index bm @ (case pprev b of None \<Rightarrow> [] | Some p \<Rightarrow> [(p, h)])"
proof -
  let ?m = "m_block_index bm"
  have cw: "chain_wf ?m" using wf by (simp add: block_tree_wf_def)
  obtain b where b: "link_block (?m(h \<mapsto> new_block_index blk)) h blk = Inr (?m(h \<mapsto> b))"
    "linked ?m b" "skip_ok (?m(h \<mapsto> b)) h b" "nStatus b = 0" "pskip b = None \<longleftrightarrow> pprev b = None" "int (nHeight b) \<le> INT_MAX"
    using link_block_result [OF cw fresh ne fits] by metis
  obtain b1 where b1: "accumulate_block (?m(h \<mapsto> b)) h = Inr b1" "cumulative ?m b1"
    "pprev b1 = pprev b" "pskip b1 = pskip b" "nHeight b1 = nHeight b" "nStatus b1 = nStatus b"
    using accumulate_block_result [OF wf fresh b(2)] by blast
  define b2 where "b2 = (if status AND BLOCK_VALID_MASK \<noteq> 0 then b1\<lparr>nStatus := BLOCK_VALID_TREE\<rparr>
      else b1\<lparr>nStatus := BLOCK_VALID_TREE OR status\<rparr>)"
  have b2: "pprev b2 = pprev b" "pskip b2 = pskip b" "nHeight b2 = nHeight b" "linked ?m b2" "cumulative ?m b2"
    using b1(2-5) b(2) by (auto simp: b2_def linked_def cumulative_def split: option.splits)
  have "block_tree_wf (?m(h \<mapsto> b2))"
    by (rule block_tree_wf_insert [OF wf fresh b2(4) skip_ok_same_links [OF b2(1-3) b(3)] b2(5)])
  then show ?thesis
    using st fresh b(1,5,6) b1(1) RaiseValidity_fresh [of b1] b1(3-6) b(4)
    by (cases "status AND BLOCK_VALID_MASK = 0";
        intro exI [of _ "projr (AddToBlockIndex bm h blk status)"] exI [of _ b2])
      (simp_all add: AddToBlockIndex_def b2_def Let_def split: option.split)
qed

lemma AddToBlockIndex_inv:
  assumes inv: "block_manager_inv bm" and ne: "hdr_hashPrevBlock blk \<noteq> h"
    and add: "AddToBlockIndex bm h blk status = Inr bm'"
  shows "block_manager_inv bm'"
proof (cases "m_block_index bm h")
  case (Some b)
  with add inv show ?thesis by (simp add: AddToBlockIndex_def split: if_splits)
next
  case None
  have st: "status AND BLOCK_FAILED_MASK = 0" using add by (simp add: AddToBlockIndex_def split: if_splits)
  have wf: "block_tree_wf (m_block_index bm)" using inv by (simp add: block_manager_inv_def)
  have fits: "int (nHeight prv) + 1 \<le> INT_MAX" if "m_block_index bm (hdr_hashPrevBlock blk) = Some prv" for prv
    using that add None ne st by (auto simp: AddToBlockIndex_def link_block_def split: if_splits)
  obtain b where b: "m_block_index bm' = (m_block_index bm)(h \<mapsto> b)" "block_tree_wf (m_block_index bm')"
    "best_header bm' \<in> {best_header bm, Some h}" "m_dirty_blockindex bm' = insert h (m_dirty_blockindex bm)"
    "m_prev_block_index bm' = m_prev_block_index bm @ (case pprev b of None \<Rightarrow> [] | Some p \<Rightarrow> [(p, h)])"
    "pskip b = None \<longleftrightarrow> pprev b = None" "int (nHeight b) \<le> INT_MAX"
    using AddToBlockIndex_fresh [OF wf None st ne fits] add by auto
  have ex: "prev_index_exact bm" using inv by (simp add: block_manager_inv_def)
  then have "(p, h) \<notin> set (m_prev_block_index bm)" for p
    using None by (simp add: prev_index_exact_def)
  with ex have "prev_index_exact bm'"
    unfolding prev_index_exact_def b(1,5) by (auto split: option.split)
  moreover have "skips_built (m_block_index bm')" using b(1,6,7) inv by (auto simp: block_manager_inv_def skips_built_def)
  ultimately show ?thesis using b inv by (auto simp: block_manager_inv_def)
qed

lemma AddToBlockIndex_dom:
  assumes "block_manager_inv bm" "hdr_hashPrevBlock blk \<noteq> h" "AddToBlockIndex bm h blk status = Inr bm'"
  shows "dom (m_block_index bm') = insert h (dom (m_block_index bm))"
proof (cases "m_block_index bm h")
  case None
  have "int (nHeight prv) + 1 \<le> INT_MAX" if "m_block_index bm (hdr_hashPrevBlock blk) = Some prv" for prv
    using that assms None by (auto simp: AddToBlockIndex_def link_block_def split: if_splits)
  moreover have "status AND BLOCK_FAILED_MASK = 0" using assms(3) by (simp add: AddToBlockIndex_def split: if_splits)
  ultimately show ?thesis using AddToBlockIndex_fresh [OF _ None _ assms(2)] assms(1,3) by (fastforce simp: block_manager_inv_def)
qed (use assms in \<open>auto simp: AddToBlockIndex_def split: if_splits\<close>)

lemma empty_block_manager_inv: "block_manager_inv empty_block_manager"
  by (simp add: block_manager_inv_def empty_block_manager_def block_tree_wf_def chain_wf_def prev_index_exact_def skips_built_def)

lemma reachable_inv:
  "block_manager_reachable GetHash hdrs bm \<Longrightarrow> \<forall>blk\<in>set hdrs. hdr_hashPrevBlock blk \<noteq> GetHash blk \<Longrightarrow>
   block_manager_inv bm \<and> dom (m_block_index bm) = GetHash ` set hdrs"
proof (induction rule: block_manager_reachable.induct)
  case init
  then show ?case using empty_block_manager_inv by (simp add: empty_block_manager_def)
next
  case (add hdrs bm blk status bm')
  then show ?case using AddToBlockIndex_inv [of bm blk "GetHash blk" status bm'] AddToBlockIndex_dom [of bm blk "GetHash blk" status bm'] by simp
qed

lemma example_manager_steps:
  "AddToBlockIndex empty_block_manager [1] (example_header [0] 1) 1 = Inr example_root"
  "AddToBlockIndex example_root [2] (example_header [1] 2) 1 = Inr example_manager"
  "map_option pprev (m_block_index example_manager [2]) = Some (Some [1])"
proof -
  have "\<not> isl (AddToBlockIndex empty_block_manager [1] (example_header [0] 1) 1)" by code_simp
  then show "AddToBlockIndex empty_block_manager [1] (example_header [0] 1) 1 = Inr example_root"
    by (simp add: example_root_def)
  have "\<not> isl (AddToBlockIndex example_root [2] (example_header [1] 2) 1)" by code_simp
  then show "AddToBlockIndex example_root [2] (example_header [1] 2) 1 = Inr example_manager"
    by (simp add: example_manager_def)
  show "map_option pprev (m_block_index example_manager [2]) = Some (Some [1])" by code_simp
qed

lemma example_manager_reachable:
  "block_manager_reachable example_hash [example_header [0] 1, example_header [1] 2] example_manager"
  "\<forall>blk\<in>set [example_header [0] 1, example_header [1] 2]. hdr_hashPrevBlock blk \<noteq> example_hash blk"
proof -
  have "block_manager_reachable example_hash [example_header [0] 1] example_root"
    using block_manager_reachable.add [OF block_manager_reachable.init, of example_hash "example_header [0] 1" 1 example_root]
      example_manager_steps(1) by (simp add: example_hash_def example_header_def)
  then show "block_manager_reachable example_hash [example_header [0] 1, example_header [1] 2] example_manager"
    using block_manager_reachable.add [of example_hash "[example_header [0] 1]" example_root "example_header [1] 2" 1 example_manager]
      example_manager_steps(2) by (simp add: example_hash_def example_header_def)
qed (simp add: example_hash_def example_header_def)

text \<open>
  (C1) Whatever headers arrive in whatever order, none of them naming its own hash as its predecessor, the block
  index built by \<open>AddToBlockIndex\<close> holds their hashes and stays a well-formed tree: heights count predecessors and fit 32 bits,
  every entry but the roots has a skip pointer, which is the ancestor at \<open>GetSkipHeight\<close>, chain work is the predecessor's work plus the
  block's own modulo \<open>2 ^ 256\<close>, the time maximum is cumulative, and the children multimap lists exactly the predecessor links. A further header is
  added without error if its status has no failure flag and its height fits.
\<close>

theorem block_manager_reachable_inv:
  assumes "block_manager_reachable GetHash hdrs bm" "\<forall>blk\<in>set hdrs. hdr_hashPrevBlock blk \<noteq> GetHash blk"
  shows "block_manager_inv bm \<and> dom (m_block_index bm) = GetHash ` set hdrs \<and>
    (\<forall>blk status. hdr_hashPrevBlock blk \<noteq> GetHash blk \<longrightarrow> status AND BLOCK_FAILED_MASK = 0 \<longrightarrow>
       (\<forall>prv. m_block_index bm (hdr_hashPrevBlock blk) = Some prv \<longrightarrow> int (nHeight prv) + 1 \<le> INT_MAX) \<longrightarrow>
       (\<exists>bm'. AddToBlockIndex bm (GetHash blk) blk status = Inr bm'))"
proof (intro conjI allI impI)
  fix blk status
  assume h: "hdr_hashPrevBlock blk \<noteq> GetHash blk" "status AND BLOCK_FAILED_MASK = 0"
    "\<forall>prv. m_block_index bm (hdr_hashPrevBlock blk) = Some prv \<longrightarrow> int (nHeight prv) + 1 \<le> INT_MAX"
  have wf: "block_tree_wf (m_block_index bm)" using reachable_inv [OF assms] by (simp add: block_manager_inv_def)
  show "\<exists>bm'. AddToBlockIndex bm (GetHash blk) blk status = Inr bm'"
  proof (cases "m_block_index bm (GetHash blk)")
    case None
    then show ?thesis using AddToBlockIndex_fresh [OF wf None h(2,1)] h(3) by blast
  qed (use h(2) in \<open>auto simp: AddToBlockIndex_def\<close>)
qed (use reachable_inv [OF assms] in auto)

theorem block_manager_reachable_inv_witness:
  "block_manager_reachable example_hash [example_header [0] 1, example_header [1] 2] example_manager \<and>
   block_manager_inv example_manager \<and> dom (m_block_index example_manager) = {[1], [2]} \<and>
   map_option pprev (m_block_index example_manager [2]) = Some (Some [1])"
  using block_manager_reachable_inv [OF example_manager_reachable] example_manager_reachable(1)
    example_manager_steps(3) by (simp add: example_hash_def example_header_def)

text \<open>
  (C2) The skip-list search of \<open>GetAncestor\<close> returns the block that plain predecessor
  steps reach, at the requested height, and never fails its asserts on a well-formed tree;
  heights outside the chain give null.
\<close>

theorem GetAncestor_is_walk:
  assumes "chain_wf m" "m p = Some b"
  shows "GetAncestor m p h =
    Inr (if 0 \<le> h \<and> h \<le> int (nHeight b) then walk_back m (nHeight b - nat h) p else None)"
  using GetAncestor_correct [OF assms, of h] assms(2) by (auto simp: GetAncestor_def)

lemma example_manager_tree: "chain_wf (m_block_index example_manager)"
  using reachable_inv [OF example_manager_reachable] by (simp add: block_manager_inv_def block_tree_wf_def)

lemma example_manager_tip: "\<exists>b. m_block_index example_manager [2] = Some b \<and> nHeight b = 1"
proof -
  have "map_option nHeight (m_block_index example_manager [2]) = Some 1" by code_simp
  then show ?thesis by auto
qed

theorem GetAncestor_is_walk_witness:
  "GetAncestor (m_block_index example_manager) [2] 0 = Inr (walk_back (m_block_index example_manager) 1 [2])"
proof -
  obtain b where b: "m_block_index example_manager [2] = Some b" "nHeight b = 1" using example_manager_tip by blast
  show ?thesis using GetAncestor_is_walk [OF example_manager_tree b(1), of 0] b(2) by simp
qed

text \<open>
  (C6) \<open>GetBlockProof\<close> never divides by zero and computes \<open>2 ^ 256 div (target + 1)\<close>, the
  expected number of hashes, although \<open>2 ^ 256\<close> does not fit its 256-bit integers; a negative,
  overflowing or zero target has work zero.
\<close>

theorem GetBlockProof_expected_hashes:
  "\<exists>w. GetBlockProof bits = Inr w \<and> limb_wf w \<and> limbs_val w = block_work bits"
  by (rule GetBlockProof_work)

text \<open>
  (C7) \<open>SetTip\<close> overwrites the active chain with exactly the path from the root to the new
  tip, although it stops at the first entry already in place; the result is again an active chain.
\<close>

theorem SetTip_installs_path:
  assumes "chain_wf m" "m p = Some b" "active_chain m c"
  shows "SetTip m p c = Some (path_to m p (nHeight b)) \<and> active_chain m (path_to m p (nHeight b))"
  using SetTip_path [OF assms] active_chain_path_to [OF assms(1,2)] by simp

theorem SetTip_installs_path_witness:
  "SetTip (m_block_index example_manager) [2] [] = Some (path_to (m_block_index example_manager) [2] 1)"
proof -
  obtain b where b: "m_block_index example_manager [2] = Some b" "nHeight b = 1" using example_manager_tip by blast
  show ?thesis using SetTip_installs_path [OF example_manager_tree b(1), of "[]"] b(2) by (simp add: active_chain_def)
qed

text \<open>
  (C32) \<open>LastCommonAncestor\<close> of two blocks that share an ancestor returns an ancestor of both,
  and every common ancestor is an ancestor of it.
\<close>

theorem LastCommonAncestor_greatest:
  assumes "chain_wf m" "m a = Some ba" "m b = Some bb" "is_ancestor m x a" "is_ancestor m x b"
  shows "\<exists>q. LastCommonAncestor m a b = Inr (Some q) \<and> is_ancestor m q a \<and> is_ancestor m q b \<and>
    (\<forall>y. is_ancestor m y a \<and> is_ancestor m y b \<longrightarrow> is_ancestor m y q)"
  using LastCommonAncestor_correct [OF assms] by blast

lemma is_ancestor_refl: "is_ancestor m x x"
  unfolding is_ancestor_def by (rule exI [of _ 0]) simp

theorem LastCommonAncestor_greatest_witness:
  "\<exists>q. LastCommonAncestor (m_block_index example_manager) [2] [2] = Inr (Some q) \<and>
    is_ancestor (m_block_index example_manager) [2] q"
proof -
  obtain b where b: "m_block_index example_manager [2] = Some b" "nHeight b = 1" using example_manager_tip by blast
  show ?thesis
    using LastCommonAncestor_greatest [OF example_manager_tree b(1) b(1) is_ancestor_refl is_ancestor_refl]
      is_ancestor_refl by blast
qed

text \<open>
  (C33) \<open>FindFork\<close> finds the first block on the way down from a given block that is on the
  active chain, or null when there is none; it never runs past the root.
\<close>

theorem FindFork_first_contained:
  assumes "chain_wf m" "m p = Some b"
  shows "\<exists>r. FindFork m c (Some p) = Some r \<and> is_fork m c p r"
  by (rule FindFork_correct [OF assms])

theorem FindFork_first_contained_witness:
  "\<exists>r. FindFork (m_block_index example_manager) [Some [1]] (Some [2]) = Some r \<and>
     is_fork (m_block_index example_manager) [Some [1]] [2] r"
proof -
  obtain b where b: "m_block_index example_manager [2] = Some b" "nHeight b = 1" using example_manager_tip by blast
  show ?thesis using FindFork_first_contained [OF example_manager_tree b(1)] by blast
qed

end
