(* ===== verification/JsValue.thy ===== *)
theory JsValue
  imports Prelude Complex_Main
begin

text \<open>
  JavaScript values as the utility library of the benchmark page uses them
  (src/src/immer/extra/js/lib/lodash.js): the value type, strict and same-value-zero equality,
  type tests, and the conversions and comparisons of numbers.

  Numbers are NaN, the infinities, negative zero and the rationals; arithmetic is exact. Rounding to
  IEEE doubles is in JsDouble, for the code whose results depend on it. An object is its \<open>Object#toString\<close> tag and
  its identity. Strings are lists of 8-bit code units.
\<close>

section \<open>Values\<close>

datatype jsnum = NaN | PInf | NInf | NegZero | Fin rat

datatype obj_tag =
  ArgsTag | ArrayTag | BoolTag | DateTag | ErrorTag | FuncTag | GenTag | MapTag | NumberTag |
  ObjectTag | PromiseTag | RegexpTag | SetTag | StringTag | SymbolTag | WeakMapTag | WeakSetTag |
  ArrayBufferTag | DataViewTag | TypedArrayTag string | OtherTag string

datatype jsval =
  Undefined | Null | Bool bool | Num jsnum | Str string | Sym nat | Obj obj_tag nat

datatype js_type = TUndefined | TObject | TBoolean | TNumber | TString | TSymbol | TFunction

fun js_typeof :: "jsval \<Rightarrow> js_type" where
  "js_typeof Undefined = TUndefined"
| "js_typeof Null = TObject"
| "js_typeof (Bool b) = TBoolean"
| "js_typeof (Num n) = TNumber"
| "js_typeof (Str s) = TString"
| "js_typeof (Sym k) = TSymbol"
| "js_typeof (Obj t k) = (if t = FuncTag \<or> t = GenTag then TFunction else TObject)"

fun num_truthy :: "jsnum \<Rightarrow> bool" where
  "num_truthy NaN = False"
| "num_truthy NegZero = False"
| "num_truthy (Fin q) = (q \<noteq> 0)"
| "num_truthy n = True"

fun truthy :: "jsval \<Rightarrow> bool" where
  "truthy Undefined = False"
| "truthy Null = False"
| "truthy (Bool b) = b"
| "truthy (Num n) = num_truthy n"
| "truthy (Str s) = (s \<noteq> [])"
| "truthy (Sym k) = True"
| "truthy (Obj t k) = True"

text \<open>The operator \<open>===\<close> on numbers identifies the two zeros and separates NaN from itself.\<close>

fun zero_norm :: "jsnum \<Rightarrow> jsnum" where
  "zero_norm NegZero = Fin 0"
| "zero_norm n = n"

definition num_strict_eq :: "jsnum \<Rightarrow> jsnum \<Rightarrow> bool" where
  "num_strict_eq a b = (a \<noteq> NaN \<and> zero_norm a = zero_norm b)"

fun strict_eq :: "jsval \<Rightarrow> jsval \<Rightarrow> bool" where
  "strict_eq (Num a) (Num b) = num_strict_eq a b"
| "strict_eq a b = (a = b)"

section \<open>Equality and type tests\<close>

definition eq :: "jsval \<Rightarrow> jsval \<Rightarrow> bool" where
  "eq value other =
     (strict_eq value other \<or> (\<not> strict_eq value value \<and> \<not> strict_eq other other))"

definition baseIsNaN :: "jsval \<Rightarrow> bool" where
  "baseIsNaN value = (\<not> strict_eq value value)"

definition isObject :: "jsval \<Rightarrow> bool" where
  "isObject value =
     (truthy value \<and> (js_typeof value = TObject \<or> js_typeof value = TFunction))"

definition isObjectLike :: "jsval \<Rightarrow> bool" where
  "isObjectLike value = (truthy value \<and> js_typeof value = TObject)"

fun objectToString :: "jsval \<Rightarrow> obj_tag option" where
  "objectToString (Obj t k) = Some t"
| "objectToString v = None"

definition isFunction :: "jsval \<Rightarrow> bool" where
  "isFunction value =
     (let tag = (if isObject value then objectToString value else None)
      in tag = Some FuncTag \<or> tag = Some GenTag)"

definition isArray :: "jsval \<Rightarrow> bool" where
  "isArray value = (objectToString value = Some ArrayTag)"

definition isBoolean :: "jsval \<Rightarrow> bool" where
  "isBoolean value =
     (strict_eq value (Bool True) \<or> strict_eq value (Bool False) \<or>
      (isObjectLike value \<and> objectToString value = Some BoolTag))"

definition isNumber :: "jsval \<Rightarrow> bool" where
  "isNumber value =
     (js_typeof value = TNumber \<or> (isObjectLike value \<and> objectToString value = Some NumberTag))"

definition isString :: "jsval \<Rightarrow> bool" where
  "isString value =
     (js_typeof value = TString \<or>
      (\<not> isArray value \<and> isObjectLike value \<and> objectToString value = Some StringTag))"

definition isSymbol :: "jsval \<Rightarrow> bool" where
  "isSymbol value =
     (js_typeof value = TSymbol \<or> (isObjectLike value \<and> objectToString value = Some SymbolTag))"

definition isNull :: "jsval \<Rightarrow> bool" where
  "isNull value = strict_eq value Null"

definition isNil :: "jsval \<Rightarrow> bool" where
  "isNil value = (value = Null \<or> value = Undefined)"

definition isUndefined :: "jsval \<Rightarrow> bool" where
  "isUndefined value = strict_eq value Undefined"

definition isWeakSet :: "jsval \<Rightarrow> bool" where
  "isWeakSet value = (isObjectLike value \<and> objectToString value = Some WeakSetTag)"

definition isWeakMap :: "jsval \<Rightarrow> bool" where
  "isWeakMap value = (isObjectLike value \<and> objectToString value = Some WeakMapTag)"

definition baseIsMap :: "jsval \<Rightarrow> bool" where
  "baseIsMap value = (isObjectLike value \<and> objectToString value = Some MapTag)"

definition baseIsSet :: "jsval \<Rightarrow> bool" where
  "baseIsSet value = (isObjectLike value \<and> objectToString value = Some SetTag)"

definition baseIsArrayBuffer :: "jsval \<Rightarrow> bool" where
  "baseIsArrayBuffer value = (isObjectLike value \<and> objectToString value = Some ArrayBufferTag)"

definition baseIsDate :: "jsval \<Rightarrow> bool" where
  "baseIsDate value = (isObjectLike value \<and> objectToString value = Some DateTag)"

definition baseIsRegExp :: "jsval \<Rightarrow> bool" where
  "baseIsRegExp value = (isObject value \<and> objectToString value = Some RegexpTag)"

definition isStrictComparable :: "jsval \<Rightarrow> bool" where
  "isStrictComparable value = (strict_eq value value \<and> \<not> isObject value)"

definition isKeyable :: "jsval \<Rightarrow> bool" where
  "isKeyable value =
     (let type = js_typeof value
      in if type = TString \<or> type = TNumber \<or> type = TSymbol \<or> type = TBoolean
         then value \<noteq> Str ''__proto__'' else strict_eq value Null)"

section \<open>Numbers\<close>

definition MAX_SAFE_INTEGER :: int where
  "MAX_SAFE_INTEGER = 9007199254740991"

definition MAX_INTEGER :: int where
  "MAX_INTEGER = (2 ^ 53 - 1) * 2 ^ 971"

definition MAX_ARRAY_LENGTH :: int where
  "MAX_ARRAY_LENGTH = 4294967295"

definition MAX_ARRAY_INDEX :: int where
  "MAX_ARRAY_INDEX = MAX_ARRAY_LENGTH - 1"

definition HALF_MAX_ARRAY_LENGTH :: int where
  "HALF_MAX_ARRAY_LENGTH = MAX_ARRAY_LENGTH div 2"

definition num_of_int :: "int \<Rightarrow> jsnum" where
  "num_of_int i = Fin (of_int i)"

text \<open>The relational operators are false as soon as an operand is NaN.\<close>

fun num_less :: "jsnum \<Rightarrow> jsnum \<Rightarrow> bool" where
  "num_less NaN b = False"
| "num_less a NaN = False"
| "num_less PInf b = False"
| "num_less a PInf = True"
| "num_less a NInf = False"
| "num_less NInf b = True"
| "num_less (Fin p) (Fin q) = (p < q)"
| "num_less NegZero (Fin q) = (0 < q)"
| "num_less (Fin p) NegZero = (p < 0)"
| "num_less NegZero NegZero = False"

definition num_le :: "jsnum \<Rightarrow> jsnum \<Rightarrow> bool" where
  "num_le a b = (num_less a b \<or> num_strict_eq a b)"

definition num_min :: "jsnum \<Rightarrow> jsnum \<Rightarrow> jsnum" where
  "num_min a b = (if a = NaN \<or> b = NaN then NaN else if num_less b a \<or> (b = NegZero \<and> a = Fin 0) then b else a)"

definition num_max :: "jsnum \<Rightarrow> jsnum \<Rightarrow> jsnum" where
  "num_max a b = (if a = NaN \<or> b = NaN then NaN else if num_less a b \<or> (a = NegZero \<and> b = Fin 0) then b else a)"

definition baseClamp :: "jsnum \<Rightarrow> jsnum option \<Rightarrow> jsnum option \<Rightarrow> jsnum" where
  "baseClamp number lower upper =
     (if num_strict_eq number number then
        (let n1 = (case upper of Some u \<Rightarrow> (if num_le number u then number else u) | None \<Rightarrow> number)
         in case lower of Some l \<Rightarrow> (if num_le l n1 then n1 else l) | None \<Rightarrow> n1)
      else number)"

definition baseInRange :: "jsnum \<Rightarrow> jsnum \<Rightarrow> jsnum \<Rightarrow> bool" where
  "baseInRange number start stop =
     (num_le (num_min start stop) number \<and> num_less number (num_max start stop))"

fun toFinite :: "jsnum \<Rightarrow> jsnum" where
  "toFinite PInf = num_of_int MAX_INTEGER"
| "toFinite NInf = num_of_int (- MAX_INTEGER)"
| "toFinite NaN = Fin 0"
| "toFinite n = n"

text \<open>The remainder \<open>% 1\<close> has the sign of the dividend, so subtracting it truncates towards zero.\<close>

definition rat_trunc :: "rat \<Rightarrow> int" where
  "rat_trunc q = (if 0 \<le> q then floor q else ceiling q)"

definition toInteger :: "jsnum \<Rightarrow> jsnum" where
  "toInteger value =
     (case toFinite value of
        Fin q \<Rightarrow> (if q - of_int (rat_trunc q) \<noteq> 0 then Fin (q - (q - of_int (rat_trunc q))) else Fin q)
      | r \<Rightarrow> r)"

definition toLength :: "jsnum \<Rightarrow> jsnum" where
  "toLength value =
     (if num_truthy value
      then baseClamp (toInteger value) (Some (Fin 0)) (Some (num_of_int MAX_ARRAY_LENGTH)) else Fin 0)"

definition toSafeInteger :: "jsnum \<Rightarrow> jsnum" where
  "toSafeInteger value =
     baseClamp (toInteger value) (Some (num_of_int (- MAX_SAFE_INTEGER))) (Some (num_of_int MAX_SAFE_INTEGER))"

text \<open>The integer a finite number stands for when it is used as an index or a count.\<close>

fun num_int :: "jsnum \<Rightarrow> int" where
  "num_int (Fin q) = floor q"
| "num_int n = 0"

definition clamp :: "jsnum \<Rightarrow> jsnum option \<Rightarrow> jsnum option \<Rightarrow> jsnum" where
  "clamp number lower upper =
     (let (lower1, upper1) = (if upper = None then (None, lower) else (lower, upper));
          fix_nan = map_option (\<lambda>n. if num_strict_eq n n then n else Fin 0)
      in baseClamp number (fix_nan lower1) (fix_nan upper1))"

definition inRange :: "jsnum \<Rightarrow> jsnum \<Rightarrow> jsnum option \<Rightarrow> bool" where
  "inRange number start stop =
     (case stop of
        None \<Rightarrow> baseInRange number (Fin 0) (toFinite start)
      | Some e \<Rightarrow> baseInRange number (toFinite start) (toFinite e))"

fun isFinite :: "jsval \<Rightarrow> bool" where
  "isFinite (Num n) = (case n of Fin q \<Rightarrow> True | NegZero \<Rightarrow> True | _ \<Rightarrow> False)"
| "isFinite v = False"

fun isInteger :: "jsval \<Rightarrow> bool" where
  "isInteger (Num n) = num_strict_eq n (toInteger n)"
| "isInteger v = False"

text \<open>\<open>value > -1 && value % 1 == 0 && value <= MAX_SAFE_INTEGER\<close>\<close>

definition num_integral :: "jsnum \<Rightarrow> bool" where
  "num_integral n = (case n of Fin q \<Rightarrow> q = of_int (floor q) | NegZero \<Rightarrow> True | _ \<Rightarrow> False)"

fun isLength :: "jsval \<Rightarrow> bool" where
  "isLength (Num n) =
     (num_less (Fin (-1)) n \<and> num_integral n \<and> num_le n (num_of_int MAX_SAFE_INTEGER))"
| "isLength v = False"

fun isSafeInteger :: "jsval \<Rightarrow> bool" where
  "isSafeInteger (Num n) =
     (isInteger (Num n) \<and> num_le (num_of_int (- MAX_SAFE_INTEGER)) n \<and>
      num_le n (num_of_int MAX_SAFE_INTEGER))"
| "isSafeInteger v = False"

section \<open>Specification vocabulary\<close>

text \<open>A canonical representative of the classes of \<open>eq\<close>.\<close>

fun val_norm :: "jsval \<Rightarrow> jsval" where
  "val_norm (Num n) = Num (zero_norm n)"
| "val_norm v = v"

section \<open>Lemmas\<close>

lemma strict_eq_refl: "strict_eq v v \<longleftrightarrow> v \<noteq> Num NaN"
  by (cases v) (auto simp: num_strict_eq_def)

lemma eq_iff_norm: "eq a b \<longleftrightarrow> val_norm a = val_norm b"
proof (cases a; cases b)
  fix m n assume "a = Num m" "b = Num n"
  then show ?thesis by (cases m; cases n) (auto simp: eq_def num_strict_eq_def)
qed (auto simp: eq_def num_strict_eq_def)

lemma strict_eq_iff: "strict_eq a b \<longleftrightarrow> a \<noteq> Num NaN \<and> eq a b"
proof (cases a; cases b)
  fix m n assume "a = Num m" "b = Num n"
  then show ?thesis by (cases m; cases n) (auto simp: eq_def num_strict_eq_def)
qed (auto simp: eq_def num_strict_eq_def)

lemma eq_refl [simp]: "eq a a"
  by (simp add: eq_iff_norm)

lemma eq_sym: "eq a b \<longleftrightarrow> eq b a"
  by (auto simp: eq_iff_norm)

lemma eq_trans: "eq a b \<Longrightarrow> eq b c \<Longrightarrow> eq a c"
  by (simp add: eq_iff_norm)

lemma val_norm_idem [simp]: "val_norm (val_norm v) = val_norm v"
proof (cases v)
  case (Num n)
  then show ?thesis by (cases n) auto
qed auto

lemma eq_val_norm [simp]: "eq (val_norm a) b = eq a b" "eq a (val_norm b) = eq a b"
  by (simp_all add: eq_iff_norm)

lemma rat_trunc_of_int [simp]: "rat_trunc (of_int i) = i"
  by (simp add: rat_trunc_def)

lemma toInteger_Fin: "toInteger (Fin q) = Fin (of_int (rat_trunc q))"
  by (simp add: toInteger_def)

lemma toInteger_num_of_int [simp]: "toInteger (num_of_int i) = num_of_int i"
  by (simp add: num_of_int_def toInteger_Fin)

lemma toInteger_simps [simp]:
  "toInteger NaN = Fin 0" "toInteger NegZero = NegZero"
  "toInteger PInf = num_of_int MAX_INTEGER" "toInteger NInf = num_of_int (- MAX_INTEGER)"
  by (simp_all add: toInteger_def num_of_int_def rat_trunc_def)

lemma toInteger_cases: "toInteger n = NegZero \<or> (\<exists>i. toInteger n = num_of_int i)"
proof (cases n)
  case (Fin q)
  then show ?thesis by (auto simp: toInteger_Fin num_of_int_def)
next
  case NaN
  then have "toInteger n = num_of_int 0" by (simp add: num_of_int_def)
  then show ?thesis by blast
qed auto

lemma num_int_num_of_int [simp]: "num_int (num_of_int i) = i"
  by (simp add: num_of_int_def)

lemma num_less_of_int [simp]: "num_less (num_of_int i) (num_of_int j) \<longleftrightarrow> i < j"
  by (simp add: num_of_int_def)

lemma num_le_of_int [simp]: "num_le (num_of_int i) (num_of_int j) \<longleftrightarrow> i \<le> j"
  by (auto simp: num_le_def num_of_int_def num_strict_eq_def)

lemma num_strict_eq_of_int [simp]: "num_strict_eq (num_of_int i) (num_of_int j) \<longleftrightarrow> i = j"
  by (simp add: num_of_int_def num_strict_eq_def)

lemma Fin_0_num: "Fin 0 = num_of_int 0"
  by (simp add: num_of_int_def)

lemma num_less_neg_zero [simp]:
  "num_less NegZero (num_of_int j) \<longleftrightarrow> 0 < j" "num_less (num_of_int i) NegZero \<longleftrightarrow> i < 0"
  by (simp_all add: num_of_int_def)

lemma num_le_neg_zero [simp]:
  "num_le NegZero (num_of_int j) \<longleftrightarrow> 0 \<le> j" "num_le (num_of_int i) NegZero \<longleftrightarrow> i \<le> 0"
  by (auto simp: num_le_def num_of_int_def num_strict_eq_def)

lemma baseClamp_int:
  "l \<le> u \<Longrightarrow> baseClamp (num_of_int i) (Some (num_of_int l)) (Some (num_of_int u)) = num_of_int (max l (min i u))"
  by (auto simp: baseClamp_def Let_def)

lemma baseClamp_neg_zero:
  "l \<le> 0 \<Longrightarrow> 0 \<le> u \<Longrightarrow> baseClamp NegZero (Some (num_of_int l)) (Some (num_of_int u)) = NegZero"
  by (simp add: baseClamp_def num_strict_eq_def)

lemma num_int_toLength: "num_int (toLength n) = max 0 (min (num_int (toInteger n)) MAX_ARRAY_LENGTH)"
proof (cases "num_truthy n")
  case False
  then have "n = NaN \<or> n = NegZero \<or> n = Fin 0" by (cases n) auto
  then have "num_int (toInteger n) = 0" by (auto simp: Fin_0_num)
  with False show ?thesis by (simp add: toLength_def MAX_ARRAY_LENGTH_def)
next
  case True
  have "(0 :: int) \<le> MAX_ARRAY_LENGTH" by (simp add: MAX_ARRAY_LENGTH_def)
  with True toInteger_cases [of n] show ?thesis
    by (auto simp: toLength_def Fin_0_num baseClamp_int baseClamp_neg_zero)
qed

section \<open>Properties\<close>

text \<open>
  \<open>_.eq\<close> is same-value-zero equality: an equivalence relation whose only deviations
  from identity of values are the two zeros, and which differs from \<open>===\<close> exactly on NaN.
\<close>

theorem eq_same_value_zero:
  "equivp eq \<and> eq a b = (a = b \<or> {a, b} = {Num NegZero, Num (Fin 0)}) \<and>
   (strict_eq a b \<longleftrightarrow> eq a b \<and> a \<noteq> Num NaN)"
proof -
  have "equivp eq" by (rule equivpI) (auto intro!: reflpI sympI transpI simp: eq_iff_norm)
  moreover have "eq a b = (a = b \<or> {a, b} = {Num NegZero, Num (Fin 0)})"
  proof (cases a; cases b)
    fix m n assume "a = Num m" "b = Num n"
    then show ?thesis by (cases m; cases n) (auto simp: eq_iff_norm doubleton_eq_iff)
  qed (auto simp: eq_iff_norm doubleton_eq_iff)
  ultimately show ?thesis using strict_eq_iff by blast
qed

text \<open>
  Conversions of numbers: \<open>toInteger\<close> always returns a finite integral number that is
  the argument truncated towards zero (NaN gives zero, the infinities the largest double),
  \<open>toLength\<close> stays within the array length bounds and \<open>toSafeInteger\<close> within the safe integers.
\<close>

theorem integer_conversions:
  "num_integral (toInteger n) \<and> (\<forall>q. n = Fin q \<longrightarrow> num_int (toInteger n) = rat_trunc q) \<and>
   0 \<le> num_int (toLength n) \<and> num_int (toLength n) \<le> MAX_ARRAY_LENGTH \<and>
   (\<bar>num_int (toInteger n)\<bar> \<le> MAX_SAFE_INTEGER \<longrightarrow> num_int (toSafeInteger n) = num_int (toInteger n)) \<and>
   \<bar>num_int (toSafeInteger n)\<bar> \<le> MAX_SAFE_INTEGER"
proof -
  have "num_integral (toInteger n)"
    using toInteger_cases [of n] by (auto simp: num_integral_def num_of_int_def)
  moreover have "0 \<le> num_int (toLength n)" "num_int (toLength n) \<le> MAX_ARRAY_LENGTH"
    by (simp_all add: num_int_toLength MAX_ARRAY_LENGTH_def)
  moreover have "num_int (toSafeInteger n) = max (- MAX_SAFE_INTEGER) (min (num_int (toInteger n)) MAX_SAFE_INTEGER)"
    using toInteger_cases [of n]
    by (auto simp: toSafeInteger_def baseClamp_int baseClamp_neg_zero MAX_SAFE_INTEGER_def)
  moreover have "(0 :: int) \<le> MAX_SAFE_INTEGER" by (simp add: MAX_SAFE_INTEGER_def)
  ultimately show ?thesis by (auto simp: toInteger_Fin)
qed

theorem integer_conversions_witness: "num_int (toInteger (Fin (7 / 2))) = 3"
proof -
  have "num_int (toInteger (Fin (7 / 2))) = rat_trunc (7 / 2)"
    using integer_conversions [of "Fin (7 / 2)"] by blast
  also have "\<dots> = 3" by (simp add: rat_trunc_def floor_eq_iff)
  finally show ?thesis .
qed

text \<open>
  \<open>_.clamp\<close> returns a number between the bounds when the bounds are ordered, and a
  number already between them unchanged; a NaN argument stays NaN.
\<close>

theorem clamp_within_bounds:
  assumes "num_le l u" "n \<noteq> NaN"
  shows "num_le l (clamp n (Some l) (Some u)) \<and> num_le (clamp n (Some l) (Some u)) u \<and>
    (num_le l n \<and> num_le n u \<longrightarrow> clamp n (Some l) (Some u) = n)"
proof -
  have "l \<noteq> NaN" "u \<noteq> NaN" using assms(1) by (cases l; cases u; auto simp: num_le_def num_strict_eq_def)+
  then have e: "clamp n (Some l) (Some u) = baseClamp n (Some l) (Some u)"
    by (simp add: clamp_def num_strict_eq_def)
  have tot: "num_le a b \<or> num_le b a" if "a \<noteq> NaN" "b \<noteq> NaN" for a b
    using that by (cases a; cases b) (auto simp: num_le_def num_strict_eq_def)
  have "num_le n n" "num_le l l" "num_le u u" using assms(2) \<open>l \<noteq> NaN\<close> \<open>u \<noteq> NaN\<close>
    by (simp_all add: num_le_def num_strict_eq_def)
  then show ?thesis
    unfolding e using assms tot [of n u] tot [of n l] \<open>l \<noteq> NaN\<close> \<open>u \<noteq> NaN\<close>
    by (auto simp: baseClamp_def Let_def num_strict_eq_def)
qed

theorem clamp_within_bounds_witness:
  "num_le (Fin (-5)) (clamp (Fin (-10)) (Some (Fin (-5))) (Some (Fin 5)))"
  using clamp_within_bounds [of "Fin (-5)" "Fin 5" "Fin (-10)"] by (simp add: num_le_def)

end
