(* ===== verification/JsCache.thy ===== *)
theory JsCache
  imports JsValue
begin

text \<open>
  The caches of lodash.js: \<open>Hash\<close>, \<open>ListCache\<close>, \<open>MapCache\<close>, \<open>SetCache\<close>, \<open>Stack\<close> and
  \<open>memoize\<close>. A cache object is its \<open>__data__\<close> field; methods that mutate it return the new
  cache. The record \<open>host\<close> says which native facilities the environment has, on which the code
  branches.
\<close>

record host =
  nativeCreate :: bool
  nativeMap :: bool
  nativeSet :: bool

section \<open>Property names\<close>

text \<open>
  The property name of a primitive. Integers print in decimal, as JavaScript prints those
  below \<open>10 ^ 21\<close>. A fraction prints as numerator and denominator: JavaScript prints a
  decimal expansion, of which only distinctness from other names matters here.
\<close>

datatype propkey = PStr string | PSym nat

definition digit_char :: "nat \<Rightarrow> char" where
  "digit_char d = char_of (d + 48)"

fun nat_str :: "nat \<Rightarrow> string" where
  "nat_str n = (if n < 10 then [digit_char n] else nat_str (n div 10) @ [digit_char (n mod 10)])"

declare nat_str.simps [simp del]

definition int_str :: "int \<Rightarrow> string" where
  "int_str i = (if i < 0 then CHR ''-'' # nat_str (nat (- i)) else nat_str (nat i))"

fun num_str :: "jsnum \<Rightarrow> string" where
  "num_str NaN = ''NaN''"
| "num_str PInf = ''Infinity''"
| "num_str NInf = ''-Infinity''"
| "num_str NegZero = ''0''"
| "num_str (Fin q) =
     (case quotient_of q of
        (a, b) \<Rightarrow> if b = 1 then int_str a else int_str a @ CHR ''/'' # nat_str (nat b))"

fun property_name :: "jsval \<Rightarrow> propkey" where
  "property_name Undefined = PStr ''undefined''"
| "property_name Null = PStr ''null''"
| "property_name (Bool b) = PStr (if b then ''true'' else ''false'')"
| "property_name (Num n) = PStr (num_str n)"
| "property_name (Str s) = PStr s"
| "property_name (Sym k) = PSym k"
| "property_name (Obj t k) = PStr ''[object]''"

section \<open>Hash\<close>

definition HASH_UNDEFINED :: jsval where
  "HASH_UNDEFINED = Str ''__lodash_hash_undefined__''"

type_synonym Hash = "propkey \<Rightarrow> jsval option"

definition hashClear :: Hash where
  "hashClear = (\<lambda>_. None)"

text \<open>Reading an absent property gives undefined.\<close>

definition hash_read :: "Hash \<Rightarrow> jsval \<Rightarrow> jsval" where
  "hash_read data key = (case data (property_name key) of None \<Rightarrow> Undefined | Some v \<Rightarrow> v)"

definition hashHas :: "host \<Rightarrow> Hash \<Rightarrow> jsval \<Rightarrow> bool" where
  "hashHas h data key =
     (if nativeCreate h then \<not> strict_eq (hash_read data key) Undefined
      else data (property_name key) \<noteq> None)"

definition hashGet :: "host \<Rightarrow> Hash \<Rightarrow> jsval \<Rightarrow> jsval" where
  "hashGet h data key =
     (if nativeCreate h then
        (let result = hash_read data key
         in if strict_eq result HASH_UNDEFINED then Undefined else result)
      else if data (property_name key) \<noteq> None then hash_read data key else Undefined)"

definition hashSet :: "host \<Rightarrow> Hash \<Rightarrow> jsval \<Rightarrow> jsval \<Rightarrow> Hash" where
  "hashSet h data key value =
     data(property_name key \<mapsto>
       (if nativeCreate h \<and> strict_eq value Undefined then HASH_UNDEFINED else value))"

definition hashDelete :: "host \<Rightarrow> Hash \<Rightarrow> jsval \<Rightarrow> bool \<times> Hash" where
  "hashDelete h data key =
     (if hashHas h data key then (True, data(property_name key := None)) else (False, data))"

definition Hash_new :: "host \<Rightarrow> (jsval \<times> jsval) list \<Rightarrow> Hash" where
  "Hash_new h entries = fold (\<lambda>(k, v) d. hashSet h d k v) entries hashClear"

section \<open>ListCache\<close>

type_synonym ListCache = "(jsval \<times> jsval) list"

fun assoc_loop :: "(jsval \<times> jsval) list \<Rightarrow> jsval \<Rightarrow> nat \<Rightarrow> int" where
  "assoc_loop array key 0 = -1"
| "assoc_loop array key (Suc n) =
     (if eq (fst (array ! n)) key then int n else assoc_loop array key n)"

definition assocIndexOf :: "(jsval \<times> jsval) list \<Rightarrow> jsval \<Rightarrow> int" where
  "assocIndexOf array key = assoc_loop array key (length array)"

definition listCacheClear :: ListCache where
  "listCacheClear = []"

text \<open>\<open>splice.call(data, index, 1)\<close>\<close>

definition splice1 :: "nat \<Rightarrow> 'a list \<Rightarrow> 'a list" where
  "splice1 i xs = take i xs @ drop (Suc i) xs"

definition listCacheDelete :: "ListCache \<Rightarrow> jsval \<Rightarrow> bool \<times> ListCache" where
  "listCacheDelete data key =
     (let index = assocIndexOf data key
      in if index < 0 then (False, data)
         else if index = int (length data) - 1 then (True, butlast data)
         else (True, splice1 (nat index) data))"

definition listCacheGet :: "ListCache \<Rightarrow> jsval \<Rightarrow> jsval" where
  "listCacheGet data key =
     (let index = assocIndexOf data key in if index < 0 then Undefined else snd (data ! nat index))"

definition listCacheHas :: "ListCache \<Rightarrow> jsval \<Rightarrow> bool" where
  "listCacheHas data key = (assocIndexOf data key > -1)"

definition listCacheSet :: "ListCache \<Rightarrow> jsval \<Rightarrow> jsval \<Rightarrow> ListCache" where
  "listCacheSet data key value =
     (let index = assocIndexOf data key
      in if index < 0 then data @ [(key, value)]
         else data[nat index := (fst (data ! nat index), value)])"

definition ListCache_new :: "(jsval \<times> jsval) list \<Rightarrow> ListCache" where
  "ListCache_new entries = fold (\<lambda>(k, v) d. listCacheSet d k v) entries listCacheClear"

section \<open>Native maps\<close>

text \<open>
  The \<open>Map\<close> of ECMAScript 2015: entries in insertion order, keys compared by same-value-zero
  and stored with negative zero normalised.
\<close>

type_synonym es_map = "(jsval \<times> jsval) list"

fun es_map_set :: "es_map \<Rightarrow> jsval \<Rightarrow> jsval \<Rightarrow> es_map" where
  "es_map_set [] key value = [(val_norm key, value)]"
| "es_map_set ((k, v) # m) key value =
     (if eq k key then (k, value) # m else (k, v) # es_map_set m key value)"

fun es_map_get :: "es_map \<Rightarrow> jsval \<Rightarrow> jsval option" where
  "es_map_get [] key = None"
| "es_map_get ((k, v) # m) key = (if eq k key then Some v else es_map_get m key)"

definition es_map_delete :: "es_map \<Rightarrow> jsval \<Rightarrow> bool \<times> es_map" where
  "es_map_delete m key = (es_map_get m key \<noteq> None, filter (\<lambda>(k, v). \<not> eq k key) m)"

definition addMapEntry :: "es_map \<Rightarrow> jsval \<times> jsval \<Rightarrow> es_map" where
  "addMapEntry m pair = es_map_set m (fst pair) (snd pair)"

definition mapToArray :: "es_map \<Rightarrow> (jsval \<times> jsval) list" where
  "mapToArray m = map (\<lambda>(key, value). (key, value)) m"

section \<open>MapCache\<close>

datatype map_store = NativeMap es_map | ListStore ListCache

record MapCache =
  mc_hash :: Hash
  mc_map :: map_store
  mc_string :: Hash

definition mapCacheClear :: "host \<Rightarrow> MapCache" where
  "mapCacheClear h =
     \<lparr>mc_hash = hashClear,
      mc_map = (if nativeMap h then NativeMap [] else ListStore listCacheClear),
      mc_string = hashClear\<rparr>"

text \<open>The store of \<open>__data__\<close> that is responsible for a key.\<close>

datatype store_id = HashStore | StringStore | MapStore

definition getMapData :: "jsval \<Rightarrow> store_id" where
  "getMapData key =
     (if isKeyable key then (if js_typeof key = TString then StringStore else HashStore) else MapStore)"

fun store_has :: "map_store \<Rightarrow> jsval \<Rightarrow> bool" where
  "store_has (NativeMap m) key = (es_map_get m key \<noteq> None)"
| "store_has (ListStore d) key = listCacheHas d key"

fun store_get :: "map_store \<Rightarrow> jsval \<Rightarrow> jsval" where
  "store_get (NativeMap m) key = (case es_map_get m key of None \<Rightarrow> Undefined | Some v \<Rightarrow> v)"
| "store_get (ListStore d) key = listCacheGet d key"

fun store_set :: "map_store \<Rightarrow> jsval \<Rightarrow> jsval \<Rightarrow> map_store" where
  "store_set (NativeMap m) key value = NativeMap (es_map_set m key value)"
| "store_set (ListStore d) key value = ListStore (listCacheSet d key value)"

fun store_delete :: "map_store \<Rightarrow> jsval \<Rightarrow> bool \<times> map_store" where
  "store_delete (NativeMap m) key = map_prod id NativeMap (es_map_delete m key)"
| "store_delete (ListStore d) key = map_prod id ListStore (listCacheDelete d key)"

definition mapCacheHas :: "host \<Rightarrow> MapCache \<Rightarrow> jsval \<Rightarrow> bool" where
  "mapCacheHas h c key =
     (case getMapData key of
        HashStore \<Rightarrow> hashHas h (mc_hash c) key
      | StringStore \<Rightarrow> hashHas h (mc_string c) key
      | MapStore \<Rightarrow> store_has (mc_map c) key)"

definition mapCacheGet :: "host \<Rightarrow> MapCache \<Rightarrow> jsval \<Rightarrow> jsval" where
  "mapCacheGet h c key =
     (case getMapData key of
        HashStore \<Rightarrow> hashGet h (mc_hash c) key
      | StringStore \<Rightarrow> hashGet h (mc_string c) key
      | MapStore \<Rightarrow> store_get (mc_map c) key)"

definition mapCacheSet :: "host \<Rightarrow> MapCache \<Rightarrow> jsval \<Rightarrow> jsval \<Rightarrow> MapCache" where
  "mapCacheSet h c key value =
     (case getMapData key of
        HashStore \<Rightarrow> c\<lparr>mc_hash := hashSet h (mc_hash c) key value\<rparr>
      | StringStore \<Rightarrow> c\<lparr>mc_string := hashSet h (mc_string c) key value\<rparr>
      | MapStore \<Rightarrow> c\<lparr>mc_map := store_set (mc_map c) key value\<rparr>)"

definition mapCacheDelete :: "host \<Rightarrow> MapCache \<Rightarrow> jsval \<Rightarrow> bool \<times> MapCache" where
  "mapCacheDelete h c key =
     (case getMapData key of
        HashStore \<Rightarrow> map_prod id (\<lambda>d. c\<lparr>mc_hash := d\<rparr>) (hashDelete h (mc_hash c) key)
      | StringStore \<Rightarrow> map_prod id (\<lambda>d. c\<lparr>mc_string := d\<rparr>) (hashDelete h (mc_string c) key)
      | MapStore \<Rightarrow> map_prod id (\<lambda>d. c\<lparr>mc_map := d\<rparr>) (store_delete (mc_map c) key))"

definition MapCache_new :: "host \<Rightarrow> (jsval \<times> jsval) list \<Rightarrow> MapCache" where
  "MapCache_new h entries = fold (\<lambda>(k, v) c. mapCacheSet h c k v) entries (mapCacheClear h)"

section \<open>SetCache\<close>

definition setCacheAdd :: "host \<Rightarrow> MapCache \<Rightarrow> jsval \<Rightarrow> MapCache" where
  "setCacheAdd h c value = mapCacheSet h c value HASH_UNDEFINED"

definition setCacheHas :: "host \<Rightarrow> MapCache \<Rightarrow> jsval \<Rightarrow> bool" where
  "setCacheHas h c value = mapCacheHas h c value"

definition SetCache_new :: "host \<Rightarrow> jsval list \<Rightarrow> MapCache" where
  "SetCache_new h values = fold (\<lambda>v c. setCacheAdd h c v) values (mapCacheClear h)"

definition cacheHas :: "host \<Rightarrow> MapCache \<Rightarrow> jsval \<Rightarrow> bool" where
  "cacheHas h cache key = setCacheHas h cache key"

section \<open>Stack\<close>

definition LARGE_ARRAY_SIZE :: nat where
  "LARGE_ARRAY_SIZE = 200"

datatype Stack = StackList ListCache | StackMap MapCache

definition Stack_new :: "(jsval \<times> jsval) list \<Rightarrow> Stack" where
  "Stack_new entries = StackList (ListCache_new entries)"

definition stackClear :: Stack where
  "stackClear = StackList (ListCache_new [])"

fun stackDelete :: "host \<Rightarrow> Stack \<Rightarrow> jsval \<Rightarrow> bool \<times> Stack" where
  "stackDelete h (StackList d) key = map_prod id StackList (listCacheDelete d key)"
| "stackDelete h (StackMap c) key = map_prod id StackMap (mapCacheDelete h c key)"

fun stackGet :: "host \<Rightarrow> Stack \<Rightarrow> jsval \<Rightarrow> jsval" where
  "stackGet h (StackList d) key = listCacheGet d key"
| "stackGet h (StackMap c) key = mapCacheGet h c key"

fun stackHas :: "host \<Rightarrow> Stack \<Rightarrow> jsval \<Rightarrow> bool" where
  "stackHas h (StackList d) key = listCacheHas d key"
| "stackHas h (StackMap c) key = mapCacheHas h c key"

fun stackSet :: "host \<Rightarrow> Stack \<Rightarrow> jsval \<Rightarrow> jsval \<Rightarrow> Stack" where
  "stackSet h (StackList pairs) key value =
     (if \<not> nativeMap h \<or> length pairs < LARGE_ARRAY_SIZE - 1 then StackList (pairs @ [(key, value)])
      else StackMap (mapCacheSet h (MapCache_new h pairs) key value))"
| "stackSet h (StackMap c) key value = StackMap (mapCacheSet h c key value)"

section \<open>Memoization\<close>

text \<open>
  A memoized function carries its cache; a call returns the result and the function with the
  updated cache. The default resolver takes the first argument.
\<close>

definition memo_key :: "(jsval list \<Rightarrow> jsval) option \<Rightarrow> jsval list \<Rightarrow> jsval" where
  "memo_key resolver args =
     (case resolver of Some r \<Rightarrow> r args | None \<Rightarrow> (case args of [] \<Rightarrow> Undefined | a # _ \<Rightarrow> a))"

definition memoized ::
  "host \<Rightarrow> (jsval list \<Rightarrow> jsval) \<Rightarrow> (jsval list \<Rightarrow> jsval) option \<Rightarrow> MapCache \<Rightarrow> jsval list \<Rightarrow> jsval \<times> MapCache" where
  "memoized h func resolver cache args =
     (let key = memo_key resolver args
      in if mapCacheHas h cache key then (mapCacheGet h cache key, cache)
         else (let result = func args in (result, mapCacheSet h cache key result)))"

definition memoize_cache :: "host \<Rightarrow> MapCache" where
  "memoize_cache h = mapCacheClear h"

section \<open>Specification\<close>

text \<open>Decoders of the printed names, used to show that distinct keys have distinct names.\<close>

definition str_nat :: "string \<Rightarrow> nat" where
  "str_nat s = foldl (\<lambda>a c. a * 10 + (of_char c - 48)) 0 s"

definition str_int :: "string \<Rightarrow> int" where
  "str_int s = (if s \<noteq> [] \<and> hd s = CHR ''-'' then - int (str_nat (tl s)) else int (str_nat s))"

definition str_num :: "string \<Rightarrow> jsnum" where
  "str_num s =
     (if s = ''NaN'' then NaN else if s = ''Infinity'' then PInf else if s = ''-Infinity'' then NInf
      else (let a = takeWhile (\<lambda>c. c \<noteq> CHR ''/'') s; r = dropWhile (\<lambda>c. c \<noteq> CHR ''/'') s
            in Fin (of_int (str_int a) / (if r = [] then 1 else of_nat (str_nat (tl r))))))"

definition decimal_digits :: "char set" where
  "decimal_digits = {c. 48 \<le> (of_char c :: nat) \<and> (of_char c :: nat) \<le> 57}"

text \<open>What reading a value back from a hash gives: the stand-in string itself reads as undefined.\<close>

definition hash_rd :: "host \<Rightarrow> jsval \<Rightarrow> jsval" where
  "hash_rd h v = (if nativeCreate h \<and> v = HASH_UNDEFINED then Undefined else v)"

text \<open>With the native prototype-free objects no property holds undefined.\<close>

definition hash_inv :: "host \<Rightarrow> Hash \<Rightarrow> bool" where
  "hash_inv h d = (nativeCreate h \<longrightarrow> (\<forall>p. d p \<noteq> Some Undefined))"

text \<open>Keys of a list cache are pairwise inequivalent, so the pairs read as a partial map.\<close>

definition list_inv :: "ListCache \<Rightarrow> bool" where
  "list_inv d = distinct (map (val_norm \<circ> fst) d)"

definition list_map :: "ListCache \<Rightarrow> jsval \<Rightarrow> jsval option" where
  "list_map d k = map_of (map (\<lambda>(k, v). (val_norm k, v)) d) (val_norm k)"

fun store_pairs :: "map_store \<Rightarrow> (jsval \<times> jsval) list" where
  "store_pairs (NativeMap m) = m"
| "store_pairs (ListStore d) = d"

definition store_inv :: "map_store \<Rightarrow> bool" where
  "store_inv s = list_inv (store_pairs s)"

definition store_new :: "host \<Rightarrow> map_store" where
  "store_new h = (if nativeMap h then NativeMap [] else ListStore listCacheClear)"

definition map_cache_inv :: "host \<Rightarrow> MapCache \<Rightarrow> bool" where
  "map_cache_inv h c = (hash_inv h (mc_hash c) \<and> hash_inv h (mc_string c) \<and> store_inv (mc_map c))"

definition map_cache_rd :: "host \<Rightarrow> jsval \<Rightarrow> jsval \<Rightarrow> jsval" where
  "map_cache_rd h k v = (if getMapData k = MapStore then v else hash_rd h v)"

fun stack_inv :: "host \<Rightarrow> Stack \<Rightarrow> bool" where
  "stack_inv h (StackList d) = True"
| "stack_inv h (StackMap c) = map_cache_inv h c"

text \<open>A sequence of calls of a memoized function.\<close>

fun memo_calls ::
  "host \<Rightarrow> (jsval list \<Rightarrow> jsval) \<Rightarrow> (jsval list \<Rightarrow> jsval) option \<Rightarrow> MapCache \<Rightarrow> jsval list list \<Rightarrow> jsval list" where
  "memo_calls h func resolver cache [] = []"
| "memo_calls h func resolver cache (args # calls) =
     (case memoized h func resolver cache args of
        (result, cache') \<Rightarrow> result # memo_calls h func resolver cache' calls)"

definition memo_coherent ::
  "host \<Rightarrow> (jsval list \<Rightarrow> jsval) \<Rightarrow> (jsval list \<Rightarrow> jsval) option \<Rightarrow> MapCache \<Rightarrow> bool" where
  "memo_coherent h func resolver c =
     (map_cache_inv h c \<and>
      (\<forall>args. mapCacheHas h c (memo_key resolver args) \<longrightarrow> mapCacheGet h c (memo_key resolver args) = func args))"

section \<open>Lemmas\<close>

lemma of_char_digit: "d < 10 \<Longrightarrow> (of_char (digit_char d) :: nat) = d + 48"
  by (simp add: digit_char_def)

lemma digit_char_0: "digit_char 0 = CHR ''0''"
  unfolding digit_char_def by code_simp

lemma digit_char_mem: "d < 10 \<Longrightarrow> digit_char d \<in> decimal_digits"
  by (simp add: decimal_digits_def of_char_digit)

lemma nat_str_digits: "set (nat_str n) \<subseteq> decimal_digits"
proof (induction n rule: nat_str.induct)
  case (1 n)
  then show ?case by (cases "n < 10") (auto simp: nat_str.simps [of n] intro: digit_char_mem)
qed

lemma nat_str_neq_Nil [simp]: "nat_str n \<noteq> []"
  by (simp add: nat_str.simps [of n])

lemma str_nat_append: "str_nat (s @ [c]) = str_nat s * 10 + (of_char c - 48)"
  by (simp add: str_nat_def)

lemma str_nat_nat_str [simp]: "str_nat (nat_str n) = n"
proof (induction n rule: nat_str.induct)
  case (1 n)
  show ?case
  proof (cases "n < 10")
    case True
    then show ?thesis by (simp add: nat_str.simps [of n] str_nat_def of_char_digit)
  next
    case False
    then show ?thesis using 1 by (simp add: nat_str.simps [of n] str_nat_append of_char_digit)
  qed
qed

lemma special_chars: "CHR ''-'' \<notin> decimal_digits" "CHR ''/'' \<notin> decimal_digits" "CHR ''N'' \<notin> decimal_digits"
    "CHR ''I'' \<notin> decimal_digits" "CHR ''t'' \<notin> decimal_digits" "CHR ''f'' \<notin> decimal_digits" "CHR ''n'' \<notin> decimal_digits"
  by (simp_all add: decimal_digits_def)

lemma hd_nat_str: "hd (nat_str n) \<in> decimal_digits"
  using nat_str_digits [of n] hd_in_set [OF nat_str_neq_Nil] by blast

lemma str_int_int_str [simp]: "str_int (int_str i) = i"
  using hd_nat_str [of "nat i"] special_chars(1) by (auto simp: str_int_def int_str_def)

lemma int_str_chars: "set (int_str i) \<subseteq> insert (CHR ''-'') decimal_digits"
  using nat_str_digits by (auto simp: int_str_def)

lemma num_str_chars: "set (num_str (Fin q)) \<subseteq> insert (CHR ''/'') (insert (CHR ''-'') decimal_digits)"
  using int_str_chars nat_str_digits by (auto split: prod.splits if_splits)

lemma num_str_not_name:
  "c \<in> set s \<Longrightarrow> c \<notin> decimal_digits \<Longrightarrow> c \<noteq> CHR ''/'' \<Longrightarrow> c \<noteq> CHR ''-'' \<Longrightarrow> num_str (Fin q) \<noteq> s"
  using num_str_chars [of q] by auto

lemma str_num_num_str [simp]: "str_num (num_str n) = zero_norm n"
proof (cases n)
  case (Fin q)
  obtain a b where ab: "quotient_of q = (a, b)" by (cases "quotient_of q")
  then have b: "0 < b" and q: "q = of_int a / of_int b"
    using quotient_of_denom_pos quotient_of_div by blast+
  have ne: "num_str (Fin q) \<noteq> ''NaN''" "num_str (Fin q) \<noteq> ''Infinity''" "num_str (Fin q) \<noteq> ''-Infinity''"
    using num_str_not_name [of "CHR ''N''"] num_str_not_name [of "CHR ''I''"] special_chars by auto
  have no: "\<forall>c\<in>set (int_str a). c \<noteq> CHR ''/''" using int_str_chars [of a] special_chars(2) by auto
  have t: "takeWhile (\<lambda>c. c \<noteq> CHR ''/'') (int_str a) = int_str a" "dropWhile (\<lambda>c. c \<noteq> CHR ''/'') (int_str a) = []"
    using no by (simp_all add: takeWhile_eq_all_conv dropWhile_eq_Nil_conv)
  have t2: "takeWhile (\<lambda>c. c \<noteq> CHR ''/'') (int_str a @ CHR ''/'' # s) = int_str a"
       "dropWhile (\<lambda>c. c \<noteq> CHR ''/'') (int_str a @ CHR ''/'' # s) = CHR ''/'' # s" for s
    using no by (simp_all add: takeWhile_append dropWhile_append)
  have "str_num (num_str (Fin q)) = Fin q"
  proof (cases "b = 1")
    case True
    then have "num_str (Fin q) = int_str a" using ab by simp
    with ne have ne': "int_str a \<noteq> ''NaN''" "int_str a \<noteq> ''Infinity''" "int_str a \<noteq> ''-Infinity''" by simp_all
    have "str_num (int_str a) = Fin (of_int a)"
      unfolding str_num_def Let_def t using ne' by simp
    with \<open>num_str (Fin q) = int_str a\<close> show ?thesis using True q by simp
  next
    case False
    then have "num_str (Fin q) = int_str a @ CHR ''/'' # nat_str (nat b)" using ab by simp
    then show ?thesis using ne q b t2 unfolding str_num_def by (simp add: Let_def)
  qed
  then show ?thesis using Fin by simp
qed (auto simp: str_num_def Let_def str_int_def str_nat_def)

lemma num_str_eq_iff: "num_str a = num_str b \<longleftrightarrow> zero_norm a = zero_norm b"
proof
  show "num_str a = num_str b \<Longrightarrow> zero_norm a = zero_norm b" by (metis str_num_num_str)
  have "num_str (zero_norm n) = num_str n" for n
    by (cases n) (auto simp: int_str_def nat_str.simps digit_char_0)
  then show "zero_norm a = zero_norm b \<Longrightarrow> num_str a = num_str b" by metis
qed

lemma num_str_names: "num_str n \<noteq> ''true''" "num_str n \<noteq> ''false''" "num_str n \<noteq> ''null''"
proof -
  have "num_str n \<noteq> ''true'' \<and> num_str n \<noteq> ''false'' \<and> num_str n \<noteq> ''null''"
  proof (cases n)
    case (Fin q)
    then show ?thesis
      using num_str_not_name [of "CHR ''t''" "''true''" q] num_str_not_name [of "CHR ''f''" "''false''" q]
        num_str_not_name [of "CHR ''n''" "''null''" q] special_chars by auto
  qed auto
  then show "num_str n \<noteq> ''true''" "num_str n \<noteq> ''false''" "num_str n \<noteq> ''null''" by auto
qed

lemmas num_str_names' [simp] = num_str_names num_str_names [symmetric]

text \<open>Within one store, property names identify keys exactly up to same-value-zero.\<close>

lemma property_name_eq_iff:
  assumes "getMapData k = s" "getMapData k' = s" "s \<noteq> MapStore"
  shows "property_name k = property_name k' \<longleftrightarrow> eq k k'"
  using assms
  by (cases k; cases k')
    (auto simp: getMapData_def isKeyable_def Let_def eq_iff_norm num_str_eq_iff split: if_splits)

lemma getMapData_cong: "eq k k' \<Longrightarrow> getMapData k = getMapData k'"
  by (cases k; cases k')
    (auto simp: getMapData_def isKeyable_def Let_def eq_iff_norm split: if_splits)

text \<open>
  The contract of a cache, over the methods its clients call. \<open>same\<close> is the equality of keys
  and \<open>rd\<close> the value that reading back a stored value gives.
\<close>

locale keyed_cache =
  fixes invar :: "'c \<Rightarrow> bool" and new :: 'c
    and has :: "'c \<Rightarrow> jsval \<Rightarrow> bool" and get :: "'c \<Rightarrow> jsval \<Rightarrow> jsval"
    and put :: "'c \<Rightarrow> jsval \<Rightarrow> jsval \<Rightarrow> 'c" and del :: "'c \<Rightarrow> jsval \<Rightarrow> bool \<times> 'c"
    and dom :: "jsval \<Rightarrow> bool" and same :: "jsval \<Rightarrow> jsval \<Rightarrow> bool" and rd :: "jsval \<Rightarrow> jsval \<Rightarrow> jsval"
  assumes invar_new: "invar new"
    and has_new: "\<not> has new k"
    and get_absent: "invar c \<Longrightarrow> dom k \<Longrightarrow> \<not> has c k \<Longrightarrow> get c k = Undefined"
    and invar_put: "invar c \<Longrightarrow> dom k \<Longrightarrow> invar (put c k v)"
    and has_put: "invar c \<Longrightarrow> dom k \<Longrightarrow> dom k' \<Longrightarrow> has (put c k v) k' \<longleftrightarrow> same k k' \<or> has c k'"
    and get_put: "invar c \<Longrightarrow> dom k \<Longrightarrow> dom k' \<Longrightarrow> get (put c k v) k' = (if same k k' then rd k v else get c k')"
    and invar_del: "invar c \<Longrightarrow> dom k \<Longrightarrow> invar (snd (del c k))"
    and fst_del: "invar c \<Longrightarrow> dom k \<Longrightarrow> fst (del c k) \<longleftrightarrow> has c k"
    and has_del: "invar c \<Longrightarrow> dom k \<Longrightarrow> dom k' \<Longrightarrow> has (snd (del c k)) k' \<longleftrightarrow> \<not> same k k' \<and> has c k'"
    and get_del: "invar c \<Longrightarrow> dom k \<Longrightarrow> dom k' \<Longrightarrow> get (snd (del c k)) k' = (if same k k' then Undefined else get c k')"
begin

lemma invar_entries: "invar c \<Longrightarrow> \<forall>e\<in>set es. dom (fst e) \<Longrightarrow> invar (fold (\<lambda>(k, v) c. put c k v) es c)"
  by (induction es arbitrary: c) (auto simp: invar_put)

lemma has_entries:
  "invar c \<Longrightarrow> \<forall>e\<in>set es. dom (fst e) \<Longrightarrow> dom k \<Longrightarrow>
   has (fold (\<lambda>(k, v) c. put c k v) es c) k \<longleftrightarrow> (\<exists>e\<in>set es. same (fst e) k) \<or> has c k"
  by (induction es arbitrary: c) (fastforce simp: invar_put has_put)+

lemma get_entries_snoc:
  "invar c \<Longrightarrow> \<forall>e\<in>set es. dom (fst e) \<Longrightarrow> dom k \<Longrightarrow> dom k' \<Longrightarrow>
   get (fold (\<lambda>(k, v) c. put c k v) (es @ [(k, v)]) c) k' =
     (if same k k' then rd k v else get (fold (\<lambda>(k, v) c. put c k v) es c) k')"
  by (simp add: get_put invar_entries)

end

lemma hash_read_set: "hash_read (hashSet h d k v) k' =
   (if property_name k = property_name k'
    then (if nativeCreate h \<and> v = Undefined then HASH_UNDEFINED else v) else hash_read d k')"
  by (cases v) (auto simp: hash_read_def hashSet_def)

lemma HASH_UNDEFINED_simps [simp]: "HASH_UNDEFINED \<noteq> Undefined" "strict_eq HASH_UNDEFINED v \<longleftrightarrow> v = HASH_UNDEFINED"
    "strict_eq v HASH_UNDEFINED \<longleftrightarrow> v = HASH_UNDEFINED" "strict_eq v Undefined \<longleftrightarrow> v = Undefined"
  by (cases v; auto simp: HASH_UNDEFINED_def)+

interpretation hash: keyed_cache "hash_inv h" hashClear "hashHas h" "hashGet h" "hashSet h" "hashDelete h"
  "\<lambda>_. True" "\<lambda>k k'. property_name k = property_name k'" "\<lambda>k. hash_rd h" for h
proof unfold_locales
  show "hash_inv h hashClear" by (simp add: hash_inv_def hashClear_def)
  show "\<not> hashHas h hashClear k" for k by (simp add: hashHas_def hashClear_def hash_read_def)
  fix c k k' v assume inv: "hash_inv h c"
  show "\<not> hashHas h c k \<Longrightarrow> hashGet h c k = Undefined"
    by (auto simp: hashHas_def hashGet_def Let_def split: if_splits)
  show "hash_inv h (hashSet h c k v)" using inv by (auto simp: hash_inv_def hashSet_def)
  show "hashHas h (hashSet h c k v) k' \<longleftrightarrow> property_name k = property_name k' \<or> hashHas h c k'"
    by (auto simp: hashHas_def hash_read_set) (auto simp: hashSet_def)
  show "hashGet h (hashSet h c k v) k' = (if property_name k = property_name k' then hash_rd h v else hashGet h c k')"
    by (auto simp: hashGet_def hash_read_set hash_rd_def Let_def) (auto simp: hashSet_def)
  show "hash_inv h (snd (hashDelete h c k))" using inv by (auto simp: hash_inv_def hashDelete_def)
  show "fst (hashDelete h c k) \<longleftrightarrow> hashHas h c k" by (simp add: hashDelete_def)
  show "hashHas h (snd (hashDelete h c k)) k' \<longleftrightarrow> property_name k \<noteq> property_name k' \<and> hashHas h c k'"
    by (auto simp: hashDelete_def hashHas_def hash_read_def split: option.splits)
  show "hashGet h (snd (hashDelete h c k)) k' = (if property_name k = property_name k' then Undefined else hashGet h c k')"
    using inv by (auto simp: hashDelete_def hashHas_def hashGet_def hash_read_def hash_inv_def Let_def split: option.splits)
qed

text \<open>The index of the last matching pair.\<close>

lemma assoc_loop_spec:
  "n \<le> length d \<Longrightarrow> (assoc_loop d k n = -1 \<and> (\<forall>i < n. \<not> eq (fst (d ! i)) k)) \<or>
    (\<exists>i < n. assoc_loop d k n = int i \<and> eq (fst (d ! i)) k \<and> (\<forall>j < n. i < j \<longrightarrow> \<not> eq (fst (d ! j)) k))"
proof (induction n)
  case (Suc n)
  show ?case
  proof (cases "eq (fst (d ! n)) k")
    case True
    then show ?thesis by (intro disjI2 exI [of _ n]) auto
  next
    case False
    with Suc show ?thesis by (auto simp: less_Suc_eq)
  qed
qed simp

lemma list_map_nth:
  assumes "list_inv d" "i < length d" "eq (fst (d ! i)) k"
  shows "list_map d k = Some (snd (d ! i))"
proof -
  have "distinct (map fst (map (\<lambda>(k, v). (val_norm k, v)) d))"
    using assms(1) by (simp add: list_inv_def comp_def case_prod_beta)
  moreover have "(val_norm k, snd (d ! i)) \<in> set (map (\<lambda>(k, v). (val_norm k, v)) d)"
  proof -
    have "map (\<lambda>(k, v). (val_norm k, v)) d ! i = (val_norm k, snd (d ! i))"
      using assms(2,3) by (simp add: eq_iff_norm case_prod_beta)
    moreover have "map (\<lambda>(k, v). (val_norm k, v)) d ! i \<in> set (map (\<lambda>(k, v). (val_norm k, v)) d)"
      using assms(2) by (intro nth_mem) simp
    ultimately show ?thesis by simp
  qed
  ultimately show ?thesis unfolding list_map_def by (rule map_of_is_SomeI)
qed

lemma list_map_None_keys: "list_map d k = None \<longleftrightarrow> val_norm k \<notin> set (map (val_norm \<circ> fst) d)"
proof -
  have "fst ` set (map (\<lambda>(k, v). (val_norm k, v)) d) = set (map (val_norm \<circ> fst) d)" by force
  then show ?thesis by (simp add: list_map_def map_of_eq_None_iff)
qed

lemma list_map_None: "list_map d k = None \<longleftrightarrow> (\<forall>i < length d. \<not> eq (fst (d ! i)) k)"
  unfolding list_map_None_keys in_set_conv_nth length_map by (auto simp: eq_iff_norm)

lemma assocIndexOf_cases:
  obtains (absent) "assocIndexOf d k = -1" "list_map d k = None"
  | (found) i where "i < length d" "assocIndexOf d k = int i" "eq (fst (d ! i)) k"
      "list_inv d \<Longrightarrow> list_map d k = Some (snd (d ! i))"
  using assoc_loop_spec [of "length d" d k] list_map_nth list_map_None
  unfolding assocIndexOf_def by (metis order_refl)

lemma listCacheHas_map: "listCacheHas d k \<longleftrightarrow> list_map d k \<noteq> None"
  by (cases rule: assocIndexOf_cases [of d k]) (auto simp: listCacheHas_def list_map_None)

lemma listCacheGet_map:
  "list_inv d \<Longrightarrow> listCacheGet d k = (case list_map d k of None \<Rightarrow> Undefined | Some v \<Rightarrow> v)"
  by (cases rule: assocIndexOf_cases [of d k]) (auto simp: listCacheGet_def Let_def)

lemma list_inv_set: "list_inv d \<Longrightarrow> list_inv (listCacheSet d k v)"
proof (cases rule: assocIndexOf_cases [of d k])
  case absent
  assume "list_inv d"
  then show ?thesis using absent unfolding list_map_None_keys
    by (simp add: listCacheSet_def list_inv_def)
next
  case (found i)
  assume "list_inv d"
  moreover have "(map (val_norm \<circ> fst) d)[i := val_norm (fst (d ! i))] = map (val_norm \<circ> fst) d"
    using found(1) by (metis comp_apply list_update_id nth_map)
  ultimately show ?thesis using found(1,2)
    by (simp add: listCacheSet_def list_inv_def map_update)
qed

lemma list_map_set:
  "list_inv d \<Longrightarrow> list_map (listCacheSet d k v) k' = (if eq k k' then Some v else list_map d k')"
proof -
  assume inv: "list_inv d"
  let ?d = "listCacheSet d k v"
  note inv' = list_inv_set [OF inv, of k v]
  show ?thesis
  proof (cases rule: assocIndexOf_cases [of d k])
    case absent
    then have d: "?d = d @ [(k, v)]" by (simp add: listCacheSet_def)
    have "list_map (d @ [(k, v)]) k' = (if list_map d k' = None then (if eq k k' then Some v else None) else list_map d k')"
      by (auto simp: list_map_def map_add_def eq_iff_norm split: option.splits)
    moreover have "eq k k' \<Longrightarrow> list_map d k' = None" using absent(2) by (simp add: list_map_def eq_iff_norm)
    ultimately show ?thesis unfolding d by auto
  next
    case (found i)
    then have d: "?d = d[i := (fst (d ! i), v)]" by (simp add: listCacheSet_def)
    show ?thesis
    proof (cases "eq k k'")
      case True
      then have "eq (fst (?d ! i)) k'" using found d eq_trans by simp
      then show ?thesis using list_map_nth [OF inv', of i k'] True found(1) d by simp
    next
      case False
      have ne: "\<not> eq (fst (d ! i)) k'" using False found(3) eq_sym eq_trans by blast
      show ?thesis
      proof (cases rule: assocIndexOf_cases [of d k'])
        case absent
        then have "list_map ?d k' = None" using ne d found(1) by (auto simp: list_map_None nth_list_update)
        then show ?thesis using absent False by simp
      next
        case f: (found j)
        then have "j \<noteq> i" using ne by auto
        then show ?thesis using list_map_nth [OF inv', of j k'] f inv False d by simp
      qed
    qed
  qed
qed

lemma distinct_mid: "distinct (map f (xs @ y # ys)) \<Longrightarrow> \<forall>e\<in>set xs \<union> set ys. f e \<noteq> f y"
  by (simp add: image_iff ball_Un) metis

lemma splice1_filter:
  assumes "list_inv d" "i < length d" "eq (fst (d ! i)) k"
  shows "splice1 i d = filter (\<lambda>e. \<not> eq (fst e) k) d"
proof -
  have d: "d = take i d @ d ! i # drop (Suc i) d" by (rule id_take_nth_drop [OF assms(2)])
  have "map (val_norm \<circ> fst) d = map (val_norm \<circ> fst) (take i d @ d ! i # drop (Suc i) d)"
    using d by (rule arg_cong)
  then have "distinct (map (val_norm \<circ> fst) (take i d @ d ! i # drop (Suc i) d))"
    using assms(1) unfolding list_inv_def by (simp only:)
  then have "\<forall>e\<in>set (take i d) \<union> set (drop (Suc i) d). val_norm (fst e) \<noteq> val_norm (fst (d ! i))"
    using distinct_mid [of "val_norm \<circ> fst" "take i d" "d ! i" "drop (Suc i) d"] by simp
  then have "\<forall>e\<in>set (take i d) \<union> set (drop (Suc i) d). \<not> eq (fst e) k"
    using assms(3) by (auto simp: eq_iff_norm)
  then have "filter (\<lambda>e. \<not> eq (fst e) k) (take i d @ d ! i # drop (Suc i) d) = splice1 i d"
    using assms(3) by (auto simp: splice1_def filter_id_conv)
  moreover have "filter (\<lambda>e. \<not> eq (fst e) k) d = filter (\<lambda>e. \<not> eq (fst e) k) (take i d @ d ! i # drop (Suc i) d)"
    using d by (rule arg_cong)
  ultimately show ?thesis by simp
qed

lemma listCacheDelete_filter:
  "list_inv d \<Longrightarrow> listCacheDelete d k = (list_map d k \<noteq> None, filter (\<lambda>e. \<not> eq (fst e) k) d)"
proof (cases rule: assocIndexOf_cases [of d k])
  case absent
  then have "\<forall>e\<in>set d. \<not> eq (fst e) k" unfolding list_map_None_keys by (force simp: eq_iff_norm)
  then have "filter (\<lambda>e. \<not> eq (fst e) k) d = d" by (simp add: filter_id_conv)
  then show ?thesis using absent by (simp add: listCacheDelete_def)
next
  case (found i)
  assume inv: "list_inv d"
  have "butlast d = splice1 i d" if "int i = int (length d) - 1"
  proof -
    have "i = length d - 1" using that by linarith
    then show ?thesis using found(1) by (simp add: splice1_def butlast_conv_take)
  qed
  then have "listCacheDelete d k = (True, splice1 i d)"
    using found(1,2) by (simp add: listCacheDelete_def Let_def)
  then show ?thesis using found(4) inv splice1_filter [OF inv found(1,3)] by simp
qed

lemma list_inv_filter: "list_inv d \<Longrightarrow> list_inv (filter P d)"
  by (simp add: list_inv_def distinct_map_filter)

lemma list_map_filter: "list_map (filter (\<lambda>e. \<not> eq (fst e) k) d) k' = (if eq k k' then None else list_map d k')"
  by (induction d) (auto simp: list_map_def eq_iff_norm)

interpretation lst: keyed_cache list_inv listCacheClear listCacheHas listCacheGet listCacheSet listCacheDelete
  "\<lambda>_. True" eq "\<lambda>k v. v"
proof unfold_locales
  show "list_inv listCacheClear" by (simp add: list_inv_def listCacheClear_def)
  show "\<not> listCacheHas listCacheClear k" for k by (simp add: listCacheHas_map list_map_def listCacheClear_def)
  fix c k k' v assume inv: "list_inv c"
  show "\<not> listCacheHas c k \<Longrightarrow> listCacheGet c k = Undefined"
    using inv by (simp add: listCacheHas_map listCacheGet_map)
  show "list_inv (listCacheSet c k v)" by (rule list_inv_set [OF inv])
  show "listCacheHas (listCacheSet c k v) k' \<longleftrightarrow> eq k k' \<or> listCacheHas c k'"
    using inv by (simp add: listCacheHas_map list_map_set)
  show "listCacheGet (listCacheSet c k v) k' = (if eq k k' then v else listCacheGet c k')"
    using inv list_inv_set [OF inv] by (simp add: listCacheGet_map list_map_set)
  show "list_inv (snd (listCacheDelete c k))" using inv by (simp add: listCacheDelete_filter list_inv_filter)
  show "fst (listCacheDelete c k) \<longleftrightarrow> listCacheHas c k" using inv by (simp add: listCacheDelete_filter listCacheHas_map)
  show "listCacheHas (snd (listCacheDelete c k)) k' \<longleftrightarrow> \<not> eq k k' \<and> listCacheHas c k'"
    using inv by (simp add: listCacheDelete_filter listCacheHas_map list_map_filter)
  show "listCacheGet (snd (listCacheDelete c k)) k' = (if eq k k' then Undefined else listCacheGet c k')"
    using inv by (simp add: listCacheDelete_filter listCacheGet_map list_map_filter list_inv_filter)
qed

lemma es_map_get_map: "es_map_get m k = list_map m k"
  by (induction m k rule: es_map_get.induct) (auto simp: list_map_def eq_iff_norm)

lemma es_map_set_map: "list_map (es_map_set m k v) k' = (if eq k k' then Some v else list_map m k')"
  by (induction m k v rule: es_map_set.induct) (auto simp: list_map_def eq_iff_norm)

lemma es_map_set_keys:
  "set (map (val_norm \<circ> fst) (es_map_set m k v)) = insert (val_norm k) (set (map (val_norm \<circ> fst) m))"
  by (induction m k v rule: es_map_set.induct) (auto simp: eq_iff_norm)

lemma es_map_set_inv: "list_inv m \<Longrightarrow> list_inv (es_map_set m k v)"
proof (induction m k v rule: es_map_set.induct)
  case (2 k v m key w)
  then show ?case using es_map_set_keys [of m key w]
    by (cases "eq k key") (simp_all add: list_inv_def eq_iff_norm)
qed (simp add: list_inv_def)

lemma es_map_delete_filter:
  "es_map_delete m k = (list_map m k \<noteq> None, filter (\<lambda>e. \<not> eq (fst e) k) m)"
  by (auto simp: es_map_delete_def es_map_get_map intro!: filter_cong)

lemma store_specs:
  assumes "store_inv s"
  shows "store_has s k \<longleftrightarrow> list_map (store_pairs s) k \<noteq> None"
    and "store_get s k = (case list_map (store_pairs s) k of None \<Rightarrow> Undefined | Some v \<Rightarrow> v)"
    and "store_inv (store_set s k v)"
    and "list_map (store_pairs (store_set s k v)) k' = (if eq k k' then Some v else list_map (store_pairs s) k')"
    and "fst (store_delete s k) \<longleftrightarrow> list_map (store_pairs s) k \<noteq> None"
    and "store_pairs (snd (store_delete s k)) = filter (\<lambda>e. \<not> eq (fst e) k) (store_pairs s)"
  using assms
  by (cases s; simp add: store_inv_def es_map_get_map listCacheHas_map listCacheGet_map es_map_set_inv
      list_inv_set es_map_set_map list_map_set es_map_delete_filter listCacheDelete_filter)+

interpretation store: keyed_cache store_inv "store_new h" store_has store_get store_set store_delete
  "\<lambda>_. True" eq "\<lambda>k v. v" for h
proof unfold_locales
  show inv0: "store_inv (store_new h)" by (simp add: store_inv_def store_new_def list_inv_def listCacheClear_def)
  show "\<not> store_has (store_new h) k" for k
    using store_specs(1) [OF inv0] by (simp add: store_new_def list_map_def listCacheClear_def)
  fix c k k' v assume inv: "store_inv c"
  note sp = store_specs [OF inv] and sp_set = store_specs [OF store_specs(3) [OF inv]]
  show "\<not> store_has c k \<Longrightarrow> store_get c k = Undefined" by (simp add: sp)
  show "store_inv (store_set c k v)" by (rule sp(3))
  show "store_has (store_set c k v) k' \<longleftrightarrow> eq k k' \<or> store_has c k'" by (simp add: sp_set sp)
  show "store_get (store_set c k v) k' = (if eq k k' then v else store_get c k')" by (simp add: sp_set sp)
  show del: "store_inv (snd (store_delete c k))" for k
    using inv by (simp add: store_inv_def sp list_inv_filter)
  note sp_del = store_specs [OF del]
  show "fst (store_delete c k) \<longleftrightarrow> store_has c k" by (simp add: sp)
  show "store_has (snd (store_delete c k)) k' \<longleftrightarrow> \<not> eq k k' \<and> store_has c k'"
    by (simp add: sp_del sp list_map_filter)
  show "store_get (snd (store_delete c k)) k' = (if eq k k' then Undefined else store_get c k')"
    by (simp add: sp_del sp list_map_filter)
qed

lemmas map_cache_defs = mapCacheHas_def mapCacheGet_def mapCacheSet_def mapCacheDelete_def map_cache_inv_def
  map_cache_rd_def

lemma map_cache_key: "getMapData k = s \<Longrightarrow> getMapData k' = s \<Longrightarrow> s \<noteq> MapStore \<Longrightarrow>
    (property_name k = property_name k') = eq k k'"
  by (rule property_name_eq_iff)

lemma map_cache_other: "getMapData k \<noteq> getMapData k' \<Longrightarrow> \<not> eq k k'"
  using getMapData_cong by blast

interpretation mapc: keyed_cache "map_cache_inv h" "mapCacheClear h" "mapCacheHas h" "mapCacheGet h" "mapCacheSet h"
  "mapCacheDelete h" "\<lambda>_. True" eq "map_cache_rd h" for h
proof unfold_locales
  have s0: "store_inv (store_new h)" "mapCacheClear h = \<lparr>mc_hash = hashClear, mc_map = store_new h, mc_string = hashClear\<rparr>"
    using store.invar_new [of h] by (simp_all add: mapCacheClear_def store_new_def)
  show "map_cache_inv h (mapCacheClear h)" using s0 hash.invar_new by (simp add: map_cache_inv_def)
  show "\<not> mapCacheHas h (mapCacheClear h) k" for k
    using s0(2) hash.has_new store.has_new by (simp add: mapCacheHas_def split: store_id.split)
  fix c k k' v assume inv: "map_cache_inv h c"
  then have inv': "hash_inv h (mc_hash c)" "hash_inv h (mc_string c)" "store_inv (mc_map c)"
    by (simp_all add: map_cache_inv_def)
  show "\<not> mapCacheHas h c k \<Longrightarrow> mapCacheGet h c k = Undefined"
    using inv' hash.get_absent store.get_absent by (simp add: map_cache_defs split: store_id.splits)
  show "map_cache_inv h (mapCacheSet h c k v)"
    using inv' hash.invar_put store.invar_put by (simp add: map_cache_defs split: store_id.split)
  show "mapCacheHas h (mapCacheSet h c k v) k' \<longleftrightarrow> eq k k' \<or> mapCacheHas h c k'"
    using inv' map_cache_key [of k _ k'] map_cache_other [of k k']
    by (simp add: map_cache_defs hash.has_put store.has_put split: store_id.split)
  show "mapCacheGet h (mapCacheSet h c k v) k' = (if eq k k' then map_cache_rd h k v else mapCacheGet h c k')"
    using inv' map_cache_key [of k _ k'] map_cache_other [of k k']
    by (simp add: map_cache_defs hash.get_put store.get_put split: store_id.split)
  show "map_cache_inv h (snd (mapCacheDelete h c k))"
    using inv' hash.invar_del store.invar_del by (simp add: map_cache_defs split: store_id.split)
  show "fst (mapCacheDelete h c k) \<longleftrightarrow> mapCacheHas h c k"
    using inv' hash.fst_del store.fst_del by (simp add: map_cache_defs split: store_id.split)
  show "mapCacheHas h (snd (mapCacheDelete h c k)) k' \<longleftrightarrow> \<not> eq k k' \<and> mapCacheHas h c k'"
    using inv' map_cache_key [of k _ k'] map_cache_other [of k k']
    by (simp add: map_cache_defs hash.has_del store.has_del split: store_id.split)
  show "mapCacheGet h (snd (mapCacheDelete h c k)) k' = (if eq k k' then Undefined else mapCacheGet h c k')"
    using inv' map_cache_key [of k _ k'] map_cache_other [of k k']
    by (simp add: map_cache_defs hash.get_del store.get_del split: store_id.split)
qed

lemma SetCache_fold: "SetCache_new h vs = fold (\<lambda>(k, v) c. mapCacheSet h c k v) (map (\<lambda>v. (v, HASH_UNDEFINED)) vs) (mapCacheClear h)"
  unfolding SetCache_new_def by (simp add: fold_map comp_def setCacheAdd_def)

lemma SetCache_has: "setCacheHas h (SetCache_new h vs) k \<longleftrightarrow> (\<exists>v\<in>set vs. eq v k)"
  unfolding setCacheHas_def SetCache_fold
  by (subst mapc.has_entries) (auto simp: mapc.invar_new mapc.has_new)

text \<open>Appending a pair shadows older pairs with the same key.\<close>

lemma assoc_loop_append: "n \<le> length d \<Longrightarrow> assoc_loop (d @ e) k n = assoc_loop d k n"
  by (induction n) (auto simp: nth_append)

lemma assocIndexOf_snoc:
  "assocIndexOf (d @ [(k, v)]) k' = (if eq k k' then int (length d) else assocIndexOf d k')"
  by (simp add: assocIndexOf_def assoc_loop_append)

lemma assocIndexOf_bound: "assocIndexOf d k < int (length d)"
  using assoc_loop_spec [of "length d" d k] by (auto simp: assocIndexOf_def)

lemma listCacheGet_snoc: "listCacheGet (d @ [(k, v)]) k' = (if eq k k' then v else listCacheGet d k')"
  using assocIndexOf_bound [of d k'] by (auto simp: listCacheGet_def assocIndexOf_snoc Let_def nth_append)

lemma listCacheHas_snoc: "listCacheHas (d @ [(k, v)]) k' \<longleftrightarrow> eq k k' \<or> listCacheHas d k'"
  by (auto simp: listCacheHas_def assocIndexOf_snoc)

lemma MapCache_new_inv: "map_cache_inv h (MapCache_new h d)"
  unfolding MapCache_new_def by (rule mapc.invar_entries) (simp_all add: mapc.invar_new)

lemma MapCache_new_snoc: "MapCache_new h (d @ [(k, v)]) = mapCacheSet h (MapCache_new h d) k v"
  by (simp add: MapCache_new_def)

lemma MapCache_new_lookup:
  assumes "\<not> isKeyable k"
  shows "mapCacheGet h (MapCache_new h d) k = listCacheGet d k"
    and "mapCacheHas h (MapCache_new h d) k \<longleftrightarrow> listCacheHas d k"
proof (induction d rule: rev_induct)
  case Nil
  have "\<not> mapCacheHas h (mapCacheClear h) k" by (rule mapc.has_new)
  then show "mapCacheGet h (MapCache_new h []) k = listCacheGet [] k"
      "mapCacheHas h (MapCache_new h []) k \<longleftrightarrow> listCacheHas [] k"
    using mapc.get_absent [OF mapc.invar_new]
    by (simp_all add: MapCache_new_def listCacheGet_def listCacheHas_def assocIndexOf_def)
next
  case (snoc e d)
  obtain k0 v0 where e: "e = (k0, v0)" by (cases e)
  have "map_cache_rd h k0 v0 = v0" if "eq k0 k"
    using that assms getMapData_cong [OF that] by (simp add: map_cache_rd_def getMapData_def)
  then show "mapCacheGet h (MapCache_new h (d @ [e])) k = listCacheGet (d @ [e]) k"
      "mapCacheHas h (MapCache_new h (d @ [e])) k \<longleftrightarrow> listCacheHas (d @ [e]) k"
    using snoc mapc.get_put [OF MapCache_new_inv] mapc.has_put [OF MapCache_new_inv]
    by (simp_all add: e MapCache_new_snoc listCacheGet_snoc listCacheHas_snoc)
qed

lemma stackSet_lookup:
  assumes "stack_inv h s" "\<not> isKeyable k" "\<not> isKeyable k'"
  shows "stackGet h (stackSet h s k v) k' = (if eq k k' then v else stackGet h s k')"
    and "stackHas h (stackSet h s k v) k' \<longleftrightarrow> eq k k' \<or> stackHas h s k'"
    and "stack_inv h (stackSet h s k v)"
proof -
  have rd: "map_cache_rd h k v = v" using assms(2) by (simp add: map_cache_rd_def getMapData_def)
  show "stackGet h (stackSet h s k v) k' = (if eq k k' then v else stackGet h s k')"
    and "stackHas h (stackSet h s k v) k' \<longleftrightarrow> eq k k' \<or> stackHas h s k'"
    and "stack_inv h (stackSet h s k v)"
    using assms rd
    by (cases s; simp add: listCacheGet_snoc listCacheHas_snoc mapc.get_put mapc.has_put mapc.invar_put
        MapCache_new_inv MapCache_new_lookup)+
qed

lemma memoized_step:
  assumes coh: "memo_coherent h func resolver c"
    and key: "\<And>a b. eq (memo_key resolver a) (memo_key resolver b) \<Longrightarrow> func a = func b"
    and res: "\<And>a. func a \<noteq> HASH_UNDEFINED"
  shows "\<exists>c'. memoized h func resolver c args = (func args, c') \<and> memo_coherent h func resolver c'"
proof (cases "mapCacheHas h c (memo_key resolver args)")
  case True
  then show ?thesis using coh by (auto simp: memoized_def memo_coherent_def)
next
  case False
  let ?c = "mapCacheSet h c (memo_key resolver args) (func args)"
  have inv: "map_cache_inv h c" using coh by (simp add: memo_coherent_def)
  have rd: "map_cache_rd h k (func a) = func a" for k a
    using res [of a] by (simp add: map_cache_rd_def hash_rd_def)
  have "memo_coherent h func resolver ?c"
    unfolding memo_coherent_def
  proof (intro conjI allI impI)
    show "map_cache_inv h ?c" by (rule mapc.invar_put [OF inv]) simp
    fix a assume "mapCacheHas h ?c (memo_key resolver a)"
    then show "mapCacheGet h ?c (memo_key resolver a) = func a"
      using coh key [of args a] by (auto simp: mapc.get_put [OF inv] mapc.has_put [OF inv] rd memo_coherent_def)
  qed
  with False show ?thesis by (auto simp: memoized_def Let_def)
qed

lemma memo_calls_coherent:
  assumes key: "\<And>a b. eq (memo_key resolver a) (memo_key resolver b) \<Longrightarrow> func a = func b"
    and res: "\<And>a. func a \<noteq> HASH_UNDEFINED"
  shows "memo_coherent h func resolver c \<Longrightarrow> memo_calls h func resolver c calls = map func calls"
proof (induction calls arbitrary: c)
  case (Cons args calls)
  obtain c' where "memoized h func resolver c args = (func args, c')" "memo_coherent h func resolver c'"
    using memoized_step [OF Cons.prems key res] by blast
  with Cons.IH [of c'] show ?case by simp
qed simp

section \<open>Properties\<close>

text \<open>
  (C8) \<open>MapCache\<close> is a finite map over same-value-zero keys, although it spreads its entries over two
  property tables and a list or native map: setting and deleting affect exactly the equivalent
  keys, for every combination of host facilities. The one exception is the value
  \<open>'__lodash_hash_undefined__'\<close>, which a primitive key reads back as undefined.
\<close>

theorem MapCache_is_map:
  assumes "map_cache_inv h c"
  shows "map_cache_inv h (mapCacheSet h c k v) \<and> map_cache_inv h (snd (mapCacheDelete h c k)) \<and>
    mapCacheHas h (mapCacheSet h c k v) k' = (eq k k' \<or> mapCacheHas h c k') \<and>
    mapCacheGet h (mapCacheSet h c k v) k' =
      (if eq k k' then (if nativeCreate h \<and> isKeyable k \<and> v = HASH_UNDEFINED then Undefined else v)
       else mapCacheGet h c k') \<and>
    mapCacheHas h (snd (mapCacheDelete h c k)) k' = (\<not> eq k k' \<and> mapCacheHas h c k') \<and>
    mapCacheGet h (snd (mapCacheDelete h c k)) k' = (if eq k k' then Undefined else mapCacheGet h c k') \<and>
    fst (mapCacheDelete h c k) = mapCacheHas h c k"
  using mapc.invar_put [OF assms] mapc.invar_del [OF assms] mapc.has_put [OF assms] mapc.get_put [OF assms]
    mapc.has_del [OF assms] mapc.get_del [OF assms] mapc.fst_del [OF assms]
  by (simp add: map_cache_rd_def hash_rd_def getMapData_def)

theorem MapCache_is_map_witness:
  "mapCacheGet \<lparr>nativeCreate = True, nativeMap = True, nativeSet = True\<rparr>
     (mapCacheSet \<lparr>nativeCreate = True, nativeMap = True, nativeSet = True\<rparr>
       (mapCacheClear \<lparr>nativeCreate = True, nativeMap = True, nativeSet = True\<rparr>) (Num NegZero) (Str ''a'')) (Num (Fin 0)) = Str ''a''"
  using MapCache_is_map [OF mapc.invar_new [of "\<lparr>nativeCreate = True, nativeMap = True, nativeSet = True\<rparr>"], of "Num NegZero" "Str ''a''" "Num (Fin 0)"]
  by (simp add: eq_iff_norm HASH_UNDEFINED_def)

text \<open>
  A \<open>SetCache\<close> built from an array contains exactly the values equivalent to an element of it.
\<close>

theorem SetCache_membership: "setCacheHas h (SetCache_new h vs) k \<longleftrightarrow> (\<exists>v\<in>set vs. eq v k)"
  by (rule SetCache_has)

text \<open>
  A \<open>Stack\<close> keyed by objects reads back the latest value set for a key, also across the switch
  from the pair list to the hashed representation at 199 entries.
\<close>

theorem Stack_reads_latest:
  assumes "stack_inv h s" "\<not> isKeyable k" "\<not> isKeyable k'"
  shows "stack_inv h (stackSet h s k v) \<and>
    stackGet h (stackSet h s k v) k' = (if eq k k' then v else stackGet h s k') \<and>
    stackHas h (stackSet h s k v) k' = (eq k k' \<or> stackHas h s k')"
  using stackSet_lookup [OF assms] by simp

theorem Stack_reads_latest_witness:
  "stackGet \<lparr>nativeCreate = True, nativeMap = True, nativeSet = True\<rparr>
     (stackSet \<lparr>nativeCreate = True, nativeMap = True, nativeSet = True\<rparr> (StackList []) (Obj ObjectTag 1) (Obj ArrayTag 2)) (Obj ObjectTag 1)
     = Obj ArrayTag 2"
  using Stack_reads_latest [of "\<lparr>nativeCreate = True, nativeMap = True, nativeSet = True\<rparr>" "StackList []" "Obj ObjectTag 1" "Obj ObjectTag 1" "Obj ArrayTag 2"]
  by (simp add: isKeyable_def)

text \<open>
  (C30) Memoization is transparent: if the function's result depends on the resolved key only and is
  never the hash stand-in string, any sequence of calls returns what the function returns.
\<close>

theorem memoize_transparent:
  assumes "\<And>a b. eq (memo_key resolver a) (memo_key resolver b) \<Longrightarrow> func a = func b"
    and "\<And>a. func a \<noteq> HASH_UNDEFINED"
  shows "memo_calls h func resolver (memoize_cache h) calls = map func calls"
proof (rule memo_calls_coherent [OF assms])
  show "memo_coherent h func resolver (memoize_cache h)"
    by (simp add: memo_coherent_def memoize_cache_def mapc.invar_new mapc.has_new)
qed

theorem memoize_transparent_witness:
  "memo_calls \<lparr>nativeCreate = True, nativeMap = True, nativeSet = True\<rparr> (\<lambda>args. Bool (args = [])) (Some (\<lambda>args. Bool (args = []))) (memoize_cache \<lparr>nativeCreate = True, nativeMap = True, nativeSet = True\<rparr>) [[], [Null], []]
     = [Bool True, Bool False, Bool True]"
  using memoize_transparent [of "Some (\<lambda>args. Bool (args = []))" "\<lambda>args. Bool (args = [])" "\<lparr>nativeCreate = True, nativeMap = True, nativeSet = True\<rparr>" "[[], [Null], []]"]
  by (simp add: memo_key_def eq_iff_norm HASH_UNDEFINED_def)

end
