(* ===== verification/JsArray.thy ===== *)
theory JsArray
  imports JsCache
begin

text \<open>
  The array helpers of lodash.js on which its public functions are built: the iteration loops
  (\<open>arrayEach\<close> to \<open>arraySome\<close>), the searches (\<open>baseFindIndex\<close>, \<open>baseIndexOf\<close>), and the
  slicing and filling loops.

  An array is the list of its elements. Where the code tests whether the array argument is
  truthy, the argument is an option and None stands for null or undefined. Callbacks are pure
  functions of the arguments they are called with, except in \<open>arrayEach\<close>, whose callbacks
  thread a state and say whether they returned false. Where the code can read past the end of
  an array the elements are JavaScript values and the read gives undefined.
\<close>

section \<open>Iteration\<close>

fun arr_items :: "'a list option \<Rightarrow> 'a list" where
  "arr_items None = []"
| "arr_items (Some xs) = xs"

definition arr_len :: "'a list option \<Rightarrow> nat" where
  "arr_len array = length (arr_items array)"

definition arr_get :: "jsval list \<Rightarrow> nat \<Rightarrow> jsval" where
  "arr_get array i = (if i < length array then array ! i else Undefined)"

fun apply_js :: "('t \<Rightarrow> 'a list \<Rightarrow> 'b) \<Rightarrow> 't \<Rightarrow> 'a list \<Rightarrow> 'b" where
  "apply_js func thisArg [] = func thisArg []"
| "apply_js func thisArg [a] = func thisArg [a]"
| "apply_js func thisArg [a, b] = func thisArg [a, b]"
| "apply_js func thisArg [a, b, c] = func thisArg [a, b, c]"
| "apply_js func thisArg args = func thisArg args"

function aggregator_loop ::
  "'a list \<Rightarrow> ('c \<Rightarrow> 'a \<Rightarrow> 'k \<Rightarrow> 'a list \<Rightarrow> 'c) \<Rightarrow> ('a \<Rightarrow> 'k) \<Rightarrow> nat \<Rightarrow> 'c \<Rightarrow> 'c" where
  "aggregator_loop array setter iteratee index accumulator =
     (if index < length array
      then (let value = array ! index
            in aggregator_loop array setter iteratee (Suc index) (setter accumulator value (iteratee value) array))
      else accumulator)"
  by pat_completeness auto
termination by (relation "measure (\<lambda>(array, setter, iteratee, index, accumulator). length array - index)") auto

definition arrayAggregator ::
  "'a list option \<Rightarrow> ('c \<Rightarrow> 'a \<Rightarrow> 'k \<Rightarrow> 'a list \<Rightarrow> 'c) \<Rightarrow> ('a \<Rightarrow> 'k) \<Rightarrow> 'c \<Rightarrow> 'c" where
  "arrayAggregator array setter iteratee accumulator =
     aggregator_loop (arr_items array) setter iteratee 0 accumulator"

text \<open>A callback of \<open>arrayEach\<close> returns True when it does not return false.\<close>

function each_loop :: "'a list \<Rightarrow> ('s \<Rightarrow> 'a \<Rightarrow> nat \<Rightarrow> 'a list \<Rightarrow> bool \<times> 's) \<Rightarrow> nat \<Rightarrow> 's \<Rightarrow> 's" where
  "each_loop array iteratee index s =
     (if index < length array
      then (case iteratee s (array ! index) index array of
              (goes_on, s') \<Rightarrow> if goes_on then each_loop array iteratee (Suc index) s' else s')
      else s)"
  by pat_completeness auto
termination by (relation "measure (\<lambda>(array, iteratee, index, s). length array - index)") auto

definition arrayEach ::
  "'a list option \<Rightarrow> ('s \<Rightarrow> 'a \<Rightarrow> nat \<Rightarrow> 'a list \<Rightarrow> bool \<times> 's) \<Rightarrow> 's \<Rightarrow> 'a list option \<times> 's" where
  "arrayEach array iteratee s = (array, each_loop (arr_items array) iteratee 0 s)"

fun each_right_loop :: "'a list \<Rightarrow> ('s \<Rightarrow> 'a \<Rightarrow> nat \<Rightarrow> 'a list \<Rightarrow> bool \<times> 's) \<Rightarrow> nat \<Rightarrow> 's \<Rightarrow> 's" where
  "each_right_loop array iteratee 0 s = s"
| "each_right_loop array iteratee (Suc length') s =
     (case iteratee s (array ! length') length' array of
        (goes_on, s') \<Rightarrow> if goes_on then each_right_loop array iteratee length' s' else s')"

definition arrayEachRight ::
  "'a list option \<Rightarrow> ('s \<Rightarrow> 'a \<Rightarrow> nat \<Rightarrow> 'a list \<Rightarrow> bool \<times> 's) \<Rightarrow> 's \<Rightarrow> 'a list option \<times> 's" where
  "arrayEachRight array iteratee s = (array, each_right_loop (arr_items array) iteratee (arr_len array) s)"

function every_loop :: "'a list \<Rightarrow> ('a \<Rightarrow> nat \<Rightarrow> 'a list \<Rightarrow> bool) \<Rightarrow> nat \<Rightarrow> bool" where
  "every_loop array predicate index =
     (if index < length array
      then (if \<not> predicate (array ! index) index array then False else every_loop array predicate (Suc index))
      else True)"
  by pat_completeness auto
termination by (relation "measure (\<lambda>(array, predicate, index). length array - index)") auto

definition arrayEvery :: "'a list option \<Rightarrow> ('a \<Rightarrow> nat \<Rightarrow> 'a list \<Rightarrow> bool) \<Rightarrow> bool" where
  "arrayEvery array predicate = every_loop (arr_items array) predicate 0"

function filter_loop :: "'a list \<Rightarrow> ('a \<Rightarrow> nat \<Rightarrow> 'a list \<Rightarrow> bool) \<Rightarrow> nat \<Rightarrow> 'a list \<Rightarrow> 'a list" where
  "filter_loop array predicate index result =
     (if index < length array
      then (let value = array ! index
            in filter_loop array predicate (Suc index)
                 (if predicate value index array then result @ [value] else result))
      else result)"
  by pat_completeness auto
termination by (relation "measure (\<lambda>(array, predicate, index, result). length array - index)") auto

definition arrayFilter :: "'a list option \<Rightarrow> ('a \<Rightarrow> nat \<Rightarrow> 'a list \<Rightarrow> bool) \<Rightarrow> 'a list" where
  "arrayFilter array predicate = filter_loop (arr_items array) predicate 0 []"

function map_loop :: "'a list \<Rightarrow> ('a \<Rightarrow> nat \<Rightarrow> 'a list \<Rightarrow> 'b) \<Rightarrow> nat \<Rightarrow> 'b list \<Rightarrow> 'b list" where
  "map_loop array iteratee index result =
     (if index < length array
      then map_loop array iteratee (Suc index) (result @ [iteratee (array ! index) index array])
      else result)"
  by pat_completeness auto
termination by (relation "measure (\<lambda>(array, iteratee, index, result). length array - index)") auto

definition arrayMap :: "'a list option \<Rightarrow> ('a \<Rightarrow> nat \<Rightarrow> 'a list \<Rightarrow> 'b) \<Rightarrow> 'b list" where
  "arrayMap array iteratee = map_loop (arr_items array) iteratee 0 []"

function push_loop :: "'a list \<Rightarrow> nat \<Rightarrow> 'a list \<Rightarrow> 'a list" where
  "push_loop values index array =
     (if index < length values then push_loop values (Suc index) (array @ [values ! index]) else array)"
  by pat_completeness auto
termination by (relation "measure (\<lambda>(values, index, array). length values - index)") auto

definition arrayPush :: "'a list \<Rightarrow> 'a list \<Rightarrow> 'a list" where
  "arrayPush array values = push_loop values 0 array"

function reduce_loop :: "'a list \<Rightarrow> ('b \<Rightarrow> 'a \<Rightarrow> nat \<Rightarrow> 'a list \<Rightarrow> 'b) \<Rightarrow> nat \<Rightarrow> 'b \<Rightarrow> 'b" where
  "reduce_loop array iteratee index accumulator =
     (if index < length array
      then reduce_loop array iteratee (Suc index) (iteratee accumulator (array ! index) index array)
      else accumulator)"
  by pat_completeness auto
termination by (relation "measure (\<lambda>(array, iteratee, index, accumulator). length array - index)") auto

definition arrayReduce ::
  "jsval list option \<Rightarrow> (jsval \<Rightarrow> jsval \<Rightarrow> nat \<Rightarrow> jsval list \<Rightarrow> jsval) \<Rightarrow> jsval \<Rightarrow> bool \<Rightarrow> jsval" where
  "arrayReduce array iteratee accumulator initAccum =
     (if initAccum \<and> arr_len array \<noteq> 0
      then reduce_loop (arr_items array) iteratee 1 (arr_items array ! 0)
      else reduce_loop (arr_items array) iteratee 0 accumulator)"

fun reduce_right_loop :: "'a list \<Rightarrow> ('b \<Rightarrow> 'a \<Rightarrow> nat \<Rightarrow> 'a list \<Rightarrow> 'b) \<Rightarrow> nat \<Rightarrow> 'b \<Rightarrow> 'b" where
  "reduce_right_loop array iteratee 0 accumulator = accumulator"
| "reduce_right_loop array iteratee (Suc length') accumulator =
     reduce_right_loop array iteratee length' (iteratee accumulator (array ! length') length' array)"

definition arrayReduceRight ::
  "jsval list option \<Rightarrow> (jsval \<Rightarrow> jsval \<Rightarrow> nat \<Rightarrow> jsval list \<Rightarrow> jsval) \<Rightarrow> jsval \<Rightarrow> bool \<Rightarrow> jsval" where
  "arrayReduceRight array iteratee accumulator initAccum =
     (if initAccum \<and> arr_len array \<noteq> 0
      then reduce_right_loop (arr_items array) iteratee (arr_len array - 1) (arr_items array ! (arr_len array - 1))
      else reduce_right_loop (arr_items array) iteratee (arr_len array) accumulator)"

function some_loop :: "'a list \<Rightarrow> ('a \<Rightarrow> nat \<Rightarrow> 'a list \<Rightarrow> bool) \<Rightarrow> nat \<Rightarrow> bool" where
  "some_loop array predicate index =
     (if index < length array
      then (if predicate (array ! index) index array then True else some_loop array predicate (Suc index))
      else False)"
  by pat_completeness auto
termination by (relation "measure (\<lambda>(array, predicate, index). length array - index)") auto

definition arraySome :: "'a list option \<Rightarrow> ('a \<Rightarrow> nat \<Rightarrow> 'a list \<Rightarrow> bool) \<Rightarrow> bool" where
  "arraySome array predicate = some_loop (arr_items array) predicate 0"

function times_loop :: "nat \<Rightarrow> (nat \<Rightarrow> 'a) \<Rightarrow> nat \<Rightarrow> 'a list \<Rightarrow> 'a list" where
  "times_loop n iteratee index result =
     (if index < n then times_loop n iteratee (Suc index) (result @ [iteratee index]) else result)"
  by pat_completeness auto
termination by (relation "measure (\<lambda>(n, iteratee, index, result). n - index)") auto

definition baseTimes :: "nat \<Rightarrow> (nat \<Rightarrow> 'a) \<Rightarrow> 'a list" where
  "baseTimes n iteratee = times_loop n iteratee 0 []"

definition baseUnary :: "('a \<Rightarrow> 'b) \<Rightarrow> 'a \<Rightarrow> 'c \<Rightarrow> 'd \<Rightarrow> 'b" where
  "baseUnary func = (\<lambda>value _ _. func value)"

definition overArg :: "('b \<Rightarrow> 'c) \<Rightarrow> ('a \<Rightarrow> 'b) \<Rightarrow> 'a \<Rightarrow> 'c" where
  "overArg func transform = (\<lambda>arg. func (transform arg))"

text \<open>\<open>copyArray\<close> writes over the front of the target array when it is given one.\<close>

definition copyArray :: "'a list \<Rightarrow> 'a list option \<Rightarrow> 'a list" where
  "copyArray source array =
     (case array of
        None \<Rightarrow> map (\<lambda>index. source ! index) [0..<length source]
      | Some target \<Rightarrow> map (\<lambda>index. source ! index) [0..<length source] @ drop (length source) target)"

section \<open>Searching\<close>

text \<open>
  The start index is a natural number: the callers normalise it. From the left the loop ends at
  the length, from the right it counts down from the start.
\<close>

function find_left_loop :: "jsval list \<Rightarrow> (jsval \<Rightarrow> nat \<Rightarrow> jsval list \<Rightarrow> bool) \<Rightarrow> nat \<Rightarrow> int" where
  "find_left_loop array predicate index =
     (if index < length array
      then (if predicate (array ! index) index array then int index
            else find_left_loop array predicate (Suc index))
      else -1)"
  by pat_completeness auto
termination by (relation "measure (\<lambda>(array, predicate, index). length array - index)") auto

fun find_right_loop :: "jsval list \<Rightarrow> (jsval \<Rightarrow> nat \<Rightarrow> jsval list \<Rightarrow> bool) \<Rightarrow> nat \<Rightarrow> int" where
  "find_right_loop array predicate 0 = -1"
| "find_right_loop array predicate (Suc index) =
     (if predicate (arr_get array index) index array then int index
      else find_right_loop array predicate index)"

definition baseFindIndex ::
  "jsval list \<Rightarrow> (jsval \<Rightarrow> nat \<Rightarrow> jsval list \<Rightarrow> bool) \<Rightarrow> nat \<Rightarrow> bool \<Rightarrow> int" where
  "baseFindIndex array predicate fromIndex fromRight =
     (if fromRight then find_right_loop array predicate (Suc fromIndex)
      else find_left_loop array predicate fromIndex)"

function index_of_loop :: "jsval list \<Rightarrow> jsval \<Rightarrow> nat \<Rightarrow> int" where
  "index_of_loop array value index =
     (if index < length array
      then (if strict_eq (array ! index) value then int index else index_of_loop array value (Suc index))
      else -1)"
  by pat_completeness auto
termination by (relation "measure (\<lambda>(array, value, index). length array - index)") auto

definition baseIndexOf :: "jsval list \<Rightarrow> jsval \<Rightarrow> nat \<Rightarrow> int" where
  "baseIndexOf array value fromIndex =
     (if \<not> strict_eq value value then baseFindIndex array (\<lambda>v _ _. baseIsNaN v) fromIndex False
      else index_of_loop array value fromIndex)"

function baseIndexOfWith :: "jsval list \<Rightarrow> jsval \<Rightarrow> nat \<Rightarrow> (jsval \<Rightarrow> jsval \<Rightarrow> bool) \<Rightarrow> int" where
  "baseIndexOfWith array value fromIndex comparator =
     (if fromIndex < length array
      then (if comparator (array ! fromIndex) value then int fromIndex
            else baseIndexOfWith array value (Suc fromIndex) comparator)
      else -1)"
  by pat_completeness auto
termination by (relation "measure (\<lambda>(array, value, fromIndex, comparator). length array - fromIndex)") auto

definition arrayIncludes :: "jsval list option \<Rightarrow> jsval \<Rightarrow> bool" where
  "arrayIncludes array value = (arr_len array \<noteq> 0 \<and> baseIndexOf (arr_items array) value 0 > -1)"

function includes_with_loop :: "jsval list \<Rightarrow> jsval \<Rightarrow> (jsval \<Rightarrow> jsval \<Rightarrow> bool) \<Rightarrow> nat \<Rightarrow> bool" where
  "includes_with_loop array value comparator index =
     (if index < length array
      then (if comparator value (array ! index) then True
            else includes_with_loop array value comparator (Suc index))
      else False)"
  by pat_completeness auto
termination by (relation "measure (\<lambda>(array, value, comparator, index). length array - index)") auto

definition arrayIncludesWith :: "jsval list option \<Rightarrow> jsval \<Rightarrow> (jsval \<Rightarrow> jsval \<Rightarrow> bool) \<Rightarrow> bool" where
  "arrayIncludesWith array value comparator = includes_with_loop (arr_items array) value comparator 0"

section \<open>Indices, slices and fills\<close>

text \<open>\<open>isIndex\<close> on a number; the length defaults to the largest safe integer.\<close>

definition isIndex :: "jsnum \<Rightarrow> nat option \<Rightarrow> bool" where
  "isIndex value len =
     (let len1 = (case len of None \<Rightarrow> MAX_SAFE_INTEGER | Some l \<Rightarrow> int l)
      in len1 \<noteq> 0 \<and> num_less (Fin (-1)) value \<and> num_integral value \<and> num_less value (num_of_int len1))"

text \<open>\<open>x >>> 0\<close> on an integral number.\<close>

definition ToUint32 :: "int \<Rightarrow> int" where
  "ToUint32 x = x mod 2 ^ 32"

definition baseSlice :: "'a list \<Rightarrow> int \<Rightarrow> int \<Rightarrow> 'a list" where
  "baseSlice array start stop =
     (let len = int (length array);
          start1 = (if start < 0 then (if - start > len then 0 else len + start) else start);
          stop1 = (if stop > len then len else stop);
          stop2 = (if stop1 < 0 then stop1 + len else stop1);
          length' = (if start1 > stop2 then 0 else ToUint32 (stop2 - start1));
          start2 = ToUint32 start1
      in map (\<lambda>index. array ! nat (int index + start2)) [0..<nat length'])"

definition castSlice :: "'a list \<Rightarrow> int \<Rightarrow> int option \<Rightarrow> 'a list" where
  "castSlice array start stop =
     (let len = int (length array); stop1 = (case stop of None \<Rightarrow> len | Some e \<Rightarrow> e)
      in if start = 0 \<and> stop1 \<ge> len then array else baseSlice array start stop1)"

function fill_loop :: "'a list \<Rightarrow> 'a \<Rightarrow> int \<Rightarrow> int \<Rightarrow> 'a list" where
  "fill_loop array value start stop =
     (if start < stop then fill_loop (array[nat start := value]) value (start + 1) stop else array)"
  by pat_completeness auto
termination by (relation "measure (\<lambda>(array, value, start, stop). nat (stop - start))") auto

definition baseFill :: "'a list \<Rightarrow> 'a \<Rightarrow> jsnum option \<Rightarrow> jsnum option \<Rightarrow> 'a list" where
  "baseFill array value start stop =
     (let len = int (length array);
          start1 = (case start of None \<Rightarrow> 0 | Some s \<Rightarrow> num_int (toInteger s));
          start2 = (if start1 < 0 then (if - start1 > len then 0 else len + start1) else start1);
          stop1 = (case stop of
                     None \<Rightarrow> len
                   | Some e \<Rightarrow> if num_less (num_of_int len) e then len else num_int (toInteger e));
          stop2 = (if stop1 < 0 then stop1 + len else stop1);
          stop3 = (if start2 > stop2 then 0 else num_int (toLength (num_of_int stop2)))
      in fill_loop array value start2 stop3)"

definition baseNth :: "jsval list \<Rightarrow> int \<Rightarrow> jsval" where
  "baseNth array n =
     (if length array = 0 then Undefined
      else (let n1 = n + (if n < 0 then int (length array) else 0)
            in if isIndex (num_of_int n1) (Some (length array)) then array ! nat n1 else Undefined))"

function while_left_loop :: "'a list \<Rightarrow> ('a \<Rightarrow> nat \<Rightarrow> 'a list \<Rightarrow> bool) \<Rightarrow> nat \<Rightarrow> int" where
  "while_left_loop array predicate index =
     (if index < length array \<and> predicate (array ! index) index array
      then while_left_loop array predicate (Suc index) else int index)"
  by pat_completeness auto
termination by (relation "measure (\<lambda>(array, predicate, index). length array - index)") auto

text \<open>Counting down, the loop leaves the index at the element that fails, or at -1.\<close>

fun while_right_loop :: "'a list \<Rightarrow> ('a \<Rightarrow> nat \<Rightarrow> 'a list \<Rightarrow> bool) \<Rightarrow> nat \<Rightarrow> int" where
  "while_right_loop array predicate 0 = -1"
| "while_right_loop array predicate (Suc index) =
     (if predicate (array ! index) index array then while_right_loop array predicate index else int index)"

definition baseWhile ::
  "'a list \<Rightarrow> ('a \<Rightarrow> nat \<Rightarrow> 'a list \<Rightarrow> bool) \<Rightarrow> bool \<Rightarrow> bool \<Rightarrow> 'a list" where
  "baseWhile array predicate isDrop fromRight =
     (let len = int (length array);
          index = (if fromRight then while_right_loop array predicate (length array)
                   else while_left_loop array predicate 0)
      in if isDrop
         then baseSlice array (if fromRight then 0 else index) (if fromRight then index + 1 else len)
         else baseSlice array (if fromRight then index + 1 else 0) (if fromRight then len else index))"

section \<open>Flattening\<close>

text \<open>
  An element of an array that may itself be an array; the flag of a nested array says whether it
  is a true array, an arguments object or another object with a length.
\<close>

datatype array_kind = TrueArray | ArgumentsObject | ArrayLikeObject

datatype 'a item = Item 'a | Nested array_kind "'a item list"

text \<open>Spreadable objects other than arrays are outside the model of \<open>isFlattenable\<close>.\<close>

fun isFlattenable :: "'a item \<Rightarrow> bool" where
  "isFlattenable (Nested kind xs) = (kind = TrueArray \<or> kind = ArgumentsObject)"
| "isFlattenable (Item v) = False"

fun isArrayLikeObject :: "'a item \<Rightarrow> bool" where
  "isArrayLikeObject (Nested kind xs) = True"
| "isArrayLikeObject (Item v) = False"

text \<open>The depth is infinite for \<open>flattenDeep\<close>.\<close>

definition depth_pred :: "jsnum \<Rightarrow> jsnum" where
  "depth_pred depth = (case depth of Fin q \<Rightarrow> Fin (q - 1) | NegZero \<Rightarrow> Fin (-1) | d \<Rightarrow> d)"

fun item_list :: "'a item \<Rightarrow> 'a item list" where
  "item_list (Nested kind xs) = xs"
| "item_list (Item v) = []"

function baseFlatten ::
  "'a item list \<Rightarrow> jsnum \<Rightarrow> ('a item \<Rightarrow> bool) option \<Rightarrow> bool \<Rightarrow> 'a item list \<Rightarrow> 'a item list" where
  "baseFlatten [] depth predicate isStrict result = result"
| "baseFlatten (value # array) depth predicate isStrict result =
     baseFlatten array depth predicate isStrict
       (if num_less (Fin 0) depth \<and> (case predicate of None \<Rightarrow> isFlattenable | Some p \<Rightarrow> p) value
        then (if num_less (Fin 1) depth
              then baseFlatten (item_list value) (depth_pred depth)
                     (Some (case predicate of None \<Rightarrow> isFlattenable | Some p \<Rightarrow> p)) isStrict result
              else arrayPush result (item_list value))
        else if \<not> isStrict then result @ [value] else result)"
  by pat_completeness auto
termination
proof (relation "measure (\<lambda>(array, depth, predicate, isStrict, result). size_list size array)")
  fix v :: "'a item" and array d p q r and res :: "'a item list"
  show "((item_list v, d, p, q, r), v # array, depth, predicate, isStrict, res)
      \<in> measure (\<lambda>(array, depth, predicate, isStrict, result). size_list size array)" for depth predicate isStrict
    by (cases v) auto
qed auto

declare aggregator_loop.simps [simp del]
  each_loop.simps [simp del]
  every_loop.simps [simp del]
  filter_loop.simps [simp del]
  map_loop.simps [simp del]
  push_loop.simps [simp del]
  reduce_loop.simps [simp del]
  some_loop.simps [simp del]
  times_loop.simps [simp del]
  find_left_loop.simps [simp del]
  index_of_loop.simps [simp del]
  baseIndexOfWith.simps [simp del]
  includes_with_loop.simps [simp del]
  fill_loop.simps [simp del]
  while_left_loop.simps [simp del]

subsection \<open>Slices\<close>

text \<open>An index or end as \<open>slice\<close> reads it: negative ones count from the end; all are clamped.\<close>

definition rel_index :: "nat \<Rightarrow> int \<Rightarrow> nat" where
  "rel_index len i = nat (if i < 0 then max 0 (int len + i) else min i (int len))"

text \<open>A number as an index: \<open>toInteger\<close> truncates, undefined counts as zero.\<close>

definition int_arg :: "jsnum option \<Rightarrow> int" where
  "int_arg n = (case n of None \<Rightarrow> 0 | Some m \<Rightarrow> num_int (toInteger m))"

definition fill_stop :: "nat \<Rightarrow> jsnum option \<Rightarrow> nat" where
  "fill_stop len stop = (case stop of None \<Rightarrow> len | Some e \<Rightarrow> rel_index len (num_int (toInteger e)))"

section \<open>Lemmas\<close>

subsection \<open>The loops as list functions\<close>

lemma arr_len_simps [simp]: "arr_len None = 0" "arr_len (Some xs) = length xs"
  by (simp_all add: arr_len_def)

lemma aggregator_loop_fold:
  "aggregator_loop array setter iteratee index acc =
     fold (\<lambda>(j, v) a. setter a v (iteratee v) array) (index_from index array) acc"
proof (induction array setter iteratee index acc rule: aggregator_loop.induct)
  case (1 array setter iteratee index acc)
  then show ?case
    by (subst aggregator_loop.simps, cases "index < length array") (simp_all add: Let_def index_from_Cons [of index] index_from_Nil)
qed

lemma every_loop_all: "every_loop array predicate index \<longleftrightarrow> (\<forall>(j, v)\<in>set (index_from index array). predicate v j array)"
proof (induction array predicate index rule: every_loop.induct)
  case (1 array predicate index)
  then show ?case by (subst every_loop.simps, cases "index < length array") (simp_all add: index_from_Cons [of index] index_from_Nil)
qed

lemma some_loop_ex: "some_loop array predicate index \<longleftrightarrow> (\<exists>(j, v)\<in>set (index_from index array). predicate v j array)"
proof (induction array predicate index rule: some_loop.induct)
  case (1 array predicate index)
  then show ?case by (subst some_loop.simps, cases "index < length array") (simp_all add: index_from_Cons [of index] index_from_Nil)
qed

lemma filter_loop_filter:
  "filter_loop array predicate index result =
     result @ map snd (filter (\<lambda>(j, v). predicate v j array) (index_from index array))"
proof (induction array predicate index result rule: filter_loop.induct)
  case (1 array predicate index result)
  then show ?case by (subst filter_loop.simps, cases "index < length array") (simp_all add: index_from_Cons [of index] index_from_Nil)
qed

lemma map_loop_map:
  "map_loop array iteratee index result = result @ map (\<lambda>(j, v). iteratee v j array) (index_from index array)"
proof (induction array iteratee index result rule: map_loop.induct)
  case (1 array iteratee index result)
  then show ?case by (subst map_loop.simps, cases "index < length array") (simp_all add: index_from_Cons [of index] index_from_Nil)
qed

lemma reduce_loop_fold:
  "reduce_loop array iteratee index acc = fold (\<lambda>(j, v) a. iteratee a v j array) (index_from index array) acc"
proof (induction array iteratee index acc rule: reduce_loop.induct)
  case (1 array iteratee index acc)
  then show ?case by (subst reduce_loop.simps, cases "index < length array") (simp_all add: index_from_Cons [of index] index_from_Nil)
qed

lemma reduce_right_loop_foldr:
  "n \<le> length array \<Longrightarrow>
   reduce_right_loop array iteratee n acc = foldr (\<lambda>(j, v) a. iteratee a v j array) (take n (enumerate 0 array)) acc"
  by (induction n arbitrary: acc) (simp_all add: take_Suc_conv_app_nth nth_enumerate_eq)

lemma each_loop_fold:
  assumes "\<And>s v j. fst (iteratee s v j array)"
  shows "each_loop array iteratee index s = fold (\<lambda>(j, v) s. snd (iteratee s v j array)) (index_from index array) s"
proof (induction "length array - index" arbitrary: index s)
  case 0
  then show ?case by (subst each_loop.simps) (simp add: index_from_Nil)
next
  case (Suc n)
  then have "index < length array" by simp
  with Suc show ?case using assms
    by (subst each_loop.simps) (simp add: index_from_Cons [of index] split_beta)
qed

lemma push_loop_append: "push_loop values index array = array @ drop index values"
proof (induction "values" index array rule: push_loop.induct)
  case (1 "values" index array)
  then show ?case
    by (subst push_loop.simps, cases "index < length values") (simp_all flip: Cons_nth_drop_Suc)
qed

lemma arrayPush_append [simp]: "arrayPush array values = array @ values"
  by (simp add: arrayPush_def push_loop_append)

lemma times_loop_map: "times_loop n iteratee index result = result @ map iteratee [index..<n]"
proof (induction n iteratee index result rule: times_loop.induct)
  case (1 n iteratee index result)
  then show ?case by (subst times_loop.simps, cases "index < n") (simp_all add: upt_conv_Cons)
qed

lemma baseTimes_map [simp]: "baseTimes n iteratee = map iteratee [0..<n]"
  by (simp add: baseTimes_def times_loop_map)

lemma index_from_0: "index_from 0 xs = enumerate 0 xs"
  by (simp add: index_from_def)

lemma arrayMap_map: "arrayMap (Some xs) f = map (\<lambda>(j, v). f v j xs) (enumerate 0 xs)"
  by (simp add: arrayMap_def map_loop_map index_from_0)

lemma arrayMap_unary [simp]: "arrayMap (Some xs) (baseUnary f) = map f xs"
proof -
  have "map (\<lambda>(j, v). f v) ys = map f (map snd ys)" for ys :: "(nat \<times> 'b) list" by (auto simp: split_beta)
  from this [of "enumerate 0 xs"] show ?thesis by (simp only: arrayMap_map baseUnary_def map_snd_enumerate)
qed

lemma arrayFilter_unary: "arrayFilter (Some xs) (\<lambda>v _ _. p v) = filter p xs"
proof -
  have "map snd (filter (\<lambda>(j, v). p v) ys) = filter p (map snd ys)" for ys :: "(nat \<times> 'a) list"
    by (induction ys) auto
  then show ?thesis by (simp add: arrayFilter_def filter_loop_filter index_from_0)
qed

lemma copyArray_id [simp]: "copyArray xs None = xs"
  by (simp add: copyArray_def map_nth)

subsection \<open>Searches\<close>

lemma find_left_loop_cases:
  "(find_left_loop array predicate index = -1 \<and>
     (\<forall>j\<ge>index. j < length array \<longrightarrow> \<not> predicate (array ! j) j array)) \<or>
   (\<exists>j\<ge>index. find_left_loop array predicate index = int j \<and> j < length array \<and> predicate (array ! j) j array \<and>
     (\<forall>k\<ge>index. k < j \<longrightarrow> \<not> predicate (array ! k) k array))"
proof (induction array predicate index rule: find_left_loop.induct)
  case (1 array predicate index)
  show ?case
  proof (cases "index < length array \<and> \<not> predicate (array ! index) index array")
    case True
    then have e: "find_left_loop array predicate index = find_left_loop array predicate (Suc index)"
      by (subst find_left_loop.simps) simp
    have s: "(\<forall>j\<ge>index. Q j) \<longleftrightarrow> Q index \<and> (\<forall>j\<ge>Suc index. Q j)" for Q
      by (metis Suc_leD Suc_leI le_neq_implies_less order_refl)
    from 1 True show ?thesis unfolding e s [where Q = "\<lambda>j. j < length array \<longrightarrow> \<not> predicate (array ! j) j array"]
      by (metis Suc_leD Suc_leI le_neq_implies_less)
  next
    case False
    then show ?thesis by (subst (1 2) find_left_loop.simps) auto
  qed
qed

lemma index_of_loop_find: "index_of_loop array v index = find_left_loop array (\<lambda>x _ _. strict_eq x v) index"
proof (induction array v index rule: index_of_loop.induct)
  case (1 array v index)
  then show ?case by (subst index_of_loop.simps, subst find_left_loop.simps) simp
qed

lemma baseIndexOfWith_find: "baseIndexOfWith array v index c = find_left_loop array (\<lambda>x _ _. c x v) index"
proof (induction array v index c rule: baseIndexOfWith.induct)
  case (1 array v index c)
  then show ?case by (subst baseIndexOfWith.simps, subst find_left_loop.simps) simp
qed

lemma strict_eq_self: "strict_eq v v \<longleftrightarrow> v \<noteq> Num NaN"
  by (simp add: strict_eq_iff)

lemma eq_NaN: "eq x (Num NaN) \<longleftrightarrow> baseIsNaN x"
  by (cases x) (auto simp: eq_iff_norm baseIsNaN_def strict_eq_self, metis jsnum.distinct(7) zero_norm.elims)

lemma baseIndexOf_find: "baseIndexOf array v index = find_left_loop array (\<lambda>x _ _. eq x v) index"
proof (cases "v = Num NaN")
  case True
  then show ?thesis by (simp add: baseIndexOf_def strict_eq_self baseFindIndex_def eq_NaN)
next
  case False
  then have "strict_eq x v = eq x v" for x by (auto simp: strict_eq_iff eq_sym eq_NaN baseIsNaN_def)
  with False show ?thesis by (simp add: baseIndexOf_def strict_eq_self index_of_loop_find)
qed

lemma find_left_loop_ge: "find_left_loop array predicate index \<ge> -1"
  using find_left_loop_cases [of array predicate index] by auto

lemma find_left_loop_found:
  "find_left_loop array (\<lambda>x _ _. p x) 0 > -1 \<longleftrightarrow> (\<exists>x\<in>set array. p x)"
  using find_left_loop_cases [of array "\<lambda>x _ _. p x" 0] by (force simp: in_set_conv_nth)

lemma arrayIncludes_eq [simp]: "arrayIncludes (Some xs) v \<longleftrightarrow> (\<exists>x\<in>set xs. eq x v)"
  by (auto simp: arrayIncludes_def baseIndexOf_find find_left_loop_found)

lemma includes_with_loop_ex:
  "includes_with_loop array v c index \<longleftrightarrow> (\<exists>x\<in>set (drop index array). c v x)"
proof (induction array v c index rule: includes_with_loop.induct)
  case (1 array v c index)
  then show ?case
    by (subst includes_with_loop.simps, cases "index < length array") (auto simp flip: Cons_nth_drop_Suc)
qed

lemma arrayIncludesWith_ex [simp]: "arrayIncludesWith (Some xs) v c \<longleftrightarrow> (\<exists>x\<in>set xs. c v x)"
  by (simp add: arrayIncludesWith_def includes_with_loop_ex)

lemma find_right_loop_cases:
  "(find_right_loop array predicate n = -1 \<and> (\<forall>j<n. \<not> predicate (arr_get array j) j array)) \<or>
   (\<exists>j<n. find_right_loop array predicate n = int j \<and> predicate (arr_get array j) j array \<and>
     (\<forall>k<n. j < k \<longrightarrow> \<not> predicate (arr_get array k) k array))"
  by (induction n) (auto simp: less_Suc_eq)

lemma baseSlice_take_drop:
  assumes "length xs < 2 ^ 32"
  shows "baseSlice xs start stop = drop (rel_index (length xs) start) (take (rel_index (length xs) stop) xs)"
proof -
  let ?n = "length xs"
  define s where "s = (if start < 0 then (if - start > int ?n then 0 else int ?n + start) else start)"
  define e1 where "e1 = (if stop > int ?n then int ?n else stop)"
  define e where "e = (if e1 < 0 then e1 + int ?n else e1)"
  have e: "e \<le> int ?n" "nat e = rel_index ?n stop" by (auto simp: e_def e1_def rel_index_def)
  have s: "s \<ge> 0" "min ?n (nat s) = rel_index ?n start" by (auto simp: s_def rel_index_def)
  have eq: "baseSlice xs start stop =
      map (\<lambda>i. xs ! nat (int i + ToUint32 s)) [0..<nat (if s > e then 0 else ToUint32 (e - s))]"
    by (simp add: baseSlice_def Let_def s_def e_def e1_def)
  show ?thesis
  proof (cases "s > e")
    case True
    then have "rel_index ?n stop \<le> rel_index ?n start" using e s by linarith
    with True show ?thesis by (simp add: eq)
  next
    case False
    have "int ?n < 2 ^ 32" using assms by (simp flip: of_nat_less_iff)
    then have u: "ToUint32 s = s" "ToUint32 (e - s) = e - s"
      using False s(1) e(1) by (simp_all add: ToUint32_def)
    have "rel_index ?n start = nat s" using False s e by linarith
    then show ?thesis using False s(1) e
      by (auto simp: eq u intro!: nth_equalityI simp: nat_add_distrib add.commute)
  qed
qed

lemma fill_loop_spec:
  "0 \<le> start \<Longrightarrow> stop \<le> int (length xs) \<Longrightarrow>
   fill_loop xs v start stop = map (\<lambda>i. if start \<le> int i \<and> int i < stop then v else xs ! i) [0..<length xs]"
proof (induction xs v start stop rule: fill_loop.induct)
  case (1 xs v start stop)
  show ?case
  proof (cases "start < stop")
    case True
    with 1 show ?thesis
      by (subst fill_loop.simps) (auto simp: nth_list_update intro!: map_cong)
  next
    case False
    then show ?thesis by (subst fill_loop.simps) (auto simp: map_nth intro!: nth_equalityI)
  qed
qed

lemma num_int_toInteger_less: "num_less (num_of_int i) n \<Longrightarrow> i \<le> num_int (toInteger n) \<or> n = PInf"
  by (cases n) (auto simp: num_of_int_def toInteger_Fin rat_trunc_def le_floor_iff, linarith+)

lemma fill_stop_int:
  fixes len :: nat and stop :: "jsnum option"
  assumes "len < 2 ^ 32"
  defines "e1 \<equiv> (case stop of None \<Rightarrow> int len
     | Some e \<Rightarrow> if num_less (num_of_int (int len)) e then int len else num_int (toInteger e))"
  shows "nat (if e1 < 0 then e1 + int len else e1) = fill_stop len stop \<and> (if e1 < 0 then e1 + int len else e1) \<le> int len"
proof (cases stop)
  case None
  then show ?thesis by (simp add: e1_def fill_stop_def)
next
  case (Some e)
  have big: "(2 :: int) ^ 32 \<le> MAX_INTEGER" by (simp add: MAX_INTEGER_def)
  show ?thesis
  proof (cases "num_less (num_of_int (int len)) e")
    case True
    then have "int len \<le> num_int (toInteger e)"
      using num_int_toInteger_less [OF True] assms(1) big by (auto simp flip: of_nat_less_iff)
    with True Some show ?thesis by (simp add: e1_def fill_stop_def rel_index_def)
  next
    case False
    then have "num_int (toInteger e) \<le> int len"
      by (cases e) (auto simp: num_of_int_def toInteger_Fin rat_trunc_def floor_le_iff ceiling_le_iff MAX_INTEGER_def)
    with False Some show ?thesis by (auto simp: e1_def fill_stop_def rel_index_def)
  qed
qed

lemma baseFill_spec:
  assumes "length xs < 2 ^ 32"
  shows "baseFill xs v start stop =
    map (\<lambda>i. if rel_index (length xs) (int_arg start) \<le> i \<and> i < fill_stop (length xs) stop then v else xs ! i) [0..<length xs]"
proof -
  let ?n = "length xs"
  define s where "s = (if int_arg start < 0 then (if - int_arg start > int ?n then 0 else int ?n + int_arg start) else int_arg start)"
  define e1 where "e1 = (case stop of None \<Rightarrow> int ?n
     | Some e \<Rightarrow> if num_less (num_of_int (int ?n)) e then int ?n else num_int (toInteger e))"
  define e where "e = (if e1 < 0 then e1 + int ?n else e1)"
  have e: "nat e = fill_stop ?n stop" "e \<le> int ?n"
    using fill_stop_int [OF assms, of stop] unfolding e_def e1_def by blast+
  have n: "int ?n < 2 ^ 32" using assms by (simp flip: of_nat_less_iff)
  have s: "0 \<le> s" "i < ?n \<Longrightarrow> rel_index ?n (int_arg start) \<le> i \<longleftrightarrow> s \<le> int i" for i
    by (auto simp: s_def rel_index_def)
  define f where "f = (if s > e then 0 else num_int (toLength (num_of_int e)))"
  have "0 \<le> s \<Longrightarrow> s \<le> e \<Longrightarrow> num_int (toLength (num_of_int e)) = e"
    using n e(2) by (auto simp: num_int_toLength MAX_ARRAY_LENGTH_def)
  with s(1) have f: "f = (if s > e then 0 else e)" by (simp add: f_def)
  have "baseFill xs v start stop = fill_loop xs v s f"
    by (simp add: baseFill_def Let_def s_def e_def e1_def f_def int_arg_def)
  also have "\<dots> = map (\<lambda>i. if s \<le> int i \<and> int i < f then v else xs ! i) [0..<?n]"
    using s(1) e(2) by (intro fill_loop_spec) (auto simp: f)
  also have "\<dots> = map (\<lambda>i. if rel_index ?n (int_arg start) \<le> i \<and> i < fill_stop ?n stop then v else xs ! i) [0..<?n]"
    using s e by (intro map_cong refl) (auto simp: f)
  finally show ?thesis .
qed

lemma while_left_loop_takeWhile:
  "while_left_loop xs p index = int (index + length (takeWhile (\<lambda>(j, v). p v j xs) (index_from index xs)))"
proof (induction xs p index rule: while_left_loop.induct)
  case (1 xs p index)
  then show ?case
    by (subst while_left_loop.simps, cases "index < length xs") (simp_all add: index_from_Cons [of index] index_from_Nil)
qed

lemma while_right_loop_takeWhile:
  "n \<le> length xs \<Longrightarrow>
   while_right_loop xs p n = int n - 1 - int (length (takeWhile (\<lambda>(j, v). p v j xs) (rev (take n (enumerate 0 xs)))))"
  by (induction n) (auto simp: take_Suc_conv_app_nth nth_enumerate_eq)

lemma length_takeWhile_unary: "length (takeWhile (\<lambda>(j, v). p v) ys) = length (takeWhile p (map snd ys))"
  by (induction ys) auto

lemma rel_index_of_nat [simp]: "i \<le> len \<Longrightarrow> rel_index len (int i) = i" "rel_index len 0 = 0"
  by (simp_all add: rel_index_def)

lemma baseWhile_left:
  assumes "length xs < 2 ^ 32"
  shows "baseWhile xs (\<lambda>v _ _. p v) True False = dropWhile p xs"
    and "baseWhile xs (\<lambda>v _ _. p v) False False = takeWhile p xs"
proof -
  let ?w = "length (takeWhile p xs)"
  have w: "while_left_loop xs (\<lambda>v _ _. p v) 0 = int ?w" "?w \<le> length xs"
    using length_takeWhile_unary [of p "index_from 0 xs"]
    by (simp_all add: while_left_loop_takeWhile length_takeWhile_le)
  then show "baseWhile xs (\<lambda>v _ _. p v) True False = dropWhile p xs"
    "baseWhile xs (\<lambda>v _ _. p v) False False = takeWhile p xs"
    by (simp_all add: baseWhile_def baseSlice_take_drop [OF assms] dropWhile_eq_drop takeWhile_eq_take [symmetric])
qed

lemma baseWhile_right:
  assumes "length xs < 2 ^ 32"
  shows "baseWhile xs (\<lambda>v _ _. p v) True True = rev (dropWhile p (rev xs))"
    and "baseWhile xs (\<lambda>v _ _. p v) False True = rev (takeWhile p (rev xs))"
proof -
  define w where "w = length (takeWhile p (rev xs))"
  have t: "takeWhile p (rev xs) = take w (rev xs)" unfolding w_def by (rule takeWhile_eq_take)
  have d: "dropWhile p (rev xs) = drop w (rev xs)" unfolding w_def by (rule dropWhile_eq_drop)
  have w: "w \<le> length xs" using length_takeWhile_le [of p "rev xs"] by (simp add: w_def)
  have "length (takeWhile (\<lambda>(j, v). p v) (rev (enumerate 0 xs))) = w"
    unfolding w_def length_takeWhile_unary by (simp add: rev_map [symmetric])
  then have i: "while_right_loop xs (\<lambda>v _ _. p v) (length xs) + 1 = int (length xs - w)"
    using w by (simp add: while_right_loop_takeWhile)
  show "baseWhile xs (\<lambda>v _ _. p v) True True = rev (dropWhile p (rev xs))"
    "baseWhile xs (\<lambda>v _ _. p v) False True = rev (takeWhile p (rev xs))"
    unfolding t d using i by (simp_all add: baseWhile_def baseSlice_take_drop [OF assms] Let_def rev_take rev_drop)
qed

end
