(* ===== verification/JsArrayApi.thy ===== *)
theory JsArrayApi
  imports JsArray
begin

text \<open>
  The public array functions of lodash.js that take one array: slicing, searching, filling,
  flattening, zipping and in-place removal. A function that mutates its argument returns the
  array after the call, paired with the value it returns where that is a different one.

  The iteratees are the functions \<open>getIteratee\<close> makes of the arguments. Numeric arguments are
  numbers or undefined (None), as the documentation of the functions says. The \<open>guard\<close> flags say
  that the call comes from an iteration, which is what \<open>isIterateeCall\<close> detects.
\<close>

section \<open>Slicing\<close>

text \<open>
  The guard of \<open>chunk\<close> is absent (None) or present with the answer of \<open>isIterateeCall\<close>. The
  loop is only entered with a positive size, which is what makes it end.
\<close>

function chunk_loop :: "'a list \<Rightarrow> int \<Rightarrow> int \<Rightarrow> 'a list list \<Rightarrow> 'a list list" where
  "chunk_loop array sz index result =
     (if index < int (length array) \<and> 0 < sz
      then chunk_loop array sz (index + sz) (result @ [baseSlice array index (index + sz)])
      else result)"
  by pat_completeness auto
termination by (relation "measure (\<lambda>(array, sz, index, result). nat (int (length array) - index))") auto

definition chunk :: "'a list option \<Rightarrow> jsnum option \<Rightarrow> bool option \<Rightarrow> 'a list list" where
  "chunk array sz guard =
     (let size1 = (if (case guard of Some iterateeCall \<Rightarrow> iterateeCall | None \<Rightarrow> sz = None) then 1
                   else max (int_arg sz) 0)
      in if arr_len array = 0 \<or> size1 < 1 then [] else chunk_loop (arr_items array) size1 0 [])"

fun compact_loop :: "jsval list \<Rightarrow> jsval list \<Rightarrow> jsval list" where
  "compact_loop [] result = result"
| "compact_loop (value # array) result = compact_loop array (if truthy value then result @ [value] else result)"

definition compact :: "jsval list option \<Rightarrow> jsval list" where
  "compact array = compact_loop (arr_items array) []"

definition drop_js :: "'a list option \<Rightarrow> jsnum option \<Rightarrow> bool \<Rightarrow> 'a list" where
  "drop_js array n guard =
     (let len = int (arr_len array)
      in if len = 0 then []
         else (let n1 = (if guard \<or> n = None then 1 else int_arg n)
               in baseSlice (arr_items array) (if n1 < 0 then 0 else n1) len))"

definition dropRight :: "'a list option \<Rightarrow> jsnum option \<Rightarrow> bool \<Rightarrow> 'a list" where
  "dropRight array n guard =
     (let len = int (arr_len array)
      in if len = 0 then []
         else (let n1 = (if guard \<or> n = None then 1 else int_arg n); n2 = len - n1
               in baseSlice (arr_items array) 0 (if n2 < 0 then 0 else n2)))"

definition take_js :: "'a list option \<Rightarrow> jsnum option \<Rightarrow> bool \<Rightarrow> 'a list" where
  "take_js array n guard =
     (if arr_len array = 0 then []
      else (let n1 = (if guard \<or> n = None then 1 else int_arg n)
            in baseSlice (arr_items array) 0 (if n1 < 0 then 0 else n1)))"

definition takeRight :: "'a list option \<Rightarrow> jsnum option \<Rightarrow> bool \<Rightarrow> 'a list" where
  "takeRight array n guard =
     (let len = int (arr_len array)
      in if len = 0 then []
         else (let n1 = (if guard \<or> n = None then 1 else int_arg n); n2 = len - n1
               in baseSlice (arr_items array) (if n2 < 0 then 0 else n2) len))"

definition dropRightWhile :: "'a list option \<Rightarrow> ('a \<Rightarrow> nat \<Rightarrow> 'a list \<Rightarrow> bool) \<Rightarrow> 'a list" where
  "dropRightWhile array predicate =
     (if arr_len array \<noteq> 0 then baseWhile (arr_items array) predicate True True else [])"

definition dropWhile_js :: "'a list option \<Rightarrow> ('a \<Rightarrow> nat \<Rightarrow> 'a list \<Rightarrow> bool) \<Rightarrow> 'a list" where
  "dropWhile_js array predicate =
     (if arr_len array \<noteq> 0 then baseWhile (arr_items array) predicate True False else [])"

definition takeRightWhile :: "'a list option \<Rightarrow> ('a \<Rightarrow> nat \<Rightarrow> 'a list \<Rightarrow> bool) \<Rightarrow> 'a list" where
  "takeRightWhile array predicate =
     (if arr_len array \<noteq> 0 then baseWhile (arr_items array) predicate False True else [])"

definition takeWhile_js :: "'a list option \<Rightarrow> ('a \<Rightarrow> nat \<Rightarrow> 'a list \<Rightarrow> bool) \<Rightarrow> 'a list" where
  "takeWhile_js array predicate =
     (if arr_len array \<noteq> 0 then baseWhile (arr_items array) predicate False False else [])"

definition initial :: "'a list option \<Rightarrow> 'a list" where
  "initial array = dropRight array (Some (Fin 1)) False"

definition tail :: "'a list option \<Rightarrow> 'a list" where
  "tail array = drop_js array (Some (Fin 1)) False"

definition slice :: "'a list option \<Rightarrow> jsnum option \<Rightarrow> jsnum option \<Rightarrow> bool \<Rightarrow> 'a list" where
  "slice array start stop iterateeCall =
     (let len = int (arr_len array)
      in if len = 0 then []
         else if iterateeCall then baseSlice (arr_items array) 0 len
         else baseSlice (arr_items array) (int_arg start)
                (case stop of None \<Rightarrow> len | Some e \<Rightarrow> num_int (toInteger e)))"

definition fill :: "'a list option \<Rightarrow> 'a \<Rightarrow> jsnum option \<Rightarrow> jsnum option \<Rightarrow> bool \<Rightarrow> 'a list" where
  "fill array value start stop iterateeCall =
     (let len = int (arr_len array)
      in if len = 0 then []
         else if iterateeCall then baseFill (arr_items array) value (Some (Fin 0)) (Some (num_of_int len))
         else baseFill (arr_items array) value start stop)"

section \<open>Access and search\<close>

definition head :: "jsval list option \<Rightarrow> jsval" where
  "head array = (if arr_len array \<noteq> 0 then arr_items array ! 0 else Undefined)"

definition last_js :: "jsval list option \<Rightarrow> jsval" where
  "last_js array = (if arr_len array \<noteq> 0 then arr_items array ! (arr_len array - 1) else Undefined)"

definition nth_js :: "jsval list option \<Rightarrow> jsnum option \<Rightarrow> jsval" where
  "nth_js array n = (if arr_len array \<noteq> 0 then baseNth (arr_items array) (int_arg n) else Undefined)"

definition findIndex :: "jsval list option \<Rightarrow> (jsval \<Rightarrow> nat \<Rightarrow> jsval list \<Rightarrow> bool) \<Rightarrow> jsnum option \<Rightarrow> int" where
  "findIndex array predicate fromIndex =
     (let len = int (arr_len array)
      in if len = 0 then -1
         else (let index = int_arg fromIndex; index1 = (if index < 0 then max (len + index) 0 else index)
               in baseFindIndex (arr_items array) predicate (nat index1) False))"

definition findLastIndex :: "jsval list option \<Rightarrow> (jsval \<Rightarrow> nat \<Rightarrow> jsval list \<Rightarrow> bool) \<Rightarrow> jsnum option \<Rightarrow> int" where
  "findLastIndex array predicate fromIndex =
     (let len = int (arr_len array)
      in if len = 0 then -1
         else (let index =
                 (case fromIndex of
                    None \<Rightarrow> len - 1
                  | Some from \<Rightarrow>
                      (let i = num_int (toInteger from)
                       in if num_less from (Fin 0) then max (len + i) 0 else min i (len - 1)))
               in baseFindIndex (arr_items array) predicate (nat index) True))"

definition indexOf :: "jsval list option \<Rightarrow> jsval \<Rightarrow> jsnum option \<Rightarrow> int" where
  "indexOf array value fromIndex =
     (let len = int (arr_len array)
      in if len = 0 then -1
         else (let index = int_arg fromIndex; index1 = (if index < 0 then max (len + index) 0 else index)
               in baseIndexOf (arr_items array) value (nat index1)))"

fun last_index_loop :: "jsval list \<Rightarrow> jsval \<Rightarrow> nat \<Rightarrow> int" where
  "last_index_loop array value 0 = -1"
| "last_index_loop array value (Suc index) =
     (if strict_eq (arr_get array index) value then int index else last_index_loop array value index)"

definition lastIndexOf :: "jsval list option \<Rightarrow> jsval \<Rightarrow> jsnum option \<Rightarrow> int" where
  "lastIndexOf array value fromIndex =
     (let len = int (arr_len array)
      in if len = 0 then -1
         else (let index =
                 (case fromIndex of
                    None \<Rightarrow> len
                  | Some from \<Rightarrow>
                      (let i = num_int (toInteger from)
                       in (if i < 0 then max (len + i) 0 else min i (len - 1)) + 1))
               in if \<not> strict_eq value value
                  then baseFindIndex (arr_items array) (\<lambda>v _ _. baseIsNaN v) (nat (index - 1)) True
                  else last_index_loop (arr_items array) value (nat index)))"

section \<open>Flattening, zipping and reversal\<close>

definition flatten :: "'a item list option \<Rightarrow> 'a item list" where
  "flatten array = (if arr_len array \<noteq> 0 then baseFlatten (arr_items array) (Fin 1) None False [] else [])"

definition flattenDeep :: "'a item list option \<Rightarrow> 'a item list" where
  "flattenDeep array = (if arr_len array \<noteq> 0 then baseFlatten (arr_items array) PInf None False [] else [])"

definition flattenDepth :: "'a item list option \<Rightarrow> jsnum option \<Rightarrow> 'a item list" where
  "flattenDepth array depth =
     (if arr_len array = 0 then []
      else baseFlatten (arr_items array)
             (case depth of None \<Rightarrow> Fin 1 | Some d \<Rightarrow> toInteger d) None False [])"

text \<open>The first argument of \<open>concat\<close> is copied when it is a true array and wrapped otherwise.\<close>

fun concat_js :: "'a item list \<Rightarrow> 'a item list" where
  "concat_js [] = []"
| "concat_js (array # args) =
     arrayPush
       (case array of
          Nested kind xs \<Rightarrow> if kind = TrueArray then copyArray xs None else [array]
        | Item v \<Rightarrow> [array])
       (baseFlatten args (Fin 1) None False [])"

definition reverse_js :: "'a list option \<Rightarrow> 'a list option" where
  "reverse_js array = map_option rev array"

text \<open>A group is None when it is not an array-like object; those are filtered out first.\<close>

definition unzip :: "jsval list option list option \<Rightarrow> jsval list list" where
  "unzip array =
     (if arr_len array = 0 then []
      else (let groups = map the (arrayFilter array (\<lambda>group _ _. group \<noteq> None));
                len = fold (\<lambda>group len. max (length group) len) groups 0
            in baseTimes len (\<lambda>index. arrayMap (Some groups) (baseUnary (\<lambda>group. arr_get group index)))))"

definition zip_js :: "jsval list option list \<Rightarrow> jsval list list" where
  "zip_js arrays = unzip (Some arrays)"

definition unzipWith :: "jsval list option list option \<Rightarrow> (jsval list \<Rightarrow> jsval) option \<Rightarrow> jsval list + jsval list list" where
  "unzipWith array iteratee =
     (if arr_len array = 0 then Inr []
      else (let result = unzip array
            in case iteratee of
                 None \<Rightarrow> Inr result
               | Some f \<Rightarrow> Inl (arrayMap (Some result) (baseUnary (apply_js (\<lambda>_ args. f args) ())))))"

section \<open>Removal in place\<close>

text \<open>
  The inner loop of \<open>basePullAll\<close> for one value. \<open>seen\<close> is None when it is the array itself;
  with an iteratee it is a separate array of computed values that is spliced in step. An index
  that the search returns is below the length of the array it searched.
\<close>

definition seen_items :: "'a list \<Rightarrow> 'a list option \<Rightarrow> 'a list" where
  "seen_items array seen = (case seen of None \<Rightarrow> array | Some s \<Rightarrow> s)"

function pull_value_loop ::
  "(jsval list \<Rightarrow> nat \<Rightarrow> int) \<Rightarrow> jsval list \<Rightarrow> jsval list option \<Rightarrow> nat \<Rightarrow> jsval list \<times> jsval list option" where
  "pull_value_loop search array seen fromIndex =
     (let found = search (seen_items array seen) fromIndex
      in if found > -1 \<and> nat found < length (seen_items array seen)
         then pull_value_loop search (splice1 (nat found) array) (map_option (splice1 (nat found)) seen) (nat found)
         else (array, seen))"
  by pat_completeness auto
termination
  by (relation "measure (\<lambda>(search, array, seen, fromIndex). length (seen_items array seen))")
    (auto simp: seen_items_def splice1_def split: option.splits)

fun pull_all_loop ::
  "(jsval list \<Rightarrow> jsval \<Rightarrow> nat \<Rightarrow> int) \<Rightarrow> (jsval \<Rightarrow> jsval) option \<Rightarrow> jsval list \<Rightarrow>
   jsval list \<Rightarrow> jsval list option \<Rightarrow> jsval list" where
  "pull_all_loop index_of iteratee [] array seen = array"
| "pull_all_loop index_of iteratee (value # values) array seen =
     (let computed = (case iteratee of None \<Rightarrow> value | Some f \<Rightarrow> f value);
          (array1, seen1) = pull_value_loop (\<lambda>xs from. index_of xs computed from) array seen 0
      in pull_all_loop index_of iteratee values array1 seen1)"

definition basePullAll ::
  "jsval list \<Rightarrow> jsval list \<Rightarrow> (jsval \<Rightarrow> jsval) option \<Rightarrow> (jsval \<Rightarrow> jsval \<Rightarrow> bool) option \<Rightarrow> jsval list" where
  "basePullAll array values iteratee comparator =
     (let index_of = (case comparator of
                        None \<Rightarrow> baseIndexOf
                      | Some c \<Rightarrow> (\<lambda>xs v from. baseIndexOfWith xs v from c));
          seen = (case iteratee of None \<Rightarrow> None | Some f \<Rightarrow> Some (arrayMap (Some array) (baseUnary f)))
      in pull_all_loop index_of iteratee values array seen)"

definition pullAll :: "jsval list option \<Rightarrow> jsval list option \<Rightarrow> jsval list option" where
  "pullAll array values =
     (if arr_len array \<noteq> 0 \<and> arr_len values \<noteq> 0
      then Some (basePullAll (arr_items array) (arr_items values) None None) else array)"

definition pull :: "jsval list option \<Rightarrow> jsval list \<Rightarrow> jsval list option" where
  "pull array values = pullAll array (Some values)"

definition pullAllBy :: "jsval list option \<Rightarrow> jsval list option \<Rightarrow> (jsval \<Rightarrow> jsval) \<Rightarrow> jsval list option" where
  "pullAllBy array values iteratee =
     (if arr_len array \<noteq> 0 \<and> arr_len values \<noteq> 0
      then Some (basePullAll (arr_items array) (arr_items values) (Some iteratee) None) else array)"

definition pullAllWith ::
  "jsval list option \<Rightarrow> jsval list option \<Rightarrow> (jsval \<Rightarrow> jsval \<Rightarrow> bool) option \<Rightarrow> jsval list option" where
  "pullAllWith array values comparator =
     (if arr_len array \<noteq> 0 \<and> arr_len values \<noteq> 0
      then Some (basePullAll (arr_items array) (arr_items values) None comparator) else array)"

text \<open>
  \<open>basePullAt\<close> on numeric indexes: a number that is no array index is a plain key, and deleting
  it leaves the elements alone. The loop runs from the last index and skips repetitions of the
  previous one.
\<close>

fun pull_at_loop :: "jsnum list \<Rightarrow> nat \<Rightarrow> jsnum option \<Rightarrow> 'a list \<Rightarrow> 'a list" where
  "pull_at_loop indexes 0 previous array = array"
| "pull_at_loop indexes (Suc length') previous array =
     (let index = indexes ! length'
      in if (case previous of None \<Rightarrow> True | Some p \<Rightarrow> \<not> num_strict_eq index p)
         then pull_at_loop indexes length' (Some index)
                (if isIndex index None then splice1 (nat (num_int index)) array else array)
         else pull_at_loop indexes length' previous array)"

definition basePullAt :: "'a list option \<Rightarrow> jsnum list \<Rightarrow> 'a list option" where
  "basePullAt array indexes =
     (case array of None \<Rightarrow> None | Some xs \<Rightarrow> Some (pull_at_loop indexes (length indexes) None xs))"

text \<open>\<open>pullAt\<close> sorts the indexes with the host's sort, a parameter here.\<close>

definition pullAt ::
  "(jsnum list \<Rightarrow> jsnum list) \<Rightarrow> jsval list option \<Rightarrow> jsnum list \<Rightarrow> jsval list \<times> jsval list option" where
  "pullAt sort_indexes array indexes =
     (arrayMap (Some indexes)
        (baseUnary (\<lambda>index. if array = None then Undefined
                            else if isIndex index None then arr_get (arr_items array) (nat (num_int index))
                            else Undefined)),
      basePullAt array (sort_indexes indexes))"

function remove_loop :: "'a list \<Rightarrow> ('a \<Rightarrow> nat \<Rightarrow> 'a list \<Rightarrow> bool) \<Rightarrow> nat \<Rightarrow> 'a list \<Rightarrow> nat list \<Rightarrow> 'a list \<times> nat list" where
  "remove_loop array predicate index result indexes =
     (if index < length array
      then (let value = array ! index
            in if predicate value index array
               then remove_loop array predicate (Suc index) (result @ [value]) (indexes @ [index])
               else remove_loop array predicate (Suc index) result indexes)
      else (result, indexes))"
  by pat_completeness auto
termination by (relation "measure (\<lambda>(array, predicate, index, result, indexes). length array - index)") auto

definition remove_js :: "'a list option \<Rightarrow> ('a \<Rightarrow> nat \<Rightarrow> 'a list \<Rightarrow> bool) \<Rightarrow> 'a list \<times> 'a list option" where
  "remove_js array predicate =
     (if arr_len array = 0 then ([], array)
      else (let (result, indexes) = remove_loop (arr_items array) predicate 0 [] []
            in (result, basePullAt array (map (\<lambda>i. num_of_int (int i)) indexes))))"

declare chunk_loop.simps [simp del] pull_value_loop.simps [simp del] remove_loop.simps [simp del]

text \<open>The reference for \<open>chunk\<close>.\<close>

function chunks_of :: "nat \<Rightarrow> 'a list \<Rightarrow> 'a list list" where
  "chunks_of n xs = (if n = 0 \<or> xs = [] then [] else take n xs # chunks_of n (drop n xs))"
  by pat_completeness auto
termination by (relation "measure (\<lambda>(n, xs). length xs)") auto

text \<open>The number of elements that \<open>take\<close> and \<open>drop\<close> count off.\<close>

definition count_arg :: "jsnum option \<Rightarrow> bool \<Rightarrow> nat" where
  "count_arg n guard = nat (if guard \<or> n = None then 1 else int_arg n)"

text \<open>The number of elements from the front that \<open>lastIndexOf\<close> searches.\<close>

definition last_start :: "nat \<Rightarrow> jsnum option \<Rightarrow> int" where
  "last_start len fromIndex =
     (case fromIndex of
        None \<Rightarrow> int len
      | Some fr \<Rightarrow> (if num_int (toInteger fr) < 0 then max (int len + num_int (toInteger fr)) 0
                    else min (num_int (toInteger fr)) (int len - 1)) + 1)"

text \<open>The array and the computed values as a list of pairs.\<close>

definition pull_view :: "(jsval \<times> jsval) list \<Rightarrow> jsval list option \<Rightarrow> bool" where
  "pull_view ps seen = (case seen of None \<Rightarrow> map snd ps = map fst ps | Some s \<Rightarrow> s = map snd ps)"

subsection \<open>Flattening\<close>

text \<open>Flattening a given number of levels, as a list function.\<close>

fun flat :: "nat \<Rightarrow> 'a item list \<Rightarrow> 'a item list" where
  "flat 0 xs = xs"
| "flat (Suc n) xs = concat (map (\<lambda>v. if isFlattenable v then flat n (item_list v) else [v]) xs)"

section \<open>Lemmas\<close>

declare chunks_of.simps [simp del]

subsection \<open>Slicing\<close>

lemma baseSlice_block:
  assumes "length xs < 2 ^ 32" "0 \<le> i" "i < int (length xs)" "0 < sz"
  shows "baseSlice xs i (i + sz) = take (nat sz) (drop (nat i) xs)"
proof -
  have i: "rel_index (length xs) i = nat i" using assms by (simp add: rel_index_def)
  show ?thesis
  proof (cases "i + sz \<le> int (length xs)")
    case True
    then have "rel_index (length xs) (i + sz) = nat i + nat sz" using assms by (simp add: rel_index_def nat_add_distrib)
    then show ?thesis by (simp add: baseSlice_take_drop [OF assms(1)] i drop_take)
  next
    case False
    then have "rel_index (length xs) (i + sz) = length xs" "length (drop (nat i) xs) \<le> nat sz"
      using assms by (simp_all add: rel_index_def)
    then show ?thesis by (simp add: baseSlice_take_drop [OF assms(1)] i)
  qed
qed

lemma chunk_loop_chunks:
  "length xs < 2 ^ 32 \<Longrightarrow> 0 < sz \<Longrightarrow> 0 \<le> i \<Longrightarrow>
   chunk_loop xs sz i result = result @ chunks_of (nat sz) (drop (nat i) xs)"
proof (induction xs sz i result rule: chunk_loop.induct)
  case (1 xs sz i result)
  show ?case
  proof (cases "i < int (length xs)")
    case True
    have d: "drop (nat (i + sz)) xs = drop (nat sz) (drop (nat i) xs)" using 1 by (simp add: nat_add_distrib add.commute)
    have "chunks_of (nat sz) (drop (nat i) xs) =
        take (nat sz) (drop (nat i) xs) # chunks_of (nat sz) (drop (nat sz) (drop (nat i) xs))"
      using True 1 by (subst chunks_of.simps) simp
    moreover have "chunk_loop xs sz i result = chunk_loop xs sz (i + sz) (result @ [baseSlice xs i (i + sz)])"
      using True 1 by (subst chunk_loop.simps) simp
    ultimately show ?thesis
      using True 1 by (simp only: d baseSlice_block) simp
  next
    case False
    with 1 show ?thesis by (subst chunk_loop.simps, subst chunks_of.simps) simp
  qed
qed

lemma concat_chunks_of: "0 < n \<Longrightarrow> concat (chunks_of n xs) = xs"
proof (induction n xs rule: chunks_of.induct)
  case (1 n xs)
  then show ?case by (subst chunks_of.simps) auto
qed

lemma length_chunks_of: "0 < n \<Longrightarrow> length (chunks_of n xs) = (length xs + n - 1) div n"
proof (induction n xs rule: chunks_of.induct)
  case (1 n xs)
  show ?case
  proof (cases "xs = []")
    case False
    have "(length xs + n - 1) div n = Suc ((length xs - n + n - 1) div n)"
    proof (cases "length xs < n")
      case True
      define m where "m = length xs - 1"
      have "0 < length xs" using False by simp
      then have "length xs + n - 1 = n + m" "m < n" "length xs - n + n - 1 < n"
        using True by (simp_all add: m_def del: length_greater_0_conv)
      then show ?thesis using 1(2) by (simp only: div_add_self1 div_less)
    next
      case False
      then have "length xs + n - 1 = (length xs - n + n - 1) + n" using 1(2) by simp
      then show ?thesis using 1(2) by (metis One_nat_def Suc_eq_plus1 div_add_self2 neq0_conv)
    qed
    with False 1 show ?thesis by (subst chunks_of.simps) simp
  qed (use 1 in \<open>subst chunks_of.simps, simp\<close>)
qed

lemma chunks_of_sizes:
  "0 < n \<Longrightarrow> j < length (chunks_of n xs) \<Longrightarrow>
   length (chunks_of n xs ! j) = (if Suc j < length (chunks_of n xs) then n else length xs - j * n) \<and>
   0 < length (chunks_of n xs ! j) \<and> length (chunks_of n xs ! j) \<le> n"
proof (induction n xs arbitrary: j rule: chunks_of.induct)
  case (1 n xs)
  have ne: "xs \<noteq> []" using 1(3) by (subst (asm) chunks_of.simps) (auto split: if_splits)
  have e: "chunks_of n xs = take n xs # chunks_of n (drop n xs)" using 1(2) ne by (subst chunks_of.simps) simp
  have d: "chunks_of n (drop n xs) \<noteq> [] \<Longrightarrow> n < length xs" by (subst (asm) chunks_of.simps) (auto split: if_splits)
  have d': "n < length xs \<Longrightarrow> chunks_of n (drop n xs) \<noteq> []" using 1(2) by (subst chunks_of.simps) simp
  show ?case
  proof (cases j)
    case 0
    then show ?thesis using d d' ne 1(2) unfolding e by (auto simp: neq_Nil_conv min_def)
  next
    case (Suc k)
    then show ?thesis using 1(1) [of k] 1(2,3) ne unfolding e
      by (auto simp flip: length_greater_0_conv)
  qed
qed

lemma take_js_take: "length xs < 2 ^ 32 \<Longrightarrow> take_js (Some xs) n guard = take (count_arg n guard) xs"
  by (auto simp: take_js_def Let_def baseSlice_take_drop count_arg_def rel_index_def min_def)

lemma drop_js_drop: "length xs < 2 ^ 32 \<Longrightarrow> drop_js (Some xs) n guard = drop (count_arg n guard) xs"
  by (auto simp: drop_js_def Let_def baseSlice_take_drop count_arg_def rel_index_def min_def)

lemma nat_min_diff: "\<not> int l < y \<Longrightarrow> nat (min (int l - y) (int l)) = l - nat y"
  by (auto simp: min_def)

lemma dropRight_take: "length xs < 2 ^ 32 \<Longrightarrow> dropRight (Some xs) n guard = take (length xs - count_arg n guard) xs"
  by (auto simp: dropRight_def Let_def baseSlice_take_drop count_arg_def rel_index_def nat_min_diff nat_diff_distrib')

lemma takeRight_drop: "length xs < 2 ^ 32 \<Longrightarrow> takeRight (Some xs) n guard = drop (length xs - count_arg n guard) xs"
  by (auto simp: takeRight_def Let_def baseSlice_take_drop count_arg_def rel_index_def nat_min_diff nat_diff_distrib')

lemma count_arg_1: "count_arg (Some (Fin 1)) False = 1"
  by (simp add: count_arg_def int_arg_def toInteger_Fin rat_trunc_def)

lemma compact_loop_filter: "compact_loop xs result = result @ filter truthy xs"
  by (induction xs result rule: compact_loop.induct) auto

subsection \<open>Searching\<close>

lemma last_index_loop_find:
  "last_index_loop xs v n = find_right_loop xs (\<lambda>x _ _. strict_eq x v) n"
  by (induction n) auto

lemma lastIndexOf_find:
  assumes "xs \<noteq> []"
  shows "lastIndexOf (Some xs) v fromIndex = find_right_loop xs (\<lambda>x _ _. eq x v) (nat (last_start (length xs) fromIndex))"
proof -
  have "1 \<le> int (length xs)" using assms by (simp add: Suc_le_eq)
  then have "1 \<le> last_start (length xs) fromIndex" by (auto simp: last_start_def split: option.split)
  then have n: "Suc (nat (last_start (length xs) fromIndex - 1)) = nat (last_start (length xs) fromIndex)" by simp
  have l: "lastIndexOf (Some xs) v fromIndex =
      (if v = Num NaN then find_right_loop xs (\<lambda>x _ _. baseIsNaN x) (Suc (nat (last_start (length xs) fromIndex - 1)))
       else find_right_loop xs (\<lambda>x _ _. strict_eq x v) (nat (last_start (length xs) fromIndex)))"
    using assms by (simp only: lastIndexOf_def Let_def last_start_def strict_eq_self baseFindIndex_def last_index_loop_find
        arr_items.simps arr_len_simps if_True not_not) simp
  have "v \<noteq> Num NaN \<Longrightarrow> strict_eq x v = eq x v" for x by (auto simp: strict_eq_iff eq_sym eq_NaN baseIsNaN_def)
  with n show ?thesis unfolding l n by (simp add: eq_NaN)
qed

subsection \<open>Removal\<close>

lemma splice1_map: "splice1 i (map f xs) = map f (splice1 i xs)"
  by (simp add: splice1_def take_map drop_map)

lemma splice1_length: "i < length xs \<Longrightarrow> length (splice1 i xs) = length xs - 1"
  by (simp add: splice1_def)

lemma filter_splice1: "i < length xs \<Longrightarrow> \<not> q (xs ! i) \<Longrightarrow> filter q (splice1 i xs) = filter q xs"
  by (subst (2) id_take_nth_drop [of i xs]) (simp_all add: splice1_def)

lemma seen_items_view: "pull_view ps seen \<Longrightarrow> seen_items (map fst ps) seen = map snd ps"
  by (auto simp: pull_view_def seen_items_def split: option.splits)

lemma pull_view_splice: "pull_view ps seen \<Longrightarrow> pull_view (splice1 i ps) (map_option (splice1 i) seen)"
  by (cases seen) (simp_all add: pull_view_def flip: splice1_map del: map_eq_conv)

lemma nth_in_take: "j < i \<Longrightarrow> j < length xs \<Longrightarrow> xs ! j \<in> set (take i xs)"
  by (metis length_take min_less_iff_conj nth_mem nth_take)

lemma pull_value_loop_filter:
  "pull_view ps seen \<Longrightarrow> \<forall>x\<in>set (take from ps). \<not> p (snd x) \<Longrightarrow>
   \<exists>seen'. pull_value_loop (\<lambda>xs i. find_left_loop xs (\<lambda>x _ _. p x) i) (map fst ps) seen from =
     (map fst (filter (\<lambda>x. \<not> p (snd x)) ps), seen') \<and> pull_view (filter (\<lambda>x. \<not> p (snd x)) ps) seen'"
proof (induction "length ps" arbitrary: ps seen "from" rule: less_induct)
  case less
  let ?f = "find_left_loop (map snd ps) (\<lambda>x _ _. p x) from"
  note si = seen_items_view [OF less.prems(1)]
  consider "?f = -1" "\<forall>j\<ge>from. j < length ps \<longrightarrow> \<not> p (snd (ps ! j))"
    | j where "from \<le> j" "?f = int j" "j < length ps" "p (snd (ps ! j))" "\<forall>k\<ge>from. k < j \<longrightarrow> \<not> p (snd (ps ! k))"
    using find_left_loop_cases [of "map snd ps" "\<lambda>x _ _. p x" "from"] by force
  then show ?case
  proof cases
    case 1
    have "\<forall>x\<in>set ps. \<not> p (snd x)"
    proof
      fix x assume "x \<in> set ps"
      then obtain j where "j < length ps" "x = ps ! j" by (auto simp: in_set_conv_nth)
      then show "\<not> p (snd x)" using 1(2) less.prems(2)
        by (cases "from \<le> j") (auto simp: nth_in_take)
    qed
    then have "filter (\<lambda>x. \<not> p (snd x)) ps = ps" by (simp add: filter_id_conv)
    with 1(1) less.prems(1) si show ?thesis by (subst pull_value_loop.simps) (simp add: Let_def)
  next
    case 2
    have unf: "pull_value_loop (\<lambda>xs i. find_left_loop xs (\<lambda>x _ _. p x) i) (map fst ps) seen from =
      pull_value_loop (\<lambda>xs i. find_left_loop xs (\<lambda>x _ _. p x) i) (map fst (splice1 j ps)) (map_option (splice1 j) seen) j"
      using 2(2,3) si by (subst pull_value_loop.simps) (simp add: Let_def splice1_map)
    have "\<forall>x\<in>set (take j (splice1 j ps)). \<not> p (snd x)"
    proof
      fix x assume "x \<in> set (take j (splice1 j ps))"
      then obtain k where "k < j" "x = ps ! k" using 2(3) by (auto simp: splice1_def in_set_conv_nth)
      then show "\<not> p (snd x)" using 2(3,5) less.prems(2)
        by (cases "from \<le> k") (auto simp: nth_in_take)
    qed
    moreover have "length (splice1 j ps) < length ps" using 2(3) by (simp add: splice1_length)
    ultimately show ?thesis
      using less.hyps [of "splice1 j ps" "map_option (splice1 j) seen" j] less.prems(1) 2(3,4)
      unfolding unf by (auto simp: filter_splice1 intro: pull_view_splice)
  qed
qed

lemma pull_all_loop_filter:
  "pull_view ps seen \<Longrightarrow>
   pull_all_loop (\<lambda>xs v i. find_left_loop xs (\<lambda>x _ _. m x v) i) iteratee vs (map fst ps) seen =
     map fst (filter (\<lambda>x. \<not> (\<exists>v\<in>set vs. m (snd x) (case iteratee of None \<Rightarrow> v | Some f \<Rightarrow> f v))) ps)"
proof (induction vs arbitrary: ps seen)
  case (Cons v vs)
  let ?c = "case iteratee of None \<Rightarrow> v | Some f \<Rightarrow> f v"
  obtain seen' where s: "pull_value_loop (\<lambda>xs i. find_left_loop xs (\<lambda>x _ _. m x ?c) i) (map fst ps) seen 0 =
      (map fst (filter (\<lambda>x. \<not> m (snd x) ?c) ps), seen')" "pull_view (filter (\<lambda>x. \<not> m (snd x) ?c) ps) seen'"
    using pull_value_loop_filter [OF Cons.prems, of 0 "\<lambda>x. m x ?c"] by auto
  show ?case by (simp add: Let_def s(1) Cons.IH [OF s(2)] conj_commute)
qed simp

lemma basePullAll_filter:
  "basePullAll xs vs iteratee comparator =
     filter (\<lambda>x. \<not> (\<exists>v\<in>set vs. (case comparator of None \<Rightarrow> eq | Some c \<Rightarrow> c)
        (case iteratee of None \<Rightarrow> x | Some f \<Rightarrow> f x) (case iteratee of None \<Rightarrow> v | Some f \<Rightarrow> f v))) xs"
proof -
  define g where "g = (\<lambda>x. case iteratee of None \<Rightarrow> x | Some f \<Rightarrow> f x)"
  define m where "m = (case comparator of None \<Rightarrow> eq | Some c \<Rightarrow> c)"
  define ps where "ps = map (\<lambda>x. (x, g x)) xs"
  have fst: "map fst ps = xs" by (simp add: ps_def comp_def)
  have view: "pull_view ps (case iteratee of None \<Rightarrow> None | Some f \<Rightarrow> Some (arrayMap (Some xs) (baseUnary f)))"
    by (auto simp: pull_view_def ps_def g_def split: option.split)
  have io: "(case comparator of None \<Rightarrow> baseIndexOf | Some c \<Rightarrow> (\<lambda>xs v from. baseIndexOfWith xs v from c)) =
      (\<lambda>xs v i. find_left_loop xs (\<lambda>x _ _. m x v) i)"
    by (auto simp: m_def baseIndexOf_find baseIndexOfWith_find fun_eq_iff split: option.split)
  have "basePullAll xs vs iteratee comparator = map fst (filter (\<lambda>x. \<not> (\<exists>v\<in>set vs. m (snd x) (g v))) ps)"
    using pull_all_loop_filter [OF view, of m iteratee vs] unfolding basePullAll_def Let_def io fst g_def by simp
  also have "\<dots> = filter (\<lambda>x. \<not> (\<exists>v\<in>set vs. m (g x) (g v))) xs"
    by (simp add: ps_def filter_map comp_def)
  finally show ?thesis by (simp add: m_def g_def)
qed

lemma splice1_nths:
  assumes "\<forall>j\<in>A. k < j"
  shows "splice1 k (nths xs (- A)) = nths xs (- insert k A)"
proof (cases "k < length xs")
  case True
  have e: "xs = take k xs @ xs ! k # drop (Suc k) xs" using True by (rule id_take_nth_drop)
  have t: "nths (take k xs) (- B) = take k xs" if "\<forall>j\<in>B. k \<le> j" for B
    using that by (intro nths_all) auto
  have m: "min (length xs) k = k" using True by simp
  have tA: "nths (take k xs) (- A) = take k xs" by (rule t) (use assms in auto)
  have tB: "nths (take k xs) (- insert k A) = take k xs" by (rule t) (use assms in auto)
  have "nths xs (- A) = take k xs @ xs ! k # nths (drop (Suc k) xs) {j. Suc (j + k) \<notin> A}"
    by (subst e) (use assms tA tB in \<open>auto simp: nths_append nths_Cons m\<close>)
  moreover have "nths xs (- insert k A) = take k xs @ nths (drop (Suc k) xs) {j. Suc (j + k) \<notin> A}"
    by (subst e) (use assms tA tB in \<open>auto simp: nths_append nths_Cons m\<close>)
  ultimately show ?thesis using True by (simp add: splice1_def)
next
  case False
  then have "nths xs (- A) = xs" "nths xs (- insert k A) = xs" using assms by (auto intro!: nths_all)
  with False show ?thesis by (simp add: splice1_def)
qed

lemma isIndex_nat: "isIndex (num_of_int (int i)) None \<longleftrightarrow> int i < MAX_SAFE_INTEGER"
  by (auto simp: isIndex_def Let_def MAX_SAFE_INTEGER_def num_integral_def num_of_int_def)

lemma pull_at_loop_nths:
  assumes "sorted ns" "\<forall>n\<in>set ns. int n < MAX_SAFE_INTEGER"
  shows "n \<le> length ns \<Longrightarrow>
    previous = (if n < length ns then Some (num_of_int (int (ns ! n))) else None) \<Longrightarrow>
    pull_at_loop (map (\<lambda>i. num_of_int (int i)) ns) n previous (nths xs (- set (drop n ns))) = nths xs (- set ns)"
proof (induction n arbitrary: previous)
  case (Suc n)
  have d: "set (drop n ns) = insert (ns ! n) (set (drop (Suc n) ns))"
    using Suc.prems(1) by (simp flip: Cons_nth_drop_Suc)
  have le: "\<forall>j\<in>set (drop (Suc n) ns). ns ! n \<le> j"
    using assms(1) Suc.prems(1) by (auto simp: in_set_conv_nth intro!: sorted_nth_mono)
  have hd: "Suc n < length ns \<Longrightarrow> \<forall>j\<in>set (drop (Suc n) ns). ns ! Suc n \<le> j"
    using assms(1) by (auto simp: in_set_conv_nth intro!: sorted_nth_mono)
  show ?case
  proof (cases "Suc n < length ns \<and> ns ! n = ns ! Suc n")
    case True
    then have "ns ! n \<in> set (drop (Suc n) ns)" by (metis Cons_nth_drop_Suc list.set_intros(1))
    then have "set (drop n ns) = set (drop (Suc n) ns)" unfolding d by (rule insert_absorb)
    with Suc True show ?thesis by (simp add: num_strict_eq_of_int)
  next
    case False
    have "ns ! n < j" if j: "j \<in> set (drop (Suc n) ns)" for j
    proof -
      have l: "Suc n < length ns" using j by (cases "Suc n < length ns") auto
      then have "ns ! n < ns ! Suc n" using assms(1) False sorted_nth_mono [of ns n "Suc n"] by simp
      also have "\<dots> \<le> j" using hd l j by simp
      finally show ?thesis .
    qed
    then have "splice1 (ns ! n) (nths xs (- set (drop (Suc n) ns))) = nths xs (- set (drop n ns))"
      unfolding d by (intro splice1_nths ballI)
    moreover have "int (ns ! n) < MAX_SAFE_INTEGER" using assms(2) Suc.prems(1) by simp
    ultimately show ?thesis using Suc False by (auto simp: Let_def isIndex_nat)
  qed
qed simp

lemma basePullAt_nths:
  assumes "sorted ns" "\<forall>n\<in>set ns. int n < MAX_SAFE_INTEGER"
  shows "basePullAt (Some xs) (map (\<lambda>i. num_of_int (int i)) ns) = Some (nths xs (- set ns))"
  using pull_at_loop_nths [OF assms, of "length ns" None xs] by (simp add: basePullAt_def nths_all)

lemma remove_loop_filter:
  "remove_loop xs p index result ns =
     (let qs = filter (\<lambda>(j, v). p v j xs) (index_from index xs) in (result @ map snd qs, ns @ map fst qs))"
proof (induction xs p index result ns rule: remove_loop.induct)
  case (1 xs p index result ns)
  then show ?case
    by (subst remove_loop.simps, cases "index < length xs")
      (simp_all add: index_from_Cons [of index] index_from_Nil Let_def)
qed

lemma sorted_index_from: "sorted (map fst (index_from i xs))"
  unfolding index_from_def drop_map [symmetric] by simp

lemma sorted_map_fst_filter: "sorted (map fst ps) \<Longrightarrow> sorted (map fst (filter q ps))"
  by (induction ps) (auto)

lemma nths_filter_index:
  "nths xs (- set (map fst (filter (\<lambda>(j, v). p v j xs) (index_from 0 xs)))) =
     map snd (filter (\<lambda>(j, v). \<not> p v j xs) (index_from 0 xs))"
proof -
  have n: "nths xs A = map snd (filter (\<lambda>(j, v). j \<in> A) (index_from 0 xs))" for A
    by (simp add: nths_def index_from_def enumerate_eq_zip zip_commute [of xs] filter_map comp_def case_prod_unfold)
  have "filter (\<lambda>(j, v). j \<in> - set (map fst (filter (\<lambda>(j, v). p v j xs) (index_from 0 xs)))) (index_from 0 xs) =
      filter (\<lambda>(j, v). \<not> p v j xs) (index_from 0 xs)"
    by (intro filter_cong refl) (force simp: in_set_index_from)
  then show ?thesis by (simp only: n)
qed

lemma remove_js_split:
  assumes "length xs < 2 ^ 32"
  shows "remove_js (Some xs) p =
    (map snd (filter (\<lambda>(j, v). p v j xs) (enumerate 0 xs)), Some (map snd (filter (\<lambda>(j, v). \<not> p v j xs) (enumerate 0 xs))))"
proof -
  let ?ns = "map fst (filter (\<lambda>(j, v). p v j xs) (index_from 0 xs))"
  have b: "\<forall>n\<in>set ?ns. int n < MAX_SAFE_INTEGER"
    using assms by (auto simp: in_set_index_from MAX_SAFE_INTEGER_def)
  have s: "sorted ?ns" by (rule sorted_map_fst_filter [OF sorted_index_from])
  show ?thesis
  proof (cases "xs = []")
    case False
    then show ?thesis
      using basePullAt_nths [OF s b, of xs] unfolding nths_filter_index
      by (simp add: remove_js_def remove_loop_filter Let_def index_from_0 comp_def)
  qed (simp add: remove_js_def)
qed

lemma flat_Nil [simp]: "flat n [] = []"
  by (cases n) auto

lemma flat_append [simp]: "flat n (xs @ ys) = flat n xs @ flat n ys"
  by (cases n) auto

lemma flat_concat: "flat n (concat xss) = concat (map (flat n) xss)"
  by (induction xss) auto

lemma flat_single: "\<not> isFlattenable v \<Longrightarrow> flat n [v] = [v]"
  by (cases n) auto

lemma flat_add: "flat n (flat m xs) = flat (m + n) xs"
proof (induction m arbitrary: xs)
  case (Suc m)
  then show ?case by (auto simp: flat_concat flat_single comp_def intro!: arg_cong [where f = concat])
qed simp

lemma depth_pred_int: "depth_pred (num_of_int i) = num_of_int (i - 1)"
  by (simp add: depth_pred_def num_of_int_def)

lemma baseFlatten_flat:
  "baseFlatten xs (num_of_int (int n)) predicate False result = result @ flat n xs"
  if "predicate = None \<or> predicate = Some isFlattenable"
proof -
  have "d = num_of_int (int n) \<Longrightarrow> (predicate = None \<or> predicate = Some isFlattenable) \<Longrightarrow> \<not> strict \<Longrightarrow>
      baseFlatten xs d predicate strict result = result @ flat n xs" for d strict
  proof (induction xs d predicate strict result arbitrary: n rule: baseFlatten.induct)
    case (2 v xs d predicate strict result)
    have p: "(case predicate of None \<Rightarrow> isFlattenable | Some p \<Rightarrow> p) = isFlattenable" using 2 by auto
    show ?case
    proof (cases n)
      case 0
      then show ?thesis using 2 by (simp add: num_of_int_def)
    next
      case (Suc k)
      have d: "num_less (Fin 0) d" "num_less (Fin 1) d \<longleftrightarrow> 0 < k" "depth_pred d = num_of_int (int k)"
        using 2(3) Suc by (auto simp: num_of_int_def depth_pred_def)
      show ?thesis
        using 2(1) [of k] 2(2) [of n] 2(3-) d Suc p by (cases "k = 0") auto
    qed
  qed simp
  then show ?thesis using that by blast
qed

subsection \<open>Zipping\<close>

lemma fold_max_const: "\<forall>g\<in>set gs. length g = m \<Longrightarrow> gs \<noteq> [] \<Longrightarrow> fold (\<lambda>g l. max (length g) l) gs l = max m l"
proof (induction gs arbitrary: l)
  case (Cons g gs)
  then show ?case by (cases "gs = []") auto
qed simp

lemma unzip_rectangular:
  assumes "rows \<noteq> []" "\<forall>r\<in>set rows. length r = m"
  shows "unzip (Some (map Some rows)) = map (\<lambda>i. map (\<lambda>r. r ! i) rows) [0..<m]"
proof -
  have g: "map the (arrayFilter (Some (map Some rows)) (\<lambda>group _ _. group \<noteq> None)) = rows"
    unfolding arrayFilter_unary by (simp add: filter_map comp_def)
  have "fold (\<lambda>g l. max (length g) l) rows 0 = m" using fold_max_const [OF assms(2,1)] by simp
  then have "unzip (Some (map Some rows)) = map (\<lambda>i. map (\<lambda>r. arr_get r i) rows) [0..<m]"
    using assms(1) by (simp only: unzip_def g Let_def arr_len_simps length_map length_0_conv if_False
        baseTimes_map arrayMap_unary)
  also have "\<dots> = map (\<lambda>i. map (\<lambda>r. r ! i) rows) [0..<m]"
    using assms(2) by (auto simp: arr_get_def)
  finally show ?thesis .
qed

section \<open>Properties\<close>

text \<open>
  \<open>_.slice\<close> reads exactly the elements between its bounds, where a negative bound counts
  from the end and a bound outside the array is clamped, although the loop works on 32-bit
  lengths. \<open>_.fill\<close> overwrites exactly those elements.
\<close>

theorem slice_fill_bounds:
  assumes "length xs < 2 ^ 32"
  shows "slice (Some xs) start stop False = drop (rel_index (length xs) (int_arg start)) (take (fill_stop (length xs) stop) xs) \<and>
    length (fill (Some xs) v start stop False) = length xs \<and>
    (\<forall>i<length xs. fill (Some xs) v start stop False ! i =
       (if rel_index (length xs) (int_arg start) \<le> i \<and> i < fill_stop (length xs) stop then v else xs ! i))"
proof (cases "xs = []")
  case False
  have "rel_index (length xs) (int (length xs)) = length xs" by simp
  then show ?thesis using False
    by (auto simp: slice_def fill_def Let_def baseSlice_take_drop [OF assms] baseFill_spec [OF assms] fill_stop_def split: option.split)
qed (simp add: slice_def fill_def)

theorem slice_fill_bounds_witness:
  "slice (Some [1, 2, 3, 4 :: nat]) (Some (Fin (-3))) (Some (Fin 3)) False = [2, 3]"
proof -
  have "length [1, 2, 3, 4 :: nat] < 2 ^ 32" by simp
  from slice_fill_bounds [OF this, of "Some (Fin (-3))" "Some (Fin 3)"] show ?thesis
    by (simp add: rel_index_def int_arg_def fill_stop_def toInteger_Fin rat_trunc_def)
qed

text \<open>
  \<open>take\<close> and \<open>drop\<close> with the same arguments split an array, so do \<open>dropRight\<close> and
  \<open>takeRight\<close>, and the predicate-driven variants split it at the first, or last, failing element.
\<close>

theorem take_drop_split:
  assumes "length xs < 2 ^ 32"
  shows "take_js (Some xs) n g @ drop_js (Some xs) n g = xs \<and>
    dropRight (Some xs) n g @ takeRight (Some xs) n g = xs \<and>
    length (take_js (Some xs) n g) = min (count_arg n g) (length xs) \<and>
    length (takeRight (Some xs) n g) = min (count_arg n g) (length xs) \<and>
    initial (Some xs) = butlast xs \<and> tail (Some xs) = tl xs \<and>
    takeWhile_js (Some xs) (\<lambda>v _ _. p v) = takeWhile p xs \<and> dropWhile_js (Some xs) (\<lambda>v _ _. p v) = dropWhile p xs \<and>
    takeRightWhile (Some xs) (\<lambda>v _ _. p v) = rev (takeWhile p (rev xs)) \<and>
    dropRightWhile (Some xs) (\<lambda>v _ _. p v) = rev (dropWhile p (rev xs))"
proof (intro conjI)
  show "initial (Some xs) = butlast xs" "tail (Some xs) = tl xs"
    by (simp_all add: initial_def tail_def dropRight_take [OF assms] drop_js_drop [OF assms] count_arg_1 butlast_conv_take drop_Suc)
  show "takeWhile_js (Some xs) (\<lambda>v _ _. p v) = takeWhile p xs" "dropWhile_js (Some xs) (\<lambda>v _ _. p v) = dropWhile p xs"
      "takeRightWhile (Some xs) (\<lambda>v _ _. p v) = rev (takeWhile p (rev xs))"
      "dropRightWhile (Some xs) (\<lambda>v _ _. p v) = rev (dropWhile p (rev xs))"
    by (simp_all add: takeWhile_js_def dropWhile_js_def takeRightWhile_def dropRightWhile_def
        baseWhile_left [OF assms] baseWhile_right [OF assms])
qed (simp_all add: take_js_take [OF assms] drop_js_drop [OF assms] dropRight_take [OF assms] takeRight_drop [OF assms] min.commute)

theorem take_drop_split_witness:
  "take_js (Some ''abc'') (Some (Fin 2)) False @ drop_js (Some ''abc'') (Some (Fin 2)) False = ''abc''"
  using take_drop_split [of "''abc''" "Some (Fin 2)" False] by simp

text \<open>
  \<open>_.chunk\<close> cuts an array into consecutive groups: their concatenation is the array, all have
  the requested size except a shorter, never empty, last one, and their number is the length
  divided by the size, rounded up, which is the length of the result array the code allocates.
\<close>

theorem chunk_partition:
  fixes xs :: "'a list" and n :: jsnum
  assumes "length xs < 2 ^ 32" "0 < int_arg (Some n)"
  defines "k \<equiv> nat (int_arg (Some n))" and "cs \<equiv> chunk (Some xs) (Some n) None"
  shows "concat cs = xs \<and> length cs = (length xs + k - 1) div k \<and>
    (\<forall>j<length cs. length (cs ! j) = (if Suc j < length cs then k else length xs - j * k) \<and>
       0 < length (cs ! j) \<and> length (cs ! j) \<le> k)"
proof -
  have k: "0 < k" using assms(2) by (simp add: k_def)
  have "cs = chunks_of k xs"
  proof (cases "xs = []")
    case True
    then show ?thesis by (simp add: cs_def chunk_def chunks_of.simps)
  next
    case False
    then show ?thesis using assms(2) chunk_loop_chunks [OF assms(1,2), of 0 "[]"] by (simp add: cs_def chunk_def Let_def k_def)
  qed
  then show ?thesis using concat_chunks_of [OF k] length_chunks_of [OF k] chunks_of_sizes [OF k] by blast
qed

theorem chunk_partition_witness:
  "concat (chunk (Some ''abcde'') (Some (Fin 2)) None) = ''abcde'' \<and> length (chunk (Some ''abcde'') (Some (Fin 2)) None) = 3"
proof -
  have "int_arg (Some (Fin 2)) = 2" by (simp add: int_arg_def toInteger_Fin rat_trunc_def)
  then show ?thesis using chunk_partition [of "''abcde''" "Fin 2"] by simp
qed

text \<open>
  \<open>indexOf\<close> and \<open>findIndex\<close> return the first index at or after the start that matches,
  \<open>lastIndexOf\<close> the last one at or before it, and all return -1 exactly when there is none; the
  index is always within the array.
\<close>

theorem index_searches:
  fixes xs :: "jsval list" and v :: jsval and fr :: "jsnum option"
  assumes "xs \<noteq> []"
  defines "s \<equiv> (if int_arg fr < 0 then nat (max (int (length xs) + int_arg fr) 0) else nat (int_arg fr))"
  defines "r \<equiv> indexOf (Some xs) v fr" and "l \<equiv> lastIndexOf (Some xs) v fr"
  shows "indexOf (Some xs) v fr = findIndex (Some xs) (\<lambda>x _ _. eq x v) fr \<and>
    ((r = -1 \<and> (\<forall>j\<ge>s. j < length xs \<longrightarrow> \<not> eq (xs ! j) v)) \<or>
     (\<exists>j\<ge>s. r = int j \<and> j < length xs \<and> eq (xs ! j) v \<and> (\<forall>k\<ge>s. k < j \<longrightarrow> \<not> eq (xs ! k) v))) \<and>
    ((l = -1 \<and> (\<forall>j. int j < last_start (length xs) fr \<longrightarrow> \<not> eq (xs ! j) v)) \<or>
     (\<exists>j. int j < last_start (length xs) fr \<and> l = int j \<and> j < length xs \<and> eq (xs ! j) v \<and>
        (\<forall>k. j < k \<and> int k < last_start (length xs) fr \<longrightarrow> \<not> eq (xs ! k) v)))"
proof (intro conjI)
  have f: "findIndex (Some xs) p fr = find_left_loop xs p s" for p
    using assms(1) by (simp add: findIndex_def Let_def baseFindIndex_def s_def)
  have r: "r = find_left_loop xs (\<lambda>x _ _. eq x v) s"
    using assms(1) by (simp add: r_def indexOf_def Let_def baseIndexOf_find s_def)
  show "indexOf (Some xs) v fr = findIndex (Some xs) (\<lambda>x _ _. eq x v) fr" using f r by (simp add: r_def)
  show "(r = -1 \<and> (\<forall>j\<ge>s. j < length xs \<longrightarrow> \<not> eq (xs ! j) v)) \<or>
     (\<exists>j\<ge>s. r = int j \<and> j < length xs \<and> eq (xs ! j) v \<and> (\<forall>k\<ge>s. k < j \<longrightarrow> \<not> eq (xs ! k) v))"
    unfolding r by (rule find_left_loop_cases)
  let ?n = "nat (last_start (length xs) fr)"
  have "last_start (length xs) fr \<le> int (length xs)"
    using assms(1) by (cases xs) (auto simp: last_start_def split: option.split)
  then have n: "j < ?n \<Longrightarrow> j < length xs" "j < ?n \<longleftrightarrow> int j < last_start (length xs) fr" for j by auto
  have g: "j < ?n \<Longrightarrow> arr_get xs j = xs ! j" for j using n(1) [of j] by (simp add: arr_get_def)
  have l: "l = find_right_loop xs (\<lambda>x _ _. eq x v) ?n" by (simp add: l_def lastIndexOf_find [OF assms(1)])
  show "(l = -1 \<and> (\<forall>j. int j < last_start (length xs) fr \<longrightarrow> \<not> eq (xs ! j) v)) \<or>
     (\<exists>j. int j < last_start (length xs) fr \<and> l = int j \<and> j < length xs \<and> eq (xs ! j) v \<and>
        (\<forall>k. j < k \<and> int k < last_start (length xs) fr \<longrightarrow> \<not> eq (xs ! k) v))"
    using find_right_loop_cases [of xs "\<lambda>x _ _. eq x v" ?n] g n unfolding l n(2) [symmetric] by metis
qed

theorem index_searches_witness:
  "indexOf (Some [Null, Undefined]) Undefined None = findIndex (Some [Null, Undefined]) (\<lambda>x _ _. eq x Undefined) None"
  using index_searches [of "[Null, Undefined]" Undefined None] by blast

text \<open>
  \<open>findLastIndex\<close> chooses the start by the sign of the argument before truncation, so a
  fractional start between -1 and 0 begins one past the end: the predicate is called on the
  undefined value there, and the result can be the length of the array.
\<close>

theorem findLastIndex_past_end:
  assumes "xs \<noteq> []" "-1 < q" "q < 0"
  shows "findLastIndex (Some xs) (\<lambda>v _ _. v = Undefined) (Some (Fin q)) = int (length xs)"
proof -
  have "rat_trunc q = 0" using assms(2,3) by (simp add: rat_trunc_def ceiling_eq_iff)
  then show ?thesis using assms
    by (simp add: findLastIndex_def Let_def toInteger_Fin baseFindIndex_def arr_get_def)
qed

theorem findLastIndex_past_end_witness:
  "findLastIndex (Some [Null]) (\<lambda>v _ _. v = Undefined) (Some (Fin (-1 / 2))) = 1"
  using findLastIndex_past_end [of "[Null]" "-1 / 2"] by simp

text \<open>
  The in-place removals keep exactly the elements that match none of the values, in order,
  under same-value-zero equality, an iteratee or a comparator; \<open>_.remove\<close> splits the array into
  the removed and the kept elements.
\<close>

theorem pull_removes_matches:
  assumes "length ys < 2 ^ 32"
  shows "pullAll (Some xs) (Some vs) = Some (filter (\<lambda>x. \<not> (\<exists>v\<in>set vs. eq x v)) xs) \<and>
    pullAllBy (Some xs) (Some vs) f = Some (filter (\<lambda>x. \<not> (\<exists>v\<in>set vs. eq (f x) (f v))) xs) \<and>
    pullAllWith (Some xs) (Some vs) (Some c) = Some (filter (\<lambda>x. \<not> (\<exists>v\<in>set vs. c x v)) xs) \<and>
    remove_js (Some ys) p = (let ks = enumerate 0 ys
      in (map snd (filter (\<lambda>(j, v). p v j ys) ks), Some (map snd (filter (\<lambda>(j, v). \<not> p v j ys) ks))))"
  using remove_js_split [OF assms, of p]
  by (auto simp: pullAll_def pullAllBy_def pullAllWith_def basePullAll_filter Let_def)

theorem pull_removes_matches_witness:
  "pullAll (Some [Null, Num NaN, Undefined]) (Some [Num NaN]) =
     Some (filter (\<lambda>x. \<not> (\<exists>v\<in>set [Num NaN]. eq x v)) [Null, Num NaN, Undefined])"
proof -
  have "length [Null, Num NaN, Undefined] < 2 ^ 32" by simp
  from pull_removes_matches [OF this] show ?thesis by blast
qed

text \<open>
  Flattening by levels composes: flattening \<open>m\<close> levels and then \<open>n\<close> more is flattening
  \<open>m + n\<close> levels, and \<open>_.flatten\<close> is one level.
\<close>

theorem flatten_levels:
  "flattenDepth (Some (flattenDepth (Some xs) (Some (num_of_int (int m))))) (Some (num_of_int (int n))) =
     flattenDepth (Some xs) (Some (num_of_int (int (m + n)))) \<and>
   flatten (Some xs) = flattenDepth (Some xs) None"
proof -
  have "flattenDepth (Some ys) (Some (num_of_int (int k))) = flat k ys" for ys :: "'a item list" and k
    by (simp add: flattenDepth_def baseFlatten_flat)
  then show ?thesis by (simp add: flat_add flatten_def flattenDepth_def del: of_nat_add)
qed

text \<open>
  \<open>_.unzip\<close> undoes \<open>_.zip\<close> on arrays of one common, positive length.
\<close>

theorem unzip_zip:
  assumes "rows \<noteq> []" "0 < m" "\<forall>r\<in>set rows. length r = m"
  shows "unzip (Some (map Some (zip_js (map Some rows)))) = rows"
proof -
  let ?cols = "map (\<lambda>i. map (\<lambda>r. r ! i) rows) [0..<m]"
  have "unzip (Some (map Some ?cols)) = map (\<lambda>j. map (\<lambda>c. c ! j) ?cols) [0..<length rows]"
    using assms(2) by (intro unzip_rectangular) auto
  also have "\<dots> = rows" using assms(3) by (auto intro!: nth_equalityI)
  finally show ?thesis unfolding zip_js_def unzip_rectangular [OF assms(1,3)] .
qed

theorem unzip_zip_witness:
  "unzip (Some (map Some (zip_js (map Some [[Null, Undefined], [Bool True, Bool False]])))) =
     [[Null, Undefined], [Bool True, Bool False]]"
  using unzip_zip [of "[[Null, Undefined], [Bool True, Bool False]]" 2] by simp

end
