(* ===== verification/JsTimers.thy ===== *)
theory JsTimers
  imports JsValue "HOL-Library.Sublist"
begin

text \<open>
  \<open>debounce\<close> and \<open>throttle\<close> of lodash.js. The variables of the closure are a record, together
  with the part of the host that the code acts on: the pending timers, the next timer id and a
  log of the calls of \<open>func\<close>. A run is a sequence of events: calls of the debounced function,
  timers that fire when they are due or later, \<open>cancel\<close> and \<open>flush\<close>. Times and waits are
  integers, in milliseconds.
\<close>

section \<open>Configuration\<close>

datatype js_error = TypeError string

definition FUNC_ERROR_TEXT :: string where
  "FUNC_ERROR_TEXT = ''Expected a function''"

text \<open>The options object; an absent property is None.\<close>

record debounce_options =
  opt_leading :: "bool option"
  opt_maxWait :: "int option"
  opt_trailing :: "bool option"

record debounce_config =
  wait :: int
  leading :: bool
  maxing :: bool
  maxWait :: int
  trailing :: bool

record ('t, 'a, 'r) debounce_state =
  lastArgs :: "'a option"
  lastThis :: "'t option"
  result :: "'r option"
  timerId :: "nat option"
  lastCallTime :: "int option"
  lastInvokeTime :: int
  timers :: "(nat \<times> int) list"
  next_timer :: nat
  invocations :: "(int \<times> 't option \<times> 'a option) list"

definition debounce_init :: "('t, 'a, 'r) debounce_state" where
  "debounce_init =
     \<lparr>lastArgs = None, lastThis = None, result = None, timerId = None, lastCallTime = None,
      lastInvokeTime = 0, timers = [], next_timer = 0, invocations = []\<rparr>"

text \<open>The start of \<open>debounce\<close>: the argument check and the options.\<close>

definition debounce_setup :: "bool \<Rightarrow> int \<Rightarrow> debounce_options option \<Rightarrow> js_error + debounce_config" where
  "debounce_setup is_function wait_arg options =
     (if \<not> is_function then Inl (TypeError FUNC_ERROR_TEXT)
      else Inr (case options of
        None \<Rightarrow> \<lparr>wait = wait_arg, leading = False, maxing = False, maxWait = 0, trailing = True\<rparr>
      | Some opts \<Rightarrow>
          \<lparr>wait = wait_arg,
           leading = (case opt_leading opts of None \<Rightarrow> False | Some b \<Rightarrow> b),
           maxing = (opt_maxWait opts \<noteq> None),
           maxWait = (case opt_maxWait opts of None \<Rightarrow> 0 | Some m \<Rightarrow> max m wait_arg),
           trailing = (case opt_trailing opts of None \<Rightarrow> True | Some b \<Rightarrow> b)\<rparr>))"

definition throttle :: "bool \<Rightarrow> int \<Rightarrow> debounce_options option \<Rightarrow> js_error + debounce_config" where
  "throttle is_function wait_arg options =
     (if \<not> is_function then Inl (TypeError FUNC_ERROR_TEXT)
      else (let leading1 = (case options of None \<Rightarrow> True
                            | Some opts \<Rightarrow> (case opt_leading opts of None \<Rightarrow> True | Some b \<Rightarrow> b));
                trailing1 = (case options of None \<Rightarrow> True
                             | Some opts \<Rightarrow> (case opt_trailing opts of None \<Rightarrow> True | Some b \<Rightarrow> b))
            in debounce_setup is_function wait_arg
                 (Some \<lparr>opt_leading = Some leading1, opt_maxWait = Some wait_arg, opt_trailing = Some trailing1\<rparr>)))"

section \<open>The closure\<close>

type_synonym ('t, 'a, 'r) func = "'t option \<Rightarrow> 'a option \<Rightarrow> 'r"

text \<open>\<open>timerId = setTimeout(timerExpired, delay)\<close> at a given time.\<close>

definition set_timeout :: "int \<Rightarrow> int \<Rightarrow> ('t, 'a, 'r) debounce_state \<Rightarrow> ('t, 'a, 'r) debounce_state" where
  "set_timeout time delay s =
     s\<lparr>timers := timers s @ [(next_timer s, time + delay)], next_timer := Suc (next_timer s),
       timerId := Some (next_timer s)\<rparr>"

definition invokeFunc ::
  "('t, 'a, 'r) func \<Rightarrow> int \<Rightarrow> ('t, 'a, 'r) debounce_state \<Rightarrow> ('t, 'a, 'r) debounce_state" where
  "invokeFunc func time s =
     (let args = lastArgs s; thisArg = lastThis s
      in s\<lparr>lastArgs := None, lastThis := None, lastInvokeTime := time,
           result := Some (func thisArg args), invocations := invocations s @ [(time, thisArg, args)]\<rparr>)"

definition leadingEdge ::
  "debounce_config \<Rightarrow> ('t, 'a, 'r) func \<Rightarrow> int \<Rightarrow> ('t, 'a, 'r) debounce_state \<Rightarrow> ('t, 'a, 'r) debounce_state" where
  "leadingEdge cfg func time s =
     (let s1 = set_timeout time (wait cfg) (s\<lparr>lastInvokeTime := time\<rparr>)
      in if leading cfg then invokeFunc func time s1 else s1)"

text \<open>Only called after the first call; before it the code would compute NaN.\<close>

definition remainingWait :: "debounce_config \<Rightarrow> int \<Rightarrow> int \<Rightarrow> int \<Rightarrow> int" where
  "remainingWait cfg callTime invokeTime time =
     (let timeSinceLastCall = time - callTime; timeSinceLastInvoke = time - invokeTime;
          r = wait cfg - timeSinceLastCall
      in if maxing cfg then min r (maxWait cfg - timeSinceLastInvoke) else r)"

definition shouldInvoke :: "debounce_config \<Rightarrow> int \<Rightarrow> ('t, 'a, 'r) debounce_state \<Rightarrow> bool" where
  "shouldInvoke cfg time s =
     (case lastCallTime s of
        None \<Rightarrow> True
      | Some callTime \<Rightarrow>
          (let timeSinceLastCall = time - callTime; timeSinceLastInvoke = time - lastInvokeTime s
           in timeSinceLastCall \<ge> wait cfg \<or> timeSinceLastCall < 0 \<or>
              (maxing cfg \<and> timeSinceLastInvoke \<ge> maxWait cfg)))"

definition trailingEdge ::
  "debounce_config \<Rightarrow> ('t, 'a, 'r) func \<Rightarrow> int \<Rightarrow> ('t, 'a, 'r) debounce_state \<Rightarrow> ('t, 'a, 'r) debounce_state" where
  "trailingEdge cfg func time s =
     (let s1 = s\<lparr>timerId := None\<rparr>
      in if trailing cfg \<and> lastArgs s1 \<noteq> None then invokeFunc func time s1
         else s1\<lparr>lastArgs := None, lastThis := None\<rparr>)"

definition timerExpired ::
  "debounce_config \<Rightarrow> ('t, 'a, 'r) func \<Rightarrow> int \<Rightarrow> ('t, 'a, 'r) debounce_state \<Rightarrow> ('t, 'a, 'r) debounce_state" where
  "timerExpired cfg func time s =
     (if shouldInvoke cfg time s then trailingEdge cfg func time s
      else set_timeout time (remainingWait cfg (the (lastCallTime s)) (lastInvokeTime s) time) s)"

definition cancel :: "('t, 'a, 'r) debounce_state \<Rightarrow> ('t, 'a, 'r) debounce_state" where
  "cancel s =
     (let s1 = (case timerId s of
                  None \<Rightarrow> s
                | Some i \<Rightarrow> s\<lparr>timers := filter (\<lambda>(j, due). j \<noteq> i) (timers s)\<rparr>)
      in s1\<lparr>lastInvokeTime := 0, lastArgs := None, lastCallTime := None, lastThis := None, timerId := None\<rparr>)"

definition flush ::
  "debounce_config \<Rightarrow> ('t, 'a, 'r) func \<Rightarrow> int \<Rightarrow> ('t, 'a, 'r) debounce_state \<Rightarrow> ('t, 'a, 'r) debounce_state" where
  "flush cfg func time s = (if timerId s = None then s else trailingEdge cfg func time s)"

definition debounced ::
  "debounce_config \<Rightarrow> ('t, 'a, 'r) func \<Rightarrow> int \<Rightarrow> 't \<Rightarrow> 'a \<Rightarrow> ('t, 'a, 'r) debounce_state \<Rightarrow> ('t, 'a, 'r) debounce_state" where
  "debounced cfg func time this args s =
     (let isInvoking = shouldInvoke cfg time s;
          s1 = s\<lparr>lastArgs := Some args, lastThis := Some this, lastCallTime := Some time\<rparr>
      in if isInvoking \<and> timerId s1 = None then leadingEdge cfg func time s1
         else if isInvoking \<and> maxing cfg then invokeFunc func time (set_timeout time (wait cfg) s1)
         else if timerId s1 = None then set_timeout time (wait cfg) s1
         else s1)"

section \<open>Runs\<close>

datatype ('t, 'a) event = Call int 't 'a | Fire int nat | Cancel | Flush int

inductive debounce_step ::
  "debounce_config \<Rightarrow> ('t, 'a, 'r) func \<Rightarrow> ('t, 'a, 'r) debounce_state \<Rightarrow> ('t, 'a) event \<Rightarrow>
   ('t, 'a, 'r) debounce_state \<Rightarrow> bool" for cfg func where
  call: "debounce_step cfg func s (Call time this args) (debounced cfg func time this args s)"
| fire: "(i, due) \<in> set (timers s) \<Longrightarrow> due \<le> time \<Longrightarrow>
     debounce_step cfg func s (Fire time i)
       (timerExpired cfg func time (s\<lparr>timers := filter (\<lambda>(j, due). j \<noteq> i) (timers s)\<rparr>))"
| cancel: "debounce_step cfg func s Cancel (cancel s)"
| flush: "debounce_step cfg func s (Flush time) (flush cfg func time s)"

fun event_time :: "('t, 'a) event \<Rightarrow> int option" where
  "event_time (Call time this args) = Some time"
| "event_time (Fire time i) = Some time"
| "event_time Cancel = None"
| "event_time (Flush time) = Some time"

text \<open>
  A run with the events so far. The times are those that \<open>now\<close> gives; where the clock must not go backwards they are sorted.
\<close>

inductive debounce_run ::
  "debounce_config \<Rightarrow> ('t, 'a, 'r) func \<Rightarrow> ('t, 'a) event list \<Rightarrow> ('t, 'a, 'r) debounce_state \<Rightarrow> bool" for cfg func where
  start: "debounce_run cfg func [] debounce_init"
| step: "debounce_run cfg func events s \<Longrightarrow> debounce_step cfg func s e s' \<Longrightarrow> debounce_run cfg func (events @ [e]) s'"

definition event_times :: "('t, 'a) event list \<Rightarrow> int list" where
  "event_times events = List.map_filter event_time events"

text \<open>The latest call in a list of events: its time, receiver and arguments.\<close>

fun last_call :: "('t, 'a) event list \<Rightarrow> (int \<times> 't \<times> 'a) option" where
  "last_call [] = None"
| "last_call (e # es) =
     (case last_call es of
        Some c \<Rightarrow> Some c
      | None \<Rightarrow> (case e of Call time this args \<Rightarrow> Some (time, this, args) | _ \<Rightarrow> None))"

text \<open>The arguments of the calls in a list of events.\<close>

fun call_args :: "('t, 'a) event list \<Rightarrow> ('t option \<times> 'a option) list" where
  "call_args [] = []"
| "call_args (Call time this args # es) = (Some this, Some args) # call_args es"
| "call_args (e # es) = call_args es"

text \<open>
  What waits are the arguments of the latest call. With a clock that does not go backwards they are guarded by a pending timer that is due at
  most one wait after that call.
\<close>

definition holds_last_call :: "('t, 'a) event list \<Rightarrow> ('t, 'a, 'r) debounce_state \<Rightarrow> bool" where
  "holds_last_call events s =
     ((\<forall>c. lastCallTime s = Some c \<longrightarrow> (\<exists>this args. last_call events = Some (c, this, args))) \<and>
      (\<forall>args. lastArgs s = Some args \<longrightarrow>
         (\<exists>c this. lastCallTime s = Some c \<and> lastThis s = Some this \<and> last_call events = Some (c, this, args))))"

definition timer_guards :: "debounce_config \<Rightarrow> ('t, 'a, 'r) debounce_state \<Rightarrow> bool" where
  "timer_guards cfg s =
     ((lastArgs s \<noteq> None \<longrightarrow> timerId s \<noteq> None) \<and>
      (\<forall>i. timerId s = Some i \<longrightarrow>
         (\<exists>due c. (i, due) \<in> set (timers s) \<and> lastCallTime s = Some c \<and> due \<le> c + wait cfg)))"

text \<open>The arguments that wait for an invocation.\<close>

definition pending_args :: "('t, 'a, 'r) debounce_state \<Rightarrow> ('t option \<times> 'a option) list" where
  "pending_args s = (if lastArgs s = None then [] else [(lastThis s, lastArgs s)])"

section \<open>Lemmas\<close>

inductive_cases debounce_stepE: "debounce_step cfg func s e s'"

lemma last_call_append [simp]:
  "last_call (es @ [e]) = (case e of Call time this args \<Rightarrow> Some (time, this, args) | _ \<Rightarrow> last_call es)"
  by (induction es) (auto split: option.splits event.splits)

lemma event_times_append [simp]: "event_times (es @ [e]) = event_times es @ (case event_time e of None \<Rightarrow> [] | Some t \<Rightarrow> [t])"
  by (simp add: event_times_def map_filter_def split: option.split)

lemma last_call_time: "last_call es = Some (c, this, args) \<Longrightarrow> c \<in> set (event_times es)"
proof (induction es)
  case (Cons e es)
  then show ?case by (cases e) (auto simp: event_times_def map_filter_simps split: option.splits)
qed simp

lemma step_last_call:
  assumes "holds_last_call events s" "debounce_step cfg func s e s'"
  shows "holds_last_call (events @ [e]) s'"
  using assms(2)
proof cases
  case (call time this args)
  then show ?thesis
    by (auto simp: holds_last_call_def debounced_def leadingEdge_def invokeFunc_def set_timeout_def Let_def)
next
  case (fire i due time)
  then show ?thesis using assms(1)
    by (auto simp: holds_last_call_def timerExpired_def trailingEdge_def invokeFunc_def set_timeout_def Let_def)
next
  case cancel
  then show ?thesis by (auto simp: holds_last_call_def cancel_def Let_def split: option.splits)
next
  case (flush time)
  then show ?thesis using assms(1)
    by (auto simp: holds_last_call_def flush_def trailingEdge_def invokeFunc_def Let_def)
qed

lemma run_last_call: "debounce_run cfg func events s \<Longrightarrow> holds_last_call events s"
proof (induction rule: debounce_run.induct)
  case start
  then show ?case by (simp add: holds_last_call_def debounce_init_def)
qed (rule step_last_call)

lemma set_timeout_guards:
  "lastCallTime s = Some c \<Longrightarrow> time + delay \<le> c + wait cfg \<Longrightarrow> timer_guards cfg (set_timeout time delay s)"
  by (auto simp: timer_guards_def set_timeout_def)

lemma invokeFunc_guards: "timer_guards cfg s \<Longrightarrow> timer_guards cfg (invokeFunc func time s)"
  by (simp add: timer_guards_def invokeFunc_def Let_def)

lemma trailingEdge_guards: "timer_guards cfg (trailingEdge cfg func time s)"
  by (auto simp: timer_guards_def trailingEdge_def invokeFunc_def Let_def)

lemma call_guards:
  assumes "timer_guards cfg s" "\<And>c. lastCallTime s = Some c \<Longrightarrow> c \<le> time"
  shows "timer_guards cfg (debounced cfg func time this args s)"
proof -
  let ?s = "s\<lparr>lastArgs := Some args, lastThis := Some this, lastCallTime := Some time\<rparr>"
  have set: "timer_guards cfg (set_timeout time (wait cfg) ?s)" "timer_guards cfg (set_timeout time (wait cfg) (?s\<lparr>lastInvokeTime := time\<rparr>))"
    by (rule set_timeout_guards [where c = time], simp, simp)+
  have keep: "timer_guards cfg ?s" if i: "timerId s = Some i" for i
  proof -
    obtain due c where "(i, due) \<in> set (timers s)" "lastCallTime s = Some c" "due \<le> c + wait cfg"
      using assms(1) i by (auto simp: timer_guards_def)
    moreover from this have "c \<le> time" using assms(2) by auto
    ultimately show ?thesis using i by (force simp: timer_guards_def)
  qed
  show ?thesis
    using set keep by (cases "timerId s") (auto simp: debounced_def leadingEdge_def Let_def invokeFunc_guards)
qed

lemma fire_guards: "timer_guards cfg (timerExpired cfg func time s)"
proof (cases "shouldInvoke cfg time s")
  case False
  then obtain c where c: "lastCallTime s = Some c" by (auto simp: shouldInvoke_def split: option.splits)
  have "time + remainingWait cfg c (lastInvokeTime s) time \<le> c + wait cfg" by (auto simp: remainingWait_def Let_def)
  then show ?thesis using False c set_timeout_guards [OF c] by (simp add: timerExpired_def)
qed (simp add: timerExpired_def trailingEdge_guards)

lemma run_guards: "debounce_run cfg func events s \<Longrightarrow> sorted (event_times events) \<Longrightarrow> timer_guards cfg s"
proof (induction rule: debounce_run.induct)
  case start
  then show ?case by (simp add: timer_guards_def debounce_init_def)
next
  case (step events s e s')
  have inv: "timer_guards cfg s" using step.IH step.prems by (auto simp: sorted_append split: option.splits)
  from step.hyps(2) show ?case
  proof cases
    case (call time this args)
    have "c \<le> time" if "lastCallTime s = Some c" for c
      using run_last_call [OF step.hyps(1)] that last_call_time step.prems call
      by (fastforce simp: holds_last_call_def sorted_append)
    then show ?thesis using call call_guards [OF inv] by simp
  next
    case cancel
    then show ?thesis by (auto simp: cancel_def Let_def timer_guards_def split: option.splits)
  qed (use inv fire_guards trailingEdge_guards in \<open>auto simp: flush_def\<close>)
qed

lemma call_args_append [simp]: "call_args (xs @ ys) = call_args xs @ call_args ys"
  by (induction xs rule: call_args.induct) auto

text \<open>What one step does to the log: nothing, or one invocation with the latest arguments.\<close>

lemma step_log:
  assumes "debounce_step cfg func s e s'"
  shows "subseq (map snd (invocations s') @ pending_args s') (map snd (invocations s) @ pending_args s @ call_args [e])"
  using assms
proof cases
  case (call time this args)
  have drop: "subseq (xs @ [y]) (xs @ ys @ [y])" for xs ys :: "('a option \<times> 'b option) list" and y
    by (metis append.assoc subseq_append subseq_rev_drop_many subseq_order.order_refl)
  have "map snd (invocations s') @ pending_args s' = map snd (invocations s) @ [(Some this, Some args)]"
    unfolding call by (auto simp: debounced_def leadingEdge_def invokeFunc_def set_timeout_def Let_def pending_args_def)
  then show ?thesis using call drop by simp
next
  case (fire i due time)
  then show ?thesis
    by (auto simp: timerExpired_def trailingEdge_def invokeFunc_def set_timeout_def Let_def pending_args_def)
next
  case cancel
  then show ?thesis by (auto simp: cancel_def Let_def pending_args_def split: option.splits)
next
  case (flush time)
  then show ?thesis
    by (auto simp: flush_def trailingEdge_def invokeFunc_def Let_def pending_args_def)
qed

lemma run_log: "debounce_run cfg func events s \<Longrightarrow>
   subseq (map snd (invocations s) @ pending_args s) (call_args events)"
proof (induction rule: debounce_run.induct)
  case start
  then show ?case by (simp add: debounce_init_def pending_args_def)
next
  case (step events s e s')
  have "subseq (map snd (invocations s) @ pending_args s @ call_args [e]) (call_args events @ call_args [e])"
    using list_emb_append_mono [OF step.IH subseq_order.order_refl [of "call_args [e]"]] by simp
  then show ?case unfolding call_args_append by (rule subseq_order.order_trans [OF step_log [OF step.hyps(2)]])
qed

lemma quiet_step:
  assumes "holds_last_call events s" "debounce_step cfg func s e s'" "\<not> maxing cfg" "\<not> leading cfg"
    "invocations s' \<noteq> invocations s"
  shows "\<exists>t c this args. last_call events = Some (c, this, args) \<and> invocations s' = invocations s @ [(t, Some this, Some args)] \<and>
    (e = Flush t \<or> (\<exists>i. e = Fire t i) \<and> (c + wait cfg \<le> t \<or> t < c))"
  using assms(2)
proof cases
  case (call time this args)
  then show ?thesis using assms(3-5) by (auto simp: debounced_def leadingEdge_def set_timeout_def Let_def split: if_splits)
next
  case (fire i due time)
  let ?s = "s\<lparr>timers := filter (\<lambda>(j, due). j \<noteq> i) (timers s)\<rparr>"
  have "shouldInvoke cfg time ?s" "lastArgs s \<noteq> None" "invocations s' = invocations s @ [(time, lastThis s, lastArgs s)]"
    using assms(5) fire by (auto simp: timerExpired_def trailingEdge_def invokeFunc_def set_timeout_def Let_def split: if_splits)
  then show ?thesis using assms(1,3) fire by (auto simp: holds_last_call_def shouldInvoke_def Let_def)
next
  case cancel
  then show ?thesis using assms(5) by (simp add: cancel_def Let_def split: option.splits)
next
  case (flush time)
  then have "lastArgs s \<noteq> None" "invocations s' = invocations s @ [(time, lastThis s, lastArgs s)]"
    using assms(5) by (auto simp: flush_def trailingEdge_def invokeFunc_def Let_def split: if_splits)
  then show ?thesis using assms(1) flush by (auto simp: holds_last_call_def)
qed

section \<open>Properties\<close>

text \<open>
  (C9) With a clock that does not go backwards no debounced call is lost: while arguments wait, a timer is pending that is due at most one
  wait after the last call. Firing it a full wait after that call or later settles the arguments: they are passed to the function if
  the trailing edge is asked for, and dropped otherwise. Firing it earlier settles them or leaves them waiting, with a new timer
  that is due strictly later, and still at most one wait after the last call.
\<close>

theorem debounce_pending_served:
  assumes "debounce_run cfg func events s" "sorted (event_times events)" "lastArgs s = Some args"
  defines "settled t s' \<equiv> lastArgs s' = None \<and> timerId s' = None \<and>
    invocations s' = invocations s @ (if trailing cfg then [(t, lastThis s, Some args)] else [])"
  shows "\<exists>i due c this. timerId s = Some i \<and> (i, due) \<in> set (timers s) \<and> last_call events = Some (c, this, args) \<and>
    lastThis s = Some this \<and> due \<le> c + wait cfg \<and>
    (\<forall>t. let s' = timerExpired cfg func t (s\<lparr>timers := filter (\<lambda>(j, due). j \<noteq> i) (timers s)\<rparr>) in
       (c + wait cfg \<le> t \<longrightarrow> settled t s') \<and>
       (settled t s' \<or> invocations s' = invocations s \<and> lastArgs s' = Some args \<and>
        (\<exists>j due'. timerId s' = Some j \<and> (j, due') \<in> set (timers s') \<and> t < due' \<and> due' \<le> c + wait cfg)))"
proof -
  obtain i due c where i: "timerId s = Some i" "(i, due) \<in> set (timers s)" "lastCallTime s = Some c" "due \<le> c + wait cfg"
    using run_guards [OF assms(1,2)] assms(3) by (auto simp: timer_guards_def)
  obtain this where "lastThis s = Some this" "last_call events = Some (c, this, args)"
    using run_last_call [OF assms(1)] assms(3) i(3) by (auto simp: holds_last_call_def)
  moreover have "let s' = timerExpired cfg func t (s\<lparr>timers := filter (\<lambda>(j, due). j \<noteq> i) (timers s)\<rparr>) in
       (c + wait cfg \<le> t \<longrightarrow> settled t s') \<and>
       (settled t s' \<or> invocations s' = invocations s \<and> lastArgs s' = Some args \<and>
        (\<exists>j due'. timerId s' = Some j \<and> (j, due') \<in> set (timers s') \<and> t < due' \<and> due' \<le> c + wait cfg))" for t
    using i(3) assms(3) unfolding settled_def
    by (auto simp: timerExpired_def trailingEdge_def invokeFunc_def set_timeout_def remainingWait_def shouldInvoke_def Let_def)
  ultimately show ?thesis using i by blast
qed

theorem debounce_pending_served_witness:
  "let cfg = \<lparr>wait = 10, leading = False, maxing = False, maxWait = 0, trailing = True\<rparr>;
       s = debounced cfg (\<lambda>_ _. 0) 5 () 7 (debounce_init :: (unit, nat, nat) debounce_state)
   in debounce_run cfg (\<lambda>_ _. 0) [Call 5 () 7] s \<and>
      (\<exists>i. timerId s = Some i \<and>
         invocations (timerExpired cfg (\<lambda>_ _. 0) 15 (s\<lparr>timers := filter (\<lambda>(j, due). j \<noteq> i) (timers s)\<rparr>)) = [(15, Some (), Some 7)])"
proof -
  let ?cfg = "\<lparr>wait = 10, leading = False, maxing = False, maxWait = 0, trailing = True\<rparr>"
  let ?s = "debounced ?cfg (\<lambda>_ _. 0) 5 () 7 debounce_init :: (unit, nat, nat) debounce_state"
  have run: "debounce_run ?cfg (\<lambda>_ _. 0) [Call 5 () 7] ?s"
    using debounce_run.step [OF debounce_run.start debounce_step.call] by fastforce
  have s: "lastArgs ?s = Some 7" "lastThis ?s = Some ()" "invocations ?s = []"
    by (simp_all add: debounced_def leadingEdge_def set_timeout_def shouldInvoke_def debounce_init_def Let_def)
  have "sorted (event_times [Call 5 () (7 :: nat)])" by (simp add: event_times_def map_filter_simps)
  from debounce_pending_served [OF run this s(1)] show ?thesis using run s by (auto simp: Let_def)
qed

text \<open>
  (C31) Without leading edge and maximal wait, \<open>debounce\<close> calls the function only when it is flushed or from a timer, and
  then with the receiver and arguments of the latest call. A timer calls it only when a full wait has passed since that call, or
  when the clock has gone back behind it.
\<close>

theorem debounce_waits_for_quiet:
  assumes "debounce_run cfg func events s" "debounce_step cfg func s e s'" "\<not> maxing cfg" "\<not> leading cfg"
    "invocations s' \<noteq> invocations s"
  shows "\<exists>t c this args. last_call events = Some (c, this, args) \<and> invocations s' = invocations s @ [(t, Some this, Some args)] \<and>
    (e = Flush t \<or> (\<exists>i. e = Fire t i) \<and> (c + wait cfg \<le> t \<or> t < c))"
  by (rule quiet_step [OF run_last_call [OF assms(1)] assms(2-)])

theorem debounce_waits_for_quiet_witness:
  "let cfg = \<lparr>wait = 10, leading = False, maxing = False, maxWait = 0, trailing = True\<rparr>;
       s = debounced cfg (\<lambda>_ _. 0) 5 () 7 (debounce_init :: (unit, nat, nat) debounce_state);
       s' = timerExpired cfg (\<lambda>_ _. 0) 15 (s\<lparr>timers := filter (\<lambda>(j, due). j \<noteq> 0) (timers s)\<rparr>)
   in invocations s' = invocations s @ [(15, Some (), Some 7)]"
proof -
  let ?cfg = "\<lparr>wait = 10, leading = False, maxing = False, maxWait = 0, trailing = True\<rparr>"
  let ?s = "debounced ?cfg (\<lambda>_ _. 0) 5 () 7 debounce_init :: (unit, nat, nat) debounce_state"
  let ?s' = "timerExpired ?cfg (\<lambda>_ _. 0) 15 (?s\<lparr>timers := filter (\<lambda>(j, due). j \<noteq> 0) (timers ?s)\<rparr>)"
  note defs = debounced_def leadingEdge_def invokeFunc_def set_timeout_def timerExpired_def trailingEdge_def
    shouldInvoke_def Let_def debounce_init_def
  have run: "debounce_run ?cfg (\<lambda>_ _. 0) ([] @ [Call 5 () 7]) ?s"
    by (rule debounce_run.step [OF debounce_run.start debounce_step.call])
  have "(0, 15) \<in> set (timers ?s)" by (simp add: defs)
  then have step: "debounce_step ?cfg (\<lambda>_ _. 0) ?s (Fire 15 0) ?s'" by (rule debounce_step.fire) simp
  have "invocations ?s' \<noteq> invocations ?s" by (simp add: defs)
  from debounce_waits_for_quiet [OF run step _ _ this] show ?thesis by (simp add: Let_def)
qed

text \<open>
  Every call is served at most once and in order: the receivers and arguments of the invocations, followed by
  the waiting ones, are a subsequence of those of the calls, whatever the configuration, the clock, and the timers, cancellations and flushes in between.
\<close>

theorem debounce_calls_once:
  assumes "debounce_run cfg func events s"
  shows "subseq (map snd (invocations s) @ pending_args s) (call_args events)"
  using run_log [OF assms] .

theorem debounce_calls_once_witness:
  "let cfg = \<lparr>wait = 10, leading = True, maxing = False, maxWait = 0, trailing = True\<rparr>;
       s = debounced cfg (\<lambda>_ _. 0) 6 () 8 (debounced cfg (\<lambda>_ _. 0) 5 () 7 (debounce_init :: (unit, nat, nat) debounce_state))
   in invocations s = [(5, Some (), Some 7)] \<and> pending_args s = [(Some (), Some 8)] \<and>
      subseq (map snd (invocations s) @ pending_args s) [(Some (), Some 7), (Some (), Some 8)]"
proof -
  let ?cfg = "\<lparr>wait = 10, leading = True, maxing = False, maxWait = 0, trailing = True\<rparr>"
  let ?s1 = "debounced ?cfg (\<lambda>_ _. 0) 5 () 7 debounce_init :: (unit, nat, nat) debounce_state"
  let ?s = "debounced ?cfg (\<lambda>_ _. 0) 6 () 8 ?s1"
  have "debounce_run ?cfg (\<lambda>_ _. 0) (([] @ [Call 5 () 7]) @ [Call 6 () 8]) ?s"
    by (rule debounce_run.step [OF debounce_run.step [OF debounce_run.start debounce_step.call] debounce_step.call])
  from debounce_calls_once [OF this] show ?thesis
    by (simp add: Let_def)
      (simp add: debounced_def leadingEdge_def invokeFunc_def set_timeout_def shouldInvoke_def debounce_init_def pending_args_def Let_def)
qed

text \<open>
  \<open>throttle\<close> can call the function twice within one wait: after a call at 0 and one at 50, the
  timer serves the second at 100; a call at 150 is a full wait after the last call, although only
  50 after the last invocation, and is served at once.
\<close>

theorem throttle_twice_within_wait:
  "\<exists>cfg s. throttle True 100 None = Inr cfg \<and>
     debounce_run cfg func [Call 0 this a, Call 50 this b, Fire 100 0, Call 150 this c] s \<and>
     map fst (invocations s) = [0, 100, 150]"
proof -
  let ?cfg = "\<lparr>wait = 100, leading = True, maxing = True, maxWait = 100, trailing = True\<rparr>"
  let ?s1 = "debounced ?cfg func 0 this a debounce_init"
  let ?s2 = "debounced ?cfg func 50 this b ?s1"
  let ?s3 = "timerExpired ?cfg func 100 (?s2\<lparr>timers := filter (\<lambda>(j, due). j \<noteq> 0) (timers ?s2)\<rparr>)"
  let ?s4 = "debounced ?cfg func 150 this c ?s3"
  note defs = debounced_def leadingEdge_def invokeFunc_def set_timeout_def timerExpired_def trailingEdge_def
    shouldInvoke_def Let_def debounce_init_def
  have r2: "debounce_run ?cfg func (([] @ [Call 0 this a]) @ [Call 50 this b]) ?s2"
    by (rule debounce_run.step [OF debounce_run.step [OF debounce_run.start debounce_step.call] debounce_step.call])
  have "(0, 100) \<in> set (timers ?s2)" by (simp add: defs)
  then have "debounce_step ?cfg func ?s2 (Fire 100 0) ?s3" by (rule debounce_step.fire) simp
  from debounce_run.step [OF debounce_run.step [OF r2 this] debounce_step.call]
  have "debounce_run ?cfg func [Call 0 this a, Call 50 this b, Fire 100 0, Call 150 this c] ?s4" by simp
  moreover have "map fst (invocations ?s4) = [0, 100, 150]" by (simp add: defs)
  moreover have "throttle True 100 None = Inr ?cfg" by (simp add: throttle_def debounce_setup_def)
  ultimately show ?thesis by (intro exI [of _ ?cfg] exI [of _ ?s4] conjI)
qed

end
