(* ===== verification/JsFunctions.thy ===== *)
theory JsFunctions
  imports JsArrayApi JsTimers
begin

text \<open>
  Function wrappers of lodash.js: invocation counters (\<open>after\<close>, \<open>before\<close>, \<open>once\<close>), argument
  transformers, and the metadata-driven wrappers behind \<open>bind\<close>, \<open>partial\<close>, \<open>curry\<close>, \<open>ary\<close>,
  \<open>flip\<close> and \<open>rearg\<close>.

  A wrapper of a function is data: which of the four creators built it and with which
  metadata. Calling it either calls the underlying function, which the outcome records with its
  this-value and arguments, or gives another wrapper. Calls with \<open>new\<close>, the method lookup of
  \<open>bindKey\<close> and the deferred writing of metadata are outside the model.
\<close>

section \<open>Invocation counters\<close>

text \<open>A counter returns whether the function is called, and the next counter.\<close>

definition after :: "bool \<Rightarrow> jsnum \<Rightarrow> js_error + int" where
  "after is_function n = (if \<not> is_function then Inl (TypeError FUNC_ERROR_TEXT) else Inr (num_int (toInteger n)))"

definition after_call :: "int \<Rightarrow> bool \<times> int" where
  "after_call n = (let n1 = n - 1 in (n1 < 1, n1))"

record 'r before_state =
  remaining :: int
  before_result :: "'r option"
  has_func :: bool

definition before :: "bool \<Rightarrow> jsnum \<Rightarrow> js_error + 'r before_state" where
  "before is_function n =
     (if \<not> is_function then Inl (TypeError FUNC_ERROR_TEXT)
      else Inr \<lparr>remaining = num_int (toInteger n), before_result = None, has_func = True\<rparr>)"

text \<open>One call; \<open>None\<close> in the first component when the released function would be called.\<close>

definition before_call :: "('a \<Rightarrow> 'r) \<Rightarrow> 'a \<Rightarrow> 'r before_state \<Rightarrow> 'r option option \<times> 'r before_state" where
  "before_call func args s =
     (let n1 = remaining s - 1
      in if n1 > 0 \<and> \<not> has_func s then (None, s)
         else (let r = (if n1 > 0 then Some (func args) else before_result s)
               in (Some r, \<lparr>remaining = n1, before_result = r, has_func = (has_func s \<and> \<not> n1 \<le> 1)\<rparr>)))"

definition once :: "bool \<Rightarrow> js_error + 'r before_state" where
  "once is_function = before is_function (Fin 2)"

definition negate :: "('t \<Rightarrow> 'a list \<Rightarrow> bool) \<Rightarrow> 't \<Rightarrow> 'a list \<Rightarrow> bool" where
  "negate predicate this args =
     (case args of
        [] \<Rightarrow> \<not> predicate this []
      | [a] \<Rightarrow> \<not> predicate this [a]
      | [a, b] \<Rightarrow> \<not> predicate this [a, b]
      | [a, b, c] \<Rightarrow> \<not> predicate this [a, b, c]
      | _ \<Rightarrow> \<not> predicate this args)"

section \<open>Argument transformers\<close>

text \<open>\<open>baseRest\<close>: the arguments from \<open>start\<close> on are passed as one array.\<close>

definition baseRest :: "(jsval list \<Rightarrow> jsval list \<Rightarrow> 'r) \<Rightarrow> nat \<Rightarrow> jsval list \<Rightarrow> 'r" where
  "baseRest func start args =
     func (map (\<lambda>index. arr_get args index) [0..<start])
          (map (\<lambda>index. args ! (start + index)) [0..<length args - start])"

definition spread :: "bool \<Rightarrow> (jsval list \<Rightarrow> 'r) \<Rightarrow> jsnum option \<Rightarrow> (nat \<Rightarrow> jsval list option) \<Rightarrow> jsval list \<Rightarrow> js_error + 'r" where
  "spread is_function func start array_at args =
     (if \<not> is_function then Inl (TypeError FUNC_ERROR_TEXT)
      else (let start1 = (case start of None \<Rightarrow> 0 | Some n \<Rightarrow> max (num_int (toInteger n)) 0);
                otherArgs = castSlice args 0 (Some start1)
            in Inr (func (case array_at (nat start1) of None \<Rightarrow> otherArgs | Some array \<Rightarrow> arrayPush otherArgs array))))"

definition overArgs :: "(jsval list \<Rightarrow> 'r) \<Rightarrow> (jsval \<Rightarrow> jsval) list \<Rightarrow> jsval list \<Rightarrow> 'r" where
  "overArgs func transforms args =
     (let len = min (length args) (length transforms)
      in func (map (\<lambda>index. if index < len then (transforms ! index) (args ! index) else args ! index) [0..<length args]))"

definition createOver ::
  "(('t \<Rightarrow> jsval list \<Rightarrow> 'b) list option \<Rightarrow> (('t \<Rightarrow> jsval list \<Rightarrow> 'b) \<Rightarrow> nat \<Rightarrow> ('t \<Rightarrow> jsval list \<Rightarrow> 'b) list \<Rightarrow> 'b) \<Rightarrow> 'r) \<Rightarrow>
   ('t \<Rightarrow> jsval list \<Rightarrow> 'b) list \<Rightarrow> 't \<Rightarrow> jsval list \<Rightarrow> 'r" where
  "createOver arrayFunc iteratees thisArg args =
     arrayFunc (Some iteratees) (baseUnary (\<lambda>iteratee. apply_js iteratee thisArg args))"

section \<open>Flags and placeholders\<close>

definition BIND_FLAG :: int where "BIND_FLAG = 1"
definition BIND_KEY_FLAG :: int where "BIND_KEY_FLAG = 2"
definition CURRY_BOUND_FLAG :: int where "CURRY_BOUND_FLAG = 4"
definition CURRY_FLAG :: int where "CURRY_FLAG = 8"
definition CURRY_RIGHT_FLAG :: int where "CURRY_RIGHT_FLAG = 16"
definition PARTIAL_FLAG :: int where "PARTIAL_FLAG = 32"
definition PARTIAL_RIGHT_FLAG :: int where "PARTIAL_RIGHT_FLAG = 64"
definition ARY_FLAG :: int where "ARY_FLAG = 128"
definition REARG_FLAG :: int where "REARG_FLAG = 256"
definition FLIP_FLAG :: int where "FLIP_FLAG = 512"

definition PLACEHOLDER :: jsval where
  "PLACEHOLDER = Str ''__lodash_placeholder__''"

fun count_holders_loop :: "jsval list \<Rightarrow> jsval \<Rightarrow> nat \<Rightarrow> nat \<Rightarrow> nat" where
  "count_holders_loop array placeholder 0 res = res"
| "count_holders_loop array placeholder (Suc len) res =
     count_holders_loop array placeholder len (if strict_eq (array ! len) placeholder then Suc res else res)"

definition countHolders :: "jsval list \<Rightarrow> jsval \<Rightarrow> nat" where
  "countHolders array placeholder = count_holders_loop array placeholder (length array) 0"

text \<open>\<open>replaceHolders\<close> returns the indexes and the array it has rewritten.\<close>

function replace_holders_loop :: "jsval list \<Rightarrow> jsval \<Rightarrow> nat \<Rightarrow> nat list \<Rightarrow> nat list \<times> jsval list" where
  "replace_holders_loop array placeholder index res =
     (if index < length array
      then (let value = array ! index
            in if strict_eq value placeholder \<or> strict_eq value PLACEHOLDER
               then replace_holders_loop (array[index := PLACEHOLDER]) placeholder (Suc index) (res @ [index])
               else replace_holders_loop array placeholder (Suc index) res)
      else (res, array))"
  by pat_completeness auto
termination by (relation "measure (\<lambda>(array, placeholder, index, res). length array - index)") auto

definition replaceHolders :: "jsval list \<Rightarrow> jsval \<Rightarrow> nat list \<times> jsval list" where
  "replaceHolders array placeholder = replace_holders_loop array placeholder 0 []"

text \<open>The loop that writes the arguments into the positions of the placeholders.\<close>

fun fill_holders :: "jsval list \<Rightarrow> bool \<Rightarrow> nat \<Rightarrow> nat list \<Rightarrow> jsval list \<Rightarrow> jsval list" where
  "fill_holders args isUncurried argsIndex [] res = res"
| "fill_holders args isUncurried argsIndex (holder # holders) res =
     fill_holders args isUncurried (Suc argsIndex) holders
       (if isUncurried \<or> argsIndex < length args then res[holder := arr_get args argsIndex] else res)"

definition composeArgs :: "jsval list \<Rightarrow> jsval list \<Rightarrow> nat list \<Rightarrow> bool \<Rightarrow> jsval list" where
  "composeArgs args partials holders isCurried =
     (let rangeLength = length args - length holders;
          left = map (\<lambda>leftIndex. partials ! leftIndex) [0..<length partials]
      in fill_holders args (\<not> isCurried) 0 holders left @
         map (\<lambda>j. arr_get args (length holders + j)) [0..<rangeLength])"

text \<open>From the right the arguments of the range come first, and only filled holders advance.\<close>

fun fill_holders_right :: "jsval list \<Rightarrow> bool \<Rightarrow> nat \<Rightarrow> nat \<Rightarrow> nat list \<Rightarrow> jsval list \<Rightarrow> jsval list" where
  "fill_holders_right args isUncurried offset argsIndex [] res = res"
| "fill_holders_right args isUncurried offset argsIndex (holder # holders) res =
     (if isUncurried \<or> argsIndex < length args
      then fill_holders_right args isUncurried offset (Suc argsIndex) holders (res[offset + holder := arr_get args argsIndex])
      else fill_holders_right args isUncurried offset argsIndex holders res)"

definition composeArgsRight :: "jsval list \<Rightarrow> jsval list \<Rightarrow> nat list \<Rightarrow> bool \<Rightarrow> jsval list" where
  "composeArgsRight args partials holders isCurried =
     (let rangeLength = length args - length holders
      in fill_holders_right args (\<not> isCurried) rangeLength rangeLength holders
           (map (\<lambda>j. args ! j) [0..<rangeLength] @ map (\<lambda>j. partials ! j) [0..<length partials]))"

text \<open>\<open>reorder\<close>: positions without a valid index become undefined.\<close>

definition reorder :: "jsval list \<Rightarrow> jsnum list \<Rightarrow> jsval list" where
  "reorder array indexes =
     (let len = min (length indexes) (length array)
      in map (\<lambda>i. if i < len
                  then (if isIndex (indexes ! i) (Some (length array)) then array ! nat (num_int (indexes ! i)) else Undefined)
                  else array ! i) [0..<length array])"

section \<open>Wrappers\<close>

text \<open>
  The metadata of a wrapper. \<open>w_inner\<close> says that the function it calls is the one that the metadata
  of its argument names, not the argument itself.
\<close>

record wrap_data =
  w_inner :: bool
  w_bitmask :: int
  w_thisArg :: jsval
  w_partials :: "jsval list option"
  w_holders :: "nat list option"
  w_partialsRight :: "jsval list option"
  w_holdersRight :: "nat list option"
  w_argPos :: "jsnum list option"
  w_ary :: "int option"
  w_arity :: "int option"

text \<open>
  A function as an argument: its number of parameters and, for a wrapper, its metadata with the
  number of parameters of the function that the metadata names.
\<close>

record js_func =
  is_function :: bool
  func_length :: nat
  func_data :: "(wrap_data \<times> nat) option"

datatype wrapper =
  BindW int jsval
| CurryW int int
| PartialW int jsval "jsval list"
| HybridW wrap_data

datatype outcome = Invoke jsval "jsval list" | Wrapped wrapper

definition has_flag :: "int \<Rightarrow> int \<Rightarrow> bool" where
  "has_flag bitmask flag = (bitmask AND flag \<noteq> 0)"

fun opt_list :: "'a list option \<Rightarrow> 'a list" where
  "opt_list None = []"
| "opt_list (Some xs) = xs"

definition createRecurry ::
  "int \<Rightarrow> jsval \<Rightarrow> jsval list \<Rightarrow> nat list \<Rightarrow> jsnum list option \<Rightarrow> int option \<Rightarrow> int \<Rightarrow> wrapper" where
  "createRecurry bitmask thisArg partials holders argPos ary arity =
     (let isCurry = has_flag bitmask CURRY_FLAG;
          bitmask1 = bitmask OR (if isCurry then PARTIAL_FLAG else PARTIAL_RIGHT_FLAG);
          bitmask2 = bitmask1 AND NOT (if isCurry then PARTIAL_RIGHT_FLAG else PARTIAL_FLAG);
          bitmask3 = (if \<not> has_flag bitmask2 CURRY_BOUND_FLAG
                      then bitmask2 AND NOT (BIND_FLAG OR BIND_KEY_FLAG) else bitmask2)
      in HybridW \<lparr>w_inner = False, w_bitmask = bitmask3, w_thisArg = thisArg,
           w_partials = (if isCurry then Some partials else None),
           w_holders = (if isCurry then Some holders else None),
           w_partialsRight = (if isCurry then None else Some partials),
           w_holdersRight = (if isCurry then None else Some holders),
           w_argPos = argPos, w_ary = ary, w_arity = Some arity\<rparr>)"

definition createCurry_call :: "jsval \<Rightarrow> int \<Rightarrow> int \<Rightarrow> jsval \<Rightarrow> jsval list \<Rightarrow> outcome" where
  "createCurry_call placeholder bitmask arity this arguments =
     (let args = map (\<lambda>index. arguments ! index) [0..<length arguments];
          (holders, args1) =
            (if length args < 3 \<and> \<not> strict_eq (arr_get args 0) placeholder \<and>
                \<not> strict_eq (if length args = 0 then Undefined else args ! (length args - 1)) placeholder
             then ([], args) else replaceHolders args placeholder);
          len = int (length args1) - int (length holders)
      in if len < arity then Wrapped (createRecurry bitmask Undefined args1 holders None None (arity - len))
         else Invoke this args1)"

definition createHybrid_call :: "jsval \<Rightarrow> wrap_data \<Rightarrow> jsval \<Rightarrow> jsval list \<Rightarrow> outcome" where
  "createHybrid_call placeholder d this arguments =
     (let isAry = has_flag (w_bitmask d) ARY_FLAG;
          isBind = has_flag (w_bitmask d) BIND_FLAG;
          isCurried = has_flag (w_bitmask d) (CURRY_FLAG OR CURRY_RIGHT_FLAG);
          isFlip = has_flag (w_bitmask d) FLIP_FLAG;
          args0 = map (\<lambda>index. arguments ! index) [0..<length arguments];
          holdersCount = countHolders args0 placeholder;
          args1 = (case w_partials d of
                     None \<Rightarrow> args0
                   | Some partials \<Rightarrow> composeArgs args0 partials (opt_list (w_holders d)) isCurried);
          args2 = (case w_partialsRight d of
                     None \<Rightarrow> args1
                   | Some partials \<Rightarrow> composeArgsRight args1 partials (opt_list (w_holdersRight d)) isCurried);
          len = int (length arguments) - int holdersCount
      in if isCurried \<and> (case w_arity d of None \<Rightarrow> False | Some a \<Rightarrow> len < a)
         then (let (newHolders, args3) = replaceHolders args2 placeholder
               in Wrapped (createRecurry (w_bitmask d) (w_thisArg d) args3 newHolders (w_argPos d) (w_ary d)
                    (the (w_arity d) - len)))
         else (let thisBinding = (if isBind then w_thisArg d else this);
                   args4 = (case w_argPos d of
                              Some argPos \<Rightarrow> reorder args2 argPos
                            | None \<Rightarrow> if isFlip \<and> length args2 > 1 then rev args2 else args2);
                   args5 = (case w_ary d of
                              Some a \<Rightarrow> if isAry \<and> a < int (length args2) then take (nat a) args4 else args4
                            | None \<Rightarrow> args4)
               in Invoke thisBinding args5))"

definition createPartial_call :: "int \<Rightarrow> jsval \<Rightarrow> jsval list \<Rightarrow> jsval \<Rightarrow> jsval list \<Rightarrow> outcome" where
  "createPartial_call bitmask thisArg partials this arguments =
     Invoke (if has_flag bitmask BIND_FLAG then thisArg else this)
       (map (\<lambda>leftIndex. partials ! leftIndex) [0..<length partials] @
        map (\<lambda>argsIndex. arguments ! argsIndex) [0..<length arguments])"

definition createBind_call :: "int \<Rightarrow> jsval \<Rightarrow> jsval \<Rightarrow> jsval list \<Rightarrow> outcome" where
  "createBind_call bitmask thisArg this arguments =
     Invoke (if has_flag bitmask BIND_FLAG then thisArg else this) arguments"

fun call_wrapper :: "jsval \<Rightarrow> wrapper \<Rightarrow> jsval \<Rightarrow> jsval list \<Rightarrow> outcome" where
  "call_wrapper placeholder (BindW bitmask thisArg) this arguments = createBind_call bitmask thisArg this arguments"
| "call_wrapper placeholder (CurryW bitmask arity) this arguments = createCurry_call placeholder bitmask arity this arguments"
| "call_wrapper placeholder (PartialW bitmask thisArg partials) this arguments =
     createPartial_call bitmask thisArg partials this arguments"
| "call_wrapper placeholder (HybridW d) this arguments = createHybrid_call placeholder d this arguments"

section \<open>Metadata\<close>

text \<open>Composing partial arguments: those of the source are filled by those of the data.\<close>

definition merge_partials ::
  "(jsval list \<Rightarrow> jsval list \<Rightarrow> nat list \<Rightarrow> bool \<Rightarrow> jsval list) \<Rightarrow> jsval list option \<times> nat list option \<Rightarrow>
   jsval list option \<times> nat list option \<Rightarrow> jsval list option \<times> nat list option" where
  "merge_partials compose data source =
     (case fst source of
        None \<Rightarrow> data
      | Some value \<Rightarrow>
          (case fst data of
             None \<Rightarrow> (Some value, snd source)
           | Some partials \<Rightarrow>
               (let (hs, p) = replaceHolders (compose partials value (opt_list (snd source)) False) PLACEHOLDER
                in (Some p, Some hs))))"

definition can_merge :: "wrap_data \<Rightarrow> wrap_data \<Rightarrow> bool" where
  "can_merge data source =
     (let bitmask = w_bitmask data; srcBitmask = w_bitmask source;
          ary_ok = (\<lambda>pos ary. case (pos, ary) of (Some p, Some a) \<Rightarrow> int (length p) \<le> a | _ \<Rightarrow> False);
          isCommon = (bitmask OR srcBitmask) < (BIND_FLAG OR BIND_KEY_FLAG OR ARY_FLAG);
          isCombo = (srcBitmask = ARY_FLAG \<and> bitmask = CURRY_FLAG) \<or>
                    (srcBitmask = ARY_FLAG \<and> bitmask = REARG_FLAG \<and> ary_ok (w_argPos data) (w_ary source)) \<or>
                    (srcBitmask = ARY_FLAG OR REARG_FLAG \<and> ary_ok (w_argPos source) (w_ary source) \<and> bitmask = CURRY_FLAG)
      in isCommon \<or> isCombo)"

definition mergeData :: "wrap_data \<Rightarrow> wrap_data \<Rightarrow> wrap_data" where
  "mergeData data source =
     (if \<not> can_merge data source then data
      else (let newBitmask = w_bitmask data OR w_bitmask source;
                isSrcBind = has_flag (w_bitmask source) BIND_FLAG;
                left = merge_partials composeArgs (w_partials data, w_holders data) (w_partials source, w_holders source);
                right = merge_partials composeArgsRight (w_partialsRight data, w_holdersRight data)
                          (w_partialsRight source, w_holdersRight source)
            in \<lparr>w_inner = True,
                w_bitmask = (if isSrcBind
                             then newBitmask OR (if has_flag (w_bitmask data) BIND_FLAG then 0 else CURRY_BOUND_FLAG)
                             else newBitmask),
                w_thisArg = (if isSrcBind then w_thisArg source else w_thisArg data),
                w_partials = fst left, w_holders = snd left,
                w_partialsRight = fst right, w_holdersRight = snd right,
                w_argPos = (case w_argPos source of None \<Rightarrow> w_argPos data | Some p \<Rightarrow> Some p),
                w_ary = (if has_flag (w_bitmask source) ARY_FLAG
                         then (case (w_ary data, w_ary source) of
                                 (None, a) \<Rightarrow> a
                               | (Some a, Some b) \<Rightarrow> Some (min a b)
                               | (Some a, None) \<Rightarrow> Some a)
                         else w_ary data),
                w_arity = (case w_arity data of None \<Rightarrow> w_arity source | Some a \<Rightarrow> Some a)\<rparr>))"

text \<open>The metadata \<open>createWrap\<close> starts from.\<close>

definition new_wrap_data ::
  "int \<Rightarrow> jsval \<Rightarrow> jsval list option \<Rightarrow> nat list option \<Rightarrow> jsnum list option \<Rightarrow> jsnum option \<Rightarrow> jsnum option \<Rightarrow> wrap_data" where
  "new_wrap_data bitmask thisArg partials holders argPos ary arity =
     (let isRight = has_flag bitmask PARTIAL_RIGHT_FLAG
      in \<lparr>w_inner = False, w_bitmask = bitmask, w_thisArg = thisArg,
          w_partials = (if isRight then None else partials), w_holders = (if isRight then None else holders),
          w_partialsRight = (if isRight then partials else None), w_holdersRight = (if isRight then holders else None),
          w_argPos = argPos, w_ary = map_option (\<lambda>a. max (num_int (toInteger a)) 0) ary,
          w_arity = map_option (\<lambda>a. num_int (toInteger a)) arity\<rparr>)"

text \<open>The choice of the creator; a completed arity clears the curry flags for the choice only.\<close>

definition select_wrapper :: "wrap_data \<Rightarrow> int \<Rightarrow> wrapper" where
  "select_wrapper d arity =
     (let bitmask = (if arity = 0 \<and> has_flag (w_bitmask d) (CURRY_FLAG OR CURRY_RIGHT_FLAG)
                     then w_bitmask d AND NOT (CURRY_FLAG OR CURRY_RIGHT_FLAG) else w_bitmask d)
      in if bitmask = 0 \<or> bitmask = BIND_FLAG then BindW bitmask (w_thisArg d)
         else if bitmask = CURRY_FLAG \<or> bitmask = CURRY_RIGHT_FLAG then CurryW bitmask arity
         else if (bitmask = PARTIAL_FLAG \<or> bitmask = BIND_FLAG OR PARTIAL_FLAG) \<and> length (opt_list (w_holders d)) = 0
         then PartialW bitmask (w_thisArg d) (opt_list (w_partials d))
         else HybridW d)"

definition createWrap ::
  "js_func \<Rightarrow> int \<Rightarrow> jsval \<Rightarrow> jsval list option \<Rightarrow> nat list option \<Rightarrow>
   jsnum list option \<Rightarrow> jsnum option \<Rightarrow> jsnum option \<Rightarrow> js_error + wrapper \<times> wrap_data" where
  "createWrap func bitmask thisArg partials holders argPos ary arity =
     (if \<not> is_function func then Inl (TypeError FUNC_ERROR_TEXT)
      else (let empty = (length (opt_list partials) = 0);
                holders1 = (if empty then None else holders);
                newData = new_wrap_data (if empty then bitmask AND NOT (PARTIAL_FLAG OR PARTIAL_RIGHT_FLAG) else bitmask)
                            thisArg (if empty then None else partials) holders1 argPos ary arity;
                len = int (length (opt_list partials)) - int (length (opt_list holders1));
                (newData1, inner_length) =
                  (case func_data func of
                     None \<Rightarrow> (newData, func_length func)
                   | Some (d, n) \<Rightarrow> (let m = mergeData newData d in (m, if w_inner m then n else func_length func)));
                arity1 = (case w_arity newData1 of None \<Rightarrow> int inner_length | Some a \<Rightarrow> max (a - len) 0);
                newData2 = newData1\<lparr>w_arity := Some arity1\<rparr>
            in Inr (select_wrapper newData2 arity1, newData2)))"

definition bind_js :: "js_func \<Rightarrow> jsval \<Rightarrow> jsval \<Rightarrow> jsval list \<Rightarrow> js_error + wrapper \<times> wrap_data" where
  "bind_js func placeholder thisArg partials =
     (if length partials \<noteq> 0
      then (let (holders, partials1) = replaceHolders partials placeholder
            in createWrap func (BIND_FLAG OR PARTIAL_FLAG) thisArg (Some partials1) (Some holders) None None None)
      else createWrap func BIND_FLAG thisArg (Some partials) None None None None)"

definition partial :: "js_func \<Rightarrow> jsval \<Rightarrow> jsval list \<Rightarrow> js_error + wrapper \<times> wrap_data" where
  "partial func placeholder partials =
     (let (holders, partials1) = replaceHolders partials placeholder
      in createWrap func PARTIAL_FLAG Undefined (Some partials1) (Some holders) None None None)"

definition partialRight :: "js_func \<Rightarrow> jsval \<Rightarrow> jsval list \<Rightarrow> js_error + wrapper \<times> wrap_data" where
  "partialRight func placeholder partials =
     (let (holders, partials1) = replaceHolders partials placeholder
      in createWrap func PARTIAL_RIGHT_FLAG Undefined (Some partials1) (Some holders) None None None)"

definition curry_js :: "js_func \<Rightarrow> jsnum option \<Rightarrow> bool \<Rightarrow> js_error + wrapper \<times> wrap_data" where
  "curry_js func arity guard =
     createWrap func CURRY_FLAG Undefined None None None None (if guard then None else arity)"

definition curryRight :: "js_func \<Rightarrow> jsnum option \<Rightarrow> bool \<Rightarrow> js_error + wrapper \<times> wrap_data" where
  "curryRight func arity guard =
     createWrap func CURRY_RIGHT_FLAG Undefined None None None None (if guard then None else arity)"

definition ary :: "js_func \<Rightarrow> jsnum option \<Rightarrow> bool \<Rightarrow> js_error + wrapper \<times> wrap_data" where
  "ary func n guard =
     (let n1 = (if guard then None else n);
          n2 = (if is_function func \<and> n1 = None then Some (num_of_int (int (func_length func))) else n1)
      in createWrap func ARY_FLAG Undefined None None None n2 None)"

definition unary :: "js_func \<Rightarrow> js_error + wrapper \<times> wrap_data" where
  "unary func = ary func (Some (Fin 1)) False"

definition flip_js :: "js_func \<Rightarrow> js_error + wrapper \<times> wrap_data" where
  "flip_js func =
     createWrap func FLIP_FLAG Undefined None None None None None"

definition rearg :: "js_func \<Rightarrow> jsnum list \<Rightarrow> js_error + wrapper \<times> wrap_data" where
  "rearg func indexes =
     createWrap func REARG_FLAG Undefined None None (Some indexes) None None"

declare replace_holders_loop.simps [simp del]

text \<open>The reference for placeholders: arguments fill the holes from the left, the rest follows.\<close>

definition is_hole :: "jsval \<Rightarrow> bool" where
  "is_hole v = (v = PLACEHOLDER)"

definition hole_count :: "jsval list \<Rightarrow> nat" where
  "hole_count p = length (filter is_hole p)"

fun fill_holes :: "jsval list \<Rightarrow> jsval list \<Rightarrow> jsval list" where
  "fill_holes [] xs = []"
| "fill_holes (v # p) xs =
     (if is_hole v then (case xs of [] \<Rightarrow> Undefined | x # _ \<Rightarrow> x) # fill_holes p (tl xs) else v # fill_holes p xs)"

definition fill_args :: "jsval list \<Rightarrow> jsval list \<Rightarrow> jsval list" where
  "fill_args p xs = fill_holes p xs @ drop (hole_count p) xs"

definition hole_positions :: "jsval list \<Rightarrow> nat list" where
  "hole_positions p = filter (\<lambda>j. is_hole (p ! j)) [0..<length p]"

text \<open>The arguments of a partial application with its placeholders normalised.\<close>

definition mark_holes :: "jsval \<Rightarrow> jsval list \<Rightarrow> jsval list" where
  "mark_holes placeholder p = map (\<lambda>v. if strict_eq v placeholder then PLACEHOLDER else v) p"

text \<open>Calling a wrapper with one group of arguments after the other.\<close>

fun feed :: "jsval \<Rightarrow> wrapper \<Rightarrow> jsval \<Rightarrow> jsval list list \<Rightarrow> outcome" where
  "feed placeholder w this [] = Wrapped w"
| "feed placeholder w this (g # gs) =
     (case call_wrapper placeholder w this g of
        Invoke t args \<Rightarrow> Invoke t args
      | Wrapped w' \<Rightarrow> feed placeholder w' this gs)"

definition no_holes :: "jsval \<Rightarrow> jsval list \<Rightarrow> bool" where
  "no_holes placeholder args = (\<forall>v\<in>set args. \<not> strict_eq v placeholder \<and> \<not> is_hole v)"

text \<open>Calling a counted function repeatedly.\<close>

fun before_calls :: "('a \<Rightarrow> 'r) \<Rightarrow> 'a list \<Rightarrow> 'r before_state \<Rightarrow> 'r option option list" where
  "before_calls func [] s = []"
| "before_calls func (args # calls) s =
     (case before_call func args s of (r, s') \<Rightarrow> r # before_calls func calls s')"

subsection \<open>Partial application\<close>

text \<open>The metadata that \<open>partial\<close> records for a plain function.\<close>

definition partial_data :: "jsval list \<Rightarrow> nat \<Rightarrow> wrap_data" where
  "partial_data p n =
     \<lparr>w_inner = False, w_bitmask = (if p = [] then 0 else PARTIAL_FLAG), w_thisArg = Undefined,
      w_partials = (if p = [] then None else Some p), w_holders = (if p = [] then None else Some (hole_positions p)),
      w_partialsRight = None, w_holdersRight = None, w_argPos = None, w_ary = None, w_arity = Some (int n)\<rparr>"

definition partial_wrapper :: "jsval list \<Rightarrow> wrap_data \<Rightarrow> wrapper" where
  "partial_wrapper p d =
     (if p = [] then BindW 0 Undefined else if hole_positions p = [] then PartialW PARTIAL_FLAG Undefined p else HybridW d)"

subsection \<open>Currying\<close>

definition curry_data :: "jsval list \<Rightarrow> int \<Rightarrow> wrap_data" where
  "curry_data p k =
     \<lparr>w_inner = False, w_bitmask = CURRY_FLAG OR PARTIAL_FLAG, w_thisArg = Undefined, w_partials = Some p,
      w_holders = Some [], w_partialsRight = None, w_holdersRight = None, w_argPos = None, w_ary = None, w_arity = Some k\<rparr>"

section \<open>Lemmas\<close>

lemmas flag_defs = BIND_FLAG_def BIND_KEY_FLAG_def CURRY_BOUND_FLAG_def CURRY_FLAG_def CURRY_RIGHT_FLAG_def
  PARTIAL_FLAG_def PARTIAL_RIGHT_FLAG_def ARY_FLAG_def REARG_FLAG_def FLIP_FLAG_def has_flag_def

subsection \<open>Placeholders\<close>

lemma strict_eq_PLACEHOLDER [simp]: "strict_eq v PLACEHOLDER \<longleftrightarrow> is_hole v"
  by (cases v) (auto simp: is_hole_def PLACEHOLDER_def)

lemma replace_holders_loop_spec:
  "replace_holders_loop array ph index res =
     (res @ filter (\<lambda>j. strict_eq (array ! j) ph \<or> is_hole (array ! j)) [index..<length array],
      take index array @ map (\<lambda>v. if strict_eq v ph then PLACEHOLDER else v) (drop index array))"
proof (induction array ph index res rule: replace_holders_loop.induct)
  case (1 array ph index res)
  show ?case
  proof (cases "index < length array")
    case True
    let ?a = "array[index := PLACEHOLDER]"
    have f: "filter (\<lambda>j. strict_eq (?a ! j) ph \<or> is_hole (?a ! j)) [Suc index..<length ?a] =
        filter (\<lambda>j. strict_eq (array ! j) ph \<or> is_hole (array ! j)) [Suc index..<length array]"
      by (auto intro!: filter_cong)
    have t: "take (Suc index) ?a = take index array @ [PLACEHOLDER]" "drop (Suc index) ?a = drop (Suc index) array"
      using True by (simp_all add: take_Suc_conv_app_nth)
    have d: "drop index array = array ! index # drop (Suc index) array" using True by (rule Cons_nth_drop_Suc [symmetric])
    have u: "[index..<length array] = index # [Suc index..<length array]" using True by (rule upt_conv_Cons)
    show ?thesis
      using 1 True f t
      by (subst replace_holders_loop.simps) (auto simp: d u Let_def take_Suc_conv_app_nth is_hole_def)
  next
    case False
    then show ?thesis by (subst replace_holders_loop.simps) simp
  qed
qed

lemma replaceHolders_spec:
  "replaceHolders p ph = (hole_positions (mark_holes ph p), mark_holes ph p)"
proof -
  have "filter (\<lambda>j. strict_eq (p ! j) ph \<or> is_hole (p ! j)) [0..<length p] = hole_positions (mark_holes ph p)"
    by (auto simp: hole_positions_def mark_holes_def is_hole_def intro!: filter_cong split: if_splits)
  then show ?thesis by (simp add: replaceHolders_def replace_holders_loop_spec mark_holes_def)
qed

lemma mark_holes_id [simp]: "mark_holes PLACEHOLDER p = p"
  by (simp add: mark_holes_def is_hole_def map_idI)

lemma count_holders_loop_spec:
  "n \<le> length a \<Longrightarrow> count_holders_loop a ph n r = r + length (filter (\<lambda>v. strict_eq v ph) (take n a))"
  by (induction n arbitrary: r) (auto simp: take_Suc_conv_app_nth)

lemma no_holes_simps:
  assumes "no_holes ph args"
  shows "countHolders args ph = 0" "replaceHolders args ph = ([], args)"
proof -
  have m: "mark_holes ph args = args" using assms by (auto simp: no_holes_def mark_holes_def intro!: map_idI)
  show "countHolders args ph = 0" using assms by (simp add: countHolders_def count_holders_loop_spec no_holes_def)
  show "replaceHolders args ph = ([], args)"
    using assms by (auto simp: replaceHolders_spec m hole_positions_def no_holes_def filter_empty_conv)
qed

lemma arr_get_tl: "arr_get (tl xs) n = arr_get xs (Suc n)"
  by (cases xs) (auto simp: arr_get_def)

lemma arr_get_0: "arr_get xs 0 = (case xs of [] \<Rightarrow> Undefined | x # _ \<Rightarrow> x)"
  by (cases xs) (auto simp: arr_get_def)

lemma fill_holes_snoc:
  "fill_holes (p @ [v]) xs = fill_holes p xs @ [if is_hole v then arr_get xs (hole_count p) else v]"
  by (induction p arbitrary: xs) (auto simp: hole_count_def arr_get_tl arr_get_0)

lemma fill_holders_append:
  "fill_holders args u k (hs @ hs') r = fill_holders args u (k + length hs) hs' (fill_holders args u k hs r)"
  by (induction hs arbitrary: k r) auto

lemma fill_holders_snoc:
  "\<forall>j\<in>set hs. j < length r \<Longrightarrow> fill_holders args u k hs (r @ [v]) = fill_holders args u k hs r @ [v]"
  by (induction hs arbitrary: k r) (auto simp: list_update_append)

lemma length_fill_holders [simp]: "length (fill_holders args u k hs r) = length r"
  by (induction hs arbitrary: k r) auto

lemma hole_positions_snoc:
  "hole_positions (p @ [v]) = hole_positions p @ (if is_hole v then [length p] else [])"
proof -
  have "filter (\<lambda>j. is_hole ((p @ [v]) ! j)) [0..<length p] = filter (\<lambda>j. is_hole (p ! j)) [0..<length p]"
    by (auto simp: nth_append intro!: filter_cong)
  then show ?thesis by (simp add: hole_positions_def)
qed

lemma length_hole_positions: "length (hole_positions p) = hole_count p"
  by (induction p rule: rev_induct) (simp_all add: hole_positions_snoc hole_count_def, simp add: hole_positions_def)

lemma fill_holders_holes: "fill_holders args True 0 (hole_positions p) p = fill_holes p args"
proof (induction p rule: rev_induct)
  case Nil
  then show ?case by (simp add: hole_positions_def)
next
  case (snoc v p)
  have "\<forall>j\<in>set (hole_positions p). j < length p" by (simp add: hole_positions_def)
  then have "fill_holders args True 0 (hole_positions p) (p @ [v]) = fill_holes p args @ [v]"
    using snoc by (simp add: fill_holders_snoc)
  moreover have "length (fill_holes p args) = length p" using snoc length_fill_holders by metis
  ultimately show ?case
    by (simp add: hole_positions_snoc fill_holders_append fill_holes_snoc length_hole_positions)
      (metis list_update_length)
qed

lemma map_nth_all [simp]: "map (\<lambda>i. xs ! i) [0..<length xs] = xs"
  by (rule map_nth)

lemma composeArgs_fill: "composeArgs args p (hole_positions p) False = fill_args p args"
proof -
  have "map (\<lambda>j. arr_get args (hole_count p + j)) [0..<length args - hole_count p] = drop (hole_count p) args"
    by (auto intro!: nth_equalityI simp: arr_get_def)
  then show ?thesis
    by (simp add: composeArgs_def Let_def fill_holders_holes fill_args_def length_hole_positions)
qed

lemma composeArgs_no_holders: "composeArgs args p [] c = p @ args"
proof -
  have "map (arr_get args) [0..<length args] = args" by (auto intro!: nth_equalityI simp: arr_get_def)
  then show ?thesis by (simp add: composeArgs_def Let_def)
qed

lemma fill_args_Nil [simp]: "fill_args [] xs = xs"
  by (simp add: fill_args_def hole_count_def)

lemma fill_args_Cons:
  "fill_args (v # p) xs = (if is_hole v then (case xs of [] \<Rightarrow> Undefined | x # _ \<Rightarrow> x) # fill_args p (tl xs) else v # fill_args p xs)"
  by (simp add: fill_args_def hole_count_def drop_Suc)

lemma fill_args_no_holes: "hole_count p = 0 \<Longrightarrow> fill_args p xs = p @ xs"
  by (induction p) (auto simp: fill_args_Cons hole_count_def split: if_splits)

lemma fill_args_assoc: "hole_count a \<le> length b \<Longrightarrow> fill_args a (fill_args b xs) = fill_args (fill_args a b) xs"
proof (induction a arbitrary: b xs)
  case (Cons v a)
  show ?case
  proof (cases "is_hole v")
    case True
    with Cons.prems obtain y bs where b: "b = y # bs" by (cases b) (auto simp: hole_count_def)
    have "hole_count a \<le> length bs" using Cons.prems True by (simp add: b hole_count_def)
    from Cons.IH [OF this] True show ?thesis by (simp add: b fill_args_Cons split: list.split)
  next
    case False
    then show ?thesis using Cons by (simp add: fill_args_Cons hole_count_def)
  qed
qed simp

lemma mark_holes_Nil [simp]: "mark_holes ph p = [] \<longleftrightarrow> p = []" "mark_holes ph [] = []"
  by (simp_all add: mark_holes_def)

lemma partial_plain:
  assumes "is_function f" "func_data f = None"
  shows "partial f ph ps = Inr (partial_wrapper (mark_holes ph ps) (partial_data (mark_holes ph ps) (func_length f)),
     partial_data (mark_holes ph ps) (func_length f))"
  using assms
  by (cases "ps = []") (simp_all add: partial_def replaceHolders_spec createWrap_def Let_def new_wrap_data_def select_wrapper_def
      partial_data_def partial_wrapper_def flag_defs)

lemma hybrid_partial_call:
  assumes "w_bitmask d = PARTIAL_FLAG" "w_partials d = Some p" "w_holders d = Some (hole_positions p)"
    "w_partialsRight d = None" "w_argPos d = None" "w_ary d = None"
  shows "createHybrid_call ph d this args = Invoke this (fill_args p args)"
  using assms by (simp add: createHybrid_call_def Let_def flag_defs composeArgs_fill)

lemma partial_wrapper_call:
  assumes "p \<noteq> [] \<Longrightarrow> w_bitmask d = PARTIAL_FLAG \<and> w_partials d = Some p \<and> w_holders d = Some (hole_positions p) \<and>
    w_partialsRight d = None \<and> w_argPos d = None \<and> w_ary d = None"
  shows "call_wrapper ph (partial_wrapper p d) this args = Invoke this (fill_args p args)"
proof (cases "p = [] \<or> hole_positions p = []")
  case True
  then have "hole_count p = 0" by (metis length_hole_positions hole_count_def filter.simps(1) list.size(3))
  then show ?thesis using True
    by (auto simp: partial_wrapper_def createBind_call_def createPartial_call_def flag_defs fill_args_no_holes)
next
  case False
  then show ?thesis using assms by (simp add: partial_wrapper_def hybrid_partial_call)
qed

lemma createWrap_merge:
  assumes "is_function func" "func_data func = Some (d, n)" "w_arity m = Some k"
    and "mergeData (new_wrap_data (if opt_list partials = [] then bitmask AND NOT (PARTIAL_FLAG OR PARTIAL_RIGHT_FLAG) else bitmask)
      thisArg (if opt_list partials = [] then None else partials) (if opt_list partials = [] then None else holders) argPos n_ary arity) d = m"
  shows "\<exists>j. createWrap func bitmask thisArg partials holders argPos n_ary arity =
    Inr (select_wrapper (m\<lparr>w_arity := Some j\<rparr>) j, m\<lparr>w_arity := Some j\<rparr>)"
  by (rule exI [of _ "max (k - (int (length (opt_list partials)) - int (length (opt_list (if opt_list partials = [] then None else holders))))) 0"])
    (simp add: createWrap_def Let_def assms)

lemma partial_of_partial:
  fixes g :: js_func and a ps :: "jsval list" and ph :: jsval
  assumes "is_function g" "func_data g = Some (partial_data a n, n)"
  defines "b \<equiv> mark_holes ph ps"
  defines "c \<equiv> (if a = [] then b else if b = [] then a else fill_args a b)"
  shows "\<exists>d. partial g ph ps = Inr (partial_wrapper c d, d) \<and> w_inner d \<and>
    (c \<noteq> [] \<longrightarrow> w_bitmask d = PARTIAL_FLAG \<and> w_partials d = Some c \<and> w_holders d = Some (hole_positions c) \<and>
     w_partialsRight d = None \<and> w_argPos d = None \<and> w_ary d = None)"
proof -
  have ne: "a \<noteq> [] \<Longrightarrow> fill_args a b \<noteq> []" by (cases a) (auto simp: fill_args_Cons)
  have r: "replaceHolders p PLACEHOLDER = (hole_positions p, p)" for p by (simp add: replaceHolders_spec)
  have b: "b = [] \<longleftrightarrow> ps = []" by (simp add: b_def)
  define d0 where "d0 = new_wrap_data (if ps = [] then 0 else PARTIAL_FLAG) Undefined (if ps = [] then None else Some b)
      (if ps = [] then None else Some (hole_positions b)) None None None"
  have m: "mergeData d0 (partial_data a n) =
      \<lparr>w_inner = True, w_bitmask = (if c = [] then 0 else PARTIAL_FLAG), w_thisArg = Undefined,
       w_partials = (if c = [] then None else Some c), w_holders = (if c = [] then None else Some (hole_positions c)),
       w_partialsRight = None, w_holdersRight = None, w_argPos = None, w_ary = None, w_arity = Some (int n)\<rparr>"
    using ne by (cases "a = []"; cases "ps = []")
      (simp_all add: d0_def new_wrap_data_def mergeData_def can_merge_def merge_partials_def partial_data_def
        flag_defs c_def b composeArgs_fill r)
  have w: "\<exists>k. partial g ph ps = Inr (select_wrapper (mergeData d0 (partial_data a n)\<lparr>w_arity := Some k\<rparr>) k,
      mergeData d0 (partial_data a n)\<lparr>w_arity := Some k\<rparr>)"
  proof -
    have p: "partial g ph ps = createWrap g PARTIAL_FLAG Undefined (Some b) (Some (hole_positions b)) None None None"
      by (simp add: partial_def replaceHolders_spec b_def)
    have e: "new_wrap_data (if opt_list (Some b) = [] then PARTIAL_FLAG AND NOT (PARTIAL_FLAG OR PARTIAL_RIGHT_FLAG) else PARTIAL_FLAG)
        Undefined (if opt_list (Some b) = [] then None else Some b)
        (if opt_list (Some b) = [] then None else Some (hole_positions b)) None None None = d0"
      by (cases "ps = []") (simp_all add: d0_def b flag_defs)
    have k: "w_arity (mergeData d0 (partial_data a n)) = Some (int n)" by (simp add: m)
    show ?thesis unfolding p by (rule createWrap_merge [OF assms(1,2) k, unfolded e, OF arg_cong2 [where f = mergeData, OF e refl]])
  qed
  then obtain k where "partial g ph ps = Inr (select_wrapper (mergeData d0 (partial_data a n)\<lparr>w_arity := Some k\<rparr>) k,
      mergeData d0 (partial_data a n)\<lparr>w_arity := Some k\<rparr>)" by blast
  moreover have "select_wrapper (mergeData d0 (partial_data a n)\<lparr>w_arity := Some k\<rparr>) k =
      partial_wrapper c (mergeData d0 (partial_data a n)\<lparr>w_arity := Some k\<rparr>)"
    unfolding m by (simp add: select_wrapper_def partial_wrapper_def flag_defs)
  ultimately show ?thesis by (simp add: m)
qed

lemma curry_first_call:
  assumes "no_holes ph args"
  shows "call_wrapper ph (CurryW CURRY_FLAG k) this args =
    (if int (length args) < k then Wrapped (HybridW (curry_data args (k - int (length args)))) else Invoke this args)"
  using no_holes_simps(2) [OF assms]
  by (simp add: createCurry_call_def Let_def createRecurry_def curry_data_def flag_defs split: prod.split)

lemma curry_next_call:
  assumes "no_holes ph args" "no_holes ph p"
  shows "call_wrapper ph (HybridW (curry_data p k)) this args =
    (if int (length args) < k then Wrapped (HybridW (curry_data (p @ args) (k - int (length args)))) else Invoke this (p @ args))"
proof -
  have n: "no_holes ph (p @ args)" using assms by (auto simp: no_holes_def)
  show ?thesis
    using no_holes_simps [OF assms(1)] no_holes_simps(2) [OF n]
    by (simp add: createHybrid_call_def Let_def createRecurry_def curry_data_def flag_defs composeArgs_no_holders)
qed

lemma feed_hybrid:
  "no_holes ph p \<Longrightarrow> \<forall>h\<in>set (gs @ [g]). no_holes ph h \<Longrightarrow> int (length (concat gs)) < k \<Longrightarrow>
   k \<le> int (length (concat gs) + length g) \<Longrightarrow>
   feed ph (HybridW (curry_data p k)) this (gs @ [g]) = Invoke this (p @ concat gs @ g)"
proof (induction gs arbitrary: p k)
  case Nil
  then show ?case by (simp add: curry_next_call del: call_wrapper.simps)
next
  case (Cons h gs)
  have n: "no_holes ph (p @ h)" using Cons.prems(1,2) by (auto simp: no_holes_def)
  have "feed ph (HybridW (curry_data (p @ h) (k - int (length h)))) this (gs @ [g]) = Invoke this ((p @ h) @ concat gs @ g)"
    using Cons.prems by (intro Cons.IH n) auto
  then show ?case using Cons.prems by (simp add: curry_next_call del: call_wrapper.simps)
qed

subsection \<open>Counters\<close>

lemma before_calls_done:
  "remaining s \<le> 1 \<Longrightarrow> before_calls func calls s = map (\<lambda>_. Some (before_result s)) calls"
  by (induction calls arbitrary: s) (simp_all add: before_call_def Let_def)

lemma before_calls_counting:
  "has_func s \<Longrightarrow> 1 < remaining s \<Longrightarrow> i < length calls \<Longrightarrow>
   before_calls func calls s ! i = Some (Some (func (calls ! min i (nat (remaining s) - 2))))"
proof (induction calls arbitrary: s i)
  case (Cons a calls)
  let ?s = "\<lparr>remaining = remaining s - 1, before_result = Some (func a), has_func = (has_func s \<and> \<not> remaining s - 1 \<le> 1)\<rparr>"
  have c: "before_calls func (a # calls) s = Some (Some (func a)) # before_calls func calls ?s"
    using Cons.prems(1,2) by (simp add: before_call_def Let_def)
  show ?case
  proof (cases i)
    case 0
    then show ?thesis by (simp only: c) simp
  next
    case (Suc j)
    show ?thesis
    proof (cases "remaining s = 2")
      case True
      then have "before_calls func calls ?s = map (\<lambda>_. Some (Some (func a))) calls"
        using before_calls_done [of ?s func calls] by simp
      then show ?thesis using Suc True Cons.prems(3) by (simp only: c) simp
    next
      case False
      then have "before_calls func calls ?s ! j = Some (Some (func (calls ! min j (nat (remaining ?s) - 2))))"
        using Cons.prems Suc by (intro Cons.IH) auto
      moreover have "(a # calls) ! min (Suc j) (nat (remaining s) - 2) = calls ! min j (nat (remaining ?s) - 2)"
        using False Cons.prems(2) by (auto simp: min_def nth_Cons' nat_diff_distrib numeral_eq_Suc)
      ultimately show ?thesis using Suc by (simp only: c) simp
    qed
  qed
qed simp

section \<open>Properties\<close>

text \<open>
  (C23) A curried function collects its arguments over any number of calls: as long as fewer than
  the arity have been given it returns a function, and the call that completes them calls the
  underlying function with all arguments in order.
\<close>

theorem curry_collects_arguments:
  assumes "is_function f" "func_data f = None" "func_length f = n" "0 < n"
    and "\<forall>g\<in>set (gs @ [g]). no_holes ph g" "length (concat gs) < n" "n \<le> length (concat gs) + length g"
  shows "\<exists>w d. curry_js f None False = Inr (w, d) \<and> feed ph w this (gs @ [g]) = Invoke this (concat gs @ g)"
proof -
  have "curry_js f None False = Inr (CurryW CURRY_FLAG (int n), snd (projr (curry_js f None False)))"
    using assms(1-4) by (simp add: curry_js_def createWrap_def Let_def new_wrap_data_def select_wrapper_def flag_defs)
  moreover have "feed ph (CurryW CURRY_FLAG (int n)) this (gs @ [g]) = Invoke this (concat gs @ g)"
  proof (cases gs)
    case Nil
    then show ?thesis using assms(5-7) by (simp add: curry_first_call del: call_wrapper.simps)
  next
    case (Cons h hs)
    then have "feed ph (HybridW (curry_data h (int n - int (length h)))) this (hs @ [g]) = Invoke this (h @ concat hs @ g)"
      using assms(5-7) by (intro feed_hybrid) auto
    then show ?thesis using Cons assms(5-7) by (simp add: curry_first_call del: call_wrapper.simps)
  qed
  ultimately show ?thesis by metis
qed

theorem curry_collects_arguments_witness:
  "\<exists>w d. curry_js \<lparr>is_function = True, func_length = 3, func_data = None\<rparr> None False = Inr (w, d) \<and>
     feed (Obj FuncTag 0) w Undefined [[Null], [Bool True, Bool False]] = Invoke Undefined [Null, Bool True, Bool False]"
  using curry_collects_arguments [of "\<lparr>is_function = True, func_length = 3, func_data = None\<rparr>" 3
      "[[Null]]" "[Bool True, Bool False]" "Obj FuncTag 0" Undefined]
  by (simp add: no_holes_def is_hole_def PLACEHOLDER_def)

text \<open>
  A partial application fills the placeholders among its arguments from the left and appends
  the rest. Applying \<open>partial\<close> to a partial application merges the metadata of the two; when the
  new arguments suffice for the placeholders of the inner one, the merged function makes the same
  call as nested application.
\<close>

theorem partial_fills_placeholders:
  assumes "is_function f" "func_data f = None" "hole_count (mark_holes ph a) \<le> length b"
  shows "\<exists>w d. partial f ph a = Inr (w, d) \<and>
    call_wrapper ph w this args = Invoke this (fill_args (mark_holes ph a) args) \<and>
    (\<exists>w2 d2. partial \<lparr>is_function = True, func_length = 0, func_data = Some (d, func_length f)\<rparr> ph b = Inr (w2, d2) \<and>
      w_inner d2 \<and> call_wrapper ph w2 this args = Invoke this (fill_args (mark_holes ph a) (fill_args (mark_holes ph b) args)))"
proof -
  let ?a = "mark_holes ph a" and ?b = "mark_holes ph b"
  let ?g = "\<lparr>is_function = True, func_length = 0, func_data = Some (partial_data ?a (func_length f), func_length f)\<rparr>"
  let ?c = "if ?a = [] then ?b else if ?b = [] then ?a else fill_args ?a ?b"
  obtain d2 where d2: "partial ?g ph b = Inr (partial_wrapper ?c d2, d2)" "w_inner d2"
    "?c \<noteq> [] \<Longrightarrow> w_bitmask d2 = PARTIAL_FLAG \<and> w_partials d2 = Some ?c \<and> w_holders d2 = Some (hole_positions ?c) \<and>
     w_partialsRight d2 = None \<and> w_argPos d2 = None \<and> w_ary d2 = None"
    using partial_of_partial [of ?g ?a "func_length f" ph b] by auto
  have "length ?b = length b" by (simp add: mark_holes_def)
  with assms(3) have "fill_args ?a (fill_args ?b args) = fill_args (fill_args ?a ?b) args" by (intro fill_args_assoc) simp
  moreover have "fill_args ?a [] = ?a" if "?b = []"
    using that assms(3) by (simp add: fill_args_no_holes)
  ultimately have "fill_args ?c args = fill_args ?a (fill_args ?b args)" by auto
  then have "call_wrapper ph (partial_wrapper ?c d2) this args = Invoke this (fill_args ?a (fill_args ?b args))"
    using partial_wrapper_call [of ?c d2 ph this args] d2(3) by simp
  moreover have "call_wrapper ph (partial_wrapper ?a (partial_data ?a (func_length f))) this args = Invoke this (fill_args ?a args)"
    by (rule partial_wrapper_call) (simp add: partial_data_def)
  ultimately show ?thesis using partial_plain [OF assms(1,2), of ph a] d2(1,2) by auto
qed

theorem partial_fills_placeholders_witness:
  "\<exists>w d. partial \<lparr>is_function = True, func_length = 2, func_data = None\<rparr> (Obj FuncTag 0) [Obj FuncTag 0, Null] = Inr (w, d) \<and>
     call_wrapper (Obj FuncTag 0) w Undefined [Bool True] = Invoke Undefined [Bool True, Null]"
  using partial_fills_placeholders [of "\<lparr>is_function = True, func_length = 2, func_data = None\<rparr>" "Obj FuncTag 0"
      "[Obj FuncTag 0, Null]" "[Null]" Undefined "[Bool True]"]
  by (auto simp: mark_holes_def hole_count_def is_hole_def PLACEHOLDER_def fill_args_def)

text \<open>
  With fewer new arguments than placeholders the merged metadata loses the placeholders that
  are left: a function bound to two placeholders and then to one argument receives undefined in
  the place of the second, and the next argument after it.
\<close>

theorem partial_merge_drops_placeholder:
  fixes f :: js_func and ph x y this :: jsval
  assumes "is_function f" "func_data f = None" "strict_eq ph ph" "no_holes ph [x, y]"
  shows "\<exists>w d w2 d2. partial f ph [ph, ph] = Inr (w, d) \<and>
    partial \<lparr>is_function = True, func_length = 0, func_data = Some (d, func_length f)\<rparr> ph [x] = Inr (w2, d2) \<and>
    call_wrapper ph w2 this [y] = Invoke this [x, Undefined, y]"
proof -
  let ?a = "mark_holes ph [ph, ph]" and ?b = "mark_holes ph [x]"
  have a: "?a = [PLACEHOLDER, PLACEHOLDER]" using assms(3) by (simp add: mark_holes_def)
  have b: "?b = [x]" using assms(4) by (simp add: mark_holes_def no_holes_def)
  let ?g = "\<lparr>is_function = True, func_length = 0, func_data = Some (partial_data ?a (func_length f), func_length f)\<rparr>"
  have c: "fill_args [PLACEHOLDER, PLACEHOLDER] [x] = [x, Undefined]"
    by (simp add: fill_args_def hole_count_def is_hole_def)
  obtain d2 where d2: "partial ?g ph [x] = Inr (partial_wrapper [x, Undefined] d2, d2)"
    "w_bitmask d2 = PARTIAL_FLAG \<and> w_partials d2 = Some [x, Undefined] \<and> w_holders d2 = Some (hole_positions [x, Undefined]) \<and>
     w_partialsRight d2 = None \<and> w_argPos d2 = None \<and> w_ary d2 = None"
    using partial_of_partial [of ?g ?a "func_length f" ph "[x]"] by (auto simp: c a b)
  have "hole_count [x, Undefined] = 0" using assms(4) by (simp add: hole_count_def no_holes_def is_hole_def PLACEHOLDER_def)
  then have "call_wrapper ph (partial_wrapper [x, Undefined] d2) this [y] = Invoke this [x, Undefined, y]"
    using partial_wrapper_call [of "[x, Undefined]" d2 ph this "[y]"] d2(2) by (simp add: fill_args_no_holes)
  then show ?thesis using partial_plain [OF assms(1,2), of ph "[ph, ph]"] d2(1) by auto
qed

theorem partial_merge_drops_placeholder_witness:
  "\<exists>w d w2 d2. partial \<lparr>is_function = True, func_length = 2, func_data = None\<rparr> (Obj FuncTag 0) [Obj FuncTag 0, Obj FuncTag 0] = Inr (w, d) \<and>
    partial \<lparr>is_function = True, func_length = 0, func_data = Some (d, 2)\<rparr> (Obj FuncTag 0) [Null] = Inr (w2, d2) \<and>
    call_wrapper (Obj FuncTag 0) w2 Undefined [Bool True] = Invoke Undefined [Null, Undefined, Bool True]"
  using partial_merge_drops_placeholder [of "\<lparr>is_function = True, func_length = 2, func_data = None\<rparr>" "Obj FuncTag 0" Null "Bool True" Undefined]
  by (simp add: no_holes_def is_hole_def PLACEHOLDER_def)

text \<open>
  \<open>before(n)\<close> calls the function on the first \<open>n - 1\<close> calls only and afterwards repeats the
  last result; \<open>once\<close> always returns the first result.
\<close>

theorem before_once_results:
  fixes func :: "'a \<Rightarrow> 'r" and n :: jsnum
  assumes "before True n = Inr s" "1 < num_int (toInteger n)" "once True = Inr s1" "i < length calls"
  shows "before_calls func calls s ! i = Some (Some (func (calls ! min i (nat (num_int (toInteger n)) - 2)))) \<and>
    before_calls func calls s1 ! i = Some (Some (func (calls ! 0)))"
proof -
  have s: "has_func s" "remaining s = num_int (toInteger n)" using assms(1) by (auto simp: before_def)
  have "num_int (toInteger (Fin 2)) = 2" by (simp add: toInteger_Fin rat_trunc_def)
  then have s1: "has_func s1" "remaining s1 = 2" using assms(3) by (auto simp: once_def before_def)
  show ?thesis
    using before_calls_counting [OF s(1) _ assms(4), of func] before_calls_counting [OF s1(1) _ assms(4), of func] s(2) s1(2) assms(2)
    by simp
qed

theorem before_once_results_witness:
  "before_calls (\<lambda>n :: nat. n) [4, 5] \<lparr>remaining = 2, before_result = None, has_func = True\<rparr> ! 1 = Some (Some 4)"
proof -
  let ?s = "\<lparr>remaining = 2, before_result = None, has_func = True\<rparr> :: nat before_state"
  have i: "num_int (toInteger (Fin 2)) = 2" by (simp add: toInteger_Fin rat_trunc_def)
  have b: "before True (Fin 2) = Inr ?s" "once True = Inr ?s" by (simp_all add: before_def once_def i)
  have "before_calls (\<lambda>n :: nat. n) [4, 5] ?s ! 1 = Some (Some ([4, 5] ! 0))"
    using before_once_results [OF b(1) _ b(2), of 1 "[4, 5]" "\<lambda>n. n"] i by simp
  then show ?thesis by simp
qed

end
