(* ===== verification/JsLazy.thy ===== *)
theory JsLazy
  imports JsFunctions
begin

text \<open>
  Chained calls on wrappers in lodash.js, with the lazy evaluation of arrays: a LazyWrapper collects the
  views (drop, take), the iteratees (filter, map, takeWhile) and a limit on the number of results, and
  runs them in one loop when the value is asked for. Beside them it keeps the eager calls as actions,
  which are used instead on arrays that are short or not restricted. The wrapped values are arrays and the iteratees take one argument,
  the case in which the code goes the lazy way.
\<close>

section \<open>Wrappers\<close>

datatype 'a lazy_iteratee = FilterI "'a \<Rightarrow> bool" | MapI "'a \<Rightarrow> 'a" | WhileI "'a \<Rightarrow> bool"

datatype view_type = DropV | DropRightV | TakeV | TakeRightV

record 'a lazy_data =
  actions :: "('a list \<Rightarrow> 'a list) list"
  dir :: int
  filtered :: bool
  iteratees :: "'a lazy_iteratee list"
  takeCount :: int
  views :: "(view_type \<times> int) list"

datatype 'a wrapped =
    ArrayV "'a list"
  | LodashWrapper "'a wrapped" "('a list \<Rightarrow> 'a list) list"
  | LazyWrapper "'a wrapped" "'a lazy_data"

definition lazy_init :: "'a lazy_data" where
  "lazy_init = \<lparr>actions = [], dir = 1, filtered = False, iteratees = [], takeCount = MAX_ARRAY_LENGTH, views = []\<rparr>"

section \<open>Values\<close>

fun view_step :: "view_type \<times> int \<Rightarrow> int \<times> int \<Rightarrow> int \<times> int" where
  "view_step (DropV, n) (start, stop) = (start + n, stop)"
| "view_step (DropRightV, n) (start, stop) = (start, stop - n)"
| "view_step (TakeV, n) (start, stop) = (start, min stop (start + n))"
| "view_step (TakeRightV, n) (start, stop) = (max start (stop - n), stop)"

definition getView :: "int \<Rightarrow> int \<Rightarrow> (view_type \<times> int) list \<Rightarrow> int \<times> int" where
  "getView start stop transforms = fold view_step transforms (start, stop)"

text \<open>What the inner loop makes of an element: a result, a jump to the next element, or the end.\<close>

datatype 'a outcome = Keep 'a | Skip | Stop

fun apply_iteratees :: "'a lazy_iteratee list \<Rightarrow> 'a \<Rightarrow> 'a outcome" where
  "apply_iteratees [] v = Keep v"
| "apply_iteratees (FilterI p # its) v = (if p v then apply_iteratees its v else Skip)"
| "apply_iteratees (MapI f # its) v = apply_iteratees its (f v)"
| "apply_iteratees (WhileI p # its) v = (if p v then apply_iteratees its v else Stop)"

fun lazy_loop :: "'a list \<Rightarrow> 'a lazy_iteratee list \<Rightarrow> int \<Rightarrow> int \<Rightarrow> nat \<Rightarrow> int \<Rightarrow> 'a list \<Rightarrow> 'a list" where
  "lazy_loop array its d limit 0 index res = res"
| "lazy_loop array its d limit (Suc len) index res =
     (if int (length res) < limit
      then (let index1 = index + d
            in case apply_iteratees its (array ! nat index1) of
                 Keep v \<Rightarrow> lazy_loop array its d limit len index1 (res @ [v])
               | Skip \<Rightarrow> lazy_loop array its d limit len index1 res
               | Stop \<Rightarrow> res)
      else res)"

definition run_actions :: "('a list \<Rightarrow> 'a list) list \<Rightarrow> 'a list \<Rightarrow> 'a list" where
  "run_actions acts array = fold (\<lambda>f r. f r) acts array"

definition lazyValue :: "'a lazy_data \<Rightarrow> 'a list \<Rightarrow> 'a list" where
  "lazyValue d array =
     (let arrLength = int (length array);
          (start, stop) = getView 0 arrLength (views d);
          len = stop - start;
          index = (if dir d < 0 then stop else start - 1);
          limit = min len (takeCount d)
      in if arrLength < int LARGE_ARRAY_SIZE \<or> (arrLength = len \<and> limit = len)
         then run_actions (actions d) array
         else lazy_loop array (iteratees d) (dir d) limit (nat len) index [])"

fun wrapper_value :: "'a wrapped \<Rightarrow> 'a list" where
  "wrapper_value (ArrayV xs) = xs"
| "wrapper_value (LodashWrapper w acts) = run_actions acts (wrapper_value w)"
| "wrapper_value (LazyWrapper w d) = lazyValue d (wrapper_value w)"

section \<open>Lazy methods\<close>

fun map_lazy :: "('a lazy_data \<Rightarrow> 'a lazy_data) \<Rightarrow> 'a wrapped \<Rightarrow> 'a wrapped" where
  "map_lazy f (LazyWrapper w d) = LazyWrapper w (f d)"
| "map_lazy f w = w"

fun is_filtered :: "'a wrapped \<Rightarrow> bool" where
  "is_filtered (LazyWrapper w d) = filtered d"
| "is_filtered w = False"

definition lazyReverse :: "'a wrapped \<Rightarrow> 'a wrapped" where
  "lazyReverse lw =
     (if is_filtered lw then LazyWrapper lw (lazy_init\<lparr>dir := -1, filtered := True\<rparr>)
      else map_lazy (\<lambda>d. d\<lparr>dir := - dir d\<rparr>) lw)"

definition lazy_count :: "jsnum option \<Rightarrow> int" where
  "lazy_count n = (case n of None \<Rightarrow> 1 | Some m \<Rightarrow> max (num_int (toInteger m)) 0)"

definition lazy_drop :: "jsnum option \<Rightarrow> 'a wrapped \<Rightarrow> 'a wrapped" where
  "lazy_drop n lw =
     (if is_filtered lw then LazyWrapper lw lazy_init
      else map_lazy (\<lambda>d. d\<lparr>views := views d @ [(if dir d < 0 then DropRightV else DropV, min (lazy_count n) MAX_ARRAY_LENGTH)]\<rparr>) lw)"

definition lazy_take :: "jsnum option \<Rightarrow> 'a wrapped \<Rightarrow> 'a wrapped" where
  "lazy_take n lw =
     map_lazy (\<lambda>d. if filtered d then d\<lparr>takeCount := min (lazy_count n) (takeCount d)\<rparr>
                  else d\<lparr>views := views d @ [(if dir d < 0 then TakeRightV else TakeV, min (lazy_count n) MAX_ARRAY_LENGTH)]\<rparr>) lw"

definition lazy_dropRight :: "jsnum option \<Rightarrow> 'a wrapped \<Rightarrow> 'a wrapped" where
  "lazy_dropRight n lw = lazyReverse (lazy_drop n (lazyReverse lw))"

definition lazy_takeRight :: "jsnum option \<Rightarrow> 'a wrapped \<Rightarrow> 'a wrapped" where
  "lazy_takeRight n lw = lazyReverse (lazy_take n (lazyReverse lw))"

definition lazy_filter :: "('a \<Rightarrow> bool) \<Rightarrow> 'a wrapped \<Rightarrow> 'a wrapped" where
  "lazy_filter p lw = map_lazy (\<lambda>d. d\<lparr>iteratees := iteratees d @ [FilterI p], filtered := True\<rparr>) lw"

definition lazy_map :: "('a \<Rightarrow> 'a) \<Rightarrow> 'a wrapped \<Rightarrow> 'a wrapped" where
  "lazy_map f lw = map_lazy (\<lambda>d. d\<lparr>iteratees := iteratees d @ [MapI f]\<rparr>) lw"

definition lazy_takeWhile :: "('a \<Rightarrow> bool) \<Rightarrow> 'a wrapped \<Rightarrow> 'a wrapped" where
  "lazy_takeWhile p lw = map_lazy (\<lambda>d. d\<lparr>iteratees := iteratees d @ [WhileI p], filtered := True\<rparr>) lw"

definition lazy_initial :: "'a wrapped \<Rightarrow> 'a wrapped" where
  "lazy_initial lw = (if is_filtered lw then LazyWrapper lw lazy_init else lazy_dropRight (Some (Fin 1)) lw)"

definition lazy_tail :: "'a wrapped \<Rightarrow> 'a wrapped" where
  "lazy_tail lw = (if is_filtered lw then LazyWrapper lw lazy_init else lazy_drop (Some (Fin 1)) lw)"

definition lazy_reject :: "('a \<Rightarrow> bool) \<Rightarrow> 'a wrapped \<Rightarrow> 'a wrapped" where
  "lazy_reject p lw = lazy_filter (\<lambda>v. \<not> p v) lw"

definition lazy_takeRightWhile :: "('a \<Rightarrow> bool) \<Rightarrow> 'a wrapped \<Rightarrow> 'a wrapped" where
  "lazy_takeRightWhile p lw = lazyReverse (lazy_takeWhile p (lazyReverse lw))"

definition lazy_toArray :: "'a wrapped \<Rightarrow> 'a wrapped" where
  "lazy_toArray lw = lazy_take (Some (num_of_int MAX_ARRAY_LENGTH)) lw"

text \<open>\<open>stop\<close> is None where the argument is left out; it is compared with 0 before its conversion.\<close>

definition lazy_slice :: "jsnum option \<Rightarrow> jsnum option \<Rightarrow> 'a wrapped \<Rightarrow> 'a wrapped" where
  "lazy_slice start stop lw =
     (let s = int_arg start
      in if is_filtered lw \<and> (s > 0 \<or> (case stop of None \<Rightarrow> False | Some e \<Rightarrow> num_less e (Fin 0)))
         then LazyWrapper lw lazy_init
         else (let l1 = (if s < 0 then lazy_takeRight (Some (num_of_int (- s))) lw
                         else if s \<noteq> 0 then lazy_drop (Some (num_of_int s)) lw else lw)
               in case stop of
                    None \<Rightarrow> l1
                  | Some e0 \<Rightarrow>
                      (let e = num_int (toInteger e0)
                       in if e < 0 then lazy_dropRight (Some (num_of_int (- e))) l1
                          else lazy_take (Some (num_of_int (e - s))) l1)))"

section \<open>Chained calls\<close>

datatype 'a chain_call =
    CMap "'a \<Rightarrow> 'a" | CFilter "'a \<Rightarrow> bool" | CReject "'a \<Rightarrow> bool" | CTakeWhile "'a \<Rightarrow> bool" | CTakeRightWhile "'a \<Rightarrow> bool"
  | CTake "jsnum option" | CTakeRight "jsnum option" | CDrop "jsnum option" | CDropRight "jsnum option"
  | CInitial | CTail | CSlice "jsnum option" "jsnum option" | CReverse

text \<open>The method of \<open>LazyWrapper.prototype\<close> and the function of the same name on arrays.\<close>

fun lazy_method :: "'a chain_call \<Rightarrow> 'a wrapped \<Rightarrow> 'a wrapped" where
  "lazy_method (CMap f) = lazy_map f"
| "lazy_method (CFilter p) = lazy_filter p"
| "lazy_method (CReject p) = lazy_reject p"
| "lazy_method (CTakeWhile p) = lazy_takeWhile p"
| "lazy_method (CTakeRightWhile p) = lazy_takeRightWhile p"
| "lazy_method (CTake n) = lazy_take n"
| "lazy_method (CTakeRight n) = lazy_takeRight n"
| "lazy_method (CDrop n) = lazy_drop n"
| "lazy_method (CDropRight n) = lazy_dropRight n"
| "lazy_method CInitial = lazy_initial"
| "lazy_method CTail = lazy_tail"
| "lazy_method (CSlice s e) = lazy_slice s e"
| "lazy_method CReverse = lazyReverse"

fun eager_call :: "'a chain_call \<Rightarrow> 'a list \<Rightarrow> 'a list" where
  "eager_call (CMap f) xs = arrayMap (Some xs) (\<lambda>v _ _. f v)"
| "eager_call (CFilter p) xs = arrayFilter (Some xs) (\<lambda>v _ _. p v)"
| "eager_call (CReject p) xs = arrayFilter (Some xs) (\<lambda>v _ _. \<not> p v)"
| "eager_call (CTakeWhile p) xs = takeWhile_js (Some xs) (\<lambda>v _ _. p v)"
| "eager_call (CTakeRightWhile p) xs = takeRightWhile (Some xs) (\<lambda>v _ _. p v)"
| "eager_call (CTake n) xs = take_js (Some xs) n False"
| "eager_call (CTakeRight n) xs = takeRight (Some xs) n False"
| "eager_call (CDrop n) xs = drop_js (Some xs) n False"
| "eager_call (CDropRight n) xs = dropRight (Some xs) n False"
| "eager_call CInitial xs = initial (Some xs)"
| "eager_call CTail xs = tail (Some xs)"
| "eager_call (CSlice s e) xs = slice (Some xs) s e False"
| "eager_call CReverse xs = rev xs"

definition push_action :: "('a list \<Rightarrow> 'a list) \<Rightarrow> 'a wrapped \<Rightarrow> 'a wrapped" where
  "push_action f lw = map_lazy (\<lambda>d. d\<lparr>actions := actions d @ [f]\<rparr>) lw"

fun is_lazy :: "'a wrapped \<Rightarrow> bool" where
  "is_lazy (LazyWrapper w d) = True"
| "is_lazy w = False"

definition wrapperReverse :: "'a wrapped \<Rightarrow> ('a list \<Rightarrow> 'a list) list \<Rightarrow> 'a wrapped" where
  "wrapperReverse w acts =
     (if is_lazy w
      then LodashWrapper (push_action rev (lazyReverse (if acts \<noteq> [] then LazyWrapper (LodashWrapper w acts) lazy_init else w))) []
      else LodashWrapper w (acts @ [rev]))"

fun is_reverse :: "'a chain_call \<Rightarrow> bool" where
  "is_reverse CReverse = True"
| "is_reverse c = False"

text \<open>A method of the \<open>lodash\<close> wrapper: the lazy method on the lazy value, and the eager call as an action.\<close>

fun chain_method :: "'a chain_call \<Rightarrow> 'a wrapped \<Rightarrow> 'a wrapped" where
  "chain_method c (LodashWrapper w acts) =
     (if is_reverse c then wrapperReverse w acts
      else (let v = (if is_lazy w \<and> acts = [] then w else LazyWrapper (LodashWrapper w acts) lazy_init)
            in LodashWrapper (push_action (eager_call c) (lazy_method c v)) []))"
| "chain_method c w = w"

definition chain_value :: "'a list \<Rightarrow> 'a chain_call list \<Rightarrow> 'a list" where
  "chain_value xs calls = wrapper_value (fold chain_method calls (LodashWrapper (ArrayV xs) []))"

section \<open>Specifications\<close>

text \<open>The iteratees as functions on whole lists.\<close>

fun run_iteratees :: "'a lazy_iteratee list \<Rightarrow> 'a list \<Rightarrow> 'a list" where
  "run_iteratees [] xs = xs"
| "run_iteratees (FilterI p # its) xs = run_iteratees its (filter p xs)"
| "run_iteratees (MapI f # its) xs = run_iteratees its (map f xs)"
| "run_iteratees (WhileI p # its) xs = run_iteratees its (takeWhile p xs)"

text \<open>Lists that fit in an array.\<close>

definition small :: "'a list \<Rightarrow> bool" where
  "small xs = (length xs < 2 ^ 32)"

text \<open>A segment of a list given by integer bounds.\<close>

definition segment :: "int \<Rightarrow> int \<Rightarrow> 'a list \<Rightarrow> 'a list" where
  "segment start stop xs = take (nat (stop - start)) (drop (nat start) xs)"

text \<open>The part of an array in the view, in the direction of the evaluation, and the result of the loop on it.\<close>

definition view_part :: "'a lazy_data \<Rightarrow> 'a list \<Rightarrow> 'a list" where
  "view_part d xs =
     (case getView 0 (int (length xs)) (views d) of (start, stop) \<Rightarrow>
        let part = segment start stop xs in if dir d < 0 then rev part else part)"

definition lazy_result :: "'a lazy_data \<Rightarrow> 'a list \<Rightarrow> 'a list" where
  "lazy_result d xs = take (nat (takeCount d)) (run_iteratees (iteratees d) (view_part d xs))"

text \<open>
  The chains on which lazy evaluation is faithful: views, maps and reversals first; then filters, maps and
  takeWhile; then, after a take, no filter any more. A slice may not start from the end and end from the
  beginning.
\<close>

definition slice_ok :: "jsnum option \<Rightarrow> jsnum option \<Rightarrow> bool" where
  "slice_ok s e = (0 \<le> int_arg s \<or> (case e of None \<Rightarrow> True | Some e0 \<Rightarrow> num_int (toInteger e0) < 0))"

datatype phase = Unfiltered | Filtered | Taken

fun next_phase :: "phase \<Rightarrow> 'a chain_call \<Rightarrow> phase option" where
  "next_phase Unfiltered c =
     (case c of
        CFilter p \<Rightarrow> Some Filtered | CReject p \<Rightarrow> Some Filtered | CTakeWhile p \<Rightarrow> Some Filtered
      | CTakeRightWhile p \<Rightarrow> None | CSlice s e \<Rightarrow> if slice_ok s e then Some Unfiltered else None | _ \<Rightarrow> Some Unfiltered)"
| "next_phase Filtered c =
     (case c of
        CFilter p \<Rightarrow> Some Filtered | CReject p \<Rightarrow> Some Filtered | CTakeWhile p \<Rightarrow> Some Filtered
      | CMap f \<Rightarrow> Some Filtered | CTake n \<Rightarrow> Some Taken | _ \<Rightarrow> None)"
| "next_phase Taken c =
     (case c of CMap f \<Rightarrow> Some Taken | CTakeWhile p \<Rightarrow> Some Taken | CTake n \<Rightarrow> Some Taken | _ \<Rightarrow> None)"

fun faithful :: "phase \<Rightarrow> 'a chain_call list \<Rightarrow> bool" where
  "faithful ph [] = True"
| "faithful ph (c # cs) = (case next_phase ph c of None \<Rightarrow> False | Some ph1 \<Rightarrow> faithful ph1 cs)"

fun lazy_phase :: "phase \<Rightarrow> 'a lazy_data \<Rightarrow> bool" where
  "lazy_phase Unfiltered d =
     (\<not> filtered d \<and> takeCount d = MAX_ARRAY_LENGTH \<and> list_all (\<lambda>i. case i of MapI f \<Rightarrow> True | _ \<Rightarrow> False) (iteratees d))"
| "lazy_phase Filtered d = (filtered d \<and> takeCount d = MAX_ARRAY_LENGTH)"
| "lazy_phase Taken d = filtered d"

definition data_ok :: "'a lazy_data \<Rightarrow> bool" where
  "data_ok d = ((dir d = 1 \<or> dir d = -1) \<and> list_all (\<lambda>(t, n). 0 \<le> n) (views d) \<and> 0 \<le> takeCount d)"

text \<open>A lazy method is sound if the result of the loop changes as by the eager call.\<close>

definition sound_step :: "'a chain_call \<Rightarrow> 'a lazy_data \<Rightarrow> 'a lazy_data \<Rightarrow> bool" where
  "sound_step c d d1 \<longleftrightarrow> data_ok d1 \<and> actions d1 = actions d \<and>
     (\<forall>xs. small xs \<longrightarrow> lazy_result d1 xs = eager_call c (lazy_result d xs))"

text \<open>A lazy method called on a wrapper gives a wrapper of the same array, by a sound step into a phase.\<close>

definition reaches :: "'a chain_call \<Rightarrow> 'a wrapped \<Rightarrow> 'a lazy_data \<Rightarrow> phase \<Rightarrow> 'a wrapped \<Rightarrow> bool" where
  "reaches c w d ph lw \<longleftrightarrow> (\<exists>d1. lw = LazyWrapper w d1 \<and> sound_step c d d1 \<and> lazy_phase ph d1)"

text \<open>A wrapper within a faithful chain: its value is \<open>ys\<close>, by the actions and by the loop.\<close>

definition lazy_ok :: "phase \<Rightarrow> 'a list \<Rightarrow> 'a wrapped \<Rightarrow> 'a lazy_data \<Rightarrow> bool" where
  "lazy_ok ph ys w d \<longleftrightarrow> data_ok d \<and> lazy_phase ph d \<and> small (wrapper_value w) \<and>
     run_actions (actions d) (wrapper_value w) = ys \<and> lazy_result d (wrapper_value w) = ys"

definition chain_inv :: "phase \<Rightarrow> 'a list \<Rightarrow> 'a wrapped \<Rightarrow> bool" where
  "chain_inv ph ys lw \<longleftrightarrow> small ys \<and>
     ((\<exists>w acts. lw = LodashWrapper w acts \<and> (is_lazy w \<longrightarrow> acts \<noteq> []) \<and> ph = Unfiltered \<and> run_actions acts (wrapper_value w) = ys) \<or>
      (\<exists>w d. lw = LodashWrapper (LazyWrapper w d) [] \<and> lazy_ok ph ys w d))"

text \<open>A wrapper with one more view.\<close>

definition add_view :: "view_type \<Rightarrow> jsnum option \<Rightarrow> 'a lazy_data \<Rightarrow> 'a lazy_data" where
  "add_view t n d = d\<lparr>views := views d @ [(t, min (lazy_count n) MAX_ARRAY_LENGTH)]\<rparr>"

section \<open>Lemmas\<close>

lemma lazy_count_nat: "lazy_count n = int (count_arg n False)"
  by (cases n) (auto simp: lazy_count_def count_arg_def int_arg_def)

subsection \<open>The loop\<close>

lemma run_iteratees_Nil [simp]: "run_iteratees its [] = []"
  by (induction its "[] :: 'a list" rule: run_iteratees.induct) auto

lemma run_iteratees_Cons:
  "run_iteratees its (x # xs) =
     (case apply_iteratees its x of Keep v \<Rightarrow> v # run_iteratees its xs | Skip \<Rightarrow> run_iteratees its xs | Stop \<Rightarrow> [])"
proof (induction its arbitrary: x xs)
  case (Cons i its)
  then show ?case by (cases i) (auto split: outcome.split)
qed simp

lemma run_iteratees_append: "run_iteratees (its @ its2) xs = run_iteratees its2 (run_iteratees its xs)"
  by (induction its xs rule: run_iteratees.induct) auto

lemma length_run_iteratees: "length (run_iteratees its xs) \<le> length xs"
  by (induction its xs rule: run_iteratees.induct) (auto intro: le_trans [OF _ length_filter_le] le_trans [OF _ length_takeWhile_le])

lemma lazy_loop_run:
  assumes "\<And>i. i < length D \<Longrightarrow> array ! nat (index + d * (int i + 1)) = D ! i"
  shows "lazy_loop array its d limit (length D) index res = res @ take (nat limit - length res) (run_iteratees its D)"
  using assms
proof (induction D arbitrary: index res)
  case (Cons x D)
  have hd: "array ! nat (index + d) = x" using Cons.prems [of 0] by simp
  have tl: "array ! nat (index + d + d * (int i + 1)) = D ! i" if "i < length D" for i
    using Cons.prems [of "Suc i"] that by (simp add: algebra_simps)
  show ?case
  proof (cases "int (length res) < limit")
    case True
    then have "nat limit - length res = Suc (nat limit - Suc (length res))" by linarith
    then show ?thesis using True hd Cons.IH [OF tl]
      by (cases "apply_iteratees its x") (simp_all add: run_iteratees_Cons Let_def)
  next
    case False
    then show ?thesis by simp
  qed
qed simp

subsection \<open>Views\<close>

lemma length_segment: "0 \<le> s \<Longrightarrow> e \<le> int (length xs) \<Longrightarrow> length (segment s e xs) = nat (e - s)"
  by (auto simp: segment_def min_def)

lemma segment_take: "0 \<le> n \<Longrightarrow> segment s (min e (s + n)) xs = take (nat n) (segment s e xs)"
proof -
  assume "0 \<le> n"
  then have "nat (min e (s + n) - s) = min (nat n) (nat (e - s))" by linarith
  then show ?thesis by (simp add: segment_def)
qed

lemma segment_drop: "0 \<le> s \<Longrightarrow> 0 \<le> n \<Longrightarrow> segment (s + n) e xs = drop (nat n) (segment s e xs)"
proof -
  assume "0 \<le> s" "0 \<le> n"
  then have "nat (e - (s + n)) = nat (e - s) - nat n" "nat (s + n) = nat n + nat s" by linarith+
  then show ?thesis by (simp add: segment_def drop_take)
qed

lemma segment_drop_right:
  "0 \<le> s \<Longrightarrow> e \<le> int (length xs) \<Longrightarrow> 0 \<le> n \<Longrightarrow> segment s (e - n) xs = take (length (segment s e xs) - nat n) (segment s e xs)"
proof -
  assume a: "0 \<le> s" "e \<le> int (length xs)" "0 \<le> n"
  then have "nat (e - n - s) = min (nat (e - s) - nat n) (nat (e - s))" by linarith
  then show ?thesis by (simp only: length_segment [OF a(1,2)]) (simp add: segment_def)
qed

lemma segment_take_right:
  "0 \<le> s \<Longrightarrow> e \<le> int (length xs) \<Longrightarrow> 0 \<le> n \<Longrightarrow>
   segment (max s (e - n)) e xs = drop (length (segment s e xs) - nat n) (segment s e xs)"
proof -
  assume a: "0 \<le> s" "e \<le> int (length xs)" "0 \<le> n"
  show ?thesis
  proof (cases "e \<le> s")
    case True
    then have "nat (e - s) = 0" "nat (e - max s (e - n)) = 0" by linarith+
    then show ?thesis by (simp add: segment_def)
  next
    case False
    then have "nat (e - max s (e - n)) = nat (e - s) - (nat (e - s) - nat n)"
      "nat (max s (e - n)) = nat (e - s) - nat n + nat s" using a by linarith+
    then show ?thesis by (simp only: length_segment [OF a(1,2)]) (simp add: segment_def drop_take)
  qed
qed

lemma rev_last_part:
  "rev (drop (length ys - n) ys) = take n (rev ys)" "rev (take (length ys - n) ys) = drop n (rev ys)"
  by (cases "n \<le> length ys"; simp add: rev_drop rev_take)+

lemma getView_append: "getView s e (vs @ [v]) = view_step v (getView s e vs)"
  by (simp add: getView_def)

lemma getView_bounds:
  assumes "list_all (\<lambda>(t, n). 0 \<le> n) vs" "0 \<le> l"
  shows "0 \<le> fst (getView 0 l vs) \<and> snd (getView 0 l vs) \<le> l"
  using assms(1)
proof (induction vs rule: rev_induct)
  case (snoc v vs)
  obtain t n where v: "v = (t, n)" by (cases v)
  obtain s e where se: "getView 0 l vs = (s, e)" by (cases "getView 0 l vs")
  show ?case using snoc by (cases t) (auto simp: getView_append v se)
qed (simp add: getView_def assms(2))

lemma view_part_bounds:
  assumes "data_ok d" "getView 0 (int (length xs)) (views d) = (s, e)"
  shows "0 \<le> s" "e \<le> int (length xs)"
  using getView_bounds [of "views d" "int (length xs)"] assms by (auto simp: data_ok_def)

lemma length_view_part: "data_ok d \<Longrightarrow> length (view_part d xs) \<le> length xs"
  by (auto simp: view_part_def segment_def Let_def split: prod.split)

lemma lazyValue_cases:
  assumes "data_ok d"
  shows "lazyValue d xs =
      (if length xs < LARGE_ARRAY_SIZE \<or> (length (view_part d xs) = length xs \<and> int (length xs) \<le> takeCount d)
       then run_actions (actions d) xs else lazy_result d xs)"
proof -
  obtain s e where se: "getView 0 (int (length xs)) (views d) = (s, e)" by fastforce
  note b = view_part_bounds [OF assms se]
  define D where "D = view_part d xs"
  have D: "D = (if dir d < 0 then rev (segment s e xs) else segment s e xs)" by (simp add: D_def view_part_def se)
  have len: "length D = nat (e - s)" by (simp add: D length_segment [OF b])
  have nth: "xs ! nat ((if dir d < 0 then e else s - 1) + dir d * (int i + 1)) = D ! i" if "i < length D" for i
  proof (cases "dir d < 0")
    case True
    then have "dir d = -1" using assms by (simp add: data_ok_def)
    moreover have "segment s e xs ! (nat (e - s) - Suc i) = xs ! (nat s + (nat (e - s) - Suc i))"
      using that b len by (simp add: segment_def)
    moreover have "nat s + (nat (e - s) - Suc i) = nat (e - 1 - int i)" using that len b by linarith
    ultimately show ?thesis using that len by (simp add: D rev_nth length_segment [OF b] algebra_simps)
  next
    case False
    then have "dir d = 1" using assms by (auto simp: data_ok_def)
    moreover have "nat (s + int i) = nat s + i" using b by linarith
    ultimately show ?thesis using that len b by (simp add: D segment_def)
  qed
  have "lazy_loop xs (iteratees d) (dir d) (min (e - s) (takeCount d)) (nat (e - s)) (if dir d < 0 then e else s - 1) [] =
        take (nat (min (e - s) (takeCount d))) (run_iteratees (iteratees d) D)"
    using lazy_loop_run [OF nth, of "iteratees d"] by (simp add: len)
  also have "\<dots> = lazy_result d xs"
  proof -
    have "length (run_iteratees (iteratees d) D) \<le> nat (e - s)" using length_run_iteratees [of "iteratees d" D] len by simp
    moreover have "nat (min (e - s) (takeCount d)) = min (nat (e - s)) (nat (takeCount d))"
      using assms by (auto simp: data_ok_def min_def nat_mono)
    ultimately show ?thesis by (simp add: lazy_result_def D_def [symmetric] min_def)
  qed
  finally show ?thesis using len by (auto simp: lazyValue_def se Let_def D_def [symmetric] LARGE_ARRAY_SIZE_def)
qed

lemma lazyValue_result:
  "data_ok d \<Longrightarrow> run_actions (actions d) xs = lazy_result d xs \<Longrightarrow> lazyValue d xs = lazy_result d xs"
  by (simp add: lazyValue_cases)


subsection \<open>The methods\<close>

lemma small_le: "length ys \<le> length xs \<Longrightarrow> small xs \<Longrightarrow> small ys"
  by (simp add: small_def)

lemma small_simps [simp]: "small (map f xs) = small xs" "small (rev xs) = small xs"
  by (simp_all add: small_def)

lemma eager_simps:
  assumes "small xs"
  shows "eager_call (CMap f) xs = map f xs" "eager_call (CFilter p) xs = filter p xs"
    "eager_call (CReject p) xs = filter (\<lambda>v. \<not> p v) xs" "eager_call (CTakeWhile p) xs = takeWhile p xs"
    "eager_call (CTake n) xs = take (count_arg n False) xs" "eager_call (CDrop n) xs = drop (count_arg n False) xs"
    "eager_call (CTakeRight n) xs = drop (length xs - count_arg n False) xs"
    "eager_call (CDropRight n) xs = take (length xs - count_arg n False) xs"
    "eager_call CInitial xs = take (length xs - 1) xs" "eager_call CTail xs = drop 1 xs"
  using assms unfolding small_def
  by (simp_all add: arrayMap_unary [unfolded baseUnary_def] arrayFilter_unary take_js_take drop_js_drop takeRight_drop dropRight_take
      takeWhile_js_def baseWhile_left initial_def tail_def count_arg_1)

text \<open>The maps of an unfiltered wrapper as one function.\<close>

lemma run_iteratees_maps:
  assumes "list_all (\<lambda>i. case i of MapI f \<Rightarrow> True | _ \<Rightarrow> False) its"
  shows "\<exists>m. \<forall>xs. run_iteratees its xs = map m xs"
  using assms
proof (induction its)
  case Nil
  show ?case by (rule exI [of _ "\<lambda>x. x"]) simp
next
  case (Cons i its)
  then obtain f m where "i = MapI f" "\<forall>xs. run_iteratees its xs = map m xs"
    by (auto split: lazy_iteratee.splits)
  then show ?case by (intro exI [of _ "m \<circ> f"]) simp
qed

lemma unfiltered_result:
  assumes "lazy_phase Unfiltered d"
  shows "\<exists>m. \<forall>d1 xs. iteratees d1 = iteratees d \<longrightarrow> takeCount d1 = takeCount d \<longrightarrow> data_ok d1 \<longrightarrow> small xs \<longrightarrow>
           lazy_result d1 xs = map m (view_part d1 xs)"
proof -
  obtain m where m: "\<forall>xs. run_iteratees (iteratees d) xs = map m xs" using run_iteratees_maps assms by fastforce
  have "lazy_result d1 xs = map m (view_part d1 xs)"
    if "iteratees d1 = iteratees d" "takeCount d1 = takeCount d" "data_ok d1" "small xs" for d1 xs
    using m length_view_part [OF that(3), of xs] that assms by (simp add: lazy_result_def MAX_ARRAY_LENGTH_def small_def)
  then show ?thesis by blast
qed

text \<open>What a view added to a wrapper does to the part of the array in view.\<close>

lemma view_part_add:
  fixes d :: "'a lazy_data"
  assumes "data_ok d" "0 \<le> n" "small xs"
  defines "add \<equiv> \<lambda>t. d\<lparr>views := views d @ [(t, min n MAX_ARRAY_LENGTH)]\<rparr>"
  shows "dir d = 1 \<Longrightarrow> view_part (add TakeV) xs = take (nat n) (view_part d xs)"
    "dir d = -1 \<Longrightarrow> view_part (add TakeRightV) xs = take (nat n) (view_part d xs)"
    "dir d = 1 \<Longrightarrow> view_part (add DropV) xs = drop (nat n) (view_part d xs)"
    "dir d = -1 \<Longrightarrow> view_part (add DropRightV) xs = drop (nat n) (view_part d xs)"
proof -
  obtain s e where se: "getView 0 (int (length xs)) (views d) = (s, e)" by fastforce
  note b = view_part_bounds [OF assms(1) se]
  define k where "k = min n MAX_ARRAY_LENGTH"
  have k: "0 \<le> k" using assms(2) by (simp add: k_def MAX_ARRAY_LENGTH_def)
  have "length (segment s e xs) \<le> nat MAX_ARRAY_LENGTH"
    using assms(3) length_segment [OF b] b by (simp add: MAX_ARRAY_LENGTH_def small_def)
  then have takes: "take (nat k) ys = take (nat n) ys" "drop (nat k) ys = drop (nat n) ys" "length ys - nat k = length ys - nat n"
    if "length ys = length (segment s e xs)" for ys :: "'a list"
    using that assms(2) by (auto simp: k_def min_def)
  note defs = view_part_def add_def getView_append se k_def [symmetric]
  show "dir d = 1 \<Longrightarrow> view_part (add TakeV) xs = take (nat n) (view_part d xs)"
    using segment_take [OF k, of s e xs] takes(1) [OF refl]
    by (simp add: defs)
  show "dir d = 1 \<Longrightarrow> view_part (add DropV) xs = drop (nat n) (view_part d xs)"
    using segment_drop [OF b(1) k, of e xs] takes(2) [OF refl]
    by (simp add: defs)
  show "dir d = -1 \<Longrightarrow> view_part (add TakeRightV) xs = take (nat n) (view_part d xs)"
    using segment_take_right [OF b k] takes(3) [of "segment s e xs"] rev_last_part(1) by (simp add: defs)
  show "dir d = -1 \<Longrightarrow> view_part (add DropRightV) xs = drop (nat n) (view_part d xs)"
    using segment_drop_right [OF b k] takes(3) [of "segment s e xs"] rev_last_part(2) by (simp add: defs)
qed

lemma view_part_reverse: "data_ok d \<Longrightarrow> view_part (d\<lparr>dir := - dir d\<rparr>) xs = rev (view_part d xs)"
  by (auto simp: view_part_def Let_def data_ok_def split: prod.split)

lemma length_lazy_result: "data_ok d \<Longrightarrow> length (lazy_result d xs) \<le> length xs"
  using length_view_part [of d xs] length_run_iteratees [of "iteratees d" "view_part d xs"] by (simp add: lazy_result_def)

lemma view_count: "nat (lazy_count n) = count_arg n False" "0 \<le> lazy_count n"
  by (simp_all add: lazy_count_nat)

lemma add_view_simps [simp]:
  "actions (add_view t n d) = actions d" "dir (add_view t n d) = dir d" "iteratees (add_view t n d) = iteratees d"
  "takeCount (add_view t n d) = takeCount d" "filtered (add_view t n d) = filtered d"
  "(add_view t n d)\<lparr>dir := k\<rparr> = add_view t n (d\<lparr>dir := k\<rparr>)"
  by (simp_all add: add_view_def)

lemma data_ok_simps [simp]:
  "data_ok d \<Longrightarrow> data_ok (add_view t n d)" "data_ok d \<Longrightarrow> data_ok (d\<lparr>dir := - dir d\<rparr>)"
  by (auto simp: data_ok_def add_view_def lazy_count_nat MAX_ARRAY_LENGTH_def)

lemma view_part_forward:
  assumes "data_ok d" "small xs"
  shows "view_part (add_view (if dir d < 0 then TakeRightV else TakeV) n d) xs = take (count_arg n False) (view_part d xs)"
    "view_part (add_view (if dir d < 0 then DropRightV else DropV) n d) xs = drop (count_arg n False) (view_part d xs)"
  using assms(1) view_part_add [OF assms(1) view_count(2) assms(2), of n] by (auto simp: data_ok_def add_view_def view_count(1))

lemma view_part_backward:
  assumes "data_ok d" "small xs"
  shows "view_part (add_view (if - dir d < 0 then TakeRightV else TakeV) n d) xs =
           drop (length (view_part d xs) - count_arg n False) (view_part d xs)"
    "view_part (add_view (if - dir d < 0 then DropRightV else DropV) n d) xs =
           take (length (view_part d xs) - count_arg n False) (view_part d xs)"
proof -
  define r where "r = d\<lparr>dir := - dir d\<rparr>"
  have r: "data_ok r" "dir r = - dir d" "view_part r xs = rev (view_part d xs)"
    using assms(1) by (simp_all add: r_def view_part_reverse)
  have flip: "view_part (add_view t n d) xs = rev (view_part (add_view t n r) xs)" for t
    using view_part_reverse [of "add_view t n d" xs] assms(1) by (simp add: r_def)
  show "view_part (add_view (if - dir d < 0 then TakeRightV else TakeV) n d) xs =
           drop (length (view_part d xs) - count_arg n False) (view_part d xs)"
    using view_part_forward(1) [OF r(1) assms(2), of n] by (simp add: flip r rev_take)
  show "view_part (add_view (if - dir d < 0 then DropRightV else DropV) n d) xs =
           take (length (view_part d xs) - count_arg n False) (view_part d xs)"
    using view_part_forward(2) [OF r(1) assms(2), of n] by (simp add: flip r rev_drop)
qed

lemma unfiltered_step:
  assumes "lazy_phase Unfiltered d" "data_ok d" "data_ok d1" "iteratees d1 = iteratees d" "takeCount d1 = takeCount d"
    "actions d1 = actions d" "\<And>m xs. small xs \<Longrightarrow> map m (view_part d1 xs) = eager_call c (map m (view_part d xs))"
  shows "sound_step c d d1"
  using unfiltered_result [OF assms(1)] assms by (auto simp: sound_step_def)

lemma small_view_part: "data_ok d \<Longrightarrow> small xs \<Longrightarrow> small (view_part d xs)"
  by (rule small_le [OF length_view_part])

lemma unfiltered_views:
  assumes "lazy_phase Unfiltered d" "data_ok d"
  shows "sound_step (CTake n) d (add_view (if dir d < 0 then TakeRightV else TakeV) n d)"
    "sound_step (CDrop n) d (add_view (if dir d < 0 then DropRightV else DropV) n d)"
    "sound_step (CTakeRight n) d (add_view (if - dir d < 0 then TakeRightV else TakeV) n d)"
    "sound_step (CDropRight n) d (add_view (if - dir d < 0 then DropRightV else DropV) n d)"
    "sound_step CInitial d (add_view (if - dir d < 0 then DropRightV else DropV) (Some (Fin 1)) d)"
    "sound_step CTail d (add_view (if dir d < 0 then DropRightV else DropV) (Some (Fin 1)) d)"
  by (rule unfiltered_step [OF assms];
      simp add: assms(2) eager_simps small_view_part view_part_forward view_part_backward [unfolded neg_less_0_iff_less] take_map drop_map count_arg_1
      del: eager_call.simps)+

lemma lazy_unfiltered:
  assumes "\<not> filtered d"
  shows "lazy_take n (LazyWrapper w d) = LazyWrapper w (add_view (if dir d < 0 then TakeRightV else TakeV) n d)"
    "lazy_drop n (LazyWrapper w d) = LazyWrapper w (add_view (if dir d < 0 then DropRightV else DropV) n d)"
    "lazy_takeRight n (LazyWrapper w d) = LazyWrapper w (add_view (if - dir d < 0 then TakeRightV else TakeV) n d)"
    "lazy_dropRight n (LazyWrapper w d) = LazyWrapper w (add_view (if - dir d < 0 then DropRightV else DropV) n d)"
    "lazy_initial (LazyWrapper w d) = LazyWrapper w (add_view (if - dir d < 0 then DropRightV else DropV) (Some (Fin 1)) d)"
    "lazy_tail (LazyWrapper w d) = LazyWrapper w (add_view (if dir d < 0 then DropRightV else DropV) (Some (Fin 1)) d)"
    "lazyReverse (LazyWrapper w d) = LazyWrapper w (d\<lparr>dir := - dir d\<rparr>)"
  using assms
  by (simp_all add: lazy_take_def lazy_drop_def lazy_takeRight_def lazy_dropRight_def lazy_initial_def lazy_tail_def lazyReverse_def
      add_view_def)

lemma unfiltered_add_view [simp]: "lazy_phase Unfiltered d \<Longrightarrow> lazy_phase Unfiltered (add_view t n d)"
  by simp

lemma unfiltered_reverse: "lazy_phase Unfiltered d \<Longrightarrow> data_ok d \<Longrightarrow> sound_step CReverse d (d\<lparr>dir := - dir d\<rparr>)"
  by (rule unfiltered_step) (simp_all add: view_part_reverse rev_map)

text \<open>One more iteratee.\<close>

lemma lazy_result_append:
  "lazy_result (d\<lparr>iteratees := iteratees d @ [i]\<rparr>) xs = take (nat (takeCount d)) (run_iteratees [i] (run_iteratees (iteratees d) (view_part d xs)))"
  "view_part (d\<lparr>iteratees := its\<rparr>) xs = view_part d xs" "view_part (d\<lparr>filtered := b\<rparr>) xs = view_part d xs"
  "lazy_result (d\<lparr>filtered := b\<rparr>) xs = lazy_result d xs"
  by (simp_all add: lazy_result_def view_part_def run_iteratees_append)

lemma take_takeWhile: "take n (takeWhile p xs) = takeWhile p (take n xs)"
  by (induction xs arbitrary: n) (auto simp: take_Cons split: nat.split)

lemma small_lazy_result: "data_ok d \<Longrightarrow> small xs \<Longrightarrow> small (lazy_result d xs)"
  by (rule small_le [OF length_lazy_result])

lemma data_ok_update [simp]:
  "data_ok (d\<lparr>iteratees := its\<rparr>) = data_ok d" "data_ok (d\<lparr>filtered := b\<rparr>) = data_ok d"
  "data_ok d \<Longrightarrow> data_ok (d\<lparr>takeCount := min (lazy_count n) (takeCount d)\<rparr>)"
  by (auto simp: data_ok_def lazy_count_nat)

lemma unlimited:
  assumes "data_ok d" "takeCount d = MAX_ARRAY_LENGTH" "small xs"
  shows "lazy_result d xs = run_iteratees (iteratees d) (view_part d xs)"
  using assms length_view_part [of d xs] length_run_iteratees [of "iteratees d" "view_part d xs"]
  by (simp add: lazy_result_def MAX_ARRAY_LENGTH_def small_def)

lemma filter_step:
  assumes "data_ok d" "takeCount d = MAX_ARRAY_LENGTH" "\<And>xs. small xs \<Longrightarrow> eager_call c xs = filter p xs"
  shows "sound_step c d (d\<lparr>iteratees := iteratees d @ [FilterI p], filtered := True\<rparr>)"
proof -
  let ?d1 = "d\<lparr>iteratees := iteratees d @ [FilterI p], filtered := True\<rparr>"
  have "lazy_result ?d1 xs = filter p (lazy_result d xs)" if "small xs" for xs
    using unlimited [of ?d1 xs] unlimited [of d xs] assms that by (simp add: lazy_result_append run_iteratees_append)
  then show ?thesis using assms small_lazy_result [OF assms(1)] by (auto simp: sound_step_def)
qed

lemma iteratee_steps:
  assumes "data_ok d"
  shows "sound_step (CMap f) d (d\<lparr>iteratees := iteratees d @ [MapI f]\<rparr>)"
    "sound_step (CTakeWhile p) d (d\<lparr>iteratees := iteratees d @ [WhileI p], filtered := True\<rparr>)"
    "sound_step (CTake n) d (d\<lparr>takeCount := min (lazy_count n) (takeCount d)\<rparr>)"
proof -
  have "nat (min (lazy_count n) (takeCount d)) = min (count_arg n False) (nat (takeCount d))"
    using assms by (auto simp: lazy_count_nat data_ok_def min_def)
  then show "sound_step (CTake n) d (d\<lparr>takeCount := min (lazy_count n) (takeCount d)\<rparr>)"
    using assms by (simp add: sound_step_def eager_simps small_lazy_result del: eager_call.simps)
      (simp add: lazy_result_def view_part_def)
qed (use assms in \<open>simp_all add: sound_step_def eager_simps small_lazy_result lazy_result_append take_takeWhile del: eager_call.simps\<close>,
     simp_all add: lazy_result_def take_map)

text \<open>Slices as two views.\<close>

lemma slice_segment:
  assumes "small xs"
  shows "eager_call (CSlice s e) xs = drop (rel_index (length xs) (int_arg s)) (take (fill_stop (length xs) e) xs)"
proof (cases "xs = []")
  case False
  have "rel_index (length xs) (int (length xs)) = length xs" by simp
  then show ?thesis using False assms
    by (auto simp: slice_def Let_def baseSlice_take_drop small_def fill_stop_def split: option.split)
qed (simp add: slice_def)

lemma count_arg_num_of_int [simp]: "count_arg (Some (num_of_int k)) False = nat k"
  by (simp add: count_arg_def int_arg_def num_of_int_def toInteger_Fin)

lemma slice_start:
  assumes "small xs"
  shows "eager_call (CSlice s None) xs =
      (if int_arg s < 0 then eager_call (CTakeRight (Some (num_of_int (- int_arg s)))) xs
       else if int_arg s \<noteq> 0 then eager_call (CDrop (Some (num_of_int (int_arg s)))) xs else xs)"
proof -
  have "nat (max 0 (int (length xs) + int_arg s)) = length xs - nat (- int_arg s)" if "int_arg s < 0" using that by linarith
  then show ?thesis
    using assms by (auto simp: slice_segment eager_simps fill_stop_def rel_index_def min_def simp del: eager_call.simps)
qed

lemma take_min_eq: "min n (length ys) = min m (length ys) \<Longrightarrow> take n ys = take m ys"
  by (metis append_Nil2 take_all_iff take_append take_take order_refl)

lemma slice_stop:
  fixes e :: jsnum
  assumes "small xs"
  defines "E \<equiv> num_int (toInteger e)"
  shows "E < 0 \<Longrightarrow> eager_call (CSlice s (Some e)) xs = eager_call (CDropRight (Some (num_of_int (- E)))) (eager_call (CSlice s None) xs)"
    "0 \<le> E \<Longrightarrow> 0 \<le> int_arg s \<Longrightarrow>
      eager_call (CSlice s (Some e)) xs = eager_call (CTake (Some (num_of_int (E - int_arg s)))) (eager_call (CSlice s None) xs)"
proof -
  define r where "r = rel_index (length xs) (int_arg s)"
  have start: "eager_call (CSlice s None) xs = drop r xs" by (simp add: slice_segment [OF assms(1)] fill_stop_def r_def del: eager_call.simps)
  have stop: "eager_call (CSlice s (Some e)) xs = take (rel_index (length xs) E - r) (drop r xs)"
    by (simp add: slice_segment [OF assms(1)] fill_stop_def r_def E_def drop_take del: eager_call.simps)
  have small: "small (drop r xs)" by (rule small_le [OF _ assms(1)]) simp
  show "E < 0 \<Longrightarrow> eager_call (CSlice s (Some e)) xs = eager_call (CDropRight (Some (num_of_int (- E)))) (eager_call (CSlice s None) xs)"
    unfolding stop unfolding start eager_simps [OF small] by (rule take_min_eq) (auto simp: rel_index_def)
  show "0 \<le> E \<Longrightarrow> 0 \<le> int_arg s \<Longrightarrow>
      eager_call (CSlice s (Some e)) xs = eager_call (CTake (Some (num_of_int (E - int_arg s)))) (eager_call (CSlice s None) xs)"
    unfolding stop unfolding start eager_simps [OF small] by (rule take_min_eq) (simp add: rel_index_def r_def, linarith)
qed

text \<open>A chained call on a lazy wrapper within the faithful calls.\<close>

lemma reaches_cong:
  assumes "reaches c1 w d ph lw" "data_ok d" "\<And>ys. small ys \<Longrightarrow> eager_call c ys = eager_call c1 ys"
  shows "reaches c w d ph lw"
  using assms small_lazy_result [OF assms(2)] by (fastforce simp: reaches_def sound_step_def)

lemma reaches_trans:
  assumes "reaches c1 w d Unfiltered lw" "data_ok d" "\<And>ys. small ys \<Longrightarrow> eager_call c ys = eager_call c2 (eager_call c1 ys)"
    "\<And>d1. lazy_phase Unfiltered d1 \<Longrightarrow> data_ok d1 \<Longrightarrow> reaches c2 w d1 Unfiltered (f (LazyWrapper w d1))"
  shows "reaches c w d Unfiltered (f lw)"
proof -
  obtain d1 where d1: "lw = LazyWrapper w d1" "sound_step c1 d d1" "lazy_phase Unfiltered d1"
    using assms(1) by (auto simp: reaches_def)
  then show ?thesis using assms(4) [of d1] assms(3) small_lazy_result [OF assms(2)]
    by (fastforce simp: reaches_def sound_step_def)
qed

lemma reaches_views:
  assumes "lazy_phase Unfiltered d" "data_ok d"
  shows "reaches (CTake n) w d Unfiltered (lazy_take n (LazyWrapper w d))"
    "reaches (CDrop n) w d Unfiltered (lazy_drop n (LazyWrapper w d))"
    "reaches (CTakeRight n) w d Unfiltered (lazy_takeRight n (LazyWrapper w d))"
    "reaches (CDropRight n) w d Unfiltered (lazy_dropRight n (LazyWrapper w d))"
    "reaches CInitial w d Unfiltered (lazy_initial (LazyWrapper w d))"
    "reaches CTail w d Unfiltered (lazy_tail (LazyWrapper w d))"
    "reaches CReverse w d Unfiltered (lazyReverse (LazyWrapper w d))"
proof -
  have "\<not> filtered d" using assms(1) by simp
  then show "reaches (CTake n) w d Unfiltered (lazy_take n (LazyWrapper w d))"
    "reaches (CDrop n) w d Unfiltered (lazy_drop n (LazyWrapper w d))"
    "reaches (CTakeRight n) w d Unfiltered (lazy_takeRight n (LazyWrapper w d))"
    "reaches (CDropRight n) w d Unfiltered (lazy_dropRight n (LazyWrapper w d))"
    "reaches CInitial w d Unfiltered (lazy_initial (LazyWrapper w d))"
    "reaches CTail w d Unfiltered (lazy_tail (LazyWrapper w d))"
    "reaches CReverse w d Unfiltered (lazyReverse (LazyWrapper w d))"
    using unfiltered_views [OF assms] unfiltered_reverse [OF assms] unfiltered_add_view [OF assms(1)] assms(1)
    unfolding reaches_def by (simp_all add: lazy_unfiltered)
qed

lemma reaches_slice:
  assumes "lazy_phase Unfiltered d" "data_ok d" "slice_ok s e"
  shows "reaches (CSlice s e) w d Unfiltered (lazy_slice s e (LazyWrapper w d))"
proof -
  let ?s = "int_arg s"
  define l1 where "l1 = (if ?s < 0 then lazy_takeRight (Some (num_of_int (- ?s))) (LazyWrapper w d)
                         else if ?s \<noteq> 0 then lazy_drop (Some (num_of_int ?s)) (LazyWrapper w d) else LazyWrapper w d)"
  have "reaches (CSlice s None) w d Unfiltered (LazyWrapper w d)" if "?s = 0"
    using assms that by (simp add: reaches_def sound_step_def slice_start small_lazy_result del: eager_call.simps)
  then have start: "reaches (CSlice s None) w d Unfiltered l1"
    using reaches_cong [OF reaches_views(2) [OF assms(1,2)] assms(2), of "CSlice s None" "Some (num_of_int ?s)"]
      reaches_cong [OF reaches_views(3) [OF assms(1,2)] assms(2), of "CSlice s None" "Some (num_of_int (- ?s))"]
    by (simp add: l1_def slice_start del: eager_call.simps)
  have "\<not> filtered d" using assms(1) by simp
  then have eq: "lazy_slice s e (LazyWrapper w d) =
      (case e of None \<Rightarrow> l1 | Some e0 \<Rightarrow> if num_int (toInteger e0) < 0 then lazy_dropRight (Some (num_of_int (- num_int (toInteger e0)))) l1
         else lazy_take (Some (num_of_int (num_int (toInteger e0) - ?s))) l1)"
    by (cases e; simp only: lazy_slice_def Let_def l1_def is_filtered.simps option.case simp_thms if_False)
  show ?thesis unfolding eq
    using start reaches_trans [OF start assms(2) slice_stop(1) reaches_views(4)]
        reaches_trans [OF start assms(2) slice_stop(2) reaches_views(1)] assms(3)
    by (auto simp: slice_ok_def split: option.split option.splits)
qed

lemma reaches_iteratees:
  assumes "data_ok d"
  shows "lazy_phase ph d \<Longrightarrow> reaches (CMap f) w d ph (lazy_map f (LazyWrapper w d))"
    "lazy_phase ph d \<Longrightarrow> reaches (CTakeWhile p) w d (if ph = Unfiltered then Filtered else ph) (lazy_takeWhile p (LazyWrapper w d))"
    "lazy_phase ph d \<Longrightarrow> ph \<noteq> Taken \<Longrightarrow> reaches (CFilter p) w d Filtered (lazy_filter p (LazyWrapper w d))"
    "lazy_phase ph d \<Longrightarrow> ph \<noteq> Taken \<Longrightarrow> reaches (CReject p) w d Filtered (lazy_reject p (LazyWrapper w d))"
    "lazy_phase ph d \<Longrightarrow> ph \<noteq> Unfiltered \<Longrightarrow> reaches (CTake n) w d Taken (lazy_take n (LazyWrapper w d))"
  using iteratee_steps [OF assms] filter_step [OF assms, of "CFilter p" p] filter_step [OF assms, of "CReject p" "\<lambda>v. \<not> p v"]
  by (cases ph; simp add: reaches_def lazy_map_def lazy_takeWhile_def lazy_filter_def lazy_reject_def lazy_take_def eager_simps
      del: eager_call.simps)+

lemma reaches_method:
  assumes "next_phase ph c = Some ph1" "lazy_phase ph d" "data_ok d"
  shows "reaches c w d ph1 (lazy_method c (LazyWrapper w d))"
proof (cases ph)
  case Unfiltered
  then show ?thesis
    using assms reaches_views [OF _ assms(3)] reaches_slice [OF _ assms(3)] reaches_iteratees [OF assms(3), of Unfiltered]
    by (cases c) (auto split: if_splits simp del: lazy_phase.simps)
next
  case Filtered
  then show ?thesis using assms reaches_iteratees [OF assms(3), of Filtered] by (cases c) (auto simp del: lazy_phase.simps)
next
  case Taken
  then show ?thesis using assms reaches_iteratees [OF assms(3), of Taken] by (cases c) (auto simp del: lazy_phase.simps)
qed

subsection \<open>Chains\<close>

lemma run_actions_append: "run_actions (acts @ [f]) xs = f (run_actions acts xs)"
  by (simp add: run_actions_def)

lemma eager_reverse: "eager_call CReverse = rev"
  by (rule ext) simp

lemma small_eager: "next_phase ph c \<noteq> None \<Longrightarrow> small ys \<Longrightarrow> small (eager_call c ys)"
  by (rule small_le [of _ ys], cases ph; cases c;
      simp add: eager_simps eager_call.simps(13) slice_segment length_filter_le length_takeWhile_le del: eager_call.simps(1-12) split: if_splits)

lemma lazy_ok_init: "small ys \<Longrightarrow> wrapper_value w = ys \<Longrightarrow> lazy_ok Unfiltered ys w lazy_init"
  by (simp add: lazy_ok_def lazy_init_def data_ok_def run_actions_def lazy_result_def view_part_def getView_def segment_def
      small_def MAX_ARRAY_LENGTH_def)

lemma lazy_ok_method:
  assumes "lazy_ok ph ys w d" "next_phase ph c = Some ph1"
  shows "\<exists>d1. push_action (eager_call c) (lazy_method c (LazyWrapper w d)) = LazyWrapper w d1 \<and> lazy_ok ph1 (eager_call c ys) w d1"
proof -
  obtain d1 where d1: "lazy_method c (LazyWrapper w d) = LazyWrapper w d1" "sound_step c d d1" "lazy_phase ph1 d1"
    using reaches_method [OF assms(2), of d w] assms(1) by (auto simp: lazy_ok_def reaches_def)
  let ?d2 = "d1\<lparr>actions := actions d1 @ [eager_call c]\<rparr>"
  have "lazy_result ?d2 xs = lazy_result d1 xs" "data_ok ?d2 = data_ok d1" "lazy_phase ph1 ?d2 = lazy_phase ph1 d1" for xs
    by (cases ph1; simp add: lazy_result_def view_part_def data_ok_def)+
  then show ?thesis using assms(1) d1
    by (intro exI [of _ ?d2]) (simp add: push_action_def lazy_ok_def sound_step_def run_actions_append)
qed

lemma chain_inv_method:
  assumes "chain_inv ph ys lw" "next_phase ph c = Some ph1"
  shows "chain_inv ph1 (eager_call c ys) (chain_method c lw)"
proof -
  have small: "small (eager_call c ys)" "small ys" using assms small_eager by (auto simp: chain_inv_def)
  consider (acts) w acts where "lw = LodashWrapper w acts" "is_lazy w \<longrightarrow> acts \<noteq> []" "ph = Unfiltered" "run_actions acts (wrapper_value w) = ys"
    | (lazy) w d where "lw = LodashWrapper (LazyWrapper w d) []" "lazy_ok ph ys w d"
    using assms(1) by (auto simp: chain_inv_def)
  then show ?thesis
  proof cases
    case acts
    have "lazy_ok ph ys lw lazy_init" using acts lazy_ok_init [OF small(2), of lw] by simp
    note new = lazy_ok_method [OF this assms(2)]
    show ?thesis
    proof (cases "is_reverse c")
      case True
      then have "c = CReverse" by (cases c) auto
      then show ?thesis using acts assms(2) small new
        by (cases "is_lazy w") (auto simp: chain_inv_def wrapperReverse_def run_actions_append eager_reverse)
    next
      case False
      then show ?thesis using new acts small by (cases "is_lazy w") (auto simp: chain_inv_def Let_def)
    qed
  next
    case lazy
    have "chain_method c lw = LodashWrapper (push_action (eager_call c) (lazy_method c (LazyWrapper w d))) []"
      using lazy by (cases c) (simp_all add: wrapperReverse_def eager_reverse)
    then show ?thesis using lazy_ok_method [OF lazy(2) assms(2)] small by (auto simp: chain_inv_def)
  qed
qed

lemma chain_inv_value: "chain_inv ph ys lw \<Longrightarrow> wrapper_value lw = ys"
  by (auto simp: chain_inv_def lazy_ok_def run_actions_def lazyValue_result)

lemma chain_inv_fold:
  "faithful ph calls \<Longrightarrow> chain_inv ph ys lw \<Longrightarrow> wrapper_value (fold chain_method calls lw) = fold eager_call calls ys"
proof (induction calls arbitrary: ph ys lw)
  case (Cons c calls)
  then show ?case using chain_inv_method by (fastforce split: option.splits)
qed (simp add: chain_inv_value)

text \<open>Where the loop departs from the recorded actions.\<close>

lemma data_ok_init [simp]: "data_ok lazy_init" "data_ok (lazy_init\<lparr>dir := -1, filtered := b\<rparr>)"
  by (simp_all add: data_ok_def lazy_init_def MAX_ARRAY_LENGTH_def)

lemma lazy_init_sel [simp]:
  "views lazy_init = []" "iteratees lazy_init = []" "dir lazy_init = 1" "takeCount lazy_init = MAX_ARRAY_LENGTH"
  "actions lazy_init = []" "filtered lazy_init = False"
  by (simp_all add: lazy_init_def)

lemma view_part_whole [simp]: "views d = [] \<Longrightarrow> view_part d xs = (if dir d < 0 then rev xs else xs)"
  by (simp add: view_part_def getView_def segment_def)

lemmas lazy_defs = lazy_filter_def lazy_take_def lazy_takeRight_def lazyReverse_def lazy_drop_def push_action_def lazy_count_nat

lemmas loop_defs = chain_value_def lazy_defs run_actions_def lazyValue_cases data_ok_def lazy_result_def LARGE_ARRAY_SIZE_def
  MAX_ARRAY_LENGTH_def Let_def

lemma filter_take_filter:
  assumes "length xs < 2 ^ 32" "200 \<le> length xs" "n < length xs"
  shows "chain_value xs [CFilter p, CTake (Some (num_of_int (int n))), CFilter q] = take n (filter q (filter p xs))"
  using assms by (simp add: loop_defs)

lemma filter_takeRight:
  assumes "length xs < 2 ^ 32" "200 \<le> length (filter p xs)" "n < length (filter p xs)"
  shows "chain_value xs [CFilter p, CTakeRight (Some (num_of_int (int n)))] = take n (rev (filter p xs))"
proof -
  have "eager_call (CFilter p) xs = filter p xs" using assms eager_simps(2) [of xs p] by (simp add: small_def del: eager_call.simps)
  moreover have "eager_call (CTakeRight (Some (num_of_int (int n)))) (take n (rev (filter p xs))) = take n (rev (filter p xs))"
    using assms eager_simps(7) [of "take n (rev (filter p xs))"] length_filter_le [of p xs] by (simp add: small_def del: eager_call.simps)
  moreover have "length (filter p xs) < 2 ^ 32" using length_filter_le [of p xs] assms(1) by (rule le_less_trans)
  then have "min (int n) 4294967295 = int n" "n \<le> 4294967295" using assms by simp_all
  ultimately show ?thesis using assms length_filter_le [of p xs] by (simp add: loop_defs del: eager_call.simps)
qed

lemma filter_drop_take:
  assumes "length xs < 2 ^ 32" "200 \<le> length (filter p xs)" "k < length (filter p xs)"
  shows "chain_value xs [CFilter p, CDrop n, CTake (Some (num_of_int (int k)))] = take k (filter p xs)"
proof -
  have "eager_call (CFilter p) xs = filter p xs" using assms eager_simps(2) [of xs p] by (simp add: small_def del: eager_call.simps)
  moreover have "length (filter p xs) < 2 ^ 32" using length_filter_le [of p xs] assms(1) by (rule le_less_trans)
  then have "min (int k) 4294967295 = int k" "k \<le> 4294967295" using assms by simp_all
  ultimately show ?thesis using assms length_filter_le [of p xs]
    by (simp add: loop_defs view_part_def getView_def segment_def del: eager_call.simps)
qed

lemma slice_end_start:
  assumes "length xs < 2 ^ 32" "200 \<le> length xs" "0 < s" "s < length xs" "0 \<le> e"
  shows "chain_value xs [CSlice (Some (num_of_int (- int s))) (Some (num_of_int e))] = drop (length xs - s) xs"
proof -
  have "view_part d xs = drop (length xs - s) xs"
    if "dir d = 1" "views d = [(TakeRightV, int s), (TakeV, min (e + int s) 4294967295)]" for d
    using assms that by (simp add: view_part_def getView_def segment_def nat_diff_distrib)
  then show ?thesis
    using assms by (simp add: loop_defs lazy_slice_def int_arg_def del: eager_call.simps)
qed

section \<open>Properties\<close>

text \<open>
  (C10) A chain of method calls on a wrapped array gives the value of the same calls made one after the
  other on the array, whichever way it is evaluated: with short arrays by the recorded actions, with long
  ones in one loop over the view. This holds for chains that restrict, map and reverse first, then
  filter, and limit the number of results last, without \<open>takeRightWhile\<close> and without slices from a negative start up to a
  stop that is not negative.
\<close>

theorem lazy_chain_eager:
  assumes "length xs < 2 ^ 32" "faithful Unfiltered calls"
  shows "chain_value xs calls = fold eager_call calls xs"
  unfolding chain_value_def
  by (rule chain_inv_fold [OF assms(2)]) (use assms(1) in \<open>simp add: chain_inv_def small_def run_actions_def\<close>)

theorem lazy_chain_eager_witness:
  "chain_value [3, 1, 2 :: nat] [CReverse, CDrop None, CMap Suc, CFilter even, CTake None] = [2]"
  using lazy_chain_eager [of "[3, 1, 2]" "[CReverse, CDrop None, CMap Suc, CFilter even, CTake None]"]
  by (simp add: eager_simps small_def count_arg_def del: eager_call.simps(1-12))

text \<open>
  (C37) Outside these chains the two ways differ on arrays of 200 or more elements. A take
  between two filters limits the results of the second filter instead of the elements it sees. A takeRight
  after a filter gives the last elements in reversed order. A drop after a filter is lost as soon as a take follows. A
  slice from the end up to an index counted from the beginning gives all the last elements.
\<close>

theorem lazy_chain_divergence:
  assumes "length xs < 2 ^ 32" "200 \<le> length (filter p xs)" "0 < n" "n < length (filter p xs)" "0 \<le> e"
  defines "num \<equiv> Some (num_of_int (int n))"
  shows "chain_value xs [CFilter p, CTake num, CFilter q] = take n (filter q (filter p xs)) \<and>
    fold eager_call [CFilter p, CTake num, CFilter q] xs = filter q (take n (filter p xs)) \<and>
    chain_value xs [CFilter p, CTakeRight num] = rev (fold eager_call [CFilter p, CTakeRight num] xs) \<and>
    chain_value xs [CFilter p, CDrop m, CTake num] = take n (filter p xs) \<and>
    fold eager_call [CFilter p, CDrop m, CTake num] xs = take n (drop (count_arg m False) (filter p xs)) \<and>
    chain_value xs [CSlice (Some (num_of_int (- int n))) (Some (num_of_int e))] = drop (length xs - n) xs \<and>
    fold eager_call [CSlice (Some (num_of_int (- int n))) (Some (num_of_int e))] xs = drop (length xs - n) (take (nat e) xs)"
proof -
  have len: "200 \<le> length xs" "n < length xs" using assms length_filter_le [of p xs] by linarith+
  have small: "small xs" "small (filter p xs)" "small (take n (filter p xs))" "small (drop (count_arg m False) (filter p xs))"
    using assms(1) le_less_trans [OF length_filter_le [of p xs] assms(1)] by (simp_all add: small_def)
  have "take (nat (min e (int (length xs)))) xs = take (nat e) xs" by (rule take_min_eq) (use assms(5) in linarith)
  then have slice: "eager_call (CSlice (Some (num_of_int (- int n))) (Some (num_of_int e))) xs = drop (length xs - n) (take (nat e) xs)"
    using assms len by (simp add: slice_segment [OF small(1)] fill_stop_def rel_index_def int_arg_def nat_diff_distrib del: eager_call.simps)
  show ?thesis unfolding num_def
    using slice filter_take_filter [OF assms(1) len, of p q] filter_takeRight [OF assms(1,2,4)] filter_drop_take [OF assms(1,2,4), of m]
      slice_end_start [OF assms(1) len(1) assms(3) len(2) assms(5)]
    by (simp add: eager_simps small rev_last_part(1) del: eager_call.simps)
qed

theorem lazy_chain_divergence_witness:
  "chain_value [0..<200] [CFilter (\<lambda>v. True), CTakeRight (Some (num_of_int 2))] = [199, 198]"
proof -
  have "drop 198 [0..<200] = [198, 199 :: nat]" by (simp add: upt_rec)
  then show ?thesis using lazy_chain_divergence [of "[0..<200]" "\<lambda>v. True" 2 0 "\<lambda>v. True"]
    by (simp add: eager_simps small_def del: eager_call.simps upt_rec_numeral)
qed

end
