(* ===== verification/JsMath.thy ===== *)
theory JsMath
  imports JsFunctions
begin

text \<open>
  Numeric functions of lodash.js: arithmetic and the relational operators of the language, \<open>toNumber\<close>,
  sums, means, extrema, ranges, \<open>times\<close> and \<open>random\<close>. Arithmetic is exact. Where the
  documentation asks for numbers, the arguments are numbers or undefined (None).
\<close>

section \<open>Arithmetic\<close>

fun num_neg :: "jsnum \<Rightarrow> jsnum" where
  "num_neg NaN = NaN"
| "num_neg PInf = NInf"
| "num_neg NInf = PInf"
| "num_neg NegZero = Fin 0"
| "num_neg (Fin q) = (if q = 0 then NegZero else Fin (- q))"

fun num_add :: "jsnum \<Rightarrow> jsnum \<Rightarrow> jsnum" where
  "num_add NaN b = NaN"
| "num_add a NaN = NaN"
| "num_add PInf NInf = NaN"
| "num_add NInf PInf = NaN"
| "num_add PInf b = PInf"
| "num_add a PInf = PInf"
| "num_add NInf b = NInf"
| "num_add a NInf = NInf"
| "num_add NegZero NegZero = NegZero"
| "num_add NegZero (Fin q) = Fin q"
| "num_add (Fin p) NegZero = Fin p"
| "num_add (Fin p) (Fin q) = Fin (p + q)"

definition num_sub :: "jsnum \<Rightarrow> jsnum \<Rightarrow> jsnum" where
  "num_sub a b = num_add a (num_neg b)"

fun num_negative :: "jsnum \<Rightarrow> bool" where
  "num_negative NInf = True"
| "num_negative NegZero = True"
| "num_negative (Fin q) = (q < 0)"
| "num_negative n = False"

fun num_rat :: "jsnum \<Rightarrow> rat" where
  "num_rat (Fin q) = q"
| "num_rat n = 0"

definition num_infinite :: "jsnum \<Rightarrow> bool" where
  "num_infinite n = (n = PInf \<or> n = NInf)"

definition signed :: "bool \<Rightarrow> jsnum \<Rightarrow> jsnum" where
  "signed neg n = (if neg then num_neg n else n)"

definition num_mul :: "jsnum \<Rightarrow> jsnum \<Rightarrow> jsnum" where
  "num_mul a b =
     (let neg = (num_negative a \<noteq> num_negative b)
      in if a = NaN \<or> b = NaN then NaN
         else if num_infinite a \<or> num_infinite b
         then (if \<not> num_truthy a \<or> \<not> num_truthy b then NaN else signed neg PInf)
         else signed neg (Fin \<bar>num_rat a * num_rat b\<bar>))"

definition num_div :: "jsnum \<Rightarrow> jsnum \<Rightarrow> jsnum" where
  "num_div a b =
     (let neg = (num_negative a \<noteq> num_negative b)
      in if a = NaN \<or> b = NaN \<or> (num_infinite a \<and> num_infinite b) then NaN
         else if num_infinite a then signed neg PInf
         else if num_infinite b then signed neg (Fin 0)
         else if \<not> num_truthy b then (if \<not> num_truthy a then NaN else signed neg PInf)
         else signed neg (Fin \<bar>num_rat a / num_rat b\<bar>))"

section \<open>Conversion to numbers\<close>

definition is_space :: "char \<Rightarrow> bool" where
  "is_space c = (of_char c \<in> {9, 10, 11, 12, 13, 32, 160 :: nat})"

definition is_digit :: "char \<Rightarrow> bool" where
  "is_digit c = (48 \<le> (of_char c :: nat) \<and> (of_char c :: nat) \<le> 57)"

definition trim_space :: "string \<Rightarrow> string" where
  "trim_space s = rev (dropWhile is_space (rev (dropWhile is_space s)))"

text \<open>The value of a character as a digit, for radices up to 16.\<close>

definition digit_val :: "char \<Rightarrow> nat option" where
  "digit_val c =
     (let n = of_char c :: nat
      in if 48 \<le> n \<and> n \<le> 57 then Some (n - 48)
         else if 97 \<le> n \<and> n \<le> 102 then Some (n - 87)
         else if 65 \<le> n \<and> n \<le> 70 then Some (n - 55) else None)"

definition radix_digit :: "nat \<Rightarrow> char \<Rightarrow> bool" where
  "radix_digit r c = (case digit_val c of None \<Rightarrow> False | Some d \<Rightarrow> d < r)"

definition radix_val :: "nat \<Rightarrow> string \<Rightarrow> nat" where
  "radix_val r s = foldl (\<lambda>a c. a * r + (case digit_val c of None \<Rightarrow> 0 | Some d \<Rightarrow> d)) 0 s"

text \<open>The exponent part of a decimal literal, as a factor.\<close>

definition exponent_factor :: "string \<Rightarrow> rat option" where
  "exponent_factor r =
     (case r of
        [] \<Rightarrow> Some 1
      | c # t \<Rightarrow>
          if c = CHR ''e'' \<or> c = CHR ''E''
          then (let (neg, d) = (case t of
                                  x # u \<Rightarrow> if x = CHR ''-'' then (True, u) else if x = CHR ''+'' then (False, u) else (False, t)
                                | [] \<Rightarrow> (False, t))
                in if d \<noteq> [] \<and> list_all is_digit d
                   then Some (if neg then 1 / 10 ^ radix_val 10 d else 10 ^ radix_val 10 d) else None)
          else None)"

definition decimal_literal :: "string \<Rightarrow> rat option" where
  "decimal_literal s =
     (let i = takeWhile is_digit s; r = dropWhile is_digit s;
          (f, r2) = (case r of
                       c # t \<Rightarrow> if c = CHR ''.'' then (takeWhile is_digit t, dropWhile is_digit t) else ([], r)
                     | [] \<Rightarrow> ([], r))
      in if i = [] \<and> f = [] then None
         else map_option (\<lambda>e. (of_nat (radix_val 10 i) + of_nat (radix_val 10 f) / 10 ^ length f) * e) (exponent_factor r2))"

definition unsigned_literal :: "string \<Rightarrow> jsnum" where
  "unsigned_literal s =
     (if s = ''Infinity'' then PInf else case decimal_literal s of None \<Rightarrow> NaN | Some q \<Rightarrow> Fin q)"

text \<open>A literal with the prefix \<open>0x\<close>, \<open>0b\<close> or \<open>0o\<close> in either case.\<close>

definition radix_literal :: "string \<Rightarrow> nat \<Rightarrow> string \<Rightarrow> nat option" where
  "radix_literal letters r s =
     (case s of
        z # x # d \<Rightarrow> if z = CHR ''0'' \<and> x \<in> set letters \<and> d \<noteq> [] \<and> list_all (radix_digit r) d
                     then Some (radix_val r d) else None
      | _ \<Rightarrow> None)"

text \<open>The unary \<open>+\<close> on a string.\<close>

definition StringToNumber :: "string \<Rightarrow> jsnum" where
  "StringToNumber t =
     (let s = trim_space t
      in case s of
           [] \<Rightarrow> Fin 0
         | c # u \<Rightarrow>
             (case (radix_literal ''xX'' 16 s, radix_literal ''bB'' 2 s, radix_literal ''oO'' 8 s) of
                (Some n, _, _) \<Rightarrow> Fin (of_nat n)
              | (None, Some n, _) \<Rightarrow> Fin (of_nat n)
              | (None, None, Some n) \<Rightarrow> Fin (of_nat n)
              | (None, None, None) \<Rightarrow>
                  if c = CHR ''-'' then num_neg (unsigned_literal u)
                  else if c = CHR ''+'' then unsigned_literal u
                  else unsigned_literal s))"

text \<open>
  The number of a primitive value under the operators of the language. Objects are converted by
  their own methods, which are outside the model; they count as NaN here, as plain objects do.
\<close>

fun to_num :: "jsval \<Rightarrow> jsnum" where
  "to_num Undefined = NaN"
| "to_num Null = Fin 0"
| "to_num (Bool b) = Fin (if b then 1 else 0)"
| "to_num (Num n) = n"
| "to_num (Str s) = StringToNumber s"
| "to_num (Sym k) = NaN"
| "to_num (Obj t k) = NaN"

text \<open>\<open>toNumber\<close> of lodash; \<open>prim\<close> is the primitive that the methods of an object give.\<close>

definition toNumber :: "(jsval \<Rightarrow> jsval) \<Rightarrow> jsval \<Rightarrow> jsnum" where
  "toNumber prim v =
     (case v of
        Num n \<Rightarrow> n
      | _ \<Rightarrow>
        if isSymbol v then NaN
        else (let w = (if isObject v then prim v else v)
              in case w of
                   Str s0 \<Rightarrow>
                     (let s = trim_space s0
                      in case radix_literal ''bB'' 2 s of
                           Some n \<Rightarrow> Fin (of_nat n)
                         | None \<Rightarrow>
                             (case radix_literal ''oO'' 8 s of
                                Some n \<Rightarrow> Fin (of_nat n)
                              | None \<Rightarrow>
                                  (case s of
                                     c # u \<Rightarrow> if (c = CHR ''-'' \<or> c = CHR ''+'') \<and> radix_literal ''xX'' 16 u \<noteq> None then NaN
                                              else StringToNumber s
                                   | [] \<Rightarrow> StringToNumber s)))
                 | _ \<Rightarrow> to_num w))"

fun str_less :: "string \<Rightarrow> string \<Rightarrow> bool" where
  "str_less s [] = False"
| "str_less [] (c # t) = True"
| "str_less (a # s) (b # t) =
     ((of_char a :: nat) < of_char b \<or> (a = b \<and> str_less s t))"

text \<open>The operators \<open><\<close> and \<open><=\<close>: by code units on two strings, by number otherwise.\<close>

definition js_less :: "jsval \<Rightarrow> jsval \<Rightarrow> bool" where
  "js_less a b =
     (case (a, b) of
        (Str s, Str t) \<Rightarrow> str_less s t
      | _ \<Rightarrow> num_less (to_num a) (to_num b))"

definition js_le :: "jsval \<Rightarrow> jsval \<Rightarrow> bool" where
  "js_le a b =
     (case (a, b) of
        (Str s, Str t) \<Rightarrow> \<not> str_less t s
      | _ \<Rightarrow> num_le (to_num a) (to_num b))"

definition baseGt :: "jsval \<Rightarrow> jsval \<Rightarrow> bool" where
  "baseGt value other = js_less other value"

definition baseLt :: "jsval \<Rightarrow> jsval \<Rightarrow> bool" where
  "baseLt value other = js_less value other"

section \<open>Operations\<close>

definition createRelationalOperation ::
  "(jsval \<Rightarrow> jsval \<Rightarrow> bool) \<Rightarrow> (jsval \<Rightarrow> jsval) \<Rightarrow> jsval \<Rightarrow> jsval \<Rightarrow> bool" where
  "createRelationalOperation operator prim value other =
     (case (value, other) of
        (Str s, Str t) \<Rightarrow> operator value other
      | _ \<Rightarrow> operator (Num (toNumber prim value)) (Num (toNumber prim other)))"

definition gt :: "(jsval \<Rightarrow> jsval) \<Rightarrow> jsval \<Rightarrow> jsval \<Rightarrow> bool" where
  "gt = createRelationalOperation baseGt"

definition gte :: "(jsval \<Rightarrow> jsval) \<Rightarrow> jsval \<Rightarrow> jsval \<Rightarrow> bool" where
  "gte = createRelationalOperation (\<lambda>value other. js_le other value)"

definition lt :: "(jsval \<Rightarrow> jsval) \<Rightarrow> jsval \<Rightarrow> jsval \<Rightarrow> bool" where
  "lt = createRelationalOperation baseLt"

definition lte :: "(jsval \<Rightarrow> jsval) \<Rightarrow> jsval \<Rightarrow> jsval \<Rightarrow> bool" where
  "lte = createRelationalOperation (\<lambda>value other. js_le value other)"

definition createMathOperation ::
  "(jsnum \<Rightarrow> jsnum \<Rightarrow> jsnum) \<Rightarrow> jsnum \<Rightarrow> jsnum option \<Rightarrow> jsnum option \<Rightarrow> jsnum" where
  "createMathOperation operator defaultValue value other =
     (case (value, other) of
        (None, None) \<Rightarrow> defaultValue
      | (Some v, None) \<Rightarrow> v
      | (None, Some w) \<Rightarrow> w
      | (Some v, Some w) \<Rightarrow> operator v w)"

definition add_js :: "jsnum option \<Rightarrow> jsnum option \<Rightarrow> jsnum" where
  "add_js = createMathOperation num_add (Fin 0)"

definition divide_js :: "jsnum option \<Rightarrow> jsnum option \<Rightarrow> jsnum" where
  "divide_js = createMathOperation num_div (Fin 1)"

definition multiply_js :: "jsnum option \<Rightarrow> jsnum option \<Rightarrow> jsnum" where
  "multiply_js = createMathOperation num_mul (Fin 1)"

definition subtract_js :: "jsnum option \<Rightarrow> jsnum option \<Rightarrow> jsnum" where
  "subtract_js = createMathOperation num_sub (Fin 0)"

section \<open>Sums and extrema\<close>

text \<open>The iteratee gives a number or undefined.\<close>

fun sum_loop :: "'a list \<Rightarrow> ('a \<Rightarrow> jsnum option) \<Rightarrow> jsnum option \<Rightarrow> jsnum option" where
  "sum_loop [] iteratee res = res"
| "sum_loop (v # array) iteratee res =
     sum_loop array iteratee
       (case iteratee v of
          None \<Rightarrow> res
        | Some current \<Rightarrow> Some (case res of None \<Rightarrow> current | Some r \<Rightarrow> num_add r current))"

definition baseSum :: "'a list \<Rightarrow> ('a \<Rightarrow> jsnum option) \<Rightarrow> jsnum option" where
  "baseSum array iteratee = sum_loop array iteratee None"

definition baseMean :: "'a list option \<Rightarrow> ('a \<Rightarrow> jsnum option) \<Rightarrow> jsnum" where
  "baseMean array iteratee =
     (if arr_len array \<noteq> 0
      then (case baseSum (arr_items array) iteratee of
              None \<Rightarrow> NaN
            | Some s \<Rightarrow> num_div s (num_of_int (int (arr_len array))))
      else NaN)"

definition sum_js :: "jsnum option list option \<Rightarrow> jsnum option" where
  "sum_js array = (if arr_len array \<noteq> 0 then baseSum (arr_items array) (\<lambda>v. v) else Some (Fin 0))"

definition sumBy :: "'a list option \<Rightarrow> ('a \<Rightarrow> jsnum option) \<Rightarrow> jsnum option" where
  "sumBy array iteratee = (if arr_len array \<noteq> 0 then baseSum (arr_items array) iteratee else Some (Fin 0))"

definition mean_js :: "jsnum option list option \<Rightarrow> jsnum" where
  "mean_js array = baseMean array (\<lambda>v. v)"

definition meanBy :: "'a list option \<Rightarrow> ('a \<Rightarrow> jsnum option) \<Rightarrow> jsnum" where
  "meanBy array iteratee = baseMean array iteratee"

text \<open>The loop keeps the best computed value and its element; undefined before the first.\<close>

fun extremum_loop ::
  "jsval list \<Rightarrow> (jsval \<Rightarrow> jsval) \<Rightarrow> (jsval \<Rightarrow> jsval \<Rightarrow> bool) \<Rightarrow> jsval \<Rightarrow> jsval \<Rightarrow> jsval" where
  "extremum_loop [] iteratee comparator computed res = res"
| "extremum_loop (v # array) iteratee comparator computed res =
     (let current = iteratee v
      in if \<not> isNil current \<and>
            (if computed = Undefined then strict_eq current current \<and> \<not> isSymbol current else comparator current computed)
         then extremum_loop array iteratee comparator current v
         else extremum_loop array iteratee comparator computed res)"

definition baseExtremum :: "jsval list \<Rightarrow> (jsval \<Rightarrow> jsval) \<Rightarrow> (jsval \<Rightarrow> jsval \<Rightarrow> bool) \<Rightarrow> jsval" where
  "baseExtremum array iteratee comparator = extremum_loop array iteratee comparator Undefined Undefined"

definition max_js :: "jsval list option \<Rightarrow> jsval" where
  "max_js array = (if arr_len array \<noteq> 0 then baseExtremum (arr_items array) (\<lambda>v. v) baseGt else Undefined)"

definition maxBy :: "jsval list option \<Rightarrow> (jsval \<Rightarrow> jsval) \<Rightarrow> jsval" where
  "maxBy array iteratee = (if arr_len array \<noteq> 0 then baseExtremum (arr_items array) iteratee baseGt else Undefined)"

definition min_js :: "jsval list option \<Rightarrow> jsval" where
  "min_js array = (if arr_len array \<noteq> 0 then baseExtremum (arr_items array) (\<lambda>v. v) baseLt else Undefined)"

definition minBy :: "jsval list option \<Rightarrow> (jsval \<Rightarrow> jsval) \<Rightarrow> jsval" where
  "minBy array iteratee = (if arr_len array \<noteq> 0 then baseExtremum (arr_items array) iteratee baseLt else Undefined)"

section \<open>Ranges, repetition and random numbers\<close>

datatype range_error = InvalidArrayLength

text \<open>\<open>nativeMax(nativeCeil((end - start) / (step || 1)), 0)\<close> on finite numbers.\<close>

definition range_length :: "jsnum \<Rightarrow> jsnum \<Rightarrow> jsnum \<Rightarrow> int" where
  "range_length start stop step =
     max \<lceil>num_rat (num_div (num_sub stop start) (if num_truthy step then step else Fin 1))\<rceil> 0"

fun range_loop :: "jsnum \<Rightarrow> jsnum \<Rightarrow> bool \<Rightarrow> nat \<Rightarrow> jsnum list \<Rightarrow> jsnum list" where
  "range_loop start step fromRight 0 res = res"
| "range_loop start step fromRight (Suc len) res =
     range_loop (num_add start step) step fromRight len (if fromRight then start # res else res @ [start])"

definition baseRange :: "jsnum \<Rightarrow> jsnum \<Rightarrow> jsnum \<Rightarrow> bool \<Rightarrow> range_error + jsnum list" where
  "baseRange start stop step fromRight =
     (let len = range_length start stop step
      in if len > MAX_ARRAY_LENGTH then Inl InvalidArrayLength
         else Inr (range_loop start step fromRight (nat len) []))"

definition createRange :: "bool \<Rightarrow> bool \<Rightarrow> jsnum \<Rightarrow> jsnum option \<Rightarrow> jsnum option \<Rightarrow> range_error + jsnum list" where
  "createRange fromRight iterateeCall start stop step =
     (let stop1 = (if iterateeCall then None else stop);
          step1 = (if iterateeCall then None else step);
          start1 = toFinite start;
          (start2, stop2) = (case stop1 of None \<Rightarrow> (Fin 0, start1) | Some e \<Rightarrow> (start1, toFinite e));
          step2 = (case step1 of
                     None \<Rightarrow> if num_less start2 stop2 then Fin 1 else Fin (-1)
                   | Some s \<Rightarrow> toFinite s)
      in baseRange start2 stop2 step2 fromRight)"

definition range_js :: "bool \<Rightarrow> jsnum \<Rightarrow> jsnum option \<Rightarrow> jsnum option \<Rightarrow> range_error + jsnum list" where
  "range_js = createRange False"

definition rangeRight :: "bool \<Rightarrow> jsnum \<Rightarrow> jsnum option \<Rightarrow> jsnum option \<Rightarrow> range_error + jsnum list" where
  "rangeRight = createRange True"

text \<open>
  \<open>times\<close> returns the results it keeps and the further indexes on which it calls the iteratee
  without keeping the result.
\<close>

definition times :: "jsnum \<Rightarrow> (int \<Rightarrow> 'a) \<Rightarrow> 'a list \<times> int list" where
  "times n iteratee =
     (let n1 = num_int (toInteger n)
      in if n1 < 1 \<or> n1 > MAX_SAFE_INTEGER then ([], [])
         else (baseTimes (nat (min n1 MAX_ARRAY_LENGTH)) (\<lambda>i. iteratee (int i)),
               [MAX_ARRAY_LENGTH + 1 .. n1 - MAX_ARRAY_LENGTH - 1]))"

text \<open>\<open>rand\<close> is the number that the host's random generator gives, between 0 and 1.\<close>

definition baseRandom :: "rat \<Rightarrow> rat \<Rightarrow> rat \<Rightarrow> rat" where
  "baseRandom rand lower upper = lower + of_int \<lfloor>rand * (upper - lower + 1)\<rfloor>"

datatype random_arg = RUndefined | RBool bool | RNum jsnum

fun arg_num :: "random_arg \<Rightarrow> jsnum" where
  "arg_num (RNum n) = n"
| "arg_num (RBool b) = Fin (if b then 1 else 0)"
| "arg_num RUndefined = NaN"

text \<open>\<open>eps\<close> is the power of ten the code computes from the number of digits of \<open>rand\<close>.\<close>

definition random_bounds :: "random_arg \<Rightarrow> random_arg \<Rightarrow> rat \<times> rat" where
  "random_bounds lower upper =
     (if lower = RUndefined \<and> upper = RUndefined then (0, 1)
      else if upper = RUndefined then (0, num_rat (toFinite (arg_num lower)))
      else (num_rat (toFinite (arg_num lower)), num_rat (toFinite (arg_num upper))))"

definition random_draw :: "rat \<Rightarrow> rat \<Rightarrow> rat \<times> rat \<Rightarrow> bool \<Rightarrow> rat" where
  "random_draw rand eps bounds floating =
     (case (if fst bounds > snd bounds then (snd bounds, fst bounds) else bounds) of (lower, upper) \<Rightarrow>
        if floating \<or> lower \<noteq> of_int (rat_trunc lower) \<or> upper \<noteq> of_int (rat_trunc upper)
        then min (lower + rand * (upper - lower + eps)) upper
        else baseRandom rand lower upper)"

text \<open>A boolean in the place of a bound is the \<open>floating\<close> flag; an iteratee call drops the last two arguments.\<close>

definition random :: "rat \<Rightarrow> rat \<Rightarrow> bool \<Rightarrow> random_arg \<Rightarrow> random_arg \<Rightarrow> bool option \<Rightarrow> rat" where
  "random rand eps iterateeCall lower upper floating =
     (let upper1 = (if iterateeCall then RUndefined else upper);
          floating1 = (if iterateeCall then None else floating)
      in case (floating1, upper1, lower) of
           (None, RBool b, _) \<Rightarrow> random_draw rand eps (random_bounds lower RUndefined) b
         | (None, _, RBool b) \<Rightarrow> random_draw rand eps (random_bounds RUndefined upper1) b
         | _ \<Rightarrow> random_draw rand eps (random_bounds lower upper1) (floating1 = Some True))"

section \<open>Lemmas\<close>


lemma num_sub_Fin [simp]: "num_sub (Fin p) (Fin q) = Fin (p - q)"
  by (simp add: num_sub_def)

lemma num_rat_div_Fin: "q \<noteq> 0 \<Longrightarrow> num_rat (num_div (Fin p) (Fin q)) = p / q"
  by (auto simp: num_div_def num_infinite_def signed_def Let_def abs_if divide_less_0_iff)

lemma num_rat_mul_Fin: "num_rat (num_mul (Fin p) (Fin q)) = p * q"
  by (auto simp: num_mul_def num_infinite_def signed_def Let_def abs_if mult_less_0_iff)

lemma range_length_Fin:
  "s \<noteq> 0 \<Longrightarrow> range_length (Fin a) (Fin b) (Fin s) = max \<lceil>(b - a) / s\<rceil> 0"
  by (simp add: range_length_def num_rat_div_Fin)

lemma range_loop_Fin:
  "range_loop (Fin a) (Fin s) fromRight n res =
     (if fromRight then rev (map (\<lambda>i. Fin (a + of_nat i * s)) [0..<n]) @ res
      else res @ map (\<lambda>i. Fin (a + of_nat i * s)) [0..<n])"
proof (induction n arbitrary: a res)
  case 0
  then show ?case by simp
next
  case (Suc n)
  have "map (\<lambda>i. Fin (a + of_nat i * s)) [0..<Suc n] = Fin a # map (\<lambda>i. Fin (a + s + of_nat i * s)) [0..<n]"
    by (simp add: upt_conv_Cons map_Suc_upt [symmetric] o_def distrib_right algebra_simps del: upt_Suc)
  then show ?case using Suc [of "a + s"] by simp
qed

lemma below_ceiling:
  fixes s :: rat assumes "i < nat (max \<lceil>(b - a) / s\<rceil> 0)" "s \<noteq> 0"
  shows "if s > 0 then a + of_nat i * s < b else a + of_nat i * s > b"
proof -
  have "int i < \<lceil>(b - a) / s\<rceil>" using assms(1) by (simp add: zless_nat_eq_int_zless less_max_iff_disj)
  then have "of_nat i < (b - a) / s" by (simp add: less_ceiling_iff)
  then show ?thesis using assms(2) by (auto simp: field_simps split: if_splits)
qed

lemma past_ceiling:
  fixes s :: rat assumes "s \<noteq> 0" "n = nat (max \<lceil>(b - a) / s\<rceil> 0)"
  shows "\<not> (if s > 0 then a + of_nat n * s < b else a + of_nat n * s > b)"
proof -
  have "(b - a) / s \<le> of_int \<lceil>(b - a) / s\<rceil>" by (rule le_of_int_ceiling)
  also have "\<dots> \<le> of_int (int n)" using assms(2) by (simp only: of_int_le_iff)
  finally have "(b - a) / s \<le> of_nat n" by simp
  then show ?thesis using assms(1) by (auto simp: field_simps split: if_splits)
qed

lemma str_less_irrefl [simp]: "\<not> str_less s s"
  by (induction s) auto

subsection \<open>Extrema of numbers\<close>

lemma num_strict_eq_simps [simp]:
  "num_strict_eq (Fin p) (Fin q) \<longleftrightarrow> p = q" "num_strict_eq NegZero (Fin q) \<longleftrightarrow> q = 0" "num_strict_eq (Fin q) NegZero \<longleftrightarrow> q = 0"
  "num_strict_eq n n \<longleftrightarrow> n \<noteq> NaN"
  by (auto simp: num_strict_eq_def)

lemma num_le_trans: "num_le a b \<Longrightarrow> num_le b c \<Longrightarrow> num_le a c"
  by (cases a; cases b; cases c) (auto simp: num_le_def num_strict_eq_def split: if_splits)

lemma num_le_refl: "a \<noteq> NaN \<Longrightarrow> num_le a a"
  by (cases a) (auto simp: num_le_def num_strict_eq_def split: if_splits)

lemma num_less_linear: "a \<noteq> NaN \<Longrightarrow> b \<noteq> NaN \<Longrightarrow> \<not> num_less a b \<Longrightarrow> num_le b a"
  by (cases a; cases b) (auto simp: num_le_def num_strict_eq_def split: if_splits)

lemma num_less_not_nan: "num_less a b \<Longrightarrow> a \<noteq> NaN \<and> b \<noteq> NaN"
  by (cases a; cases b) auto

lemma num_less_le: "num_less a b \<Longrightarrow> num_le a b"
  by (simp add: num_le_def)

lemma extremum_loop_Num:
  "extremum_loop (Num x # l) (\<lambda>v. v) better (Num c) r =
     (if better (Num x) (Num c) then extremum_loop l (\<lambda>v. v) better (Num x) (Num x)
      else extremum_loop l (\<lambda>v. v) better (Num c) r)"
  "extremum_loop (Num x # l) (\<lambda>v. v) better Undefined r =
     (if x \<noteq> NaN then extremum_loop l (\<lambda>v. v) better (Num x) (Num x)
      else extremum_loop l (\<lambda>v. v) better Undefined r)"
  by (simp_all add: isNil_def isSymbol_def Let_def)

text \<open>
  What the loop of \<open>baseExtremum\<close> needs from its comparator on numbers: it is false on NaN, and where it
  does not prefer a number, that number is bounded by the best one so far.
\<close>

locale extremum_order =
  fixes better :: "jsval \<Rightarrow> jsval \<Rightarrow> bool"
    and bounded_by :: "jsnum \<Rightarrow> jsnum \<Rightarrow> bool"
  assumes better_not_nan: "better (Num a) (Num b) \<Longrightarrow> a \<noteq> NaN"
    and better_within: "better (Num a) (Num b) \<Longrightarrow> bounded_by b a"
    and not_better: "a \<noteq> NaN \<Longrightarrow> b \<noteq> NaN \<Longrightarrow> \<not> better (Num a) (Num b) \<Longrightarrow> bounded_by a b"
    and within_refl: "a \<noteq> NaN \<Longrightarrow> bounded_by a a"
    and within_trans: "bounded_by a b \<Longrightarrow> bounded_by b c \<Longrightarrow> bounded_by a c"
begin

lemma loop_from:
  assumes "c \<noteq> NaN"
  shows "\<exists>m. extremum_loop (map Num xs) (\<lambda>v. v) better (Num c) (Num c) = Num m \<and> m \<noteq> NaN \<and> m \<in> insert c (set xs) \<and>
             bounded_by c m \<and> (\<forall>x \<in> set xs. x \<noteq> NaN \<longrightarrow> bounded_by x m)"
  using assms
proof (induction xs arbitrary: c)
  case Nil
  then show ?case using within_refl by simp
next
  case (Cons x xs)
  show ?case
  proof (cases "better (Num x) (Num c)")
    case True
    note x = better_not_nan [OF True] and w = better_within [OF True]
    obtain m where m: "extremum_loop (map Num xs) (\<lambda>v. v) better (Num x) (Num x) = Num m" "m \<noteq> NaN"
      "m \<in> insert x (set xs)" "bounded_by x m" "\<forall>y \<in> set xs. y \<noteq> NaN \<longrightarrow> bounded_by y m"
      using Cons.IH [OF x] by blast
    then show ?thesis using True within_trans [OF w m(4)] by (auto simp: extremum_loop_Num simp del: extremum_loop.simps(2))
  next
    case False
    obtain m where m: "extremum_loop (map Num xs) (\<lambda>v. v) better (Num c) (Num c) = Num m" "m \<noteq> NaN"
      "m \<in> insert c (set xs)" "bounded_by c m" "\<forall>y \<in> set xs. y \<noteq> NaN \<longrightarrow> bounded_by y m"
      using Cons.IH [OF Cons.prems] by blast
    then show ?thesis
      using False not_better [OF _ Cons.prems False] within_trans [OF _ m(4)] by (auto simp: extremum_loop_Num simp del: extremum_loop.simps(2))
  qed
qed

lemma loop_start:
  "extremum_loop (map Num xs) (\<lambda>v. v) better Undefined Undefined =
     (case dropWhile (\<lambda>x. x = NaN) xs of [] \<Rightarrow> Undefined | c # ys \<Rightarrow> extremum_loop (map Num ys) (\<lambda>v. v) better (Num c) (Num c))"
  by (induction xs) (auto simp: extremum_loop_Num simp del: extremum_loop.simps(2))

lemma extremum_of_numbers:
  assumes "x \<in> set xs" "x \<noteq> NaN"
  shows "\<exists>m \<in> set xs. baseExtremum (map Num xs) (\<lambda>v. v) better = Num m \<and> m \<noteq> NaN \<and> (\<forall>x \<in> set xs. x \<noteq> NaN \<longrightarrow> bounded_by x m)"
proof -
  obtain c ys where d: "dropWhile (\<lambda>x. x = NaN) xs = c # ys"
    using assms by (metis (mono_tags, lifting) dropWhile_eq_Nil_conv neq_Nil_conv)
  then have c: "c \<noteq> NaN" by (metis (mono_tags, lifting) hd_dropWhile list.distinct(1) list.sel(1))
  have split: "xs = takeWhile (\<lambda>x. x = NaN) xs @ c # ys" using d by (metis takeWhile_dropWhile_id)
  then have sub: "insert c (set ys) \<subseteq> set xs" and sup: "\<And>x. x \<in> set xs \<Longrightarrow> x \<noteq> NaN \<Longrightarrow> x \<in> insert c (set ys)"
    by (metis insert_subset list.simps(15) set_append sup_ge2, metis (mono_tags, lifting) Un_iff list.simps(15) set_append set_takeWhileD)
  from loop_from [OF c, of ys] obtain m where
    "extremum_loop (map Num ys) (\<lambda>v. v) better (Num c) (Num c) = Num m" "m \<noteq> NaN" "m \<in> insert c (set ys)"
    "bounded_by c m" "\<forall>x \<in> set ys. x \<noteq> NaN \<longrightarrow> bounded_by x m" by blast
  then show ?thesis using d sub sup by (intro bexI [of _ m]) (auto simp: baseExtremum_def loop_start)
qed

lemma extremum_all_nan: "\<forall>x \<in> set xs. x = NaN \<Longrightarrow> baseExtremum (map Num xs) (\<lambda>v. v) better = Undefined"
  by (simp add: baseExtremum_def loop_start dropWhile_eq_Nil_conv [THEN iffD2])

end

interpretation greatest: extremum_order baseGt num_le
  by unfold_locales (auto simp: baseGt_def js_less_def num_le_refl num_less_linear num_less_le
      dest: num_less_not_nan intro: num_le_trans)

interpretation least: extremum_order baseLt "\<lambda>a b. num_le b a"
  by unfold_locales (auto simp: baseLt_def js_less_def num_le_refl num_less_linear num_less_le
      dest: num_less_not_nan intro: num_le_trans)


section \<open>Properties\<close>

text \<open>
  A range from \<open>a\<close> to \<open>b\<close> with a step other than 0 lists \<open>a\<close>, \<open>a + s\<close>, \<open>a + 2s\<close>, ... (in reverse
  for \<open>rangeRight\<close>): every number listed is before \<open>b\<close> in the direction of the step, and the next one
  is not.
\<close>

theorem createRange_progression:
  assumes "createRange fromRight False (Fin a) (Some (Fin b)) (Some (Fin s)) = Inr xs" "s \<noteq> 0"
  shows "(if fromRight then rev xs else xs) = map (\<lambda>i. Fin (a + of_nat i * s)) [0..<length xs] \<and>
         (\<forall>i < length xs. if s > 0 then a + of_nat i * s < b else a + of_nat i * s > b) \<and>
         \<not> (if s > 0 then a + of_nat (length xs) * s < b else a + of_nat (length xs) * s > b)"
proof -
  define n where "n = nat (max \<lceil>(b - a) / s\<rceil> 0)"
  have "xs = range_loop (Fin a) (Fin s) fromRight n []"
    using assms by (auto simp: createRange_def baseRange_def Let_def range_length_Fin n_def split: if_splits)
  then have xs: "xs = (if fromRight then rev (map (\<lambda>i. Fin (a + of_nat i * s)) [0..<n])
                       else map (\<lambda>i. Fin (a + of_nat i * s)) [0..<n])"
    by (simp add: range_loop_Fin)
  then have n: "length xs = n" by simp
  have "\<forall>i < n. if s > 0 then a + of_nat i * s < b else a + of_nat i * s > b"
    using below_ceiling [OF _ assms(2)] by (simp add: n_def)
  then show ?thesis using xs past_ceiling [OF assms(2) n_def] unfolding n by simp
qed

theorem createRange_progression_witness:
  "createRange False False (Fin 1) (Some (Fin 10)) (Some (Fin 4)) = Inr [Fin 1, Fin 5, Fin 9] \<and>
   \<not> 1 + of_nat 3 * (4 :: rat) < 10"
proof -
  have c: "\<lceil>9 / 4 :: rat\<rceil> = 3" by (rule ceiling_unique) simp_all
  have r: "createRange False False (Fin 1) (Some (Fin 10)) (Some (Fin 4)) = Inr [Fin 1, Fin 5, Fin 9]"
    by (simp add: createRange_def baseRange_def range_length_Fin MAX_ARRAY_LENGTH_def c eval_nat_numeral)
  then show ?thesis using createRange_progression [OF r] by simp
qed

text \<open>
  \<open>max\<close> and \<open>min\<close> of an array of numbers skip NaN: if some element is a number, the result is an
  element that no other element exceeds (for \<open>max\<close>) or is below (for \<open>min\<close>); with none, it is undefined.
\<close>

theorem max_min_extrema:
  "if \<exists>x \<in> set xs. x \<noteq> NaN
   then (\<exists>m \<in> set xs. max_js (Some (map Num xs)) = Num m \<and> m \<noteq> NaN \<and> (\<forall>x \<in> set xs. x \<noteq> NaN \<longrightarrow> num_le x m)) \<and>
        (\<exists>m \<in> set xs. min_js (Some (map Num xs)) = Num m \<and> m \<noteq> NaN \<and> (\<forall>x \<in> set xs. x \<noteq> NaN \<longrightarrow> num_le m x))
   else max_js (Some (map Num xs)) = Undefined \<and> min_js (Some (map Num xs)) = Undefined"
proof (cases "\<exists>x \<in> set xs. x \<noteq> NaN")
  case True
  then obtain x where x: "x \<in> set xs" "x \<noteq> NaN" by blast
  then have "arr_len (Some (map Num xs)) \<noteq> 0" by (auto simp: arr_len_def)
  then show ?thesis
    using True greatest.extremum_of_numbers [OF x] least.extremum_of_numbers [OF x]
    by (simp add: max_js_def min_js_def)
next
  case False
  then show ?thesis
    using greatest.extremum_all_nan [of xs] least.extremum_all_nan [of xs] by (simp add: max_js_def min_js_def)
qed

theorem max_min_extrema_witness:
  "\<exists>m \<in> {NaN, Fin 3, NInf}. max_js (Some (map Num [NaN, Fin 3, NInf])) = Num m \<and> num_le (Fin 3) m"
  using max_min_extrema [of "[NaN, Fin 3, NInf]"] by auto

text \<open>
  A random number lies between the two bounds given, in either order, both for the integer draw
  and for the floating draw.
\<close>

theorem random_within_bounds:
  assumes "0 \<le> rand" "rand < 1" "0 \<le> eps"
  shows "let r = random rand eps False (RNum (Fin a)) (RNum (Fin b)) floating in min a b \<le> r \<and> r \<le> max a b"
proof -
  define lo hi where "lo = min a b" and "hi = max a b"
  have le: "lo \<le> hi" by (simp add: lo_def hi_def)
  have fl: "lo \<le> min (lo + rand * (hi - lo + eps)) hi \<and> min (lo + rand * (hi - lo + eps)) hi \<le> hi"
    using le assms by simp
  have int: "lo \<le> baseRandom rand lo hi \<and> baseRandom rand lo hi \<le> hi" 
    if "lo = of_int i" "hi = of_int j" for i j
  proof -
    have "rand * (hi - lo + 1) < of_int (j - i + 1)" "0 \<le> rand * (hi - lo + 1)"
      using that assms le mult_strict_right_mono [of rand 1 "hi - lo + 1"] by auto
    then have "\<lfloor>rand * (hi - lo + 1)\<rfloor> < j - i + 1" "0 \<le> \<lfloor>rand * (hi - lo + 1)\<rfloor>"
      by (simp_all only: floor_less_iff zero_le_floor)
    then show ?thesis using that by (simp add: baseRandom_def)
  qed
  have "random rand eps False (RNum (Fin a)) (RNum (Fin b)) floating = random_draw rand eps (a, b) (floating = Some True)"
    by (cases floating) (simp_all add: random_def random_bounds_def)
  also have "\<dots> = (if floating = Some True \<or> lo \<noteq> of_int (rat_trunc lo) \<or> hi \<noteq> of_int (rat_trunc hi)
                    then min (lo + rand * (hi - lo + eps)) hi else baseRandom rand lo hi)"
    by (cases "b < a") (simp_all add: random_draw_def lo_def hi_def min_absorb1 min_absorb2 max_absorb1 max_absorb2)
  finally show ?thesis using fl int [of "rat_trunc lo" "rat_trunc hi"] by (simp add: lo_def hi_def Let_def)
qed

theorem random_within_bounds_witness:
  "let r = random (1 / 2) (1 / 10) False (RNum (Fin 7)) (RNum (Fin 3)) None in 3 \<le> r \<and> r \<le> 7"
  using random_within_bounds [of "1 / 2" "1 / 10" 7 3 None] by simp

text \<open>
  Up to the greatest array length, \<open>times\<close> calls the iteratee on 0, ..., n - 1 and returns the results.
  Beyond it the iteratee is called fewer than the \<open>n\<close> times asked for.
\<close>

theorem times_call_count:
  assumes "1 \<le> n" "n \<le> MAX_SAFE_INTEGER"
  shows "case times (num_of_int n) iteratee of (res, further) \<Rightarrow>
           if n \<le> MAX_ARRAY_LENGTH then res = map (\<lambda>i. iteratee (int i)) [0..<nat n] \<and> further = []
           else int (length res + length further) < n"
  using assms by (auto simp: times_def Let_def MAX_ARRAY_LENGTH_def)

theorem times_call_count_witness:
  "case times (num_of_int 5000000000) (\<lambda>i. i) of (res, further) \<Rightarrow> int (length res + length further) < 5000000000"
proof -
  have "1 \<le> (5000000000 :: int)" "5000000000 \<le> MAX_SAFE_INTEGER" "\<not> 5000000000 \<le> MAX_ARRAY_LENGTH"
    by (simp_all add: MAX_SAFE_INTEGER_def MAX_ARRAY_LENGTH_def)
  then show ?thesis using times_call_count [of 5000000000 "\<lambda>i. i"] by simp
qed

end
