(* ===== verification/JsStrings.thy ===== *)
theory JsStrings
  imports JsMath
begin

text \<open>
  String functions of lodash.js: repetition and padding, escaping, trimming, truncation, prefix and suffix
  tests. The characters are the code units 0 to 255, on which the patterns for astral and
  combining symbols never match: every symbol is one code unit, and the branches
  of the code for complex symbols are not taken. Arguments documented as strings are
  strings, None where one is left out.
\<close>

section \<open>Symbols\<close>

definition stringSize :: "string \<Rightarrow> int" where
  "stringSize s = int (length s)"

definition stringToArray :: "string \<Rightarrow> jsval list" where
  "stringToArray s = map (\<lambda>c. Str [c]) s"

text \<open>The method \<open>join('')\<close> of an array of strings.\<close>

fun str_of :: "jsval \<Rightarrow> string" where
  "str_of (Str s) = s"
| "str_of v = []"

definition join_symbols :: "jsval list \<Rightarrow> string" where
  "join_symbols xs = concat (map str_of xs)"

text \<open>The string methods \<open>indexOf\<close> and \<open>lastIndexOf\<close>.\<close>

definition occurs_at :: "string \<Rightarrow> string \<Rightarrow> nat \<Rightarrow> bool" where
  "occurs_at s t i = (take (length t) (drop i s) = t)"

definition str_indexOf :: "string \<Rightarrow> string \<Rightarrow> nat \<Rightarrow> int" where
  "str_indexOf s t fromIndex =
     (case find (occurs_at s t) [min fromIndex (length s)..<Suc (length s)] of None \<Rightarrow> -1 | Some i \<Rightarrow> int i)"

definition str_lastIndexOf :: "string \<Rightarrow> string \<Rightarrow> int" where
  "str_lastIndexOf s t =
     (case find (occurs_at s t) (rev [0..<Suc (length s)]) of None \<Rightarrow> -1 | Some i \<Rightarrow> int i)"

section \<open>Repetition and padding\<close>

text \<open>The loop of \<open>baseRepeat\<close>, by squaring.\<close>

fun repeat_loop :: "string \<Rightarrow> nat \<Rightarrow> string \<Rightarrow> string" where
  "repeat_loop string n res =
     (let res1 = (if n mod 2 \<noteq> 0 then res @ string else res); n1 = n div 2
      in if n1 \<noteq> 0 then repeat_loop (string @ string) n1 res1 else res1)"

declare repeat_loop.simps [simp del]

definition baseRepeat :: "string \<Rightarrow> int \<Rightarrow> string" where
  "baseRepeat string n =
     (if string = [] \<or> n < 1 \<or> n > MAX_SAFE_INTEGER then [] else repeat_loop string (nat n) [])"

definition repeat :: "string \<Rightarrow> jsnum option \<Rightarrow> bool option \<Rightarrow> string" where
  "repeat string n iterateeCall =
     (if (case iterateeCall of None \<Rightarrow> n = None | Some g \<Rightarrow> g) then baseRepeat string 1
      else baseRepeat string (int_arg n))"

definition createPadding :: "int \<Rightarrow> string option \<Rightarrow> string" where
  "createPadding len chars =
     (let cs = (case chars of None \<Rightarrow> '' '' | Some c \<Rightarrow> c); charsLength = length cs
      in if charsLength < 2 then (if charsLength \<noteq> 0 then baseRepeat cs len else cs)
         else take (nat len) (baseRepeat cs \<lceil>of_int len / of_int (stringSize cs) :: rat\<rceil>))"

definition pad :: "string \<Rightarrow> jsnum option \<Rightarrow> string option \<Rightarrow> string" where
  "pad string len chars =
     (let n = int_arg len; strLength = (if n \<noteq> 0 then stringSize string else 0)
      in if n = 0 \<or> strLength \<ge> n then string
         else (let mid = of_int (n - strLength) / 2 :: rat
               in createPadding \<lfloor>mid\<rfloor> chars @ string @ createPadding \<lceil>mid\<rceil> chars))"

definition padEnd :: "string \<Rightarrow> jsnum option \<Rightarrow> string option \<Rightarrow> string" where
  "padEnd string len chars =
     (let n = int_arg len; strLength = (if n \<noteq> 0 then stringSize string else 0)
      in if n \<noteq> 0 \<and> strLength < n then string @ createPadding (n - strLength) chars else string)"

definition padStart :: "string \<Rightarrow> jsnum option \<Rightarrow> string option \<Rightarrow> string" where
  "padStart string len chars =
     (let n = int_arg len; strLength = (if n \<noteq> 0 then stringSize string else 0)
      in if n \<noteq> 0 \<and> strLength < n then createPadding (n - strLength) chars @ string else string)"

section \<open>Prefixes and suffixes\<close>

definition clamp_position :: "jsnum option \<Rightarrow> nat \<Rightarrow> nat" where
  "clamp_position position len =
     nat (num_int (baseClamp (num_of_int (int_arg position)) (Some (Fin 0)) (Some (num_of_int (int len)))))"

definition startsWith :: "string \<Rightarrow> string \<Rightarrow> jsnum option \<Rightarrow> bool" where
  "startsWith string target position =
     (let p = clamp_position position (length string) in take (length target) (drop p string) = target)"

definition endsWith :: "string \<Rightarrow> string \<Rightarrow> jsnum option \<Rightarrow> bool" where
  "endsWith string target position =
     (let len = length string;
          stop = (case position of None \<Rightarrow> len | Some p \<Rightarrow> clamp_position position len);
          start = int stop - int (length target)
      in start \<ge> 0 \<and> take (stop - nat start) (drop (nat start) string) = target)"

section \<open>Escaping\<close>

definition htmlEscapes :: "(char \<times> string) list" where
  "htmlEscapes =
     [(CHR ''&'', ''&amp;''), (CHR ''<'', ''&lt;''), (CHR ''>'', ''&gt;''),
      (CHR 0x22, ''&quot;''), (CHR 0x27, ''&#39;''), (CHR 0x60, ''&#96;'')]"

definition htmlUnescapes :: "(string \<times> char) list" where
  "htmlUnescapes =
     [(''&amp;'', CHR ''&''), (''&lt;'', CHR ''<''), (''&gt;'', CHR ''>''),
      (''&quot;'', CHR 0x22), (''&#39;'', CHR 0x27), (''&#96;'', CHR 0x60)]"

definition reUnescapedHtml :: "char \<Rightarrow> bool" where
  "reUnescapedHtml c = (c \<in> {CHR ''&'', CHR ''<'', CHR ''>'', CHR 0x22, CHR 0x27, CHR 0x60})"

text \<open>A replacement function that finds no entry gives undefined, which is then printed.\<close>

definition escapeHtmlChar :: "char \<Rightarrow> string" where
  "escapeHtmlChar c = (case map_of htmlEscapes c of None \<Rightarrow> ''undefined'' | Some e \<Rightarrow> e)"

definition escape :: "string \<Rightarrow> string" where
  "escape string =
     (if string \<noteq> [] \<and> list_ex reUnescapedHtml string
      then concat (map (\<lambda>c. if reUnescapedHtml c then escapeHtmlChar c else [c]) string)
      else string)"

text \<open>The entity that the pattern \<open>reEscapedHtml\<close> matches at the start of a string.\<close>

definition reEscapedHtml :: "string \<Rightarrow> string option" where
  "reEscapedHtml s =
     find (\<lambda>e. take (length e) s = e) [''&amp;'', ''&lt;'', ''&gt;'', ''&quot;'', ''&#39;'', ''&#96;'']"

definition unescapeHtmlChar :: "string \<Rightarrow> string" where
  "unescapeHtmlChar e = (case map_of htmlUnescapes e of None \<Rightarrow> ''undefined'' | Some c \<Rightarrow> [c])"

function unescape_loop :: "string \<Rightarrow> string" where
  "unescape_loop [] = []"
| "unescape_loop (c # s) =
     (case reEscapedHtml (c # s) of
        None \<Rightarrow> c # unescape_loop s
      | Some e \<Rightarrow> unescapeHtmlChar e @ unescape_loop (drop (length e - 1) s))"
  by pat_completeness auto

termination
  by (relation "measure length") (auto simp: less_Suc_eq_le)

definition reHasEscapedHtml :: "string \<Rightarrow> bool" where
  "reHasEscapedHtml s = list_ex (\<lambda>i. reEscapedHtml (drop i s) \<noteq> None) [0..<length s]"

definition unescape :: "string \<Rightarrow> string" where
  "unescape string = (if string \<noteq> [] \<and> reHasEscapedHtml string then unescape_loop string else string)"

definition reRegExpChar :: "char \<Rightarrow> bool" where
  "reRegExpChar c = (c \<in> set (CHR 0x5c # ''^$.*+?()[]{}|''))"

definition escapeRegExp :: "string \<Rightarrow> string" where
  "escapeRegExp string =
     (if string \<noteq> [] \<and> list_ex reRegExpChar string
      then concat (map (\<lambda>c. if reRegExpChar c then [CHR 0x5c, c] else [c]) string)
      else string)"

definition deburredLetters :: "(nat \<times> string) list" where
  "deburredLetters =
     [(0xc0, ''A''), (0xc1, ''A''), (0xc2, ''A''), (0xc3, ''A''), (0xc4, ''A''), (0xc5, ''A''),
      (0xe0, ''a''), (0xe1, ''a''), (0xe2, ''a''), (0xe3, ''a''), (0xe4, ''a''), (0xe5, ''a''),
      (0xc7, ''C''), (0xe7, ''c''),
      (0xd0, ''D''), (0xf0, ''d''),
      (0xc8, ''E''), (0xc9, ''E''), (0xca, ''E''), (0xcb, ''E''),
      (0xe8, ''e''), (0xe9, ''e''), (0xea, ''e''), (0xeb, ''e''),
      (0xcc, ''I''), (0xcd, ''I''), (0xce, ''I''), (0xcf, ''I''),
      (0xec, ''i''), (0xed, ''i''), (0xee, ''i''), (0xef, ''i''),
      (0xd1, ''N''), (0xf1, ''n''),
      (0xd2, ''O''), (0xd3, ''O''), (0xd4, ''O''), (0xd5, ''O''), (0xd6, ''O''), (0xd8, ''O''),
      (0xf2, ''o''), (0xf3, ''o''), (0xf4, ''o''), (0xf5, ''o''), (0xf6, ''o''), (0xf8, ''o''),
      (0xd9, ''U''), (0xda, ''U''), (0xdb, ''U''), (0xdc, ''U''),
      (0xf9, ''u''), (0xfa, ''u''), (0xfb, ''u''), (0xfc, ''u''),
      (0xdd, ''Y''), (0xfd, ''y''), (0xff, ''y''),
      (0xc6, ''Ae''), (0xe6, ''ae''),
      (0xde, ''Th''), (0xfe, ''th''),
      (0xdf, ''ss'')]"

definition reLatin1 :: "char \<Rightarrow> bool" where
  "reLatin1 c =
     (let n = of_char c :: nat
      in (0xc0 \<le> n \<and> n \<le> 0xd6) \<or> (0xd8 \<le> n \<and> n \<le> 0xde) \<or> (0xdf \<le> n \<and> n \<le> 0xf6) \<or> (0xf8 \<le> n \<and> n \<le> 0xff))"

definition deburrLetter :: "char \<Rightarrow> string" where
  "deburrLetter c = (case map_of deburredLetters (of_char c) of None \<Rightarrow> ''undefined'' | Some s \<Rightarrow> s)"

definition deburr :: "string \<Rightarrow> string" where
  "deburr string = concat (map (\<lambda>c. if reLatin1 c then deburrLetter c else [c]) string)"

section \<open>Trimming and truncation\<close>

function chars_start_loop :: "jsval list \<Rightarrow> jsval list \<Rightarrow> nat \<Rightarrow> nat" where
  "chars_start_loop strSymbols chrSymbols index =
     (if index < length strSymbols \<and> baseIndexOf chrSymbols (strSymbols ! index) 0 > -1
      then chars_start_loop strSymbols chrSymbols (Suc index) else index)"
  by pat_completeness auto

termination
  by (relation "measure (\<lambda>(s, c, i). length s - i)") auto

declare chars_start_loop.simps [simp del]

definition charsStartIndex :: "jsval list \<Rightarrow> jsval list \<Rightarrow> int" where
  "charsStartIndex strSymbols chrSymbols = int (chars_start_loop strSymbols chrSymbols 0)"

fun chars_end_loop :: "jsval list \<Rightarrow> jsval list \<Rightarrow> nat \<Rightarrow> int" where
  "chars_end_loop strSymbols chrSymbols 0 = -1"
| "chars_end_loop strSymbols chrSymbols (Suc index) =
     (if baseIndexOf chrSymbols (strSymbols ! index) 0 > -1 then chars_end_loop strSymbols chrSymbols index else int index)"

definition charsEndIndex :: "jsval list \<Rightarrow> jsval list \<Rightarrow> int" where
  "charsEndIndex strSymbols chrSymbols = chars_end_loop strSymbols chrSymbols (length strSymbols)"

definition trim :: "string \<Rightarrow> string option \<Rightarrow> bool \<Rightarrow> string" where
  "trim string chars guard =
     (if string \<noteq> [] \<and> (guard \<or> chars = None) then trim_space string
      else case chars of
             None \<Rightarrow> string
           | Some cs \<Rightarrow>
               if string = [] \<or> cs = [] then string
               else (let strSymbols = stringToArray string; chrSymbols = stringToArray cs;
                         start = charsStartIndex strSymbols chrSymbols;
                         stop = charsEndIndex strSymbols chrSymbols + 1
                     in join_symbols (castSlice strSymbols start (Some stop))))"

definition trimEnd :: "string \<Rightarrow> string option \<Rightarrow> bool \<Rightarrow> string" where
  "trimEnd string chars guard =
     (if string \<noteq> [] \<and> (guard \<or> chars = None) then rev (dropWhile is_space (rev string))
      else case chars of
             None \<Rightarrow> string
           | Some cs \<Rightarrow>
               if string = [] \<or> cs = [] then string
               else (let strSymbols = stringToArray string;
                         stop = charsEndIndex strSymbols (stringToArray cs) + 1
                     in join_symbols (castSlice strSymbols 0 (Some stop))))"

definition trimStart :: "string \<Rightarrow> string option \<Rightarrow> bool \<Rightarrow> string" where
  "trimStart string chars guard =
     (if string \<noteq> [] \<and> (guard \<or> chars = None) then dropWhile is_space string
      else case chars of
             None \<Rightarrow> string
           | Some cs \<Rightarrow>
               if string = [] \<or> cs = [] then string
               else (let strSymbols = stringToArray string;
                         start = charsStartIndex strSymbols (stringToArray cs)
                     in join_symbols (castSlice strSymbols start None)))"

definition DEFAULT_TRUNC_LENGTH :: int where
  "DEFAULT_TRUNC_LENGTH = 30"

definition DEFAULT_TRUNC_OMISSION :: string where
  "DEFAULT_TRUNC_OMISSION = ''...''"

text \<open>The options of \<open>truncate\<close>, each None where the property is absent. A separator is a string; regular expressions are not modelled.\<close>

record trunc_options =
  length_opt :: "jsnum option"
  omission_opt :: "string option"
  separator_opt :: "string option"

definition truncate :: "string \<Rightarrow> trunc_options \<Rightarrow> string" where
  "truncate string options =
     (let len = (case length_opt options of None \<Rightarrow> DEFAULT_TRUNC_LENGTH | Some n \<Rightarrow> num_int (toInteger n));
          omission = (case omission_opt options of None \<Rightarrow> DEFAULT_TRUNC_OMISSION | Some s \<Rightarrow> s);
          stop = len - stringSize omission
      in if len \<ge> int (length string) then string
         else if stop < 1 then omission
         else (let res = take (nat stop) string
               in case separator_opt options of
                    None \<Rightarrow> res @ omission
                  | Some sep \<Rightarrow>
                      (let index = str_lastIndexOf res sep
                       in if str_indexOf string sep (nat stop) \<noteq> stop \<and> index > -1
                          then take (nat index) res @ omission else res @ omission)))"

text \<open>The first \<open>k\<close> characters of the padding characters repeated.\<close>

definition fill_text :: "nat \<Rightarrow> string \<Rightarrow> string" where
  "fill_text k cs = take k (concat (replicate k cs))"

section \<open>Lemmas\<close>


lemma int_arg_num_of_int [simp]: "int_arg (Some (num_of_int n)) = n"
  by (simp add: int_arg_def)

subsection \<open>Repetition and padding\<close>

lemma replicate_double: "concat (replicate m (s @ s)) = concat (replicate (2 * m) s)"
  by (induction m) simp_all

lemma repeat_loop_concat: "repeat_loop s n res = res @ concat (replicate n s)"
proof (induction s n res rule: repeat_loop.induct)
  case (1 s n res)
  have n: "n = n mod 2 + 2 * (n div 2)" by presburger
  have r: "concat (replicate n s) = (if n mod 2 \<noteq> 0 then s else []) @ concat (replicate (2 * (n div 2)) s)"
    by (subst n, cases "n mod 2 = 0") (auto simp: replicate_add)
  show ?case
  proof (cases "n div 2 = 0")
    case True
    then show ?thesis by (subst repeat_loop.simps, subst r) (simp add: Let_def)
  next
    case False
    then show ?thesis using 1 [OF refl refl]
      by (subst repeat_loop.simps, subst r) (simp add: Let_def replicate_double)
  qed
qed

lemma baseRepeat_concat:
  "baseRepeat s n = (if n < 1 \<or> n > MAX_SAFE_INTEGER then [] else concat (replicate (nat n) s))"
  by (simp add: baseRepeat_def repeat_loop_concat)

lemma length_fill_text [simp]: "cs \<noteq> [] \<Longrightarrow> length (fill_text k cs) = k"
  by (cases cs) (simp_all add: fill_text_def length_concat sum_list_replicate)

lemma take_concat_replicate:
  assumes "k \<le> j * length cs" "j \<le> k"
  shows "take k (concat (replicate j cs)) = fill_text k cs"
proof -
  have "concat (replicate k cs) = concat (replicate j cs) @ concat (replicate (k - j) cs)"
    using assms(2) by (metis concat_append le_add_diff_inverse replicate_add)
  then show ?thesis using assms(1) by (simp add: fill_text_def length_concat sum_list_replicate)
qed

lemma createPadding_fill:
  assumes "0 \<le> n" "n \<le> MAX_SAFE_INTEGER" "cs \<noteq> []"
  shows "createPadding n (Some cs) = fill_text (nat n) cs"
proof (cases "length cs < 2")
  case True
  then have "length cs = 1" using assms(3) by (cases cs) auto
  then show ?thesis using assms take_concat_replicate [of "nat n" "nat n" cs]
    by (auto simp: createPadding_def Let_def baseRepeat_concat length_concat sum_list_replicate fill_text_def)
next
  case False
  define j where "j = \<lceil>of_int n / of_int (int (length cs)) :: rat\<rceil>"
  have len: "(2 :: rat) \<le> of_int (int (length cs))" using False by simp
  have "of_int n / of_int (int (length cs)) \<le> (of_int n :: rat)"
    using assms(1) len by (simp add: divide_le_eq mult_le_cancel_left1)
  then have jn: "j \<le> n" by (simp add: j_def ceiling_le_iff)
  have "of_int n / of_int (int (length cs)) \<le> (of_int j :: rat)" by (simp add: j_def)
  then have "of_int n \<le> (of_int (j * int (length cs)) :: rat)" using len assms(3) by (simp add: divide_le_eq)
  then have nj: "n \<le> j * int (length cs)" by (simp only: of_int_le_iff)
  have "(0 :: rat) \<le> of_int n / of_int (int (length cs))" using assms(1) by simp
  then have j0: "0 \<le> j" unfolding j_def by linarith
  have "take (nat n) (concat (replicate (nat j) cs)) = fill_text (nat n) cs"
    using jn nj j0 by (intro take_concat_replicate) (simp_all add: nat_le_iff nat_mono)
  moreover have "createPadding n (Some cs) = take (nat n) (baseRepeat cs j)"
    using False by (simp add: createPadding_def Let_def stringSize_def j_def)
  ultimately show ?thesis using jn j0 assms nj by (auto simp: baseRepeat_concat)
qed

lemma half_floor_ceiling: "\<lfloor>of_nat k / 2 :: rat\<rfloor> = int (k div 2)" "\<lceil>of_nat k / 2 :: rat\<rceil> = int (k - k div 2)"
proof -
  have "(of_nat k :: rat) = of_nat (2 * (k div 2) + k mod 2)" by simp
  then have k: "(of_nat k :: rat) = 2 * of_nat (k div 2) + of_nat (k mod 2)" by (simp only: of_nat_add of_nat_mult of_nat_numeral)
  have m: "k - k div 2 = k div 2 + k mod 2" by presburger
  show "\<lfloor>of_nat k / 2 :: rat\<rfloor> = int (k div 2)" by (rule floor_unique; cases "k mod 2 = 0") (simp_all add: k)
  show "\<lceil>of_nat k / 2 :: rat\<rceil> = int (k - k div 2)" unfolding m by (rule ceiling_unique; cases "k mod 2 = 0") (simp_all add: k)
qed

subsection \<open>Escaping\<close>

lemma reEscapedHtml_amp: "c \<noteq> CHR ''&'' \<Longrightarrow> reEscapedHtml (c # s) = None"
  by (simp add: reEscapedHtml_def)

lemma unescape_escaped_char:
  "unescape_loop ((if reUnescapedHtml c then escapeHtmlChar c else [c]) @ s) = c # unescape_loop s"
proof (cases "reUnescapedHtml c")
  case True
  then show ?thesis
    by (auto simp: reUnescapedHtml_def escapeHtmlChar_def htmlEscapes_def reEscapedHtml_def unescapeHtmlChar_def htmlUnescapes_def)
next
  case False
  then show ?thesis by (simp add: reUnescapedHtml_def reEscapedHtml_amp)
qed

lemma unescape_escaped:
  "unescape_loop (concat (map (\<lambda>c. if reUnescapedHtml c then escapeHtmlChar c else [c]) s)) = s"
  by (induction s) (simp_all only: list.map concat.simps unescape_loop.simps(1) unescape_escaped_char)

lemma unescape_loop_no_match: "\<not> reHasEscapedHtml s \<Longrightarrow> unescape_loop s = s"
proof (induction s)
  case (Cons c s)
  have all: "reEscapedHtml (drop i (c # s)) = None" if "i < Suc (length s)" for i
    using Cons.prems that by (auto simp: reHasEscapedHtml_def list_ex_iff simp del: upt_Suc)
  have "reEscapedHtml (c # s) = None" "\<not> reHasEscapedHtml s"
    using all [of 0] all [of "Suc i" for i] by (auto simp: reHasEscapedHtml_def list_ex_iff)
  then show ?case using Cons.IH by simp
qed simp

lemma unescape_eq_loop: "unescape s = unescape_loop s"
  by (auto simp: unescape_def unescape_loop_no_match)

lemma escape_eq_map: "escape s = concat (map (\<lambda>c. if reUnescapedHtml c then escapeHtmlChar c else [c]) s)"
proof (cases "list_ex reUnescapedHtml s")
  case True
  then show ?thesis by (auto simp: escape_def)
next
  case False
  then have "concat (map (\<lambda>c. if reUnescapedHtml c then escapeHtmlChar c else [c]) s) = concat (map (\<lambda>c. [c]) s)"
    by (intro arg_cong [of _ _ concat] map_cong) (auto simp: list_ex_iff)
  then show ?thesis using False by (simp add: escape_def concat_map_singleton)
qed

lemma escaped_char_safe:
  "set (if reUnescapedHtml c then escapeHtmlChar c else [c]) \<inter> {CHR ''<'', CHR ''>'', CHR 0x22, CHR 0x27, CHR 0x60} = {}"
  by (auto simp: reUnescapedHtml_def escapeHtmlChar_def htmlEscapes_def)

subsection \<open>Trimming and truncation\<close>

abbreviation in_symbols :: "jsval list \<Rightarrow> jsval \<Rightarrow> bool" where
  "in_symbols chrSymbols x \<equiv> baseIndexOf chrSymbols x 0 > -1"

lemma chars_start_loop_takeWhile:
  "chars_start_loop s c index = index + length (takeWhile (in_symbols c) (drop index s))"
proof (induction s c index rule: chars_start_loop.induct)
  case (1 s c index)
  show ?case
  proof (cases "index < length s")
    case True
    then have "drop index s = s ! index # drop (Suc index) s" by (rule Cons_nth_drop_Suc [symmetric])
    then show ?thesis using 1 True by (subst chars_start_loop.simps) simp
  next
    case False
    then show ?thesis by (subst chars_start_loop.simps) simp
  qed
qed

lemma chars_end_loop_dropWhile:
  "n \<le> length s \<Longrightarrow> chars_end_loop s c n + 1 = int (length (dropWhile (in_symbols c) (rev (take n s))))"
  by (induction n) (auto simp: take_Suc_conv_app_nth)

lemma take_dropWhile_rev: "take (length (dropWhile P (rev xs))) xs = rev (dropWhile P (rev xs))"
  by (simp add: dropWhile_eq_drop rev_drop)

lemma strip_both:
  "drop (length (takeWhile P xs)) (rev (dropWhile P (rev xs))) = rev (dropWhile P (rev (dropWhile P xs)))"
proof (cases "dropWhile P xs")
  case Nil
  then have "dropWhile P (rev xs) = []" by (simp only: dropWhile_eq_Nil_conv set_rev)
  then show ?thesis by (simp only: Nil) simp
next
  case (Cons y ys)
  then have y: "\<not> P y" by (metis hd_dropWhile list.distinct(1) list.sel(1))
  have "rev xs = rev (dropWhile P xs) @ rev (takeWhile P xs)" by (metis rev_append takeWhile_dropWhile_id)
  moreover have "y \<in> set (rev (dropWhile P xs))" using Cons by simp
  ultimately have "dropWhile P (rev xs) = dropWhile P (rev (dropWhile P xs)) @ rev (takeWhile P xs)"
    by (metis dropWhile_append1 y)
  then show ?thesis by simp
qed

lemma in_symbols_char [simp]: "in_symbols (stringToArray cs) (Str [c]) \<longleftrightarrow> c \<in> set cs"
  by (auto simp: stringToArray_def baseIndexOf_find find_left_loop_found eq_def)

lemma join_stringToArray [simp]: "join_symbols (stringToArray s) = s"
  by (induction s) (simp_all add: join_symbols_def stringToArray_def)

lemma castSlice_drop_take:
  assumes "length xs < 2 ^ 32"
  shows "castSlice xs (int a) (Some (int b)) = drop a (take b xs)" "castSlice xs (int a) None = drop a xs"
proof -
  have "baseSlice xs (int a) (int b) = drop a (take b xs)" for b
    by (cases "a \<le> length xs"; cases "b \<le> length xs")
      (simp_all add: baseSlice_take_drop [OF assms] rel_index_def min_absorb1 min_absorb2)
  then show "castSlice xs (int a) (Some (int b)) = drop a (take b xs)" "castSlice xs (int a) None = drop a xs"
    by (simp_all add: castSlice_def)
qed

lemma join_symbols_slice: "join_symbols (drop a (take b (stringToArray s))) = drop a (take b s)"
proof -
  have "drop a (take b (stringToArray s)) = stringToArray (drop a (take b s))"
    by (simp add: stringToArray_def drop_map take_map)
  then show ?thesis by simp
qed

lemma length_stringToArray [simp]: "length (stringToArray s) = length s"
  by (simp add: stringToArray_def)

lemma charsStartIndex_takeWhile:
  "charsStartIndex (stringToArray s) (stringToArray cs) = int (length (takeWhile (\<lambda>c. c \<in> set cs) s))"
  using in_symbols_char [of cs]
  by (simp add: charsStartIndex_def chars_start_loop_takeWhile) (simp add: stringToArray_def [of s] takeWhile_map o_def)

lemma charsEndIndex_dropWhile:
  "charsEndIndex (stringToArray s) (stringToArray cs) + 1 = int (length (dropWhile (\<lambda>c. c \<in> set cs) (rev s)))"
  using in_symbols_char [of cs]
  by (simp add: charsEndIndex_def chars_end_loop_dropWhile) (simp add: stringToArray_def [of s] rev_map dropWhile_map o_def)

section \<open>Properties\<close>

text \<open>
  \<open>baseRepeat\<close> computes the repetition of a string by squaring in a number of rounds logarithmic in
  \<open>n\<close>; it gives exactly \<open>n\<close> copies, and the empty string outside the range 1 to 2^53 - 1.
\<close>

theorem baseRepeat_squaring:
  "baseRepeat s n = (if n < 1 \<or> n > MAX_SAFE_INTEGER then [] else concat (replicate (nat n) s))"
  by (rule baseRepeat_concat)

text \<open>
  Padding fills a string to the length asked for, never more and never less, with the padding characters
  repeated and cut off: on the left, on the right, or split between both sides with the odd
  character on the right.
\<close>

theorem padding_fills:
  assumes "0 \<le> n" "n \<le> MAX_SAFE_INTEGER" "cs \<noteq> []"
  shows "let k = nat n - length s; len = Some (num_of_int n)
         in padStart s len (Some cs) = fill_text k cs @ s \<and> padEnd s len (Some cs) = s @ fill_text k cs \<and>
            pad s len (Some cs) = fill_text (k div 2) cs @ s @ fill_text (k - k div 2) cs \<and>
            length (pad s len (Some cs)) = max (length s) (nat n)"
proof -
  define k where "k = nat n - length s"
  have pads: "createPadding (int j) (Some cs) = fill_text j cs" if "j \<le> k" for j
    using that assms createPadding_fill [of "int j" cs] by (simp add: k_def)
  have half: "\<lfloor>of_int (n - int (length s)) / 2 :: rat\<rfloor> = int (k div 2)" "\<lceil>of_int (n - int (length s)) / 2 :: rat\<rceil> = int (k - k div 2)"
    if "int (length s) < n"
  proof -
    have "of_int (n - int (length s)) = (of_nat k :: rat)" using that by (simp add: k_def)
    then show "\<lfloor>of_int (n - int (length s)) / 2 :: rat\<rfloor> = int (k div 2)" "\<lceil>of_int (n - int (length s)) / 2 :: rat\<rceil> = int (k - k div 2)"
      by (simp_all only: half_floor_ceiling)
  qed
  show ?thesis
  proof (cases "int (length s) < n")
    case True
    then have "n - int (length s) = int k" by (simp add: k_def)
    then show ?thesis using True half pads [of k] pads [of "k div 2"] pads [of "k - k div 2"] assms(3)
      by (simp add: padStart_def padEnd_def pad_def stringSize_def Let_def k_def [symmetric])
  next
    case False
    then have "k = 0" by (simp add: k_def)
    then show ?thesis using False
      by (auto simp: padStart_def padEnd_def pad_def stringSize_def Let_def k_def [symmetric] fill_text_def)
  qed
qed

theorem padding_fills_witness:
  "padStart ''7'' (Some (num_of_int 3)) (Some ''0'') = ''007'' \<and> padEnd ''abc'' (Some (num_of_int 8)) (Some ''_-'') = ''abc_-_-_''"
proof -
  have n: "\<not> MAX_SAFE_INTEGER < 3" "\<not> MAX_SAFE_INTEGER < 8" by (simp_all add: MAX_SAFE_INTEGER_def)
  show ?thesis
    using padding_fills [of 3 "''0''" "''7''"] padding_fills [of 8 "''_-''" "''abc''"] n
    by (simp add: Let_def fill_text_def eval_nat_numeral)
qed

text \<open>
  (C35) Escaping a string for HTML loses nothing: \<open>unescape\<close> gives it back. The escaped string has none
  of the characters less-than, greater-than, quote, apostrophe and backtick.
\<close>

theorem escape_round_trip:
  "unescape (escape s) = s \<and> set (escape s) \<inter> {CHR ''<'', CHR ''>'', CHR 0x22, CHR 0x27, CHR 0x60} = {}"
proof
  show "unescape (escape s) = s" by (simp only: unescape_eq_loop escape_eq_map unescape_escaped)
  show "set (escape s) \<inter> {CHR ''<'', CHR ''>'', CHR 0x22, CHR 0x27, CHR 0x60} = {}"
    using escaped_char_safe by (simp only: escape_eq_map set_concat set_map) blast
qed

text \<open>
  With characters given, \<open>trim\<close> strips them from both ends of a string, \<open>trimStart\<close> from the start and
  \<open>trimEnd\<close> from the end; a string of such characters only becomes empty.
\<close>

theorem trim_strips_ends:
  assumes "length s < 2 ^ 32"
  shows "trim s (Some cs) False = rev (dropWhile (\<lambda>c. c \<in> set cs) (rev (dropWhile (\<lambda>c. c \<in> set cs) s))) \<and>
         trimStart s (Some cs) False = dropWhile (\<lambda>c. c \<in> set cs) s \<and>
         trimEnd s (Some cs) False = rev (dropWhile (\<lambda>c. c \<in> set cs) (rev s))"
proof (cases "s = [] \<or> cs = []")
  case True
  then show ?thesis by (auto simp: trim_def trimStart_def trimEnd_def)
next
  case False
  have len: "length (stringToArray s) < 2 ^ 32" using assms by simp
  note slices = castSlice_drop_take [OF len]
  have "trimStart s (Some cs) False = drop (length (takeWhile (\<lambda>c. c \<in> set cs) s)) s"
    using False join_symbols_slice [of _ "length s" s] by (simp add: trimStart_def charsStartIndex_takeWhile slices)
  moreover have "trimEnd s (Some cs) False = take (length (dropWhile (\<lambda>c. c \<in> set cs) (rev s))) s"
    using False slices(1) [of 0] join_symbols_slice [of 0 _ s] by (simp add: trimEnd_def charsEndIndex_dropWhile)
  moreover have "trim s (Some cs) False = drop (length (takeWhile (\<lambda>c. c \<in> set cs) s)) (take (length (dropWhile (\<lambda>c. c \<in> set cs) (rev s))) s)"
    using False by (simp add: trim_def charsStartIndex_takeWhile charsEndIndex_dropWhile slices join_symbols_slice Let_def)
  ultimately show ?thesis by (simp add: take_dropWhile_rev strip_both dropWhile_eq_drop [symmetric])
qed

theorem trim_strips_ends_witness:
  "trim ''-_a-b_-'' (Some ''_-'') False = ''a-b'' \<and> trimStart ''--a'' (Some ''-'') False = ''a''"
  using trim_strips_ends [of "''-_a-b_-''" "''_-''"] trim_strips_ends [of "''--a''" "''-''"] by simp

text \<open>
  A truncated string is the whole string if that fits in the length asked for; otherwise it ends with the
  omission and is no longer than the length, unless the omission alone is longer, which is
  then the result.
\<close>

theorem truncate_length:
  assumes "length_opt options = Some (num_of_int n)" "omission_opt options = Some omission"
  shows "if int (length s) \<le> n then truncate s options = s
         else (\<exists>i. truncate s options = take i s @ omission) \<and>
              (if int (length omission) < n then int (length (truncate s options)) \<le> n else truncate s options = omission)"
  using assms take_0 [of s]
  by (auto simp: truncate_def Let_def stringSize_def min_def split: option.splits)

theorem truncate_length_witness:
  "truncate ''hello world'' \<lparr>length_opt = Some (num_of_int 2), omission_opt = Some ''...'', separator_opt = None\<rparr> = ''...''"
  using truncate_length [of "\<lparr>length_opt = Some (num_of_int 2), omission_opt = Some ''...'', separator_opt = None\<rparr>" 2 "''...''" "''hello world''"]
  by simp

end
