(* ===== verification/JsPaths.thy ===== *)
theory JsPaths
  imports JsStrings
begin

text \<open>
  Property paths in lodash.js: when a path is a plain key, how a string such as \<open>a[0].b\<close> is taken
  apart, and the conversion of path elements to keys. The regular expressions are matchers on strings;
  each alternative is a definition.
\<close>

section \<open>Matchers\<close>

definition bracket :: "char \<Rightarrow> bool" where
  "bracket c = (c = CHR ''['' \<or> c = CHR '']'')"

definition special :: "char \<Rightarrow> bool" where
  "special c = (c = CHR ''.'' \<or> bracket c)"

definition word_char :: "char \<Rightarrow> bool" where
  "word_char c = (let n = of_char c :: nat in (48 \<le> n \<and> n \<le> 57) \<or> (65 \<le> n \<and> n \<le> 90) \<or> n = 95 \<or> (97 \<le> n \<and> n \<le> 122))"

definition quote_char :: "char \<Rightarrow> bool" where
  "quote_char c = (c = CHR 0x22 \<or> c = CHR 0x27)"

definition line_end :: "char \<Rightarrow> bool" where
  "line_end c = (c = CHR 0x0A \<or> c = CHR 0x0D)"

text \<open>
  The characters up to the next unescaped quote \<open>q\<close>, and what follows the quote. A backslash takes the
  next character with it, which may not end the line.
\<close>

fun quoted :: "char \<Rightarrow> string \<Rightarrow> (string \<times> string) option" where
  "quoted q [] = None"
| "quoted q (c # cs) =
     (if c = q then Some ([], cs)
      else if c = CHR 0x5C
      then (case cs of
              [] \<Rightarrow> None
            | d # ds \<Rightarrow> if line_end d then None else map_option (\<lambda>(x, r). (c # d # x, r)) (quoted q ds))
      else map_option (\<lambda>(x, r). (c # x, r)) (quoted q cs))"

text \<open>A closing bracket, and what follows it.\<close>

fun closed :: "string \<Rightarrow> string option" where
  "closed (c # cs) = (if c = CHR '']'' then Some cs else None)"
| "closed [] = None"

text \<open>A quoted string closed by a bracket.\<close>

fun quoted_key :: "string \<Rightarrow> (string \<times> string) option" where
  "quoted_key [] = None"
| "quoted_key (q # cs) =
     (if quote_char q
      then (case quoted q cs of None \<Rightarrow> None | Some (x, r) \<Rightarrow> map_option (Pair x) (closed r)) else None)"

text \<open>A signed decimal number closed by a bracket.\<close>

definition number_key :: "string \<Rightarrow> (string \<times> string) option" where
  "number_key s =
     (let (sign, u) = (case s of c # cs \<Rightarrow> if c = CHR ''-'' then ([c], cs) else ([], s) | [] \<Rightarrow> ([], s));
          i = takeWhile is_digit u; r = dropWhile is_digit u;
          (f, r2) = (case r of
                       c # t \<Rightarrow> if c = CHR ''.'' \<and> takeWhile is_digit t \<noteq> [] then (c # takeWhile is_digit t, dropWhile is_digit t)
                               else ([], r)
                     | [] \<Rightarrow> ([], r))
      in if i = [] then None else map_option (Pair (sign @ i @ f)) (closed r2))"

section \<open>Keys and paths\<close>

definition reIsPlainProp :: "string \<Rightarrow> bool" where
  "reIsPlainProp s = list_all word_char s"

fun reIsDeepProp :: "string \<Rightarrow> bool" where
  "reIsDeepProp [] = False"
| "reIsDeepProp (c # cs) =
     (c = CHR ''.'' \<or>
      (c = CHR ''['' \<and> (closed (dropWhile (\<lambda>x. \<not> bracket x) cs) \<noteq> None \<or> quoted_key cs \<noteq> None)) \<or>
      reIsDeepProp cs)"

definition reLeadingDot :: "string \<Rightarrow> bool" where
  "reLeadingDot s = (case s of c # cs \<Rightarrow> c = CHR ''.'' | [] \<Rightarrow> False)"

fun reEscapeChar :: "string \<Rightarrow> string" where
  "reEscapeChar [] = []"
| "reEscapeChar (c # cs) =
     (if c = CHR 0x5C
      then (case cs of d # ds \<Rightarrow> if d = CHR 0x5C then d # reEscapeChar ds else reEscapeChar cs | [] \<Rightarrow> [])
      else c # reEscapeChar cs)"

text \<open>A dot or a pair of brackets, and what follows it.\<close>

fun separator :: "string \<Rightarrow> string option" where
  "separator (c # cs) =
     (if c = CHR ''.'' then Some cs else if c = CHR ''['' then closed cs else None)"
| "separator [] = None"

definition empty_key :: "string \<Rightarrow> bool" where
  "empty_key s = (case separator s of None \<Rightarrow> False | Some r \<Rightarrow> r = [] \<or> separator r \<noteq> None)"

text \<open>
  The keys the successive matches of \<open>rePropName\<close> push: a run of characters that are not special, a
  number or a quoted string in brackets, or nothing between two separators, after which the
  search goes on one character further, as it does where nothing matches.
\<close>

function rePropName :: "string \<Rightarrow> string list" where
  "rePropName s =
     (case s of
        [] \<Rightarrow> []
      | c # cs \<Rightarrow>
          if \<not> special c then takeWhile (\<lambda>x. \<not> special x) s # rePropName (dropWhile (\<lambda>x. \<not> special x) s)
          else (case (if c = CHR ''['' then number_key cs else None) of
                  Some (x, r) \<Rightarrow> x # rePropName r
                | None \<Rightarrow>
                   (case (if c = CHR ''['' then quoted_key cs else None) of
                      Some (x, r) \<Rightarrow> reEscapeChar x # rePropName r
                    | None \<Rightarrow> if empty_key s then [] # rePropName cs else rePropName cs)))"
  by pat_completeness auto
termination
proof (relation "measure length")
  have closed: "closed u = Some r \<Longrightarrow> length r < length u" for u r
    by (cases u) (auto split: if_splits)
  have quoted: "quoted q u = Some (x, r) \<Longrightarrow> length r < length u" for q u x r
    by (induction q u arbitrary: x rule: quoted.induct) (fastforce split: if_splits list.splits)+
  have quoted_key: "quoted_key u = Some (x, r) \<Longrightarrow> length r < length u" for u x r
    by (cases u) (auto split: if_splits option.splits dest!: quoted closed)
  have number_key: "number_key u = Some (x, r) \<Longrightarrow> length r \<le> length u" for u x r
  proof -
    have le: "length (dropWhile is_digit v) \<le> length v" for v by (rule length_dropWhile_le)
    show "number_key u = Some (x, r) \<Longrightarrow> length r \<le> length u"
      using le [of u] le [of "tl u"] le [of "tl (dropWhile is_digit u)"] le [of "tl (dropWhile is_digit (tl u))"]
      by (auto simp: number_key_def Let_def split: if_splits list.splits prod.splits dest!: closed)
        (meson le le_SucI less_imp_le_nat less_le_trans)+
  qed
  show "(r, s) \<in> measure length"
    if "s = c # cs" "\<not> \<not> special c" "(if c = CHR ''['' then number_key cs else None) = Some p" "(x, r) = p" for s r c cs p x
    using that number_key [of cs x r] by (auto split: if_splits)
  show "(r, s) \<in> measure length"
    if "s = c # cs" "\<not> \<not> special c" "(if c = CHR ''['' then number_key cs else None) = None"
      "(if c = CHR ''['' then quoted_key cs else None) = Some p" "(x, r) = p" for s r c cs p x
    using that quoted_key [of cs x r] by (auto split: if_splits)
qed (auto simp: le_imp_less_Suc length_dropWhile_le)

declare rePropName.simps [simp del]

definition stringToPath :: "string \<Rightarrow> string list" where
  "stringToPath s = (if reLeadingDot s then [[]] else []) @ rePropName s"

text \<open>
  A path is an array of keys or a single value. \<open>is_in\<close> is the operator \<open>in\<close> on the object, which
  counts as absent where it is null or undefined.
\<close>

datatype path = PathArr "jsval list" | PathVal jsval

fun isKey :: "path \<Rightarrow> (propkey \<Rightarrow> bool) \<Rightarrow> bool" where
  "isKey (PathArr ks) is_in = False"
| "isKey (PathVal (Str s)) is_in = (reIsPlainProp s \<or> \<not> reIsDeepProp s \<or> is_in (PStr s))"
| "isKey (PathVal v) is_in = True"

fun toKey :: "jsval \<Rightarrow> propkey" where
  "toKey (Num NegZero) = PStr ''-0''"
| "toKey v = property_name v"

text \<open>Null and undefined print as the empty string; symbols are not converted here.\<close>

fun toString_js :: "jsval \<Rightarrow> string" where
  "toString_js Undefined = []"
| "toString_js Null = []"
| "toString_js v = (case toKey v of PStr s \<Rightarrow> s | PSym k \<Rightarrow> [])"

fun castPath :: "path \<Rightarrow> jsval list" where
  "castPath (PathArr ks) = ks"
| "castPath (PathVal v) = map Str (stringToPath (toString_js v))"

text \<open>The keys of a path on an object, as every path function begins.\<close>

definition path_keys :: "path \<Rightarrow> (propkey \<Rightarrow> bool) \<Rightarrow> jsval list" where
  "path_keys p is_in =
     (case p of
        PathVal v \<Rightarrow> if isKey p is_in then [v] else castPath p
      | PathArr ks \<Rightarrow> castPath p)"

definition toPath :: "path \<Rightarrow> propkey list" where
  "toPath p =
     (case p of
        PathArr ks \<Rightarrow> map toKey ks
      | PathVal v \<Rightarrow> if isSymbol v then [toKey v] else map PStr (stringToPath (toString_js v)))"

section \<open>Specifications\<close>

text \<open>Ways to write a key in a path.\<close>

datatype path_step = Name string | Quoted char string | Index int

fun step_key :: "path_step \<Rightarrow> string" where
  "step_key (Name s) = s"
| "step_key (Quoted q s) = s"
| "step_key (Index i) = int_str i"

fun step_ok :: "path_step \<Rightarrow> bool" where
  "step_ok (Name s) = (s \<noteq> [] \<and> list_all (\<lambda>c. \<not> special c) s)"
| "step_ok (Quoted q s) = quote_char q"
| "step_ok (Index i) = True"

definition escape_key :: "char \<Rightarrow> string \<Rightarrow> string" where
  "escape_key q s = concat (map (\<lambda>c. if c = q \<or> c = CHR 0x5C then [CHR 0x5C, c] else [c]) s)"

fun print_step :: "path_step \<Rightarrow> string" where
  "print_step (Name s) = CHR ''.'' # s"
| "print_step (Quoted q s) = CHR ''['' # q # escape_key q s @ [q, CHR '']'']"
| "print_step (Index i) = CHR ''['' # int_str i @ [CHR '']'']"

definition print_path :: "path_step list \<Rightarrow> string" where
  "print_path st =
     (case st of Name s # st1 \<Rightarrow> s @ concat (map print_step st1) | _ \<Rightarrow> concat (map print_step st))"

text \<open>The end of a key.\<close>

definition delimited :: "string \<Rightarrow> bool" where
  "delimited r = (r = [] \<or> special (hd r))"

section \<open>Lemmas\<close>

lemma special_simps [simp]:
  "special (CHR ''.'')" "special (CHR ''['')" "special (CHR '']'')" "\<not> special (CHR ''-'')"
  by (simp_all add: special_def bracket_def)

lemma is_digit_simps [simp]:
  "\<not> is_digit (CHR ''.'')" "\<not> is_digit (CHR '']'')" "\<not> is_digit (CHR ''-'')"
  by (simp_all add: is_digit_def)

lemma is_digit_iff: "is_digit c \<longleftrightarrow> c \<in> decimal_digits"
  by (simp add: is_digit_def decimal_digits_def)

lemma quoted_escape: "quoted q (escape_key q s @ q # r) = Some (escape_key q s, r)" if "quote_char q"
proof (induction s)
  case Nil
  show ?case by (simp add: escape_key_def)
next
  case (Cons c s)
  have "q \<noteq> CHR 0x5C" "\<not> line_end q" "\<not> line_end (CHR 0x5C)" using that by (auto simp: quote_char_def line_end_def)
  then show ?case using Cons by (auto simp: escape_key_def)
qed

lemma reEscapeChar_escape: "reEscapeChar (escape_key q s) = s" if "quote_char q"
proof (induction s)
  case (Cons c s)
  have "q \<noteq> CHR 0x5C" using that by (auto simp: quote_char_def)
  moreover have "escape_key q (c # s) = (if c = q \<or> c = CHR 0x5C then [CHR 0x5C, c] else [c]) @ escape_key q s"
    by (simp add: escape_key_def)
  ultimately show ?case using Cons by (cases "c = CHR 0x5C"; cases "c = q") (auto split: list.split)
qed (simp add: escape_key_def)

lemma takeWhile_digits [simp]:
  "\<not> is_digit c \<Longrightarrow> takeWhile is_digit (nat_str n @ c # r) = nat_str n"
  "\<not> is_digit c \<Longrightarrow> dropWhile is_digit (nat_str n @ c # r) = c # r"
  using nat_str_digits [of n] by (subst takeWhile_append2 dropWhile_append2; auto simp: is_digit_iff)+

lemma number_key_int_str: "number_key (int_str i @ CHR '']'' # r) = Some (int_str i, r)"
proof (cases "i < 0")
  case True
  then show ?thesis by (simp add: number_key_def int_str_def)
next
  case False
  obtain c cs where c: "nat_str (nat i) = c # cs" by (cases "nat_str (nat i)") auto
  then have "c \<noteq> CHR ''-''" using hd_nat_str [of "nat i"] special_chars(1) by auto
  then show ?thesis using False c takeWhile_digits [of "CHR '']''" "nat i" r] by (simp add: number_key_def int_str_def)
qed

lemma rePropName_name:
  assumes "step_ok (Name s)" "delimited r"
  shows "rePropName (s @ r) = s # rePropName r"
proof -
  obtain c cs where s: "s = c # cs" "\<not> special c" using assms(1) by (cases s) auto
  have "takeWhile (\<lambda>x. \<not> special x) (s @ r) = s" "dropWhile (\<lambda>x. \<not> special x) (s @ r) = r"
    using assms by (cases r; simp add: list_all_iff delimited_def takeWhile_append2 dropWhile_append2)+
  then show ?thesis using s by (subst rePropName.simps) simp
qed

lemma rePropName_step:
  assumes "step_ok st" "delimited r"
  shows "rePropName (print_step st @ r) = step_key st # rePropName r"
proof (cases st)
  case (Name s)
  obtain c cs where s: "s = c # cs" "\<not> special c" using assms(1) Name by (cases s) auto
  then have "separator (s @ r) = None" by (auto simp: special_def bracket_def)
  then have "rePropName (print_step st @ r) = rePropName (s @ r)"
    using Name s by (subst rePropName.simps) (simp add: empty_key_def)
  then show ?thesis using rePropName_name [OF _ assms(2), of s] assms(1) Name by simp
next
  case (Quoted q s)
  then have q: "quote_char q" using assms(1) by simp
  have "number_key (q # u) = None" for u using q by (auto simp: quote_char_def number_key_def is_digit_def)
  moreover have "quoted_key (q # escape_key q s @ q # CHR '']'' # r) = Some (escape_key q s, r)"
    using q quoted_escape [OF q, of s "CHR '']'' # r"] by simp
  ultimately show ?thesis using Quoted by (subst rePropName.simps) (simp add: reEscapeChar_escape [OF q])
next
  case (Index i)
  then show ?thesis by (subst rePropName.simps) (simp add: number_key_int_str)
qed

lemma delimited_steps: "delimited (concat (map print_step st))"
proof (cases st)
  case (Cons a st1)
  then show ?thesis by (cases a) (simp_all add: delimited_def)
qed (simp add: delimited_def)

lemma rePropName_steps: "list_all step_ok st \<Longrightarrow> rePropName (concat (map print_step st)) = map step_key st"
proof (induction st)
  case Nil
  show ?case by (subst rePropName.simps) simp
next
  case (Cons a st)
  then show ?case using rePropName_step [of a "concat (map print_step st)"] delimited_steps by simp
qed

section \<open>Properties\<close>

text \<open>
  (C40) A path written with dotted names, quoted keys in brackets and indices in brackets is taken apart into exactly these keys,
  whatever characters the quoted keys contain.
\<close>

theorem stringToPath_print:
  assumes "list_all step_ok st" "st \<noteq> []"
  shows "stringToPath (print_path st) = map step_key st"
proof (cases "hd st")
  case (Name s)
  then obtain st1 where st: "st = Name s # st1" using assms(2) by (cases st) auto
  have "\<not> reLeadingDot (s @ r)" for r using assms st by (cases s) (auto simp: reLeadingDot_def special_def)
  then show ?thesis using assms st rePropName_name [of s "concat (map print_step st1)"] delimited_steps rePropName_steps [of st1]
    by (simp add: stringToPath_def print_path_def)
next
  case (Quoted q s)
  then obtain st1 where st: "st = Quoted q s # st1" using assms(2) by (cases st) auto
  then show ?thesis using rePropName_steps [OF assms(1)] by (simp add: stringToPath_def print_path_def reLeadingDot_def)
next
  case (Index i)
  then obtain st1 where st: "st = Index i # st1" using assms(2) by (cases st) auto
  then show ?thesis using rePropName_steps [OF assms(1)] by (simp add: stringToPath_def print_path_def reLeadingDot_def)
qed

theorem stringToPath_print_witness:
  "stringToPath ''a[0].b'' = [''a'', ''0'', ''b'']"
proof -
  have "print_path [Name ''a'', Index 0, Name ''b''] = ''a[0].b''" "int_str 0 = ''0''"
    by (simp_all add: print_path_def int_str_def nat_str.simps digit_char_0)
  then show ?thesis using stringToPath_print [of "[Name ''a'', Index 0, Name ''b'']"]
    by (simp add: special_def bracket_def)
qed

end
