(* ===== verification/JsObjects.thy ===== *)
theory JsObjects
  imports JsPaths
begin

text \<open>
  Objects of lodash.js in a store. A reference names a cell of the store; a cell holds the own properties
  of an array or of any other object, which may have a prototype. All properties are enumerable, keys come in
  the order of insertion, and the properties of the built-in prototypes are left out. On the store: the
  enumeration of keys, and reading, testing, setting and deleting properties at paths.
\<close>

section \<open>The store\<close>

text \<open>The elements of an array may have holes; an array has named properties beside them.\<close>

datatype node =
    ArrN "jsval option list" "(propkey \<times> jsval) list"
  | ObjN "(propkey \<times> jsval) list" "nat option"

type_synonym heap = "node list"

text \<open>The number a string names in canonical decimal form.\<close>

definition reIsUint :: "string \<Rightarrow> nat option" where
  "reIsUint s =
     (if s \<noteq> [] \<and> list_all is_digit s \<and> (s = ''0'' \<or> hd s \<noteq> CHR ''0'') then Some (radix_val 10 s) else None)"

fun array_index :: "propkey \<Rightarrow> nat option" where
  "array_index (PStr s) = (case reIsUint s of None \<Rightarrow> None | Some n \<Rightarrow> if int n < MAX_ARRAY_LENGTH then Some n else None)"
| "array_index (PSym k) = None"

definition length_key :: propkey where
  "length_key = PStr ''length''"

definition length_value :: "'a list \<Rightarrow> jsval" where
  "length_value xs = Num (num_of_int (int (length xs)))"

fun own_prop :: "node \<Rightarrow> propkey \<Rightarrow> jsval option" where
  "own_prop (ArrN es ps) k =
     (case array_index k of
        Some n \<Rightarrow> if n < length es then es ! n else None
      | None \<Rightarrow> if k = length_key then Some (length_value es) else map_of ps k)"
| "own_prop (ObjN ps proto) k = map_of ps k"

fun assoc_put :: "(propkey \<times> jsval) list \<Rightarrow> propkey \<Rightarrow> jsval \<Rightarrow> (propkey \<times> jsval) list" where
  "assoc_put [] k v = [(k, v)]"
| "assoc_put ((k1, v1) # ps) k v = (if k1 = k then (k, v) # ps else (k1, v1) # assoc_put ps k v)"

definition elem_put :: "jsval option list \<Rightarrow> nat \<Rightarrow> jsval \<Rightarrow> jsval option list" where
  "elem_put es n v =
     (if n < length es then es[n := Some v] else es @ replicate (n - length es) None @ [Some v])"

text \<open>Writing the length cuts or extends an array; a value that is no array length raises an error and leaves the array as it is.\<close>

definition length_put :: "jsval option list \<Rightarrow> jsval \<Rightarrow> jsval option list" where
  "length_put es v =
     (case v of
        Num (Fin q) \<Rightarrow>
          let n = nat (floor q)
          in if q = of_nat n \<and> int n \<le> MAX_ARRAY_LENGTH then take n es @ replicate (n - length es) None else es
      | _ \<Rightarrow> es)"

fun put_own :: "node \<Rightarrow> propkey \<Rightarrow> jsval \<Rightarrow> node" where
  "put_own (ArrN es ps) k v =
     (case array_index k of
        Some n \<Rightarrow> ArrN (elem_put es n v) ps
      | None \<Rightarrow> if k = length_key then ArrN (length_put es v) ps else ArrN es (assoc_put ps k v))"
| "put_own (ObjN ps proto) k v = ObjN (assoc_put ps k v) proto"

text \<open>The operator \<open>delete\<close>: deleting an element leaves a hole, and the length of an array stays.\<close>

fun delete_own :: "node \<Rightarrow> propkey \<Rightarrow> bool \<times> node" where
  "delete_own (ArrN es ps) k =
     (case array_index k of
        Some n \<Rightarrow> (True, ArrN (if n < length es then es[n := None] else es) ps)
      | None \<Rightarrow> if k = length_key then (False, ArrN es ps) else (True, ArrN es (filter (\<lambda>(k1, v). k1 \<noteq> k) ps)))"
| "delete_own (ObjN ps proto) k = (True, ObjN (filter (\<lambda>(k1, v). k1 \<noteq> k) ps) proto)"

fun node_proto :: "node \<Rightarrow> nat option" where
  "node_proto (ArrN es ps) = None"
| "node_proto (ObjN ps proto) = proto"

text \<open>A property along the prototype chain, which visits no cell twice.\<close>

fun lookup :: "nat \<Rightarrow> heap \<Rightarrow> nat \<Rightarrow> propkey \<Rightarrow> jsval option" where
  "lookup 0 h a k = None"
| "lookup (Suc n) h a k =
     (if a < length h
      then (case own_prop (h ! a) k of
              Some v \<Rightarrow> Some v
            | None \<Rightarrow> (case node_proto (h ! a) of None \<Rightarrow> None | Some p \<Rightarrow> lookup n h p k))
      else None)"

definition string_prop :: "string \<Rightarrow> propkey \<Rightarrow> jsval option" where
  "string_prop s k =
     (case array_index k of
        Some n \<Rightarrow> if n < length s then Some (Str [s ! n]) else None
      | None \<Rightarrow> if k = length_key then Some (length_value s) else None)"

fun prop_find :: "heap \<Rightarrow> jsval \<Rightarrow> propkey \<Rightarrow> jsval option" where
  "prop_find h (Obj t a) k = lookup (length h) h a k"
| "prop_find h (Str s) k = string_prop s k"
| "prop_find h v k = None"

text \<open>\<open>object[key]\<close>, \<open>key in object\<close> and \<open>hasOwnProperty\<close>.\<close>

definition get_prop :: "heap \<Rightarrow> jsval \<Rightarrow> propkey \<Rightarrow> jsval" where
  "get_prop h v k = (case prop_find h v k of None \<Rightarrow> Undefined | Some x \<Rightarrow> x)"

definition has_prop :: "heap \<Rightarrow> jsval \<Rightarrow> propkey \<Rightarrow> bool" where
  "has_prop h v k = (prop_find h v k \<noteq> None)"

fun has_own :: "heap \<Rightarrow> jsval \<Rightarrow> propkey \<Rightarrow> bool" where
  "has_own h (Obj t a) k = (a < length h \<and> own_prop (h ! a) k \<noteq> None)"
| "has_own h (Str s) k = (string_prop s k \<noteq> None)"
| "has_own h v k = False"

fun get_proto :: "heap \<Rightarrow> jsval \<Rightarrow> nat option" where
  "get_proto h (Obj t a) = (if a < length h then node_proto (h ! a) else None)"
| "get_proto h v = None"

text \<open>\<open>object[key] = value\<close> and \<open>delete object[key]\<close>.\<close>

fun put_prop :: "heap \<Rightarrow> jsval \<Rightarrow> propkey \<Rightarrow> jsval \<Rightarrow> heap" where
  "put_prop h (Obj t a) k v = (if a < length h then h[a := put_own (h ! a) k v] else h)"
| "put_prop h w k v = h"

fun delete_prop :: "heap \<Rightarrow> jsval \<Rightarrow> propkey \<Rightarrow> bool \<times> heap" where
  "delete_prop h (Obj t a) k =
     (if a < length h then (let (b, n) = delete_own (h ! a) k in (b, h[a := n])) else (True, h))"
| "delete_prop h v k = (True, h)"

definition new_object :: "heap \<Rightarrow> jsval \<times> heap" where
  "new_object h = (Obj ObjectTag (length h), h @ [ObjN [] None])"

definition new_array :: "heap \<Rightarrow> jsval list \<Rightarrow> jsval \<times> heap" where
  "new_array h xs = (Obj ArrayTag (length h), h @ [ArrN (map Some xs) []])"

section \<open>Keys\<close>

fun is_string_key :: "propkey \<Rightarrow> bool" where
  "is_string_key (PStr s) = True"
| "is_string_key (PSym k) = False"

definition index_key :: "nat \<Rightarrow> propkey" where
  "index_key i = PStr (nat_str i)"

text \<open>The own keys of a cell: the names, and the symbols.\<close>

fun node_keys :: "node \<Rightarrow> propkey list" where
  "node_keys (ArrN es ps) =
     map index_key (filter (\<lambda>i. es ! i \<noteq> None) [0..<length es]) @ filter is_string_key (map fst ps)"
| "node_keys (ObjN ps proto) = filter is_string_key (map fst ps)"

fun node_symbols :: "node \<Rightarrow> propkey list" where
  "node_symbols (ArrN es ps) = filter (\<lambda>k. \<not> is_string_key k) (map fst ps)"
| "node_symbols (ObjN ps proto) = filter (\<lambda>k. \<not> is_string_key k) (map fst ps)"

fun baseKeys :: "heap \<Rightarrow> jsval \<Rightarrow> propkey list" where
  "baseKeys h (Obj t a) = (if a < length h then node_keys (h ! a) else [])"
| "baseKeys h (Str s) = map index_key [0..<length s]"
| "baseKeys h v = []"

text \<open>The keys a \<open>for in\<close> loop visits: those of the prototypes follow where they are not shadowed.\<close>

fun chain_keys :: "nat \<Rightarrow> heap \<Rightarrow> nat \<Rightarrow> propkey list" where
  "chain_keys 0 h a = []"
| "chain_keys (Suc n) h a =
     (if a < length h
      then node_keys (h ! a) @
           (case node_proto (h ! a) of
              None \<Rightarrow> []
            | Some p \<Rightarrow> filter (\<lambda>k. own_prop (h ! a) k = None) (chain_keys n h p))
      else [])"

fun baseKeysIn :: "heap \<Rightarrow> jsval \<Rightarrow> propkey list" where
  "baseKeysIn h (Obj t a) = chain_keys (length h) h a"
| "baseKeysIn h v = baseKeys h v"

definition isArrayLike :: "heap \<Rightarrow> jsval \<Rightarrow> bool" where
  "isArrayLike h v = (\<not> isNil v \<and> isLength (get_prop h v length_key) \<and> \<not> isFunction v)"

text \<open>All properties are enumerable, so the tag decides.\<close>

definition isArguments :: "heap \<Rightarrow> jsval \<Rightarrow> bool" where
  "isArguments h v =
     (isObjectLike v \<and> isArrayLike h v \<and> has_own h v (PStr ''callee'') \<and> objectToString v = Some ArgsTag)"

text \<open>The prototype of all objects is no cell of the store.\<close>

definition isPrototype :: "heap \<Rightarrow> jsval \<Rightarrow> bool" where
  "isPrototype h v =
     (let Ctor = get_prop h v (PStr ''constructor'');
          proto = (if js_typeof Ctor = TFunction then get_prop h Ctor (PStr ''prototype'') else Undefined)
      in truthy proto \<and> strict_eq v proto)"

fun value_length :: "jsval \<Rightarrow> nat" where
  "value_length (Num n) = nat (num_int n)"
| "value_length v = 0"

definition indexKeys :: "heap \<Rightarrow> jsval \<Rightarrow> propkey list option" where
  "indexKeys h v =
     (let len = (if truthy v then get_prop h v length_key else Undefined)
      in if isLength len \<and> (isArray v \<or> isString v \<or> isArguments h v)
         then Some (baseTimes (value_length len) index_key) else None)"

text \<open>\<open>isIndex\<close> on a key.\<close>

fun key_isIndex :: "propkey \<Rightarrow> nat option \<Rightarrow> bool" where
  "key_isIndex (PStr s) len = (case reIsUint s of None \<Rightarrow> False | Some n \<Rightarrow> isIndex (num_of_int (int n)) len)"
| "key_isIndex (PSym k) len = False"

definition keys :: "heap \<Rightarrow> jsval \<Rightarrow> propkey list" where
  "keys h v =
     (let isProto = isPrototype h v
      in if \<not> (isProto \<or> isArrayLike h v) then baseKeys h v
         else (let indexes = indexKeys h v;
                   skipIndexes = (indexes \<noteq> None);
                   res = (case indexes of None \<Rightarrow> [] | Some ks \<Rightarrow> ks)
               in res @ filter (\<lambda>key. has_own h v key \<and>
                                 \<not> (skipIndexes \<and> (key = length_key \<or> key_isIndex key (Some (length res)))) \<and>
                                 \<not> (isProto \<and> key = PStr ''constructor'')) (baseKeysIn h v)))"

definition keysIn :: "heap \<Rightarrow> jsval \<Rightarrow> propkey list" where
  "keysIn h v =
     (let isProto = isPrototype h v;
          indexes = indexKeys h v;
          skipIndexes = (indexes \<noteq> None);
          res = (case indexes of None \<Rightarrow> [] | Some ks \<Rightarrow> ks)
      in res @ filter (\<lambda>key. \<not> (skipIndexes \<and> (key = length_key \<or> key_isIndex key (Some (length res)))) \<and>
                        \<not> (key = PStr ''constructor'' \<and> (isProto \<or> \<not> has_own h v key))) (baseKeysIn h v))"

fun getSymbols :: "heap \<Rightarrow> jsval \<Rightarrow> propkey list" where
  "getSymbols h (Obj t a) = (if a < length h then node_symbols (h ! a) else [])"
| "getSymbols h v = []"

fun chain_symbols :: "nat \<Rightarrow> heap \<Rightarrow> nat \<Rightarrow> propkey list" where
  "chain_symbols 0 h a = []"
| "chain_symbols (Suc n) h a =
     (if a < length h
      then node_symbols (h ! a) @ (case node_proto (h ! a) of None \<Rightarrow> [] | Some p \<Rightarrow> chain_symbols n h p)
      else [])"

fun getSymbolsIn :: "heap \<Rightarrow> jsval \<Rightarrow> propkey list" where
  "getSymbolsIn h (Obj t a) = chain_symbols (length h) h a"
| "getSymbolsIn h v = []"

definition baseGetAllKeys ::
  "heap \<Rightarrow> jsval \<Rightarrow> (heap \<Rightarrow> jsval \<Rightarrow> propkey list) \<Rightarrow> (heap \<Rightarrow> jsval \<Rightarrow> propkey list) \<Rightarrow> propkey list" where
  "baseGetAllKeys h v keysFunc symbolsFunc =
     (if isArray v then keysFunc h v else arrayPush (keysFunc h v) (symbolsFunc h v))"

definition getAllKeys :: "heap \<Rightarrow> jsval \<Rightarrow> propkey list" where
  "getAllKeys h v = baseGetAllKeys h v keys getSymbols"

definition getAllKeysIn :: "heap \<Rightarrow> jsval \<Rightarrow> propkey list" where
  "getAllKeysIn h v = baseGetAllKeys h v keysIn getSymbolsIn"

section \<open>Reading and testing paths\<close>

definition object_has :: "heap \<Rightarrow> jsval \<Rightarrow> propkey \<Rightarrow> bool" where
  "object_has h v k = (\<not> isNil v \<and> has_prop h v k)"

fun get_loop :: "heap \<Rightarrow> jsval \<Rightarrow> jsval list \<Rightarrow> jsval" where
  "get_loop h v [] = v"
| "get_loop h v (k # ks) = (if isNil v then Undefined else get_loop h (get_prop h v (toKey k)) ks)"

definition baseGet :: "heap \<Rightarrow> jsval \<Rightarrow> path \<Rightarrow> jsval" where
  "baseGet h v p =
     (let ks = path_keys p (object_has h v) in if ks = [] then Undefined else get_loop h v ks)"

definition get_js :: "heap \<Rightarrow> jsval \<Rightarrow> path \<Rightarrow> jsval \<Rightarrow> jsval" where
  "get_js h v p defaultValue =
     (let r = (if isNil v then Undefined else baseGet h v p) in if r = Undefined then defaultValue else r)"

definition baseProperty :: "heap \<Rightarrow> propkey \<Rightarrow> jsval \<Rightarrow> jsval" where
  "baseProperty h k v = (if isNil v then Undefined else get_prop h v k)"

definition basePropertyOf :: "heap \<Rightarrow> jsval \<Rightarrow> propkey \<Rightarrow> jsval" where
  "basePropertyOf h v k = (if isNil v then Undefined else get_prop h v k)"

definition basePropertyDeep :: "heap \<Rightarrow> path \<Rightarrow> jsval \<Rightarrow> jsval" where
  "basePropertyDeep h p v = baseGet h v p"

definition property :: "heap \<Rightarrow> path \<Rightarrow> jsval \<Rightarrow> jsval" where
  "property h p =
     (case p of
        PathVal k \<Rightarrow> if isKey p (\<lambda>_. False) then baseProperty h (toKey k) else basePropertyDeep h p
      | PathArr ks \<Rightarrow> basePropertyDeep h p)"

definition propertyOf :: "heap \<Rightarrow> jsval \<Rightarrow> path \<Rightarrow> jsval" where
  "propertyOf h v p = (if isNil v then Undefined else baseGet h v p)"

definition baseAt :: "heap \<Rightarrow> jsval \<Rightarrow> path list \<Rightarrow> jsval list" where
  "baseAt h v paths = map (\<lambda>p. if isNil v then Undefined else get_js h v p Undefined) paths"

definition baseHas :: "heap \<Rightarrow> jsval \<Rightarrow> propkey \<Rightarrow> bool" where
  "baseHas h v k =
     (\<not> isNil v \<and> (has_own h v k \<or> (js_typeof v = TObject \<and> has_prop h v k \<and> get_proto h v = None)))"

definition baseHasIn :: "heap \<Rightarrow> jsval \<Rightarrow> propkey \<Rightarrow> bool" where
  "baseHasIn h v k = (\<not> isNil v \<and> has_prop h v k)"

text \<open>The loop of \<open>hasPath\<close> with its last result, object and key.\<close>

fun has_loop ::
  "heap \<Rightarrow> (heap \<Rightarrow> jsval \<Rightarrow> propkey \<Rightarrow> bool) \<Rightarrow> jsval \<Rightarrow> jsval list \<Rightarrow> bool \<Rightarrow> propkey option \<Rightarrow> bool \<times> jsval \<times> propkey option"
where
  "has_loop h hasFunc v [] res key = (res, v, key)"
| "has_loop h hasFunc v (k # ks) res key =
     (if \<not> isNil v \<and> hasFunc h v (toKey k) then has_loop h hasFunc (get_prop h v (toKey k)) ks True (Some (toKey k))
      else (False, v, Some (toKey k)))"

definition hasPath :: "heap \<Rightarrow> jsval \<Rightarrow> path \<Rightarrow> (heap \<Rightarrow> jsval \<Rightarrow> propkey \<Rightarrow> bool) \<Rightarrow> bool" where
  "hasPath h v p hasFunc =
     (case has_loop h hasFunc v (path_keys p (object_has h v)) False None of
        (res, w, key) \<Rightarrow>
          if res then True
          else (let len = (if truthy w then get_prop h w length_key else Num (Fin 0))
                in truthy len \<and> isLength len \<and>
                   (case key of None \<Rightarrow> False | Some k \<Rightarrow> key_isIndex k (Some (value_length len))) \<and>
                   (isArray w \<or> isString w \<or> isArguments h w)))"

definition has :: "heap \<Rightarrow> jsval \<Rightarrow> path \<Rightarrow> bool" where
  "has h v p = (\<not> isNil v \<and> hasPath h v p baseHas)"

definition hasIn :: "heap \<Rightarrow> jsval \<Rightarrow> path \<Rightarrow> bool" where
  "hasIn h v p = (\<not> isNil v \<and> hasPath h v p baseHasIn)"

section \<open>Changing paths\<close>

definition assignValue :: "heap \<Rightarrow> jsval \<Rightarrow> propkey \<Rightarrow> jsval \<Rightarrow> heap" where
  "assignValue h v k x =
     (let objValue = get_prop h v k
      in if \<not> (has_own h v k \<and> eq objValue x) \<or> (x = Undefined \<and> \<not> has_prop h v k) then put_prop h v k x else h)"

fun value_isIndex :: "jsval \<Rightarrow> bool" where
  "value_isIndex (Num n) = isIndex n None"
| "value_isIndex (Str s) = key_isIndex (PStr s) None"
| "value_isIndex v = False"

type_synonym customizer = "jsval \<Rightarrow> propkey \<Rightarrow> jsval \<Rightarrow> jsval"

text \<open>The value assigned at a key of the path: the new value at its end, otherwise the object found there, or a new one.\<close>

definition set_value :: "heap \<Rightarrow> jsval \<Rightarrow> propkey \<Rightarrow> jsval list \<Rightarrow> jsval \<Rightarrow> customizer option \<Rightarrow> jsval \<times> heap" where
  "set_value h nested key rest x customizer =
     (case rest of
        [] \<Rightarrow> (x, h)
      | next_key # _ \<Rightarrow>
          (let objValue = get_prop h nested key;
               newValue = (case customizer of None \<Rightarrow> Undefined | Some f \<Rightarrow> f objValue key nested)
           in if newValue \<noteq> Undefined then (newValue, h)
              else if isNil objValue then (if value_isIndex next_key then new_array h [] else new_object h)
              else (objValue, h)))"

fun set_loop :: "heap \<Rightarrow> jsval \<Rightarrow> jsval list \<Rightarrow> jsval \<Rightarrow> customizer option \<Rightarrow> heap" where
  "set_loop h nested [] x customizer = h"
| "set_loop h nested (k # ks) x customizer =
     (if isNil nested then h
      else (let key = toKey k;
                h1 = (if isObject nested
                      then (case set_value h nested key ks x customizer of (newValue, h0) \<Rightarrow> assignValue h0 nested key newValue)
                      else h)
            in set_loop h1 (get_prop h1 nested key) ks x customizer))"

definition baseSet :: "heap \<Rightarrow> jsval \<Rightarrow> path \<Rightarrow> jsval \<Rightarrow> customizer option \<Rightarrow> heap" where
  "baseSet h v p x customizer = set_loop h v (path_keys p (object_has h v)) x customizer"

text \<open>The functions return the object they are given; the result here is the store.\<close>

definition set_js :: "heap \<Rightarrow> jsval \<Rightarrow> path \<Rightarrow> jsval \<Rightarrow> heap" where
  "set_js h v p x = (if isNil v then h else baseSet h v p x None)"

definition setWith :: "heap \<Rightarrow> jsval \<Rightarrow> path \<Rightarrow> jsval \<Rightarrow> customizer option \<Rightarrow> heap" where
  "setWith h v p x customizer = (if isNil v then h else baseSet h v p x customizer)"

definition parent :: "heap \<Rightarrow> jsval \<Rightarrow> jsval list \<Rightarrow> jsval" where
  "parent h v ks = (if length ks = 1 then v else baseGet h v (PathArr (baseSlice ks 0 (-1))))"

definition baseUnset :: "heap \<Rightarrow> jsval \<Rightarrow> path \<Rightarrow> bool \<times> heap" where
  "baseUnset h v p =
     (let ks = path_keys p (object_has h v);
          w = parent h v ks;
          key = toKey (last_js (Some ks))
      in if \<not> (\<not> isNil w \<and> baseHas h w key) then (True, h) else delete_prop h w key)"

definition unset :: "heap \<Rightarrow> jsval \<Rightarrow> path \<Rightarrow> bool \<times> heap" where
  "unset h v p = (if isNil v then (True, h) else baseUnset h v p)"

definition baseUpdate :: "heap \<Rightarrow> jsval \<Rightarrow> path \<Rightarrow> (jsval \<Rightarrow> jsval) \<Rightarrow> customizer option \<Rightarrow> heap" where
  "baseUpdate h v p updater customizer = baseSet h v p (updater (baseGet h v p)) customizer"

definition castFunction :: "(jsval \<Rightarrow> jsval) option \<Rightarrow> jsval \<Rightarrow> jsval" where
  "castFunction f = (case f of None \<Rightarrow> (\<lambda>x. x) | Some g \<Rightarrow> g)"

definition update :: "heap \<Rightarrow> jsval \<Rightarrow> path \<Rightarrow> (jsval \<Rightarrow> jsval) option \<Rightarrow> heap" where
  "update h v p updater = (if isNil v then h else baseUpdate h v p (castFunction updater) None)"

definition updateWith :: "heap \<Rightarrow> jsval \<Rightarrow> path \<Rightarrow> (jsval \<Rightarrow> jsval) option \<Rightarrow> customizer option \<Rightarrow> heap" where
  "updateWith h v p updater customizer = (if isNil v then h else baseUpdate h v p (castFunction updater) customizer)"

text \<open>Functions are values that \<open>call\<close> applies to the object they are read from and to arguments.\<close>

fun result_loop :: "heap \<Rightarrow> (jsval \<Rightarrow> jsval \<Rightarrow> jsval list \<Rightarrow> jsval) \<Rightarrow> jsval \<Rightarrow> jsval list \<Rightarrow> jsval \<Rightarrow> jsval" where
  "result_loop h call v [] defaultValue = v"
| "result_loop h call v (k # ks) defaultValue =
     (let x = (if isNil v then Undefined else get_prop h v (toKey k))
      in if x = Undefined then (if isFunction defaultValue then call defaultValue v [] else defaultValue)
         else result_loop h call (if isFunction x then call x v [] else x) ks defaultValue)"

definition result_js :: "heap \<Rightarrow> (jsval \<Rightarrow> jsval \<Rightarrow> jsval list \<Rightarrow> jsval) \<Rightarrow> jsval \<Rightarrow> path \<Rightarrow> jsval \<Rightarrow> jsval" where
  "result_js h call v p defaultValue =
     (let ks = path_keys p (object_has h v)
      in if ks = [] then result_loop h call Undefined [Undefined] defaultValue else result_loop h call v ks defaultValue)"

definition baseInvoke :: "heap \<Rightarrow> (jsval \<Rightarrow> jsval \<Rightarrow> jsval list \<Rightarrow> jsval) \<Rightarrow> jsval \<Rightarrow> path \<Rightarrow> jsval list \<Rightarrow> jsval" where
  "baseInvoke h call v p args =
     (let (w, k) = (case p of
                      PathVal x \<Rightarrow> if isKey p (object_has h v) then (v, x)
                                  else (parent h v (castPath p), last_js (Some (castPath p)))
                    | PathArr ks \<Rightarrow> (parent h v ks, last_js (Some ks)));
          func = (if isNil w then w else get_prop h w (toKey k))
      in if isNil func then Undefined else call func w args)"

definition method_js :: "heap \<Rightarrow> (jsval \<Rightarrow> jsval \<Rightarrow> jsval list \<Rightarrow> jsval) \<Rightarrow> path \<Rightarrow> jsval list \<Rightarrow> jsval \<Rightarrow> jsval" where
  "method_js h call p args = (\<lambda>v. baseInvoke h call v p args)"

definition methodOf :: "heap \<Rightarrow> (jsval \<Rightarrow> jsval \<Rightarrow> jsval list \<Rightarrow> jsval) \<Rightarrow> jsval \<Rightarrow> jsval list \<Rightarrow> path \<Rightarrow> jsval" where
  "methodOf h call v args = (\<lambda>p. baseInvoke h call v p args)"

section \<open>Specifications\<close>

fun writable :: "node \<Rightarrow> propkey \<Rightarrow> bool" where
  "writable (ArrN es ps) k = (k \<noteq> length_key)"
| "writable (ObjN ps proto) k = True"

text \<open>
  The paths that can be set: they lead through own properties that hold objects up to a property that is
  missing, null or undefined, or up to the last key. No step is taken twice; \<open>st\<close> holds the steps taken so far.
\<close>

fun settable :: "heap \<Rightarrow> (nat \<times> propkey) list \<Rightarrow> jsval \<Rightarrow> jsval list \<Rightarrow> bool" where
  "settable h st (Obj t a) (k # ks) =
     (a < length h \<and> (a, toKey k) \<notin> set st \<and> writable (h ! a) (toKey k) \<and>
      (ks = [] \<or>
       (case own_prop (h ! a) (toKey k) of
          None \<Rightarrow> isNil (get_prop h (Obj t a) (toKey k))
        | Some w \<Rightarrow> isNil w \<or> settable h ((a, toKey k) # st) w ks)))"
| "settable h st v ks = False"

text \<open>The value at a path of own properties.\<close>

fun own_loop :: "heap \<Rightarrow> jsval \<Rightarrow> jsval list \<Rightarrow> jsval option" where
  "own_loop h v [] = Some v"
| "own_loop h (Obj t a) (k # ks) =
     (if a < length h then (case own_prop (h ! a) (toKey k) of None \<Rightarrow> None | Some w \<Rightarrow> own_loop h w ks) else None)"
| "own_loop h v (k # ks) = None"

text \<open>The objects found at the given steps are found there in a later store, too.\<close>

definition steps_kept :: "heap \<Rightarrow> heap \<Rightarrow> (nat \<times> propkey) list \<Rightarrow> bool" where
  "steps_kept h h1 st \<longleftrightarrow>
     (\<forall>(b, k)\<in>set st. \<forall>t a. b < length h \<longrightarrow> own_prop (h ! b) k = Some (Obj t a) \<longrightarrow> own_prop (h1 ! b) k = Some (Obj t a))"

text \<open>The cell and the tag of the object made for the rest of a path.\<close>

definition fresh_node :: "jsval \<Rightarrow> node" where
  "fresh_node k = (if value_isIndex k then ArrN [] [] else ObjN [] None)"

definition fresh_tag :: "jsval \<Rightarrow> obj_tag" where
  "fresh_tag k = (if value_isIndex k then ArrayTag else ObjectTag)"

section \<open>Lemmas\<close>

subsection \<open>Cells\<close>

lemma array_index_length [simp]: "array_index length_key = None"
  by (simp add: length_key_def reIsUint_def is_digit_def)

lemma reIsUint_length [simp]: "reIsUint ''length'' = None"
  by (simp add: reIsUint_def is_digit_def)

lemma map_of_assoc_put [simp]: "map_of (assoc_put ps k v) k1 = (if k1 = k then Some v else map_of ps k1)"
  by (induction ps k v rule: assoc_put.induct) auto

lemma elem_put_nth: "elem_put es n v ! n = Some v" "n < length (elem_put es n v)"
  by (auto simp: elem_put_def nth_append)

lemma elem_put_nth_other: "i \<noteq> n \<Longrightarrow> i < length es \<Longrightarrow> elem_put es n v ! i = es ! i \<and> i < length (elem_put es n v)"
  by (auto simp: elem_put_def nth_append)

text \<open>An index has one name only.\<close>

lemma radix_str_nat: "list_all is_digit s \<Longrightarrow> radix_val 10 s = str_nat s"
proof (induction s rule: rev_induct)
  case (snoc c s)
  then show ?case by (auto simp: radix_val_def str_nat_def digit_val_def is_digit_def)
qed (simp add: radix_val_def str_nat_def)

lemma digit_char_of: "is_digit c \<Longrightarrow> digit_char (of_char c - 48) = c"
  by (simp add: digit_char_def is_digit_def)

lemma nat_str_str_nat:
  "list_all is_digit s \<Longrightarrow> s \<noteq> [] \<Longrightarrow> s = ''0'' \<or> hd s \<noteq> CHR ''0'' \<Longrightarrow> nat_str (str_nat s) = s"
proof (induction s rule: rev_induct)
  case (snoc c s)
  have c: "of_char c - 48 < (10 :: nat)" using snoc.prems(1) by (auto simp: is_digit_def)
  show ?case
  proof (cases "s = []")
    case True
    then show ?thesis using snoc.prems(1) c by (simp add: str_nat_def nat_str.simps [of "of_char c - 48"] digit_char_of)
  next
    case False
    then have IH: "nat_str (str_nat s) = s" using snoc by auto
    have "str_nat s \<noteq> 0"
    proof
      assume "str_nat s = 0"
      then have "s = ''0''" using IH by (simp add: nat_str.simps [of 0] digit_char_0)
      then show False using snoc.prems(3) by simp
    qed
    then have "\<not> str_nat s * 10 + (of_char c - 48) < 10" by simp
    then show ?thesis using IH c snoc.prems(1)
      by (simp add: str_nat_append nat_str.simps [of "str_nat s * 10 + (of_char c - 48)"] digit_char_of)
  qed
qed simp

lemma hd_nat_str_0: "0 < n \<Longrightarrow> hd (nat_str n) \<noteq> CHR ''0''"
proof (induction n rule: nat_str.induct)
  case (1 n)
  show ?case
  proof (cases "n < 10")
    case True
    then have "of_char (digit_char n) \<noteq> (48 :: nat)" using 1(2) by (simp add: of_char_digit)
    then show ?thesis using True by (auto simp: nat_str.simps [of n])
  next
    case False
    then show ?thesis using 1 by (simp add: nat_str.simps [of n])
  qed
qed

lemma reIsUint_nat_str [simp]: "reIsUint (nat_str n) = Some n"
proof -
  have "list_all is_digit (nat_str n)" using nat_str_digits [of n] by (auto simp: list_all_iff is_digit_iff)
  moreover have "nat_str n = ''0'' \<or> hd (nat_str n) \<noteq> CHR ''0''"
    using hd_nat_str_0 [of n] by (cases "n = 0") (simp_all add: nat_str.simps [of 0] digit_char_0)
  ultimately show ?thesis by (simp add: reIsUint_def radix_str_nat)
qed

lemma reIsUint_inj: "reIsUint s = Some n \<Longrightarrow> s = nat_str n"
  using nat_str_str_nat by (auto simp: reIsUint_def radix_str_nat split: if_splits)

lemma array_index_inj: "array_index k = Some n \<Longrightarrow> array_index k1 = Some n \<Longrightarrow> k = k1"
  by (cases k; cases k1) (auto dest!: reIsUint_inj split: option.splits if_splits)

lemma own_put: "writable n k \<Longrightarrow> own_prop (put_own n k v) k = Some v"
  by (cases n) (auto simp: elem_put_nth split: option.split)

lemma own_put_other:
  assumes "k1 \<noteq> k" "own_prop n k1 = Some (Obj t a)" "writable n k"
  shows "own_prop (put_own n k v) k1 = Some (Obj t a)"
proof (cases n)
  case (ArrN es ps)
  show ?thesis
  proof (cases "array_index k")
    case (Some i)
    then have "array_index k1 \<noteq> Some i" using assms(1) array_index_inj by blast
    then show ?thesis using assms ArrN Some
      by (auto simp: length_value_def elem_put_nth_other split: option.splits if_splits)
  next
    case None
    then show ?thesis using assms ArrN by (auto split: option.splits if_splits)
  qed
next
  case (ObjN ps proto)
  then show ?thesis using assms by simp
qed

subsection \<open>Properties of references\<close>

lemma isNil_simps [simp]: "isNil Undefined" "isNil Null" "\<not> isNil (Obj t a)"
  by (simp_all add: isNil_def)

lemma isNil_cases: "isNil v \<Longrightarrow> v = Undefined \<or> v = Null"
  by (cases v) (simp_all add: isNil_def)

lemma get_prop_own: "a < length h \<Longrightarrow> own_prop (h ! a) k = Some v \<Longrightarrow> get_prop h (Obj t a) k = v"
  by (cases h) (auto simp: get_prop_def)

lemma has_prop_own: "a < length h \<Longrightarrow> own_prop (h ! a) k = Some v \<Longrightarrow> has_prop h (Obj t a) k"
  by (cases h) (auto simp: has_prop_def)

text \<open>The value an assignment leaves, and what it keeps.\<close>

lemma assignValue_own:
  assumes "a < length h" "writable (h ! a) k"
  shows "\<exists>y. own_prop (assignValue h (Obj t a) k x ! a) k = Some y \<and> eq y x"
    "length (assignValue h (Obj t a) k x) = length h"
proof -
  show "\<exists>y. own_prop (assignValue h (Obj t a) k x ! a) k = Some y \<and> eq y x"
    using assms get_prop_own [of a h k _ t] own_put by (fastforce simp: assignValue_def Let_def)
qed (simp add: assignValue_def Let_def)

lemma assignValue_other:
  assumes "own_prop (h ! b) k1 = Some (Obj t1 a1)" "(b, k1) \<noteq> (a, k)" "a < length h" "writable (h ! a) k"
  shows "own_prop (assignValue h (Obj t a) k x ! b) k1 = Some (Obj t1 a1)"
  using assms own_put_other [of k1 k "h ! a"] by (cases "a = b") (auto simp: assignValue_def Let_def)

lemma assignValue_same: "has_own h v k \<Longrightarrow> get_prop h v k = x \<Longrightarrow> has_prop h v k \<Longrightarrow> assignValue h v k x = h"
  by (simp add: assignValue_def Let_def)

lemma steps_kept_assign:
  assumes "a < length h" "writable (h ! a) k" "(a, k) \<notin> set st" "h = h0 @ hs" "\<forall>(b, k1)\<in>set st. b < length h0"
  shows "steps_kept h0 (assignValue h (Obj t a) k x) st"
  unfolding steps_kept_def
proof (clarify)
  fix b k1 t1 a1 assume b: "(b, k1) \<in> set st" "b < length h0" "own_prop (h0 ! b) k1 = Some (Obj t1 a1)"
  then have "own_prop (h ! b) k1 = Some (Obj t1 a1)" using assms(4) by (simp add: nth_append)
  moreover have "(b, k1) \<noteq> (a, k)" using b assms(3) by auto
  ultimately show "own_prop (assignValue h (Obj t a) k x ! b) k1 = Some (Obj t1 a1)"
    using assignValue_other assms(1,2) by blast
qed

lemma steps_kept_trans:
  "steps_kept h h1 st \<Longrightarrow> steps_kept h1 h2 st \<Longrightarrow> length h \<le> length h1 \<Longrightarrow> steps_kept h h2 st"
  by (fastforce simp: steps_kept_def)

lemma steps_kept_Cons: "steps_kept h h1 (p # st) \<Longrightarrow> steps_kept h h1 st"
  by (simp add: steps_kept_def)

text \<open>The object made for the rest of a path.\<close>

lemma value_isIndex_key: "value_isIndex k \<Longrightarrow> toKey k \<noteq> length_key"
proof (cases k)
  case (Num n)
  have "num_str (Fin q) \<noteq> ''length''" for q
    using num_str_not_name [of "CHR ''n''" "''length''"] special_chars(7) by simp
  then show ?thesis using Num by (cases n) (simp_all add: length_key_def)
next
  case (Str t)
  assume "value_isIndex k"
  then show ?thesis using Str by (auto simp: length_key_def)
qed simp_all

lemma set_value_fresh:
  "isNil (get_prop h v key) \<Longrightarrow> set_value h v key (k # ks) x None = (Obj (fresh_tag k) (length h), h @ [fresh_node k])"
  by (simp add: set_value_def fresh_tag_def fresh_node_def new_array_def new_object_def)

lemma settable_fresh:
  assumes "h ! a = fresh_node k" "a < length h" "\<forall>(b, k1)\<in>set st. b \<noteq> a"
  shows "settable h st (Obj t a) (k # ks)"
proof -
  have k: "own_prop (fresh_node k) (toKey k) = None" "node_proto (fresh_node k) = None" "writable (fresh_node k) (toKey k)"
    using value_isIndex_key [of k] by (auto simp: fresh_node_def split: option.split)
  then have "get_prop h (Obj t a) (toKey k) = Undefined"
    using assms(1,2) by (cases h) (auto simp: get_prop_def)
  then show ?thesis using k assms by auto
qed

lemma isObject_Obj [simp]: "isObject (Obj t a)"
  by (simp add: isObject_def)

lemma set_loop_Cons:
  "set_value h (Obj t a) (toKey k) ks x c = (y, h0) \<Longrightarrow> assignValue h0 (Obj t a) (toKey k) y = h1 \<Longrightarrow>
   set_loop h (Obj t a) (k # ks) x c = set_loop h1 (get_prop h1 (Obj t a) (toKey k)) ks x c"
  by (simp add: Let_def)

lemma own_loop_step:
  assumes "own_prop (h1 ! a) (toKey k) = Some (Obj t1 b)" "a < length h1" "steps_kept h h1 st" "length h \<le> length h1"
    and IH: "own_loop h2 (Obj t1 b) ks = Some y" "steps_kept h1 h2 ((a, toKey k) # st)" "length h1 \<le> length h2"
  shows "own_loop h2 (Obj t a) (k # ks) = Some y \<and> steps_kept h h2 st \<and> length h \<le> length h2"
proof -
  have "own_prop (h2 ! a) (toKey k) = Some (Obj t1 b)" using IH(2) assms(1,2) by (simp add: steps_kept_def)
  then show ?thesis using IH assms steps_kept_trans [OF assms(3) steps_kept_Cons [OF IH(2)] assms(4)] by simp
qed

lemma set_loop_own:
  assumes "settable h st v ks" "\<forall>(b, k)\<in>set st. b < length h"
  shows "(\<exists>y. own_loop (set_loop h v ks x None) v ks = Some y \<and> eq y x) \<and> steps_kept h (set_loop h v ks x None) st \<and> length h \<le> length (set_loop h v ks x None)"
  using assms
proof (induction ks arbitrary: h st v)
  case (Cons k ks)
  obtain t a where v: "v = Obj t a" using Cons.prems(1) by (cases v) auto
  let ?k = "toKey k"
  have a: "a < length h" "(a, ?k) \<notin> set st" "writable (h ! a) ?k" using Cons.prems(1) v by auto
  show ?case
  proof (cases ks)
    case Nil
    obtain y where y: "own_prop (assignValue h v ?k x ! a) ?k = Some y" "eq y x" using assignValue_own(1) [OF a(1,3)] v by blast
    have "steps_kept h (assignValue h v ?k x) st"
      using steps_kept_assign [OF a(1,3,2), of h "[]"] Cons.prems(2) v by simp
    then show ?thesis
      using Nil v y a assignValue_own(2) [OF a(1,3)]
      by (simp add: set_value_def)
  next
    case ks: (Cons k1 ks1)
    show ?thesis
    proof (cases "isNil (get_prop h v ?k)")
      case True
      let ?f = "Obj (fresh_tag k1) (length h)" and ?h0 = "h @ [fresh_node k1]"
      define h1 where "h1 = assignValue ?h0 v ?k ?f"
      have len: "length h1 = Suc (length h)" by (simp add: h1_def v assignValue_def Let_def)
      have a0: "a < length ?h0" "writable (?h0 ! a) ?k" using a by (simp_all add: nth_append)
      obtain y where "own_prop (h1 ! a) ?k = Some y" "eq y ?f" using assignValue_own(1) [OF a0] v by (auto simp: h1_def)
      then have own: "own_prop (h1 ! a) ?k = Some ?f" by (cases y) (simp_all add: eq_iff_norm)
      have kept: "steps_kept h h1 st" using steps_kept_assign [OF a0 a(2) refl Cons.prems(2)] by (simp add: h1_def v)
      have "h1 ! length h = fresh_node k1" using a v by (auto simp: h1_def assignValue_def Let_def nth_append)
      then have "settable h1 ((a, ?k) # st) ?f ks"
        unfolding ks by (rule settable_fresh) (use a(1) Cons.prems(2) len in auto)
      note IH = Cons.IH [OF this]
      have "set_loop h v (k # ks) x None = set_loop h1 ?f ks x None"
        using True v ks get_prop_own [OF _ own, of t] a(1) len
        by (subst v, subst set_loop_Cons [OF _ refl]) (auto simp: set_value_fresh h1_def)
      then show ?thesis
        using own_loop_step [OF own _ kept] IH Cons.prems(2) a(1) len v by fastforce
    next
      case False
      then obtain w where w: "own_prop (h ! a) ?k = Some w" "settable h ((a, ?k) # st) w ks"
        using Cons.prems(1) v ks by (auto simp: get_prop_own split: option.splits)
      then have g: "get_prop h v ?k = w" using a get_prop_own v by blast
      obtain t1 b where b: "w = Obj t1 b" using w(2) ks by (cases w) auto
      have "assignValue h v ?k w = h"
        by (rule assignValue_same) (use w(1) a(1) g has_prop_own v in auto)
      then have "set_loop h v (k # ks) x None = set_loop h w ks x None"
        using False v ks g set_loop_Cons [of h t a k ks x None w h h] by (simp add: set_value_def)
      moreover have "steps_kept h h st" by (simp add: steps_kept_def)
      ultimately show ?thesis
        using own_loop_step [OF _ a(1), of k t1 b h st] w b v Cons.IH [OF w(2)] Cons.prems(2) a(1) by fastforce
    qed
  qed
qed simp

lemma own_loop_get: "own_loop h v ks = Some y \<Longrightarrow> get_loop h v ks = y"
  by (induction h v ks rule: own_loop.induct) (auto simp: get_prop_own split: if_splits option.splits)

lemma own_loop_has: "own_loop h v ks = Some y \<Longrightarrow> has_loop h baseHas v ks b kk = (b \<or> ks \<noteq> [], y, if ks = [] then kk else Some (toKey (last ks)))"
proof (induction h v ks arbitrary: b kk rule: own_loop.induct)
  case (2 h t a k ks)
  then show ?case by (auto simp: get_prop_own baseHas_def split: if_splits option.splits)
qed auto

section \<open>Properties\<close>

text \<open>
  (C18) After a value has been set at a path of at least one key of an object, reading the path gives a value equal to it and the path is
  reported as present, also where objects and arrays had to be made on the way. The steps of the path that exist are own
  properties that hold objects, up to one that is missing, null or undefined, where the rest is made; its keys can be written. The path must not
  take the same step twice: in a cyclic object the last write could redirect an earlier step.
\<close>

theorem set_then_get:
  assumes "settable h [] v ks"
  shows "eq (baseGet (set_js h v (PathArr ks) x) v (PathArr ks)) x \<and> has (set_js h v (PathArr ks) x) v (PathArr ks)"
proof -
  have v: "\<not> isNil v" "ks \<noteq> []" using assms by (cases v; cases ks; simp)+
  obtain y where y: "own_loop (set_js h v (PathArr ks) x) v ks = Some y" "eq y x"
    using set_loop_own [OF assms, of x] v by (auto simp: set_js_def baseSet_def path_keys_def)
  then show ?thesis using own_loop_get [OF y(1)] own_loop_has [OF y(1)] v
    by (simp add: baseGet_def has_def hasPath_def path_keys_def)
qed

theorem set_then_get_witness:
  "eq (baseGet (set_js [ObjN [] None] (Obj ObjectTag 0) (PathArr [Str ''a'', Num (Fin 0)]) Null) (Obj ObjectTag 0) (PathArr [Str ''a'', Num (Fin 0)])) Null"
  using set_then_get [of "[ObjN [] None]" "Obj ObjectTag 0" "[Str ''a'', Num (Fin 0)]" Null]
  by (simp add: get_prop_def)

end
