(* ===== verification/JsProps.thy ===== *)
theory JsProps
  imports JsObjects
begin

text \<open>
  Functions of lodash.js that build objects from the properties of others: loops over keys, assignment of
  sources, defaults, picking and omitting, inversion, mapping of keys and values, and pairs. Callbacks are
  functions on values and keys.
\<close>

section \<open>Loops over keys\<close>

text \<open>
  The callback gets the store and a state of its own, and returns whether the loop goes on. The value at a key
  is read when its turn comes.
\<close>

type_synonym 's callback = "heap \<Rightarrow> 's \<Rightarrow> jsval \<Rightarrow> propkey \<Rightarrow> bool \<times> heap \<times> 's"

fun for_loop :: "'s callback \<Rightarrow> jsval \<Rightarrow> propkey list \<Rightarrow> heap \<Rightarrow> 's \<Rightarrow> heap \<times> 's" where
  "for_loop f v [] h s = (h, s)"
| "for_loop f v (k # ks) h s =
     (case f h s (get_prop h v k) k of (b, h1, s1) \<Rightarrow> if b then for_loop f v ks h1 s1 else (h1, s1))"

definition createBaseFor ::
  "bool \<Rightarrow> heap \<Rightarrow> 's \<Rightarrow> jsval \<Rightarrow> 's callback \<Rightarrow> (heap \<Rightarrow> jsval \<Rightarrow> propkey list) \<Rightarrow> heap \<times> 's" where
  "createBaseFor fromRight h s v f keysFunc =
     (let props = keysFunc h v in for_loop f v (if fromRight then rev props else props) h s)"

definition baseFor :: "heap \<Rightarrow> 's \<Rightarrow> jsval \<Rightarrow> 's callback \<Rightarrow> (heap \<Rightarrow> jsval \<Rightarrow> propkey list) \<Rightarrow> heap \<times> 's" where
  "baseFor = createBaseFor False"

definition baseForRight :: "heap \<Rightarrow> 's \<Rightarrow> jsval \<Rightarrow> 's callback \<Rightarrow> (heap \<Rightarrow> jsval \<Rightarrow> propkey list) \<Rightarrow> heap \<times> 's" where
  "baseForRight = createBaseFor True"

definition baseForOwn :: "heap \<Rightarrow> 's \<Rightarrow> jsval \<Rightarrow> 's callback \<Rightarrow> heap \<times> 's" where
  "baseForOwn h s v f = (if truthy v then baseFor h s v f keys else (h, s))"

definition baseForOwnRight :: "heap \<Rightarrow> 's \<Rightarrow> jsval \<Rightarrow> 's callback \<Rightarrow> heap \<times> 's" where
  "baseForOwnRight h s v f = (if truthy v then baseForRight h s v f keys else (h, s))"

definition forIn :: "heap \<Rightarrow> 's \<Rightarrow> jsval \<Rightarrow> 's callback \<Rightarrow> heap \<times> 's" where
  "forIn h s v f = (if isNil v then (h, s) else baseFor h s v f keysIn)"

definition forInRight :: "heap \<Rightarrow> 's \<Rightarrow> jsval \<Rightarrow> 's callback \<Rightarrow> heap \<times> 's" where
  "forInRight h s v f = (if isNil v then (h, s) else baseForRight h s v f keysIn)"

definition forOwn :: "heap \<Rightarrow> 's \<Rightarrow> jsval \<Rightarrow> 's callback \<Rightarrow> heap \<times> 's" where
  "forOwn h s v f = (if truthy v then baseForOwn h s v f else (h, s))"

definition forOwnRight :: "heap \<Rightarrow> 's \<Rightarrow> jsval \<Rightarrow> 's callback \<Rightarrow> heap \<times> 's" where
  "forOwnRight h s v f = (if truthy v then baseForOwnRight h s v f else (h, s))"

text \<open>A callback that leaves the store alone, and one that only changes it.\<close>

definition pure_callback :: "('s \<Rightarrow> jsval \<Rightarrow> propkey \<Rightarrow> bool \<times> 's) \<Rightarrow> 's callback" where
  "pure_callback g h s x k = (case g s x k of (b, s1) \<Rightarrow> (b, h, s1))"

definition store_callback :: "(heap \<Rightarrow> jsval \<Rightarrow> propkey \<Rightarrow> heap) \<Rightarrow> unit callback" where
  "store_callback g h s x k = (True, g h x k, ())"

definition baseFindKey ::
  "heap \<Rightarrow> jsval \<Rightarrow> (jsval \<Rightarrow> propkey \<Rightarrow> bool) \<Rightarrow>
   (heap \<Rightarrow> propkey option \<Rightarrow> jsval \<Rightarrow> propkey option callback \<Rightarrow> heap \<times> propkey option) \<Rightarrow> propkey option" where
  "baseFindKey h v predicate eachFunc =
     snd (eachFunc h None v (pure_callback (\<lambda>res x k. if predicate x k then (False, Some k) else (True, res))))"

definition findKey :: "heap \<Rightarrow> jsval \<Rightarrow> (jsval \<Rightarrow> propkey \<Rightarrow> bool) \<Rightarrow> propkey option" where
  "findKey h v predicate = baseFindKey h v predicate baseForOwn"

definition findLastKey :: "heap \<Rightarrow> jsval \<Rightarrow> (jsval \<Rightarrow> propkey \<Rightarrow> bool) \<Rightarrow> propkey option" where
  "findLastKey h v predicate = baseFindKey h v predicate baseForOwnRight"

section \<open>Values and pairs\<close>

definition baseValues :: "heap \<Rightarrow> jsval \<Rightarrow> propkey list \<Rightarrow> jsval list" where
  "baseValues h v props = map (get_prop h v) props"

definition values_js :: "heap \<Rightarrow> jsval \<Rightarrow> jsval list" where
  "values_js h v = (if truthy v then baseValues h v (keys h v) else [])"

definition valuesIn :: "heap \<Rightarrow> jsval \<Rightarrow> jsval list" where
  "valuesIn h v = (if isNil v then [] else baseValues h v (keysIn h v))"

definition baseToPairs :: "heap \<Rightarrow> jsval \<Rightarrow> propkey list \<Rightarrow> (propkey \<times> jsval) list" where
  "baseToPairs h v props = map (\<lambda>k. (k, get_prop h v k)) props"

text \<open>Maps and sets, whose entries are not properties, are left out.\<close>

definition createToPairs :: "(heap \<Rightarrow> jsval \<Rightarrow> propkey list) \<Rightarrow> heap \<Rightarrow> jsval \<Rightarrow> (propkey \<times> jsval) list" where
  "createToPairs keysFunc h v = baseToPairs h v (keysFunc h v)"

definition toPairs :: "heap \<Rightarrow> jsval \<Rightarrow> (propkey \<times> jsval) list" where
  "toPairs = createToPairs keys"

definition toPairsIn :: "heap \<Rightarrow> jsval \<Rightarrow> (propkey \<times> jsval) list" where
  "toPairsIn = createToPairs keysIn"

fun pairs_loop :: "(propkey \<times> jsval) list \<Rightarrow> jsval \<Rightarrow> heap \<Rightarrow> heap" where
  "pairs_loop [] res h = h"
| "pairs_loop ((k, x) # ps) res h = pairs_loop ps res (put_prop h res k x)"

definition fromPairs :: "heap \<Rightarrow> (propkey \<times> jsval) list \<Rightarrow> jsval \<times> heap" where
  "fromPairs h ps = (case new_object h of (res, h1) \<Rightarrow> (res, pairs_loop ps res h1))"

fun zip_loop :: "(heap \<Rightarrow> jsval \<Rightarrow> 'k \<Rightarrow> jsval \<Rightarrow> heap) \<Rightarrow> jsval \<Rightarrow> 'k list \<Rightarrow> jsval list \<Rightarrow> heap \<Rightarrow> heap" where
  "zip_loop assignFunc res [] vs h = h"
| "zip_loop assignFunc res (k # ks) [] h = zip_loop assignFunc res ks [] (assignFunc h res k Undefined)"
| "zip_loop assignFunc res (k # ks) (x # vs) h = zip_loop assignFunc res ks vs (assignFunc h res k x)"

definition baseZipObject ::
  "heap \<Rightarrow> 'k list \<Rightarrow> jsval list \<Rightarrow> (heap \<Rightarrow> jsval \<Rightarrow> 'k \<Rightarrow> jsval \<Rightarrow> heap) \<Rightarrow> jsval \<times> heap" where
  "baseZipObject h props vs assignFunc = (case new_object h of (res, h1) \<Rightarrow> (res, zip_loop assignFunc res props vs h1))"

definition zipObject :: "heap \<Rightarrow> propkey list \<Rightarrow> jsval list \<Rightarrow> jsval \<times> heap" where
  "zipObject h props vs = baseZipObject h props vs assignValue"

definition zipObjectDeep :: "heap \<Rightarrow> path list \<Rightarrow> jsval list \<Rightarrow> jsval \<times> heap" where
  "zipObjectDeep h props vs = baseZipObject h props vs (\<lambda>h1 v p x. baseSet h1 v p x None)"

section \<open>Assignment of sources\<close>

type_synonym assign_customizer = "jsval \<Rightarrow> jsval \<Rightarrow> propkey \<Rightarrow> jsval \<Rightarrow> jsval \<Rightarrow> jsval"

fun copy_loop :: "jsval \<Rightarrow> jsval \<Rightarrow> assign_customizer option \<Rightarrow> propkey list \<Rightarrow> heap \<Rightarrow> heap" where
  "copy_loop source object customizer [] h = h"
| "copy_loop source object customizer (key # ks) h =
     (let newValue = (case customizer of
                        None \<Rightarrow> Undefined
                      | Some f \<Rightarrow> f (get_prop h object key) (get_prop h source key) key object source)
      in copy_loop source object customizer ks
           (assignValue h object key (if newValue = Undefined then get_prop h source key else newValue)))"

definition copyObject :: "heap \<Rightarrow> jsval \<Rightarrow> propkey list \<Rightarrow> jsval \<Rightarrow> assign_customizer option \<Rightarrow> jsval \<times> heap" where
  "copyObject h source props object customizer =
     (let (target, h1) = (if truthy object then (object, h) else new_object h)
      in (target, copy_loop source target customizer props h1))"

definition copySymbols :: "heap \<Rightarrow> jsval \<Rightarrow> jsval \<Rightarrow> jsval \<times> heap" where
  "copySymbols h source object = copyObject h source (getSymbols h source) object None"

definition baseAssign :: "heap \<Rightarrow> jsval \<Rightarrow> jsval \<Rightarrow> jsval \<times> heap" where
  "baseAssign h object source = (if truthy object then copyObject h source (keys h source) object None else (object, h))"

definition isIterateeCall :: "heap \<Rightarrow> jsval \<Rightarrow> jsval \<Rightarrow> jsval \<Rightarrow> bool" where
  "isIterateeCall h x index object =
     (isObject object \<and>
      (case index of
         Num n \<Rightarrow> isArrayLike h object \<and> isIndex n (Some (value_length (get_prop h object length_key)))
       | Str s \<Rightarrow> has_prop h object (PStr s)
       | _ \<Rightarrow> False) \<and>
      eq (get_prop h object (property_name index)) x)"

type_synonym assigner = "heap \<Rightarrow> jsval \<Rightarrow> jsval \<Rightarrow> assign_customizer option \<Rightarrow> heap"

fun sources_loop :: "assigner \<Rightarrow> assign_customizer option \<Rightarrow> jsval \<Rightarrow> jsval list \<Rightarrow> heap \<Rightarrow> heap" where
  "sources_loop assigner customizer object [] h = h"
| "sources_loop assigner customizer object (source # ss) h =
     sources_loop assigner customizer object ss (if truthy source then assigner h object source customizer else h)"

text \<open>
  The customizer, which the code finds as the last of the sources, is an argument of its own here. A third source can
  show that the function is called as an iteratee. The code also takes the customizer itself for that third source, when two
  sources precede it, and would then reset it; this needs a customizer with an element or property that is the first source,
  and customizers have none here. With three sources before it the customizer is kept, as in the code. The target is an
  object, null or undefined.
\<close>

definition createAssigner :: "assigner \<Rightarrow> heap \<Rightarrow> jsval \<Rightarrow> jsval list \<Rightarrow> assign_customizer option \<Rightarrow> jsval \<times> heap" where
  "createAssigner assigner h object sources customizer =
     (let guarded = (length sources > 2 \<and> truthy (sources ! 2) \<and> isIterateeCall h (sources ! 0) (sources ! 1) (sources ! 2));
          used = (if guarded then take 1 sources else sources);
          (target, h1) = (if isNil object then new_object h else (object, h))
      in (target, sources_loop assigner customizer target used h1))"

fun forin_loop :: "jsval \<Rightarrow> jsval \<Rightarrow> (heap \<Rightarrow> propkey \<Rightarrow> bool) \<Rightarrow> propkey list \<Rightarrow> heap \<Rightarrow> heap" where
  "forin_loop source object takes [] h = h"
| "forin_loop source object takes (key # ks) h =
     forin_loop source object takes ks (if takes h key then assignValue h object key (get_prop h source key) else h)"

text \<open>Properties that shadow the built-in ones are enumerable, as in every engine but old ones.\<close>

definition assign_source :: assigner where
  "assign_source h object source customizer =
     (if isPrototype h source \<or> isArrayLike h source
      then snd (copyObject h source (keys h source) object None)
      else forin_loop source object (\<lambda>h1 key. has_own h1 source key) (baseKeysIn h source) h)"

definition assign :: "heap \<Rightarrow> jsval \<Rightarrow> jsval list \<Rightarrow> jsval \<times> heap" where
  "assign h object sources = createAssigner assign_source h object sources None"

definition assignIn_source :: assigner where
  "assignIn_source h object source customizer =
     (if isPrototype h source \<or> isArrayLike h source
      then snd (copyObject h source (keysIn h source) object None)
      else forin_loop source object (\<lambda>h1 key. True) (baseKeysIn h source) h)"

definition assignIn :: "heap \<Rightarrow> jsval \<Rightarrow> jsval list \<Rightarrow> jsval \<times> heap" where
  "assignIn h object sources = createAssigner assignIn_source h object sources None"

definition assignInWith :: "heap \<Rightarrow> jsval \<Rightarrow> jsval list \<Rightarrow> assign_customizer option \<Rightarrow> jsval \<times> heap" where
  "assignInWith h object sources customizer =
     createAssigner (\<lambda>h1 obj source c. snd (copyObject h1 source (keysIn h1 source) obj c)) h object sources customizer"

definition assignWith :: "heap \<Rightarrow> jsval \<Rightarrow> jsval list \<Rightarrow> assign_customizer option \<Rightarrow> jsval \<times> heap" where
  "assignWith h object sources customizer =
     createAssigner (\<lambda>h1 obj source c. snd (copyObject h1 source (keys h1 source) obj c)) h object sources customizer"

text \<open>Built-in prototypes have no properties in the store, so a value equal to one of theirs is undefined.\<close>

definition assignInDefaults :: assign_customizer where
  "assignInDefaults objValue srcValue key object source = (if objValue = Undefined then srcValue else objValue)"

definition defaults :: "heap \<Rightarrow> jsval \<Rightarrow> jsval list \<Rightarrow> jsval \<times> heap" where
  "defaults h object sources = assignInWith h object (sources @ [Undefined]) (Some assignInDefaults)"

definition baseCreate :: "heap \<Rightarrow> jsval \<Rightarrow> jsval \<times> heap" where
  "baseCreate h proto =
     (case proto of
        Obj t a \<Rightarrow> (Obj ObjectTag (length h), h @ [ObjN [] (Some a)])
      | _ \<Rightarrow> new_object h)"

definition create :: "heap \<Rightarrow> jsval \<Rightarrow> jsval \<Rightarrow> jsval \<times> heap" where
  "create h prototype properties =
     (case baseCreate h prototype of
        (res, h1) \<Rightarrow> if truthy properties then baseAssign h1 res properties else (res, h1))"

section \<open>Picking, inverting and mapping\<close>

fun pick_loop :: "jsval \<Rightarrow> jsval \<Rightarrow> (heap \<Rightarrow> jsval \<Rightarrow> propkey \<Rightarrow> bool) \<Rightarrow> propkey list \<Rightarrow> heap \<Rightarrow> heap" where
  "pick_loop object res predicate [] h = h"
| "pick_loop object res predicate (key # ks) h =
     (let x = get_prop h object key
      in pick_loop object res predicate ks (if predicate h x key then put_prop h res key x else h))"

definition basePickBy :: "heap \<Rightarrow> jsval \<Rightarrow> propkey list \<Rightarrow> (heap \<Rightarrow> jsval \<Rightarrow> propkey \<Rightarrow> bool) \<Rightarrow> jsval \<times> heap" where
  "basePickBy h object props predicate =
     (case new_object h of (res, h1) \<Rightarrow> (res, pick_loop object res predicate props h1))"

definition basePick :: "heap \<Rightarrow> jsval \<Rightarrow> propkey list \<Rightarrow> jsval \<times> heap" where
  "basePick h object props = basePickBy h object props (\<lambda>h1 x key. has_prop h1 object key)"

definition pick :: "heap \<Rightarrow> jsval \<Rightarrow> jsval list \<Rightarrow> jsval \<times> heap" where
  "pick h object props = (if isNil object then new_object h else basePick h object (map toKey props))"

definition pickBy :: "heap \<Rightarrow> jsval \<Rightarrow> (jsval \<Rightarrow> bool) \<Rightarrow> jsval \<times> heap" where
  "pickBy h object predicate =
     (if isNil object then new_object h else basePickBy h object (getAllKeysIn h object) (\<lambda>h1 x key. predicate x))"

definition omitBy :: "heap \<Rightarrow> jsval \<Rightarrow> (jsval \<Rightarrow> bool) \<Rightarrow> jsval \<times> heap" where
  "omitBy h object predicate = pickBy h object (\<lambda>x. \<not> predicate x)"

text \<open>The difference of lists of keys, on which equality is identity.\<close>

definition omit :: "heap \<Rightarrow> jsval \<Rightarrow> jsval list \<Rightarrow> jsval \<times> heap" where
  "omit h object props =
     (if isNil object then new_object h
      else basePick h object (filter (\<lambda>k. k \<notin> set (map toKey props)) (getAllKeysIn h object)))"

definition baseInverter ::
  "heap \<Rightarrow> jsval \<Rightarrow> (heap \<Rightarrow> jsval \<Rightarrow> jsval \<Rightarrow> propkey \<Rightarrow> heap) \<Rightarrow> (jsval \<Rightarrow> jsval) \<Rightarrow> jsval \<Rightarrow> jsval \<times> heap" where
  "baseInverter h object setter iteratee accumulator =
     (accumulator, fst (baseForOwn h () object (store_callback (\<lambda>h1 x key. setter h1 accumulator (iteratee x) key))))"

definition createInverter ::
  "(heap \<Rightarrow> jsval \<Rightarrow> jsval \<Rightarrow> propkey \<Rightarrow> heap) \<Rightarrow> heap \<Rightarrow> jsval \<Rightarrow> (jsval \<Rightarrow> jsval) \<Rightarrow> jsval \<times> heap" where
  "createInverter setter h object iteratee =
     (case new_object h of (acc, h1) \<Rightarrow> baseInverter h1 object setter iteratee acc)"

fun key_value :: "propkey \<Rightarrow> jsval" where
  "key_value (PStr s) = Str s"
| "key_value (PSym k) = Sym k"

definition invert :: "heap \<Rightarrow> jsval \<Rightarrow> jsval \<times> heap" where
  "invert h object =
     createInverter (\<lambda>h1 res x key. put_prop h1 res (property_name x) (key_value key)) h object (\<lambda>x. x)"

text \<open>\<open>push\<close> on an array of the store.\<close>

definition array_push :: "heap \<Rightarrow> jsval \<Rightarrow> jsval \<Rightarrow> heap" where
  "array_push h arr x = put_prop h arr (index_key (value_length (get_prop h arr length_key))) x"

definition push_at :: "heap \<Rightarrow> jsval \<Rightarrow> propkey \<Rightarrow> jsval \<Rightarrow> heap" where
  "push_at h res k x =
     (if has_own h res k then array_push h (get_prop h res k) x
      else (case new_array h [x] of (arr, h1) \<Rightarrow> put_prop h1 res k arr))"

definition invertBy :: "heap \<Rightarrow> jsval \<Rightarrow> (jsval \<Rightarrow> jsval) \<Rightarrow> jsval \<times> heap" where
  "invertBy h object iteratee =
     createInverter (\<lambda>h1 res x key. push_at h1 res (property_name x) (key_value key)) h object iteratee"

definition mapKeys :: "heap \<Rightarrow> jsval \<Rightarrow> (jsval \<Rightarrow> propkey \<Rightarrow> jsval) \<Rightarrow> jsval \<times> heap" where
  "mapKeys h object iteratee =
     (case new_object h of
        (res, h1) \<Rightarrow> (res, fst (baseForOwn h1 () object (store_callback (\<lambda>h2 x key. put_prop h2 res (property_name (iteratee x key)) x)))))"

definition mapValues :: "heap \<Rightarrow> jsval \<Rightarrow> (jsval \<Rightarrow> propkey \<Rightarrow> jsval) \<Rightarrow> jsval \<times> heap" where
  "mapValues h object iteratee =
     (case new_object h of
        (res, h1) \<Rightarrow> (res, fst (baseForOwn h1 () object (store_callback (\<lambda>h2 x key. put_prop h2 res key (iteratee x key))))))"

definition baseFunctions :: "heap \<Rightarrow> jsval \<Rightarrow> propkey list \<Rightarrow> propkey list" where
  "baseFunctions h object props = filter (\<lambda>key. isFunction (get_prop h object key)) props"

definition functions_js :: "heap \<Rightarrow> jsval \<Rightarrow> propkey list" where
  "functions_js h object = (if isNil object then [] else baseFunctions h object (keys h object))"

definition functionsIn :: "heap \<Rightarrow> jsval \<Rightarrow> propkey list" where
  "functionsIn h object = (if isNil object then [] else baseFunctions h object (keysIn h object))"

text \<open>The predicates of a source are functions that \<open>call\<close> applies; the loop goes from the last key to the first.\<close>

definition baseConformsTo :: "heap \<Rightarrow> (jsval \<Rightarrow> jsval \<Rightarrow> bool) \<Rightarrow> jsval \<Rightarrow> jsval \<Rightarrow> propkey list \<Rightarrow> bool" where
  "baseConformsTo h call object source props =
     (if isNil object then props = []
      else list_all (\<lambda>key. \<not> ((get_prop h object key = Undefined \<and> \<not> has_prop h object key) \<or>
                              \<not> call (get_prop h source key) (get_prop h object key))) (rev props))"

definition baseConforms :: "heap \<Rightarrow> (jsval \<Rightarrow> jsval \<Rightarrow> bool) \<Rightarrow> jsval \<Rightarrow> jsval \<Rightarrow> bool" where
  "baseConforms h call source = (\<lambda>object. baseConformsTo h call object source (keys h source))"

definition conformsTo :: "heap \<Rightarrow> (jsval \<Rightarrow> jsval \<Rightarrow> bool) \<Rightarrow> jsval \<Rightarrow> jsval \<Rightarrow> bool" where
  "conformsTo h call object source = (isNil source \<or> baseConformsTo h call object source (keys h source))"

section \<open>Specifications\<close>

text \<open>A cell of a plain object: no prototype but the built-in one, and neither a length nor a constructor of its own.\<close>

fun plain :: "node \<Rightarrow> bool" where
  "plain (ObjN ps None) = (distinct (map fst ps) \<and> map_of ps length_key = None \<and> map_of ps (PStr ''constructor'') = None)"
| "plain n = False"

fun node_props :: "node \<Rightarrow> (propkey \<times> jsval) list" where
  "node_props (ArrN es ps) = ps"
| "node_props (ObjN ps proto) = ps"

text \<open>Strings that can be keys of a plain object.\<close>

fun key_string :: "jsval \<Rightarrow> bool" where
  "key_string (Str s) = (s \<noteq> ''length'' \<and> s \<noteq> ''constructor'')"
| "key_string v = False"

text \<open>The keys of a plain cell that loops visit, and the properties they see.\<close>

definition string_keys :: "node \<Rightarrow> propkey list" where
  "string_keys n = filter is_string_key (map fst (node_props n))"

text \<open>Writes to one cell, one after the other.\<close>

definition put_all :: "(propkey \<times> jsval) list \<Rightarrow> node \<Rightarrow> node" where
  "put_all ws n = fold (\<lambda>(k, v) m. put_own m k v) ws n"

text \<open>The normalised value of an own property, and what is left of it when sources have been assigned.\<close>

definition own_norm :: "heap \<Rightarrow> nat \<Rightarrow> propkey \<Rightarrow> jsval option" where
  "own_norm h a k = map_option val_norm (own_prop (h ! a) k)"

fun last_source :: "heap \<Rightarrow> propkey \<Rightarrow> nat list \<Rightarrow> jsval option \<Rightarrow> jsval option" where
  "last_source h k [] cur = cur"
| "last_source h k (s # ss) cur = last_source h k ss (case own_norm h s k of None \<Rightarrow> cur | Some v \<Rightarrow> Some v)"

section \<open>Lemmas\<close>

lemma plain_node: "plain n \<Longrightarrow> n = ObjN (node_props n) None"
  by (cases n rule: plain.cases) auto

lemma plain_get:
  assumes "plain (h ! a)" "a < length h"
  shows "prop_find h (Obj t a) k = own_prop (h ! a) k" "has_own h (Obj t a) k \<longleftrightarrow> own_prop (h ! a) k \<noteq> None"
    "has_prop h (Obj t a) k \<longleftrightarrow> own_prop (h ! a) k \<noteq> None"
proof -
  obtain n where "length h = Suc n" using assms(2) by (cases "length h") auto
  then show p: "prop_find h (Obj t a) k = own_prop (h ! a) k"
    using assms plain_node [OF assms(1)] by (cases "own_prop (h ! a) k") (auto, metis node_proto.simps(2) option.simps(4))
  show "has_own h (Obj t a) k \<longleftrightarrow> own_prop (h ! a) k \<noteq> None" using assms(2) by simp
  show "has_prop h (Obj t a) k \<longleftrightarrow> own_prop (h ! a) k \<noteq> None" using p by (simp add: has_prop_def)
qed

lemma plain_own: "plain n \<Longrightarrow> own_prop n k = map_of (node_props n) k"
  by (cases n rule: plain.cases) auto

lemma plain_kind:
  assumes "plain (h ! a)" "a < length h"
  shows "\<not> isArrayLike h (Obj t a)" "\<not> isPrototype h (Obj t a)"
proof -
  have "own_prop (h ! a) length_key = None" "own_prop (h ! a) (PStr ''constructor'') = None"
    using assms(1) by (cases "h ! a" rule: plain.cases; simp)+
  then show "\<not> isArrayLike h (Obj t a)" "\<not> isPrototype h (Obj t a)"
    using plain_get(1) [OF assms] by (simp_all add: isArrayLike_def isPrototype_def get_prop_def Let_def)
qed

lemma plain_keys:
  assumes "plain (h ! a)" "a < length h"
  shows "keys h (Obj t a) = string_keys (h ! a)" "baseKeysIn h (Obj t a) = string_keys (h ! a)"
proof -
  have n: "node_keys (h ! a) = string_keys (h ! a)" "node_proto (h ! a) = None"
    using plain_node [OF assms(1)] by (metis node_keys.simps(2) string_keys_def, metis node_proto.simps(2))
  show "keys h (Obj t a) = string_keys (h ! a)"
    using plain_kind [OF assms] n assms(2) by (simp add: keys_def Let_def)
  obtain m where "length h = Suc m" using assms(2) by (cases "length h") auto
  then show "baseKeysIn h (Obj t a) = string_keys (h ! a)" using n assms(2) by simp
qed

lemma put_all_simps [simp]: "put_all [] n = n" "put_all ((k, v) # ws) n = put_all ws (put_own n k v)"
  by (simp_all add: put_all_def)

lemma put_all_own: "own_prop (put_all ws (ObjN ps pr)) k = (case map_of (rev ws) k of None \<Rightarrow> map_of ps k | Some v \<Rightarrow> Some v)"
proof (induction ws arbitrary: ps)
  case (Cons w ws)
  then show ?case by (cases w) (auto simp: map_add_def split: option.split)
qed simp

text \<open>Loops that read a plain object and write to another one.\<close>

lemma for_loop_put:
  assumes "a < length h" "r < length h" "r \<noteq> a" "plain (h ! a)"
    and g: "\<And>h1 x k. g h1 x k = put_prop h1 (Obj t1 r) (kf x k) (vf x k)"
  shows "for_loop (store_callback g) (Obj t a) ks h () =
    (h[r := put_all (map (\<lambda>k. (kf (get_prop h (Obj t a) k) k, vf (get_prop h (Obj t a) k) k)) ks) (h ! r)], ())"
  using assms(1-4)
proof (induction ks arbitrary: h)
  case (Cons k ks)
  let ?x = "get_prop h (Obj t a) k"
  let ?h1 = "h[r := put_own (h ! r) (kf ?x k) (vf ?x k)]"
  have same: "get_prop ?h1 (Obj t a) k1 = get_prop h (Obj t a) k1" for k1
    using Cons.prems plain_get(1) [of h a t k1] plain_get(1) [of ?h1 a t k1] by (simp add: get_prop_def)
  show ?case using Cons.IH [of ?h1] Cons.prems by (simp add: store_callback_def g same)
qed simp

lemma pick_loop_put:
  assumes "a < length h" "r < length h" "r \<noteq> a" "plain (h ! a)"
    and p: "\<And>h1 x k. h1 ! a = h ! a \<Longrightarrow> a < length h1 \<Longrightarrow> p h1 x k = q x k"
  shows "pick_loop (Obj t a) (Obj t1 r) p ks h =
    h[r := put_all (map (\<lambda>k. (k, get_prop h (Obj t a) k)) (filter (\<lambda>k. q (get_prop h (Obj t a) k) k) ks)) (h ! r)]"
  using assms
proof (induction ks arbitrary: h)
  case (Cons k ks)
  let ?x = "get_prop h (Obj t a) k"
  let ?h1 = "h[r := put_own (h ! r) k ?x]"
  have same: "get_prop ?h1 (Obj t a) k1 = get_prop h (Obj t a) k1" for k1
    using Cons.prems(1-4) plain_get(1) [of h a t k1] plain_get(1) [of ?h1 a t k1] by (simp add: get_prop_def)
  show ?case using Cons.IH [of ?h1] Cons.IH [of h] Cons.prems(1-4) Cons.prems(5) [of h] Cons.prems(5)
    by (cases "q ?x k") (simp_all add: same)
qed simp

lemma plain_props:
  assumes "plain (h ! a)" "a < length h" "k \<in> fst ` set (node_props (h ! a))"
  shows "Some (get_prop h (Obj t a) k) = own_prop (h ! a) k"
proof -
  have "own_prop (h ! a) k \<noteq> None" using assms(1,3) plain_own [of "h ! a" k] by (simp add: map_of_eq_None_iff)
  then show ?thesis using plain_get(1) [OF assms(1,2)] by (auto simp: get_prop_def)
qed

text \<open>Writing the value of every key of a list makes these keys present.\<close>

lemma put_all_keys:
  assumes "\<And>k. k \<in> set ks \<Longrightarrow> Some (vf k) = m k"
  shows "own_prop (put_all (map (\<lambda>k. (k, vf k)) ks) (ObjN [] pr)) k = (if k \<in> set ks then m k else None)"
proof -
  have "map_of (rev (map (\<lambda>k. (k, vf k)) ks)) k = (if k \<in> set ks then Some (vf k) else None)"
    using map_of_map_restrict [of vf "rev ks"] by (simp add: rev_map restrict_map_def)
  then show ?thesis using assms by (auto simp: put_all_own split: option.split)
qed

lemma new_object_cells:
  assumes "a < length h" "plain (h ! a)"
  shows "a < length (h @ [ObjN [] None])" "length h < length (h @ [ObjN [] None])" "length h \<noteq> a" "plain ((h @ [ObjN [] None]) ! a)"
  using assms by (simp_all add: nth_append)

lemma plain_all_keys:
  assumes "plain (h ! a)" "a < length h"
  shows "set (getAllKeysIn h (Obj ObjectTag a)) = fst ` set (node_props (h ! a))"
proof -
  let ?v = "Obj ObjectTag a"
  obtain m where m: "length h = Suc m" using assms(2) by (cases "length h") auto
  have n: "node_symbols (h ! a) = filter (\<lambda>k. \<not> is_string_key k) (map fst (node_props (h ! a)))" "node_proto (h ! a) = None"
    using plain_node [OF assms(1)] by (metis node_symbols.simps(2), metis node_proto.simps(2))
  have "PStr ''constructor'' \<notin> fst ` set (node_props (h ! a))"
    using assms(1) by (cases "h ! a" rule: plain.cases) (auto simp: map_of_eq_None_iff)
  then have "keysIn h ?v = string_keys (h ! a)"
    using plain_keys(2) [OF assms, of ObjectTag] plain_kind(2) [OF assms, of ObjectTag]
    by (auto simp: keysIn_def indexKeys_def Let_def isArray_def isString_def isArguments_def string_keys_def intro!: filter_cong)
  moreover have "getSymbolsIn h ?v = node_symbols (h ! a)" using m n assms(2) by simp
  ultimately show ?thesis by (auto simp: getAllKeysIn_def baseGetAllKeys_def isArray_def arrayPush_append string_keys_def n(1))
qed

lemma basePick_own:
  assumes "a < length h" "plain (h ! a)"
  shows "basePick h (Obj t a) ks = (Obj ObjectTag (length h), (h @ [put_all (map (\<lambda>k. (k, get_prop h (Obj t a) k)) (filter (\<lambda>k. own_prop (h ! a) k \<noteq> None) ks)) (ObjN [] None)]))"
proof -
  let ?h = "h @ [ObjN [] None]"
  have same: "get_prop ?h (Obj t a) k = get_prop h (Obj t a) k" for k
    using plain_get(1) [of h a t k] plain_get(1) [of ?h a t k] assms by (simp add: get_prop_def nth_append)
  have "has_prop h1 (Obj t a) k = (own_prop (h ! a) k \<noteq> None)" if "h1 ! a = ?h ! a" "a < length h1" for h1 k
    using plain_get(3) [of h1 a] that assms by (simp add: nth_append)
  then show ?thesis
    using pick_loop_put [OF new_object_cells [OF assms], of "\<lambda>h1 x k. has_prop h1 (Obj t a) k" "\<lambda>x k. own_prop (h ! a) k \<noteq> None" t ObjectTag ks]
    by (simp add: basePick_def basePickBy_def new_object_def same)
qed

lemma assoc_put_append: "k \<notin> fst ` set ps \<Longrightarrow> assoc_put ps k v = ps @ [(k, v)]"
  by (induction ps k v rule: assoc_put.induct) auto

lemma put_all_append: "distinct (map fst (ps @ ws)) \<Longrightarrow> put_all ws (ObjN ps pr) = ObjN (ps @ ws) pr"
proof (induction ws arbitrary: ps)
  case (Cons w ws)
  obtain k v where w: "w = (k, v)" by (cases w)
  then have "k \<notin> fst ` set ps" using Cons.prems by auto
  then show ?case using Cons.IH [of "ps @ [(k, v)]"] Cons.prems w by (simp add: assoc_put_append)
qed simp

text \<open>An object built by one write for every property of a plain object.\<close>

lemma build_object:
  assumes "a < length h" "h ! a = ObjN ps None" "plain (h ! a)" "list_all (is_string_key \<circ> fst) ps"
    and "distinct (map (\<lambda>(k, v). kf v k) ps)"
    and "\<And>h1 x k. g h1 x k = put_prop h1 (Obj ObjectTag (length h)) (kf x k) (vf x k)"
  shows "baseForOwn (h @ [ObjN [] None]) () (Obj t a) (store_callback g) =
    (h @ [ObjN (map (\<lambda>(k, v). (kf v k, vf v k)) ps) None], ())"
proof -
  let ?h = "h @ [ObjN [] None]"
  have ks: "keys ?h (Obj t a) = map fst ps"
    using plain_keys(1) [of ?h a t] assms by (simp add: nth_append string_keys_def filter_id_conv list_all_iff)
  have get: "get_prop ?h (Obj t a) k = v" if "(k, v) \<in> set ps" for k v
    using plain_get(1) [of ?h a t k] assms that by (auto simp: get_prop_def nth_append)
  have ws: "map (\<lambda>k. (kf (get_prop ?h (Obj t a) k) k, vf (get_prop ?h (Obj t a) k) k)) (map fst ps) = map (\<lambda>(k, v). (kf v k, vf v k)) ps"
    using get by auto
  have "for_loop (store_callback g) (Obj t a) (map fst ps) ?h () =
      (?h[length h := put_all (map (\<lambda>(k, v). (kf v k, vf v k)) ps) (?h ! length h)], ())"
    unfolding ws [symmetric] by (rule for_loop_put [OF new_object_cells [OF assms(1,3)] assms(6)])
  then show ?thesis
    using put_all_append [of "[]" "map (\<lambda>(k, v). (kf v k, vf v k)) ps" None] assms(5)
    by (simp add: baseForOwn_def baseFor_def createBaseFor_def ks case_prod_unfold comp_def)
qed

lemma pairs_loop_put: "r < length h \<Longrightarrow> pairs_loop ws (Obj t r) h = h[r := put_all ws (h ! r)]"
  by (induction ws "Obj t r" h rule: pairs_loop.induct) auto

lemma invert_object:
  assumes "a < length h" "h ! a = ObjN ps None" "plain (h ! a)" "list_all (is_string_key \<circ> fst) ps"
    and "distinct (map (\<lambda>(k, x). property_name x) ps)"
  shows "invert h (Obj t a) =
    (Obj ObjectTag (length h), h @ [ObjN (map (\<lambda>(k, x). (property_name x, key_value k)) ps) None])"
  using build_object [OF assms(1-4), of "\<lambda>x k. property_name x" _ "\<lambda>x k. key_value k" t] assms(5)
  by (simp add: invert_def createInverter_def new_object_def baseInverter_def)

lemma key_value_name [simp]: "property_name (key_value k) = k"
  by (cases k) simp_all

lemma key_string_name: "key_string x \<Longrightarrow> key_value (property_name x) = x \<and> is_string_key (property_name x)"
  by (cases x) auto

lemma assignValue_ObjN:
  assumes "a < length h" "h ! a = ObjN ps pr"
  shows "\<exists>ps1. assignValue h (Obj t a) k x = h[a := ObjN ps1 pr] \<and>
    (\<forall>k1. map_option val_norm (map_of ps1 k1) = (if k1 = k then Some (val_norm x) else map_option val_norm (map_of ps k1)))"
proof (cases "has_own h (Obj t a) k \<and> eq (get_prop h (Obj t a) k) x")
  case True
  then obtain y where "map_of ps k = Some y" "eq y x" using assms get_prop_own [of a h k _ t] by auto
  moreover have "assignValue h (Obj t a) k x = h[a := ObjN ps pr]"
    using True assms has_prop_own [of a h k] list_update_id [of h a] by (auto simp: assignValue_def Let_def)
  ultimately show ?thesis by (intro exI [of _ ps]) (auto simp: eq_iff_norm)
next
  case False
  then have "assignValue h (Obj t a) k x = h[a := ObjN (assoc_put ps k x) pr]"
    using assms by (auto simp: assignValue_def Let_def)
  then show ?thesis by (intro exI [of _ "assoc_put ps k x"]) auto
qed

text \<open>A source assigned to another object.\<close>

lemma forin_loop_own:
  assumes "a < length h" "h ! a = ObjN ps pr" "s < length h" "s \<noteq> a" "plain (h ! s)" "set ks \<subseteq> fst ` set (node_props (h ! s))"
  shows "\<exists>ps1. forin_loop (Obj ObjectTag s) (Obj t a) (\<lambda>h1 key. has_own h1 (Obj ObjectTag s) key) ks h = h[a := ObjN ps1 pr] \<and>
    (\<forall>k1. map_option val_norm (map_of ps1 k1) = (if k1 \<in> set ks then own_norm h s k1 else map_option val_norm (map_of ps k1)))"
  using assms
proof (induction ks arbitrary: h ps)
  case Nil
  then show ?case by (metis empty_iff forin_loop.simps(1) list.set(1) list_update_id)
next
  case (Cons k ks)
  let ?x = "get_prop h (Obj ObjectTag s) k"
  have x: "own_prop (h ! s) k = Some ?x" using plain_props [of h s k ObjectTag] Cons.prems by auto
  obtain ps1 where ps1: "assignValue h (Obj t a) k ?x = h[a := ObjN ps1 pr]"
    "\<forall>k1. map_option val_norm (map_of ps1 k1) = (if k1 = k then Some (val_norm ?x) else map_option val_norm (map_of ps k1))"
    using assignValue_ObjN [OF Cons.prems(1,2)] by blast
  let ?h1 = "h[a := ObjN ps1 pr]"
  obtain ps2 where "forin_loop (Obj ObjectTag s) (Obj t a) (\<lambda>h1 key. has_own h1 (Obj ObjectTag s) key) ks ?h1 = ?h1[a := ObjN ps2 pr]"
    "\<forall>k1. map_option val_norm (map_of ps2 k1) = (if k1 \<in> set ks then own_norm ?h1 s k1 else map_option val_norm (map_of ps1 k1))"
    using Cons.IH [of ?h1 ps1] Cons.prems by auto
  then show ?case using ps1 x Cons.prems by (intro exI [of _ ps2]) (auto simp: own_norm_def)
qed

lemma assign_source_own:
  assumes "a < length h" "h ! a = ObjN ps pr" "s < length h" "s \<noteq> a" "plain (h ! s)"
  shows "\<exists>ps1. assign_source h (Obj t a) (Obj ObjectTag s) c = h[a := ObjN ps1 pr] \<and>
    (\<forall>k1. is_string_key k1 \<longrightarrow> map_option val_norm (map_of ps1 k1) =
       (case own_norm h s k1 of None \<Rightarrow> map_option val_norm (map_of ps k1) | Some v \<Rightarrow> Some v))"
proof -
  have sub: "set (string_keys (h ! s)) \<subseteq> fst ` set (node_props (h ! s))" by (auto simp: string_keys_def)
  have mem: "k \<in> set (string_keys (h ! s)) \<longleftrightarrow> own_norm h s k \<noteq> None" if "is_string_key k" for k
    using that plain_own [OF assms(5), of k] map_of_eq_None_iff [of "node_props (h ! s)" k] by (auto simp: own_norm_def string_keys_def)
  obtain ps1 where ps1: "forin_loop (Obj ObjectTag s) (Obj t a) (\<lambda>h1 key. has_own h1 (Obj ObjectTag s) key) (string_keys (h ! s)) h = h[a := ObjN ps1 pr]"
    "\<forall>k1. map_option val_norm (map_of ps1 k1) = (if k1 \<in> set (string_keys (h ! s)) then own_norm h s k1 else map_option val_norm (map_of ps k1))"
    using forin_loop_own [OF assms sub] by blast
  then have "assign_source h (Obj t a) (Obj ObjectTag s) c = h[a := ObjN ps1 pr]"
    using plain_kind [OF assms(5,3)] plain_keys(2) [OF assms(5,3), of ObjectTag]
    by (simp add: assign_source_def del: has_own.simps baseKeysIn.simps)
  then show ?thesis using ps1(2) mem by (intro exI [of _ ps1]) (auto split: option.split)
qed

lemma sources_loop_own:
  assumes "a < length h" "h ! a = ObjN ps pr" "\<forall>s\<in>set ss. s < length h \<and> s \<noteq> a \<and> plain (h ! s)" "is_string_key k"
  shows "\<exists>ps1. sources_loop assign_source c (Obj t a) (map (Obj ObjectTag) ss) h = h[a := ObjN ps1 pr] \<and>
    map_option val_norm (map_of ps1 k) = last_source h k ss (map_option val_norm (map_of ps k))"
  using assms
proof (induction ss arbitrary: h ps)
  case Nil
  then show ?case by (metis last_source.simps(1) list.map(1) list_update_id sources_loop.simps(1))
next
  case (Cons s ss)
  obtain ps1 where ps1: "assign_source h (Obj t a) (Obj ObjectTag s) c = h[a := ObjN ps1 pr]"
    "map_option val_norm (map_of ps1 k) = (case own_norm h s k of None \<Rightarrow> map_option val_norm (map_of ps k) | Some v \<Rightarrow> Some v)"
    using assign_source_own [of a h ps pr s] Cons.prems by force
  let ?h1 = "h[a := ObjN ps1 pr]"
  have cells: "\<forall>s\<in>set ss. s < length ?h1 \<and> s \<noteq> a \<and> plain (?h1 ! s)" using Cons.prems(3) by (auto simp: nth_list_update)
  have same: "last_source ?h1 k ss cur = last_source h k ss cur" for cur
    using Cons.prems(3) by (induction ss arbitrary: cur) (auto simp: own_norm_def)
  obtain ps2 where "sources_loop assign_source c (Obj t a) (map (Obj ObjectTag) ss) ?h1 = ?h1[a := ObjN ps2 pr]"
    "map_option val_norm (map_of ps2 k) = last_source ?h1 k ss (map_option val_norm (map_of ps1 k))"
    using Cons.IH [of ?h1 ps1, OF _ _ cells Cons.prems(4)] Cons.prems(1) by auto
  then show ?case using ps1 same by (intro exI [of _ ps2]) simp
qed

section \<open>Properties\<close>

text \<open>
  \<open>pick\<close> and \<open>omit\<close> with the same keys split the properties of a plain object between two new
  objects, and leave the object as it is.
\<close>

theorem pick_omit_split:
  assumes "a < length h" "plain (h ! a)" "pick h (Obj ObjectTag a) ps = (Obj t1 r, h1)" "omit h (Obj ObjectTag a) ps = (Obj t2 s, h2)"
  shows "own_prop (h1 ! r) k = (if k \<in> toKey ` set ps then own_prop (h ! a) k else None) \<and>
    own_prop (h2 ! s) k = (if k \<in> toKey ` set ps then None else own_prop (h ! a) k) \<and>
    h1 ! a = h ! a \<and> h2 ! a = h ! a"
proof -
  let ?v = "Obj ObjectTag a"
  have own: "own_prop (put_all (map (\<lambda>k. (k, get_prop h ?v k)) (filter (\<lambda>k. own_prop (h ! a) k \<noteq> None) ks)) (ObjN [] None)) k =
      (if k \<in> set ks then own_prop (h ! a) k else None)" for ks
    by (subst put_all_keys [of _ _ "own_prop (h ! a)"]) (use plain_get(1) [OF assms(2,1)] in \<open>auto simp: get_prop_def\<close>)
  have "own_prop (h ! a) k = None" if "k \<notin> fst ` set (node_props (h ! a))"
    using that plain_own [OF assms(2), of k] by (simp add: map_of_eq_None_iff)
  then show ?thesis
    using assms own [of "map toKey ps"] own [of "filter (\<lambda>k. k \<notin> toKey ` set ps) (getAllKeysIn h ?v)"] plain_all_keys [OF assms(2,1)]
    by (auto simp: pick_def omit_def basePick_own [OF assms(1,2)] nth_append)
qed

theorem pick_omit_split_witness:
  "own_prop (snd (pick [ObjN [(PStr ''a'', Null), (PStr ''b'', Undefined)] None] (Obj ObjectTag 0) [Str ''b'']) ! 1) (PStr ''b'') = Some Undefined"
proof -
  let ?h = "[ObjN [(PStr ''a'', Null), (PStr ''b'', Undefined)] None]" and ?v = "Obj ObjectTag 0" and ?p = "[Str ''b'']"
  have "pick ?h ?v ?p = (Obj ObjectTag 1, snd (pick ?h ?v ?p))" "omit ?h ?v ?p = (Obj ObjectTag 1, snd (omit ?h ?v ?p))"
    by (simp_all add: pick_def omit_def basePick_def basePickBy_def new_object_def)
  from pick_omit_split [OF _ _ this, of "PStr ''b''"] show ?thesis by (simp add: length_key_def)
qed

text \<open>
  Objects are rebuilt from what their properties are turned into: from the pairs of a plain object comes an equal
  object, mapping the values keeps the keys and their order, and inverting an object of distinct strings twice
  gives back its properties.
\<close>

theorem object_rebuilt:
  assumes "a < length h" "h ! a = ObjN ps None" "plain (h ! a)" "list_all (is_string_key \<circ> fst) ps"
  defines "v \<equiv> Obj ObjectTag a"
  shows "fromPairs h (toPairs h v) = (Obj ObjectTag (length h), h @ [ObjN ps None]) \<and>
    mapValues h v f = (Obj ObjectTag (length h), h @ [ObjN (map (\<lambda>(k, x). (k, f x k)) ps) None]) \<and>
    (list_all (key_string \<circ> snd) ps \<and> distinct (map snd ps) \<longrightarrow>
     (case invert h v of (w, h1) \<Rightarrow> invert h1 w = (Obj ObjectTag (length h1), h1 @ [ObjN ps None])))"
proof (intro conjI impI)
  have ks: "keys h v = map fst ps" "distinct (map fst ps)"
    using plain_keys(1) [OF assms(3,1)] assms(2,3,4) by (simp_all add: v_def string_keys_def filter_id_conv list_all_iff)
  have "get_prop h v k = x" if "(k, x) \<in> set ps" for k x
    using plain_get(1) [OF assms(3,1)] that assms(2) ks(2) by (auto simp: get_prop_def v_def)
  then have "toPairs h v = ps" by (auto simp: toPairs_def createToPairs_def baseToPairs_def ks comp_def intro: map_idI)
  then show "fromPairs h (toPairs h v) = (Obj ObjectTag (length h), h @ [ObjN ps None])"
    using put_all_append [of "[]" ps None] ks(2) by (simp add: fromPairs_def new_object_def pairs_loop_put)
  show "mapValues h v f = (Obj ObjectTag (length h), h @ [ObjN (map (\<lambda>(k, x). (k, f x k)) ps) None])"
    using build_object [OF assms(1-4), of "\<lambda>x k. k" _ f ObjectTag] ks(2)
    by (simp add: mapValues_def new_object_def v_def case_prod_unfold)
  assume inv: "list_all (key_string \<circ> snd) ps \<and> distinct (map snd ps)"
  show "case invert h v of (w, h1) \<Rightarrow> invert h1 w = (Obj ObjectTag (length h1), h1 @ [ObjN ps None])"
  proof -
    let ?ps = "map (\<lambda>(k, x). (property_name x, key_value k)) ps"
    let ?h = "h @ [ObjN ?ps None]"
    have names: "key_value (property_name x) = x" "is_string_key (property_name x)" "property_name x \<noteq> length_key"
      "property_name x \<noteq> PStr ''constructor''" if "(k, x) \<in> set ps" for k x
      using inv that key_string_name by (cases x; fastforce simp: list_all_iff length_key_def)+
    have "inj_on property_name (snd ` set ps)" by (rule inj_on_inverseI [of _ key_value]) (use names in auto)
    then have dist: "distinct (map (\<lambda>(k, x). property_name x) ps)"
      using inv distinct_map [of property_name "map snd ps"] by (simp add: case_prod_unfold comp_def)
    have first: "invert h v = (Obj ObjectTag (length h), ?h)" unfolding v_def by (rule invert_object [OF assms(1-4) dist])
    have "map_of ?ps length_key = None" "map_of ?ps (PStr ''constructor'') = None"
      using names(3,4) by (force simp: map_of_eq_None_iff)+
    then have plain: "plain (?h ! length h)" "list_all (is_string_key \<circ> fst) ?ps"
      using dist names(2) by (auto simp: case_prod_unfold comp_def list_all_iff)
    have again: "map (\<lambda>(k, x). (property_name x, key_value k)) ?ps = ps" using names(1) by (auto intro!: map_idI)
    have "distinct (map (\<lambda>(k, x). property_name x) ?ps)" using ks(2) by (simp add: case_prod_unfold comp_def)
    then show ?thesis using first invert_object [of "length h" ?h ?ps ObjectTag, OF _ _ plain] again by simp
  qed
qed

theorem object_rebuilt_witness:
  "fromPairs [ObjN [(PStr ''a'', Null)] None] (toPairs [ObjN [(PStr ''a'', Null)] None] (Obj ObjectTag 0)) =
     (Obj ObjectTag 1, [ObjN [(PStr ''a'', Null)] None, ObjN [(PStr ''a'', Null)] None])"
  using object_rebuilt [of 0 "[ObjN [(PStr ''a'', Null)] None]" "[(PStr ''a'', Null)]"] by (simp add: length_key_def)

text \<open>
  (C19) After an assignment of plain objects to another object, every named property of the target has the
  value of the last source that has it, and its old value where no source has it. No other cell changes.
\<close>

theorem assign_last_source:
  assumes "a < length h" "h ! a = ObjN ps pr" "\<forall>s\<in>set ss. s < length h \<and> s \<noteq> a \<and> plain (h ! s)" "is_string_key k"
  shows "case assign h (Obj t a) (map (Obj ObjectTag) ss) of
    (v, h1) \<Rightarrow> v = Obj t a \<and> own_norm h1 a k = last_source h k ss (own_norm h a k) \<and> length h1 = length h \<and>
      (\<forall>b<length h. b \<noteq> a \<longrightarrow> h1 ! b = h ! b)"
proof -
  have "\<not> isIterateeCall h x (map (Obj ObjectTag) ss ! 1) y" if "length ss > 2" for x y
    using that by (auto simp: isIterateeCall_def)
  then have "assign h (Obj t a) (map (Obj ObjectTag) ss) = (Obj t a, sources_loop assign_source None (Obj t a) (map (Obj ObjectTag) ss) h)"
    by (auto simp: assign_def createAssigner_def Let_def)
  then show ?thesis using sources_loop_own [OF assms, of None t] assms(1,2) by (auto simp: own_norm_def)
qed

theorem assign_last_source_witness:
  "own_norm (snd (assign [ObjN [] None, ObjN [(PStr ''a'', Null)] None, ObjN [(PStr ''a'', Bool True)] None] (Obj ObjectTag 0)
     [Obj ObjectTag 1, Obj ObjectTag 2])) 0 (PStr ''a'') = Some (Bool True)"
  using assign_last_source [of 0 "[ObjN [] None, ObjN [(PStr ''a'', Null)] None, ObjN [(PStr ''a'', Bool True)] None]" "[]" None "[1, 2]" "PStr ''a''" ObjectTag]
  by (simp add: length_key_def own_norm_def nth_Cons' split: prod.splits)

end
