(* ===== verification/JsCollections.thy ===== *)
theory JsCollections
  imports JsProps "HOL-Library.Multiset"
begin

text \<open>
  Collection functions of lodash.js on values of the store: arrays, strings and array-like objects are traversed by index, other
  objects by their own keys. Callbacks are functions of a value and a key; an index is passed as its key.
  Arrays that the functions return are lists, and the objects that the aggregating functions return are lists of
  properties in the order of insertion.
\<close>

section \<open>Traversal\<close>

definition index_keys :: "heap \<Rightarrow> jsval \<Rightarrow> propkey list" where
  "index_keys h v = map index_key [0..<value_length (get_prop h v length_key)]"

definition createBaseEach ::
  "(heap \<Rightarrow> 's \<Rightarrow> jsval \<Rightarrow> 's callback \<Rightarrow> heap \<times> 's) \<Rightarrow> bool \<Rightarrow> heap \<Rightarrow> 's \<Rightarrow> jsval \<Rightarrow> 's callback \<Rightarrow> heap \<times> 's" where
  "createBaseEach eachFunc fromRight h s v f =
     (if isNil v then (h, s)
      else if \<not> isArrayLike h v then eachFunc h s v f
      else for_loop f v (if fromRight then rev (index_keys h v) else index_keys h v) h s)"

definition baseEach :: "heap \<Rightarrow> 's \<Rightarrow> jsval \<Rightarrow> 's callback \<Rightarrow> heap \<times> 's" where
  "baseEach = createBaseEach baseForOwn False"

definition baseEachRight :: "heap \<Rightarrow> 's \<Rightarrow> jsval \<Rightarrow> 's callback \<Rightarrow> heap \<times> 's" where
  "baseEachRight = createBaseEach baseForOwnRight True"

text \<open>The elements of an array of the store.\<close>

definition array_items :: "heap \<Rightarrow> jsval \<Rightarrow> jsval list" where
  "array_items h v = map (get_prop h v) (index_keys h v)"

text \<open>A traversal with a callback that leaves the store alone.\<close>

definition each_pure ::
  "(heap \<Rightarrow> 's \<Rightarrow> jsval \<Rightarrow> 's callback \<Rightarrow> heap \<times> 's) \<Rightarrow> heap \<Rightarrow> jsval \<Rightarrow> 's \<Rightarrow> ('s \<Rightarrow> jsval \<Rightarrow> propkey \<Rightarrow> bool \<times> 's) \<Rightarrow> 's" where
  "each_pure each h v s g = snd (each h s v (pure_callback g))"

definition forEach :: "heap \<Rightarrow> 's \<Rightarrow> jsval \<Rightarrow> 's callback \<Rightarrow> heap \<times> 's" where
  "forEach h s v f = (if isArray v then for_loop f v (index_keys h v) h s else baseEach h s v f)"

definition forEachRight :: "heap \<Rightarrow> 's \<Rightarrow> jsval \<Rightarrow> 's callback \<Rightarrow> heap \<times> 's" where
  "forEachRight h s v f = (if isArray v then for_loop f v (rev (index_keys h v)) h s else baseEachRight h s v f)"

section \<open>Tests, filters and maps\<close>

text \<open>The third argument of \<open>every\<close> and \<open>some\<close> has no effect when the predicate is a function.\<close>

definition baseEvery :: "heap \<Rightarrow> jsval \<Rightarrow> (jsval \<Rightarrow> propkey \<Rightarrow> bool) \<Rightarrow> bool" where
  "baseEvery h v predicate = each_pure baseEach h v True (\<lambda>res x k. (predicate x k, predicate x k))"

definition every :: "heap \<Rightarrow> jsval \<Rightarrow> (jsval \<Rightarrow> propkey \<Rightarrow> bool) \<Rightarrow> bool" where
  "every h v predicate =
     (if isArray v then arrayEvery (Some (array_items h v)) (\<lambda>x i _. predicate x (index_key i)) else baseEvery h v predicate)"

definition baseSome :: "heap \<Rightarrow> jsval \<Rightarrow> (jsval \<Rightarrow> propkey \<Rightarrow> bool) \<Rightarrow> bool" where
  "baseSome h v predicate = each_pure baseEach h v False (\<lambda>res x k. (\<not> predicate x k, predicate x k))"

definition some :: "heap \<Rightarrow> jsval \<Rightarrow> (jsval \<Rightarrow> propkey \<Rightarrow> bool) \<Rightarrow> bool" where
  "some h v predicate =
     (if isArray v then arraySome (Some (array_items h v)) (\<lambda>x i _. predicate x (index_key i)) else baseSome h v predicate)"

definition baseFilter :: "heap \<Rightarrow> jsval \<Rightarrow> (jsval \<Rightarrow> propkey \<Rightarrow> bool) \<Rightarrow> jsval list" where
  "baseFilter h v predicate = each_pure baseEach h v [] (\<lambda>res x k. (True, if predicate x k then res @ [x] else res))"

definition filter_col :: "heap \<Rightarrow> jsval \<Rightarrow> (jsval \<Rightarrow> propkey \<Rightarrow> bool) \<Rightarrow> jsval list" where
  "filter_col h v predicate =
     (if isArray v then arrayFilter (Some (array_items h v)) (\<lambda>x i _. predicate x (index_key i)) else baseFilter h v predicate)"

definition reject :: "heap \<Rightarrow> jsval \<Rightarrow> (jsval \<Rightarrow> propkey \<Rightarrow> bool) \<Rightarrow> jsval list" where
  "reject h v predicate =
     (if isArray v then arrayFilter (Some (array_items h v)) (\<lambda>x i _. \<not> predicate x (index_key i))
      else baseFilter h v (\<lambda>x k. \<not> predicate x k))"

definition baseMap :: "heap \<Rightarrow> jsval \<Rightarrow> (jsval \<Rightarrow> propkey \<Rightarrow> 'b) \<Rightarrow> 'b list" where
  "baseMap h v iteratee = each_pure baseEach h v [] (\<lambda>res x k. (True, res @ [iteratee x k]))"

definition map_col :: "heap \<Rightarrow> jsval \<Rightarrow> (jsval \<Rightarrow> propkey \<Rightarrow> 'b) \<Rightarrow> 'b list" where
  "map_col h v iteratee =
     (if isArray v then arrayMap (Some (array_items h v)) (\<lambda>x i _. iteratee x (index_key i)) else baseMap h v iteratee)"

definition flatMap :: "heap \<Rightarrow> jsval \<Rightarrow> (jsval \<Rightarrow> propkey \<Rightarrow> 'b item) \<Rightarrow> 'b item list" where
  "flatMap h v iteratee = baseFlatten (map_col h v iteratee) (Fin 1) None False []"

definition flatMapDeep :: "heap \<Rightarrow> jsval \<Rightarrow> (jsval \<Rightarrow> propkey \<Rightarrow> 'b item) \<Rightarrow> 'b item list" where
  "flatMapDeep h v iteratee = baseFlatten (map_col h v iteratee) PInf None False []"

definition flatMapDepth :: "heap \<Rightarrow> jsval \<Rightarrow> (jsval \<Rightarrow> propkey \<Rightarrow> 'b item) \<Rightarrow> jsnum option \<Rightarrow> 'b item list" where
  "flatMapDepth h v iteratee depth =
     baseFlatten (map_col h v iteratee) (case depth of None \<Rightarrow> Fin 1 | Some d \<Rightarrow> toInteger d) None False []"

section \<open>Reductions and searches\<close>

text \<open>The accumulator and whether it has still to be taken from the first value.\<close>

definition reduce_step ::
  "(jsval \<Rightarrow> jsval \<Rightarrow> propkey \<Rightarrow> jsval) \<Rightarrow> jsval \<times> bool \<Rightarrow> jsval \<Rightarrow> propkey \<Rightarrow> bool \<times> jsval \<times> bool" where
  "reduce_step iteratee s x k = (case s of (acc, initAccum) \<Rightarrow> (True, if initAccum then x else iteratee acc x k, False))"

definition baseReduce ::
  "heap \<Rightarrow> jsval \<Rightarrow> (jsval \<Rightarrow> jsval \<Rightarrow> propkey \<Rightarrow> jsval) \<Rightarrow> jsval \<Rightarrow> bool \<Rightarrow>
   (heap \<Rightarrow> jsval \<times> bool \<Rightarrow> jsval \<Rightarrow> (jsval \<times> bool) callback \<Rightarrow> heap \<times> jsval \<times> bool) \<Rightarrow> jsval" where
  "baseReduce h v iteratee accumulator initAccum each = fst (each_pure each h v (accumulator, initAccum) (reduce_step iteratee))"

definition reduce :: "heap \<Rightarrow> jsval \<Rightarrow> (jsval \<Rightarrow> jsval \<Rightarrow> propkey \<Rightarrow> jsval) \<Rightarrow> jsval option \<Rightarrow> jsval" where
  "reduce h v iteratee accumulator =
     (let acc = (case accumulator of None \<Rightarrow> Undefined | Some x \<Rightarrow> x); initAccum = (accumulator = None)
      in if isArray v
         then arrayReduce (Some (array_items h v)) (\<lambda>a x i _. iteratee a x (index_key i)) acc initAccum
         else baseReduce h v iteratee acc initAccum baseEach)"

definition reduceRight :: "heap \<Rightarrow> jsval \<Rightarrow> (jsval \<Rightarrow> jsval \<Rightarrow> propkey \<Rightarrow> jsval) \<Rightarrow> jsval option \<Rightarrow> jsval" where
  "reduceRight h v iteratee accumulator =
     (let acc = (case accumulator of None \<Rightarrow> Undefined | Some x \<Rightarrow> x); initAccum = (accumulator = None)
      in if isArray v
         then arrayReduceRight (Some (array_items h v)) (\<lambda>a x i _. iteratee a x (index_key i)) acc initAccum
         else baseReduce h v iteratee acc initAccum baseEachRight)"

definition createFind ::
  "(jsval list option \<Rightarrow> (jsval \<Rightarrow> nat \<Rightarrow> jsval list \<Rightarrow> bool) \<Rightarrow> jsnum option \<Rightarrow> int) \<Rightarrow>
   heap \<Rightarrow> jsval \<Rightarrow> (jsval \<Rightarrow> propkey \<Rightarrow> bool) \<Rightarrow> jsnum option \<Rightarrow> jsval"
where
  "createFind findIndexFunc h v predicate fromIndex =
     (if \<not> isArrayLike h v
      then (let ks = keys h v;
                index = findIndexFunc (Some (map key_value ks))
                          (\<lambda>k _ _. predicate (get_prop h v (property_name k)) (property_name k)) fromIndex
            in if index > -1 then get_prop h v (ks ! nat index) else Undefined)
      else (let index = findIndexFunc (Some (array_items h v)) (\<lambda>x i _. predicate x (index_key i)) fromIndex
            in if index > -1 then get_prop h v (index_key (nat index)) else Undefined))"

definition find_col :: "heap \<Rightarrow> jsval \<Rightarrow> (jsval \<Rightarrow> propkey \<Rightarrow> bool) \<Rightarrow> jsnum option \<Rightarrow> jsval" where
  "find_col = createFind findIndex"

definition findLast :: "heap \<Rightarrow> jsval \<Rightarrow> (jsval \<Rightarrow> propkey \<Rightarrow> bool) \<Rightarrow> jsnum option \<Rightarrow> jsval" where
  "findLast = createFind findLastIndex"

text \<open>The method \<open>indexOf\<close> of strings finds a part of a string from a position on.\<close>

definition str_contains :: "string \<Rightarrow> string \<Rightarrow> nat \<Rightarrow> bool" where
  "str_contains s t i = list_ex (\<lambda>j. i \<le> j \<and> take (length t) (drop j s) = t) [0..<Suc (length s)]"

definition includes_js :: "heap \<Rightarrow> jsval \<Rightarrow> jsval \<Rightarrow> jsnum option \<Rightarrow> bool \<Rightarrow> bool" where
  "includes_js h v x fromIndex guard =
     (let items = (if isArrayLike h v then array_items h v else values_js h v);
          len = int (length items);
          i0 = (case fromIndex of Some n \<Rightarrow> if num_truthy n \<and> \<not> guard then num_int (toInteger n) else 0 | None \<Rightarrow> 0);
          i = (if i0 < 0 then max (len + i0) 0 else i0)
      in case v of
           Str s \<Rightarrow> i \<le> len \<and> str_contains s (toString_js x) (nat i)
         | _ \<Rightarrow> len \<noteq> 0 \<and> baseIndexOf items x (nat i) > -1)"

definition size_col :: "heap \<Rightarrow> jsval \<Rightarrow> jsval" where
  "size_col h v =
     (if isNil v then Num (Fin 0)
      else if isArrayLike h v
      then (case v of Str s \<Rightarrow> Num (num_of_int (stringSize s)) | _ \<Rightarrow> get_prop h v length_key)
      else if isObjectLike v \<and> (objectToString v = Some MapTag \<or> objectToString v = Some SetTag)
      then get_prop h v (PStr ''size'')
      else Num (num_of_int (int (length (keys h v)))))"

text \<open>Objects with an iterator, maps and sets are left out.\<close>

definition toArray :: "heap \<Rightarrow> jsval \<Rightarrow> jsval list" where
  "toArray h v =
     (if \<not> truthy v then []
      else if isArrayLike h v then (case v of Str s \<Rightarrow> stringToArray s | _ \<Rightarrow> copyArray (array_items h v) None)
      else values_js h v)"

definition invokeMap ::
  "heap \<Rightarrow> (jsval \<Rightarrow> jsval \<Rightarrow> jsval list \<Rightarrow> jsval) \<Rightarrow> jsval \<Rightarrow> path \<Rightarrow> jsval list \<Rightarrow> jsval list" where
  "invokeMap h call v p args =
     each_pure baseEach h v []
       (\<lambda>res x k. let func = (case p of
                               PathVal key \<Rightarrow> if isKey p (\<lambda>_. False) \<and> \<not> isNil x then get_prop h x (property_name key) else Undefined
                             | PathArr ks \<Rightarrow> Undefined)
                  in (True, res @ [if truthy func then call func x args else baseInvoke h call x p args]))"

text \<open>The callback of \<open>transform\<close> changes the accumulator, an object of the store.\<close>

definition transform :: "heap \<Rightarrow> jsval \<Rightarrow> (jsval \<Rightarrow> heap \<Rightarrow> jsval \<Rightarrow> propkey \<Rightarrow> bool \<times> heap) \<Rightarrow> jsval \<Rightarrow> jsval \<times> heap" where
  "transform h object iteratee accumulator =
     (let (acc, h1) =
            (if \<not> isNil accumulator then (accumulator, h)
             else if isArray object then new_array h []
             else if isObject object \<and> isFunction (get_prop h object (PStr ''constructor''))
             then (case get_proto h object of
                     Some p \<Rightarrow> (Obj ObjectTag (length h), h @ [ObjN [] (Some p)])
                   | None \<Rightarrow> new_object h)
             else new_object h);
          callback = (\<lambda>h2 s x k. case iteratee acc h2 x k of (b, h3) \<Rightarrow> (b, h3, ()))
      in (acc, fst (if isArray object then for_loop callback object (index_keys h1 object) h1 () else baseForOwn h1 () object callback)))"

section \<open>Aggregation\<close>

definition baseAggregator ::
  "heap \<Rightarrow> jsval \<Rightarrow> ('c \<Rightarrow> jsval \<Rightarrow> 'k \<Rightarrow> 'c) \<Rightarrow> (jsval \<Rightarrow> 'k) \<Rightarrow> 'c \<Rightarrow> 'c" where
  "baseAggregator h v setter iteratee accumulator =
     each_pure baseEach h v accumulator (\<lambda>acc x k. (True, setter acc x (iteratee x)))"

definition createAggregator ::
  "('c \<Rightarrow> jsval \<Rightarrow> 'k \<Rightarrow> 'c) \<Rightarrow> 'c \<Rightarrow> heap \<Rightarrow> jsval \<Rightarrow> (jsval \<Rightarrow> 'k) \<Rightarrow> 'c" where
  "createAggregator setter initial_acc h v iteratee =
     (if isArray v then arrayAggregator (Some (array_items h v)) (\<lambda>acc x k _. setter acc x k) iteratee initial_acc
      else baseAggregator h v setter iteratee initial_acc)"

text \<open>A new object as a list of properties.\<close>

fun prop_put :: "(propkey \<times> 'b) list \<Rightarrow> propkey \<Rightarrow> 'b \<Rightarrow> (propkey \<times> 'b) list" where
  "prop_put [] k v = [(k, v)]"
| "prop_put ((k1, v1) # ps) k v = (if k1 = k then (k, v) # ps else (k1, v1) # prop_put ps k v)"

definition countBy :: "heap \<Rightarrow> jsval \<Rightarrow> (jsval \<Rightarrow> jsval) \<Rightarrow> (propkey \<times> nat) list" where
  "countBy =
     createAggregator (\<lambda>res x key. let k = property_name key
                                  in case map_of res k of Some n \<Rightarrow> prop_put res k (Suc n) | None \<Rightarrow> prop_put res k 1) []"

definition groupBy :: "heap \<Rightarrow> jsval \<Rightarrow> (jsval \<Rightarrow> jsval) \<Rightarrow> (propkey \<times> jsval list) list" where
  "groupBy =
     createAggregator (\<lambda>res x key. let k = property_name key
                                  in case map_of res k of Some xs \<Rightarrow> prop_put res k (xs @ [x]) | None \<Rightarrow> prop_put res k [x]) []"

definition keyBy :: "heap \<Rightarrow> jsval \<Rightarrow> (jsval \<Rightarrow> jsval) \<Rightarrow> (propkey \<times> jsval) list" where
  "keyBy = createAggregator (\<lambda>res x key. prop_put res (property_name key) x) []"

definition partition_js :: "heap \<Rightarrow> jsval \<Rightarrow> (jsval \<Rightarrow> jsval) \<Rightarrow> jsval list \<times> jsval list" where
  "partition_js =
     createAggregator (\<lambda>(xs, ys) x key. if truthy key then (xs @ [x], ys) else (xs, ys @ [x])) ([], [])"

section \<open>Samples\<close>

text \<open>The random numbers drawn one after the other are the values of \<open>draw\<close>.\<close>

definition sample :: "(nat \<Rightarrow> rat) \<Rightarrow> heap \<Rightarrow> jsval \<Rightarrow> jsval" where
  "sample draw h v =
     (let items = (if isArrayLike h v then array_items h v else values_js h v)
      in if length items > 0 then items ! nat \<lfloor>baseRandom (draw 0) 0 (of_int (int (length items) - 1))\<rfloor> else Undefined)"

text \<open>Reading and writing a new array; writing past its end extends it.\<close>

definition arr_put :: "jsval list \<Rightarrow> nat \<Rightarrow> jsval \<Rightarrow> jsval list" where
  "arr_put xs i x = (if i < length xs then xs[i := x] else xs @ replicate (i - length xs) Undefined @ [x])"

fun sample_loop :: "(nat \<Rightarrow> rat) \<Rightarrow> int \<Rightarrow> nat \<Rightarrow> nat \<Rightarrow> jsval list \<Rightarrow> jsval list" where
  "sample_loop draw lastIndex index 0 items = items"
| "sample_loop draw lastIndex index (Suc n) items =
     (let r = nat \<lfloor>baseRandom (draw index) (of_nat index) (of_int lastIndex)\<rfloor>;
          x = arr_get items r
      in sample_loop draw lastIndex (Suc index) n (arr_put (arr_put items r (arr_get items index)) index x))"

definition sampleSize :: "(nat \<Rightarrow> rat) \<Rightarrow> heap \<Rightarrow> jsval \<Rightarrow> jsnum option \<Rightarrow> bool \<Rightarrow> jsval list" where
  "sampleSize draw h v n iterateeCall =
     (let items = toArray h v;
          count = (case (if iterateeCall then None else n) of
                     None \<Rightarrow> 1
                   | Some m \<Rightarrow> nat (num_int (baseClamp (toInteger m) (Some (Fin 0)) (Some (num_of_int (int (length items)))))))
      in take count (sample_loop draw (int (length items) - 1) 0 count items))"

definition shuffle :: "(nat \<Rightarrow> rat) \<Rightarrow> heap \<Rightarrow> jsval \<Rightarrow> jsval list" where
  "shuffle draw h v = sampleSize draw h v (Some (num_of_int MAX_ARRAY_LENGTH)) False"

section \<open>Specifications\<close>

text \<open>The entries of a collection in the order of traversal.\<close>

definition entries :: "heap \<Rightarrow> jsval \<Rightarrow> (propkey \<times> jsval) list" where
  "entries h v =
     map (\<lambda>k. (k, get_prop h v k))
       (if isArray v then index_keys h v
        else if isNil v then []
        else if isArrayLike h v then index_keys h v
        else if truthy v then keys h v else [])"

text \<open>A loop over entries that a callback can end.\<close>

fun run_until :: "('s \<Rightarrow> jsval \<Rightarrow> propkey \<Rightarrow> bool \<times> 's) \<Rightarrow> (propkey \<times> jsval) list \<Rightarrow> 's \<Rightarrow> 's" where
  "run_until g [] s = s"
| "run_until g ((k, x) # es) s = (case g s x k of (b, s1) \<Rightarrow> if b then run_until g es s1 else s1)"

definition group :: "(jsval \<Rightarrow> jsval) \<Rightarrow> propkey \<Rightarrow> jsval list \<Rightarrow> jsval list" where
  "group f k xs = filter (\<lambda>x. property_name (f x) = k) xs"

text \<open>The setters of the aggregating functions, as folds over the values.\<close>

definition count_values :: "(jsval \<Rightarrow> jsval) \<Rightarrow> jsval list \<Rightarrow> (propkey \<times> nat) list" where
  "count_values f xs = fold (\<lambda>x res. case map_of res (property_name (f x)) of
     Some n \<Rightarrow> prop_put res (property_name (f x)) (Suc n) | None \<Rightarrow> prop_put res (property_name (f x)) 1) xs []"

definition group_values :: "(jsval \<Rightarrow> jsval) \<Rightarrow> jsval list \<Rightarrow> (propkey \<times> jsval list) list" where
  "group_values f xs = fold (\<lambda>x res. case map_of res (property_name (f x)) of
     Some ys \<Rightarrow> prop_put res (property_name (f x)) (ys @ [x]) | None \<Rightarrow> prop_put res (property_name (f x)) [x]) xs []"

definition key_values :: "(jsval \<Rightarrow> jsval) \<Rightarrow> jsval list \<Rightarrow> (propkey \<times> jsval) list" where
  "key_values f xs = fold (\<lambda>x res. prop_put res (property_name (f x)) x) xs []"

section \<open>Lemmas\<close>

subsection \<open>Traversal\<close>

lemma for_loop_pure: "for_loop (pure_callback g) v ks h s = (h, run_until g (map (\<lambda>k. (k, get_prop h v k)) ks) s)"
  by (induction ks arbitrary: s) (auto simp: pure_callback_def split: prod.split)

lemma baseEach_entries: "\<not> isArray v \<Longrightarrow> each_pure baseEach h v s g = run_until g (entries h v) s"
  by (simp add: each_pure_def baseEach_def createBaseEach_def for_loop_pure entries_def baseForOwn_def baseFor_def createBaseFor_def Let_def)

lemma baseEachRight_entries: "\<not> isArray v \<Longrightarrow> each_pure baseEachRight h v s g = run_until g (rev (entries h v)) s"
  by (simp add: each_pure_def baseEachRight_def createBaseEach_def for_loop_pure entries_def baseForOwnRight_def baseForRight_def
      createBaseFor_def Let_def rev_map)

text \<open>The elements of an array with their indices as entries.\<close>

lemma array_entries: "isArray v \<Longrightarrow> map (\<lambda>(i, x). (index_key i, x)) (enumerate 0 (array_items h v)) = entries h v"
  by (auto simp: entries_def array_items_def index_keys_def enumerate_eq_zip zip_map2 zip_same_conv_map map_zip_map2 comp_def)

lemma run_until_fold: "(\<And>s x k. fst (g s x k)) \<Longrightarrow> run_until g es s = fold (\<lambda>(k, x) s. snd (g s x k)) es s"
proof (induction es arbitrary: s)
  case (Cons e es)
  obtain k x where e: "e = (k, x)" by (cases e)
  have "fst (g s x k)" by (rule Cons.prems)
  then show ?case using Cons.IH [OF Cons.prems] e by (cases "g s x k") simp
qed simp

lemma run_until_every: "run_until (\<lambda>res x k. (p x k, p x k)) es b \<longleftrightarrow> (if es = [] then b else (\<forall>(k, x)\<in>set es. p x k))"
  by (induction es arbitrary: b) (auto split: if_splits)

lemma run_until_some: "run_until (\<lambda>res x k. (\<not> p x k, p x k)) es b \<longleftrightarrow> (if es = [] then b else (\<exists>(k, x)\<in>set es. p x k))"
  by (induction es arbitrary: b) (force split: if_splits)+

lemma fold_append_filter: "fold (\<lambda>(k, x) res. if p x k then res @ [x] else res) es res = res @ map snd (filter (\<lambda>(k, x). p x k) es)"
  by (induction es arbitrary: res) auto

lemma fold_append_map: "fold (\<lambda>(k, x) res. res @ [f x k]) es res = res @ map (\<lambda>(k, x). f x k) es"
  by (induction es arbitrary: res) auto

lemma index_entries:
  assumes "isArray v"
  shows "(\<forall>(i, x)\<in>set (enumerate 0 (array_items h v)). p x (index_key i)) \<longleftrightarrow> (\<forall>(k, x)\<in>set (entries h v). p x k)"
    "(\<exists>(i, x)\<in>set (enumerate 0 (array_items h v)). p x (index_key i)) \<longleftrightarrow> (\<exists>(k, x)\<in>set (entries h v). p x k)"
    "map snd (filter (\<lambda>(i, x). p x (index_key i)) (enumerate 0 (array_items h v))) = map snd (filter (\<lambda>(k, x). p x k) (entries h v))"
    "map (\<lambda>(i, x). f x (index_key i)) (enumerate 0 (array_items h v)) = map (\<lambda>(k, x). f x k) (entries h v)"
  unfolding array_entries [OF assms, symmetric] by (auto simp: filter_map comp_def case_prod_unfold)

lemma fold_entries:
  assumes "isArray v"
  shows "fold (\<lambda>(i, x) a. f a x (index_key i)) (enumerate 0 (array_items h v)) acc = fold (\<lambda>(k, x) a. f a x k) (entries h v) acc"
    "foldr (\<lambda>(i, x) a. f a x (index_key i)) (enumerate 0 (array_items h v)) acc = foldr (\<lambda>(k, x) a. f a x k) (entries h v) acc"
  unfolding array_entries [OF assms, symmetric] by (simp_all add: fold_map foldr_map comp_def case_prod_unfold)

lemma reduce_entries: "reduce h v f (Some acc) = fold (\<lambda>(k, x) a. f a x k) (entries h v) acc"
proof (cases "isArray v")
  case True
  then show ?thesis using fold_entries(1) [OF True]
    by (simp add: reduce_def arrayReduce_def reduce_loop_fold index_from_0)
next
  case False
  have "fst (fold (\<lambda>(k, x) s. snd (reduce_step f s x k)) es (acc, False)) = fold (\<lambda>(k, x) a. f a x k) es acc" for es acc
    by (induction es arbitrary: acc) (auto simp: reduce_step_def)
  then show ?thesis using False
    by (simp add: reduce_def baseReduce_def baseEach_entries run_until_fold reduce_step_def split: prod.split)
qed

lemma reduceRight_entries: "reduceRight h v f (Some acc) = foldr (\<lambda>(k, x) a. f a x k) (entries h v) acc"
proof (cases "isArray v")
  case True
  then show ?thesis using fold_entries(2) [OF True]
    by (simp add: reduceRight_def arrayReduceRight_def reduce_right_loop_foldr)
next
  case False
  have "fst (fold (\<lambda>(k, x) s. snd (reduce_step f s x k)) es (acc, False)) = fold (\<lambda>(k, x) a. f a x k) es acc" for es acc
    by (induction es arbitrary: acc) (auto simp: reduce_step_def)
  then show ?thesis using False
    by (simp add: reduceRight_def baseReduce_def baseEachRight_entries run_until_fold reduce_step_def foldr_conv_fold split: prod.split)
qed

lemma aggregator_entries: "createAggregator setter a0 h v f = fold (\<lambda>x acc. setter acc x (f x)) (map snd (entries h v)) a0"
proof (cases "isArray v")
  case True
  have "map snd (map (\<lambda>(i, x). (index_key i, x)) es) = map snd es" for es by auto
  from this [of "enumerate 0 (array_items h v)"] have "map snd (entries h v) = array_items h v"
    by (simp only: array_entries [OF True] map_snd_enumerate)
  moreover have "fold (\<lambda>(j, x) a. setter a x (f x)) es a0 = fold (\<lambda>x a. setter a x (f x)) (map snd es) a0" for es :: "(nat \<times> jsval) list"
    by (simp add: fold_map comp_def case_prod_unfold)
  ultimately show ?thesis using True by (simp add: createAggregator_def arrayAggregator_def aggregator_loop_fold)
next
  case False
  then show ?thesis
    by (simp add: createAggregator_def baseAggregator_def baseEach_entries run_until_fold fold_map comp_def case_prod_unfold)
qed

subsection \<open>Aggregation\<close>

lemma map_of_prop_put [simp]: "map_of (prop_put ps k v) k1 = (if k1 = k then Some v else map_of ps k1)"
  by (induction ps k v rule: prop_put.induct) auto

lemma distinct_prop_put: "distinct (map fst ps) \<Longrightarrow> distinct (map fst (prop_put ps k v))"
proof (induction ps k v rule: prop_put.induct)
  case (2 k1 v1 ps k v)
  have "fst ` set (prop_put ps k v) = insert k (fst ` set ps)" by (induction ps k v rule: prop_put.induct) auto
  then show ?case using 2 by auto
qed simp

lemma group_append: "group f k (xs @ [x]) = group f k xs @ (if property_name (f x) = k then [x] else [])"
  by (simp add: group_def)

lemma aggregators_entries:
  "countBy h v f = count_values f (map snd (entries h v))" "groupBy h v f = group_values f (map snd (entries h v))"
  "keyBy h v f = key_values f (map snd (entries h v))"
  by (simp_all add: countBy_def groupBy_def keyBy_def aggregator_entries count_values_def group_values_def key_values_def Let_def)

lemma group_values_group:
  "map_of (group_values f xs) k = (if group f k xs = [] then None else Some (group f k xs))"
proof (induction xs arbitrary: k rule: rev_induct)
  case (snoc x xs)
  then show ?case by (auto simp: group_values_def group_append split: option.split)
qed (simp add: group_values_def group_def)

lemma distinct_group_values: "distinct (map fst (group_values f xs))"
  by (induction xs rule: rev_induct) (auto simp: group_values_def distinct_prop_put split: option.split)

lemma count_values_group:
  "map_of (count_values f xs) k = (if group f k xs = [] then None else Some (length (group f k xs)))"
proof (induction xs arbitrary: k rule: rev_induct)
  case (snoc x xs)
  then show ?case by (auto simp: count_values_def group_append split: option.split)
qed (simp add: count_values_def group_def)

lemma key_values_group:
  "map_of (key_values f xs) k = (if group f k xs = [] then None else Some (last (group f k xs)))"
proof (induction xs arbitrary: k rule: rev_induct)
  case (snoc x xs)
  then show ?case by (auto simp: key_values_def group_append)
qed (simp add: key_values_def group_def)

lemma partition_values:
  "fold (\<lambda>x (xs, ys). if truthy (f x) then (xs @ [x], ys) else (xs, ys @ [x])) zs (us, ws) =
    (us @ filter (\<lambda>x. truthy (f x)) zs, ws @ filter (\<lambda>x. \<not> truthy (f x)) zs)"
  by (induction zs arbitrary: us ws) auto

subsection \<open>Samples\<close>

lemma baseRandom_index:
  assumes "0 \<le> r" "r < 1" "i < n"
  shows "i \<le> nat \<lfloor>baseRandom r (of_nat i) (of_int (int n - 1))\<rfloor> \<and> nat \<lfloor>baseRandom r (of_nat i) (of_int (int n - 1))\<rfloor> < n"
proof -
  define d :: rat where "d = of_int (int n - 1) - of_nat i + 1"
  have d: "d = of_int (int n - int i)" by (simp add: d_def)
  have "r * d < 1 * d" using assms d by (intro mult_strict_right_mono) auto
  then have "\<lfloor>r * d\<rfloor> < int n - int i" using d by (simp add: floor_less_iff)
  moreover have "0 \<le> \<lfloor>r * d\<rfloor>" using assms d by simp
  moreover have "\<lfloor>baseRandom r (of_nat i) (of_int (int n - 1))\<rfloor> = int i + \<lfloor>r * d\<rfloor>"
    by (simp add: baseRandom_def d_def)
  ultimately show ?thesis by linarith
qed

lemma sample_loop_mset:
  assumes "\<forall>i. 0 \<le> draw i \<and> draw i < 1" "index + n \<le> length items"
  shows "mset (sample_loop draw (int (length items) - 1) index n items) = mset items"
  using assms(2)
proof (induction n arbitrary: index items)
  case (Suc n)
  define r where "r = nat \<lfloor>baseRandom (draw index) (of_nat index) (of_int (int (length items) - 1))\<rfloor>"
  define next_items where "next_items = items[r := items ! index, index := items ! r]"
  have i: "index < length items" using Suc.prems by simp
  then have r: "r < length items" using baseRandom_index [of "draw index" index "length items"] assms(1) by (simp add: r_def)
  have "sample_loop draw (int (length items) - 1) index (Suc n) items = sample_loop draw (int (length items) - 1) (Suc index) n next_items"
    unfolding sample_loop.simps Let_def r_def [symmetric] using i r by (simp add: arr_get_def arr_put_def next_items_def)
  moreover have "mset next_items = mset items" using i r by (simp add: next_items_def mset_swap)
  moreover have "length next_items = length items" by (simp add: next_items_def)
  ultimately show ?case using Suc.IH [of "Suc index" next_items] Suc.prems by simp
qed simp

section \<open>Properties\<close>

text \<open>
  (C20) On arrays, strings, array-like and other objects alike, \<open>every\<close>, \<open>some\<close>, \<open>filter\<close>, \<open>reject\<close>,
  \<open>map\<close>, \<open>reduce\<close> and \<open>reduceRight\<close> are the corresponding operations on the list of entries of
  the collection.
\<close>

theorem collections_on_entries:
  "(every h v p \<longleftrightarrow> list_all (\<lambda>(k, x). p x k) (entries h v)) \<and>
   (some h v p \<longleftrightarrow> list_ex (\<lambda>(k, x). p x k) (entries h v)) \<and>
   filter_col h v p = map snd (filter (\<lambda>(k, x). p x k) (entries h v)) \<and>
   reject h v p = map snd (filter (\<lambda>(k, x). \<not> p x k) (entries h v)) \<and>
   map_col h v f = map (\<lambda>(k, x). f x k) (entries h v) \<and>
   reduce h v g (Some acc) = fold (\<lambda>(k, x) a. g a x k) (entries h v) acc \<and>
   reduceRight h v g (Some acc) = foldr (\<lambda>(k, x) a. g a x k) (entries h v) acc"
proof (cases "isArray v")
  case True
  then show ?thesis
    using index_entries(1-3) [OF True, where h = h and p = p] index_entries(3) [OF True, where h = h and p = "\<lambda>x k. \<not> p x k"]
      index_entries(4) [OF True, where h = h and f = f]
    by (simp add: every_def some_def filter_col_def reject_def map_col_def arrayEvery_def every_loop_all arraySome_def some_loop_ex
        arrayFilter_def filter_loop_filter arrayMap_map index_from_0 reduce_entries reduceRight_entries list_all_iff list_ex_iff)
next
  case False
  then show ?thesis
    by (simp add: every_def some_def filter_col_def reject_def map_col_def baseEvery_def baseSome_def baseFilter_def baseMap_def baseEach_entries
        run_until_every run_until_some run_until_fold fold_append_filter fold_append_map reduce_entries reduceRight_entries list_all_iff list_ex_iff)
qed

text \<open>
  \<open>groupBy\<close> collects under every key the values that the iteratee sends to it, in their order and in no other group;
  \<open>countBy\<close> gives the sizes of the groups, \<open>keyBy\<close> their last values, and \<open>partition\<close> separates the
  values by the truth of the iteratee.
\<close>

theorem aggregates_are_groups:
  "map_of (groupBy h v f) k =
     (let g = group f k (map snd (entries h v)) in if g = [] then None else Some g) \<and>
   distinct (map fst (groupBy h v f)) \<and>
   map_of (countBy h v f) k = map_option length (map_of (groupBy h v f) k) \<and>
   map_of (keyBy h v f) k = map_option last (map_of (groupBy h v f) k) \<and>
   partition_js h v f = (filter (\<lambda>x. truthy (f x)) (map snd (entries h v)), filter (\<lambda>x. \<not> truthy (f x)) (map snd (entries h v)))"
proof -
  have "partition_js h v f = fold (\<lambda>x (xs, ys). if truthy (f x) then (xs @ [x], ys) else (xs, ys @ [x])) (map snd (entries h v)) ([], [])"
    by (simp add: partition_js_def aggregator_entries case_prod_unfold)
  then show ?thesis
    by (simp add: aggregators_entries group_values_group distinct_group_values count_values_group key_values_group partition_values Let_def)
qed

text \<open>
  With draws from the interval between 0 and 1, \<open>shuffle\<close> returns a permutation of the values and \<open>sampleSize\<close> as many of them
  as are asked for. Asked for no number on an empty collection, \<open>sampleSize\<close> returns an array with one undefined element.
\<close>

theorem samples_from_values:
  assumes "\<forall>i. 0 \<le> draw i \<and> draw i < 1" "int (length (toArray h v)) \<le> MAX_ARRAY_LENGTH"
  shows "mset (shuffle draw h v) = mset (toArray h v) \<and>
    (let xs = sampleSize draw h v (Some (num_of_int (int n))) False
     in mset xs \<subseteq># mset (toArray h v) \<and> length xs = min n (length (toArray h v))) \<and>
    (toArray h v = [] \<longrightarrow> sampleSize draw h v None False = [Undefined])"
proof -
  let ?xs = "toArray h v"
  have run: "mset (sample_loop draw (int (length ?xs) - 1) 0 m ?xs) = mset ?xs" if "m \<le> length ?xs" for m
    using sample_loop_mset [OF assms(1), of 0 m ?xs] that by simp
  have clamp: "nat (num_int (baseClamp (num_of_int (int m)) (Some (Fin 0)) (Some (num_of_int (int l))))) = min m l" for m l
    by (simp add: baseClamp_def num_of_int_def num_le_def min_def)
  have size: "sampleSize draw h v (Some (num_of_int (int m))) False = take (min m (length ?xs)) (sample_loop draw (int (length ?xs) - 1) 0 (min m (length ?xs)) ?xs)" for m
    by (simp add: sampleSize_def Let_def clamp)
  have "shuffle draw h v = sampleSize draw h v (Some (num_of_int (int (nat MAX_ARRAY_LENGTH)))) False"
    by (simp add: shuffle_def MAX_ARRAY_LENGTH_def)
  moreover have "min (nat MAX_ARRAY_LENGTH) (length ?xs) = length ?xs" using assms(2) by simp
  ultimately have "mset (shuffle draw h v) = mset ?xs"
    using run [of "length ?xs"] mset_eq_length [OF run [of "length ?xs"]] by (simp only: size) simp
  moreover have "mset (take m ys) \<subseteq># mset ys" for m and ys :: "jsval list" by (metis append_take_drop_id mset_append mset_subset_eq_add_left)
  ultimately show ?thesis
    using run [of "min n (length ?xs)"] mset_eq_length [OF run [of "min n (length ?xs)"]]
    by (auto simp: size Let_def) (metis, simp add: sampleSize_def Let_def arr_get_def arr_put_def baseRandom_def)
qed

theorem samples_from_values_witness:
  "mset (shuffle (\<lambda>_. 0) [] (Str ''ab'')) = mset [Str ''a'', Str ''b'']"
proof -
  have "toArray [] (Str ''ab'') = [Str ''a'', Str ''b'']"
    by (simp add: toArray_def isArrayLike_def isNil_def get_prop_def string_prop_def length_value_def num_of_int_def
        num_integral_def MAX_SAFE_INTEGER_def num_le_def isFunction_def stringToArray_def)
  then show ?thesis using samples_from_values [of "\<lambda>_. 0" "[]" "Str ''ab''"] by (simp add: MAX_ARRAY_LENGTH_def)
qed

end
