(* ===== verification/JsStore.thy ===== *)
theory JsStore
  imports JsProps
begin

text \<open>
  Typing of the store of lodash.js. A typing gives every cell a tag; a store fits a typing when arrays are the cells
  tagged as such and every reference in a cell, in a prototype or in a result names a cell and carries its tag. The
  operations on objects keep a store well typed; those that allocate extend the typing.
\<close>

section \<open>Typings\<close>

fun val_ok :: "obj_tag list \<Rightarrow> jsval \<Rightarrow> bool" where
  "val_ok ts (Obj t a) = (a < length ts \<and> ts ! a = t)"
| "val_ok ts v = True"

fun elem_ok :: "obj_tag list \<Rightarrow> jsval option \<Rightarrow> bool" where
  "elem_ok ts None = True"
| "elem_ok ts (Some v) = val_ok ts v"

definition props_ok :: "obj_tag list \<Rightarrow> (propkey \<times> jsval) list \<Rightarrow> bool" where
  "props_ok ts ps = (distinct (map fst ps) \<and> list_all (val_ok ts \<circ> snd) ps)"

text \<open>The named properties of an array are neither elements nor the length.\<close>

definition named_key :: "propkey \<Rightarrow> bool" where
  "named_key k = (array_index k = None \<and> k \<noteq> length_key)"

fun node_ok :: "obj_tag list \<Rightarrow> obj_tag \<Rightarrow> node \<Rightarrow> bool" where
  "node_ok ts t (ArrN es ps) = (t = ArrayTag \<and> list_all (elem_ok ts) es \<and> props_ok ts ps \<and> list_all (named_key \<circ> fst) ps)"
| "node_ok ts t (ObjN ps proto) =
     (t \<noteq> ArrayTag \<and> props_ok ts ps \<and> (case proto of None \<Rightarrow> True | Some p \<Rightarrow> p < length ts))"

definition store_ok :: "obj_tag list \<Rightarrow> heap \<Rightarrow> bool" where
  "store_ok ts h = list_all2 (node_ok ts) ts h"

text \<open>A result and a store that fit an extension of a typing.\<close>

definition typed_result :: "obj_tag list \<Rightarrow> jsval \<times> heap \<Rightarrow> bool" where
  "typed_result ts r = (\<exists>us. store_ok (ts @ us) (snd r) \<and> val_ok (ts @ us) (fst r))"

text \<open>Callbacks that return a value of the typing for values of it.\<close>

definition typed_fun :: "(jsval \<Rightarrow> jsval) \<Rightarrow> bool" where
  "typed_fun f = (\<forall>ts v. val_ok ts v \<longrightarrow> val_ok ts (f v))"

fun typed_customizer :: "assign_customizer option \<Rightarrow> bool" where
  "typed_customizer None = True"
| "typed_customizer (Some f) = (\<forall>ts a b k o1 o2. val_ok ts a \<longrightarrow> val_ok ts b \<longrightarrow> val_ok ts (f a b k o1 o2))"

definition typed_step :: "obj_tag list \<Rightarrow> (heap \<Rightarrow> jsval \<Rightarrow> propkey \<Rightarrow> heap) \<Rightarrow> bool" where
  "typed_step ts g =
     (\<forall>us h x k. store_ok (ts @ us) h \<longrightarrow> val_ok (ts @ us) x \<longrightarrow> (\<exists>vs. store_ok ((ts @ us) @ vs) (g h x k)))"

section \<open>Reading and writing\<close>

named_theorems typed

lemma store_ok_length: "store_ok ts h \<Longrightarrow> length ts = length h"
  by (simp add: store_ok_def list_all2_lengthD)

lemma store_ok_nth: "store_ok ts h \<Longrightarrow> a < length h \<Longrightarrow> node_ok ts (ts ! a) (h ! a)"
  by (metis store_ok_def list_all2_nthD2)

lemma val_ok_append [typed]: "val_ok ts v \<Longrightarrow> val_ok (ts @ us) v"
  by (cases v) (auto simp: nth_append)

lemma val_ok_key_value [simp]: "val_ok ts (key_value k)"
  by (cases k) simp_all

lemma elem_ok_append: "elem_ok ts e \<Longrightarrow> elem_ok (ts @ us) e"
  by (cases e) (auto simp: val_ok_append)

lemma props_ok_append: "props_ok ts ps \<Longrightarrow> props_ok (ts @ us) ps"
  by (auto simp: props_ok_def list_all_iff val_ok_append)

lemma node_ok_append: "node_ok ts t n \<Longrightarrow> node_ok (ts @ us) t n"
  by (cases n) (auto simp: list_all_iff elem_ok_append props_ok_append split: option.splits)

lemma store_ok_alloc:
  assumes "store_ok ts h" "node_ok (ts @ [t]) t n"
  shows "store_ok (ts @ [t]) (h @ [n])"
  using assms by (auto simp: store_ok_def intro!: list_all2_appendI elim: list_all2_mono intro: node_ok_append)

lemma props_ok_map_of: "props_ok ts ps \<Longrightarrow> map_of ps k = Some v \<Longrightarrow> val_ok ts v"
  by (auto simp: props_ok_def list_all_iff dest: map_of_SomeD)

lemma own_prop_ok: "node_ok ts t n \<Longrightarrow> own_prop n k = Some v \<Longrightarrow> val_ok ts v"
  by (cases n) (fastforce simp: props_ok_map_of length_value_def list_all_length split: option.splits if_splits)+

lemma lookup_ok: "store_ok ts h \<Longrightarrow> lookup m h a k = Some v \<Longrightarrow> val_ok ts v"
  by (induction m h a k rule: lookup.induct)
    (auto split: if_splits option.splits dest: store_ok_nth intro: own_prop_ok)

lemma get_prop_ok [typed]:
  assumes "store_ok ts h" shows "val_ok ts (get_prop h v k)"
proof (cases "prop_find h v k")
  case (Some x)
  then show ?thesis using assms lookup_ok
    by (cases v) (auto simp: get_prop_def string_prop_def length_value_def split: option.splits if_splits)
qed (simp add: get_prop_def)

lemma fst_assoc_put: "fst ` set (assoc_put ps k v) = insert k (fst ` set ps)"
  by (induction ps k v rule: assoc_put.induct) auto

lemma props_ok_put: "props_ok ts ps \<Longrightarrow> val_ok ts v \<Longrightarrow> props_ok ts (assoc_put ps k v)"
proof (induction ps k v rule: assoc_put.induct)
  case (2 k1 v1 ps k v)
  then show ?case using fst_assoc_put [of ps k v] by (auto simp: props_ok_def image_iff)
qed (simp add: props_ok_def)

lemma elem_put_ok: "list_all (elem_ok ts) es \<Longrightarrow> val_ok ts v \<Longrightarrow> list_all (elem_ok ts) (elem_put es n v)"
  by (auto simp: elem_put_def list_all_length nth_list_update nth_append)

lemma length_put_ok: "list_all (elem_ok ts) es \<Longrightarrow> list_all (elem_ok ts) (length_put es v)"
  by (auto simp: length_put_def Let_def list_all_iff dest: in_set_takeD split: jsval.split jsnum.split)

lemma named_key_put: "list_all (named_key \<circ> fst) ps \<Longrightarrow> named_key k \<Longrightarrow> list_all (named_key \<circ> fst) (assoc_put ps k v)"
  by (induction ps k v rule: assoc_put.induct) auto

lemma put_own_ok:
  assumes "node_ok ts t n" "val_ok ts v"
  shows "node_ok ts t (put_own n k v)"
proof (cases n)
  case (ArrN es ps)
  moreover have "list_all (named_key \<circ> fst) (assoc_put ps k v)" if "named_key k"
    using named_key_put [of ps k v] that assms ArrN by simp
  ultimately show ?thesis using assms
    by (auto simp: elem_put_ok length_put_ok props_ok_put named_key_def split: option.split)
next
  case (ObjN ps proto)
  then show ?thesis using assms by (auto simp: props_ok_put)
qed

lemma props_ok_filter: "props_ok ts ps \<Longrightarrow> props_ok ts (filter P ps)"
  by (auto simp: props_ok_def list_all_iff distinct_map_filter)

lemma delete_own_ok: "node_ok ts t n \<Longrightarrow> node_ok ts t (snd (delete_own n k))"
  using set_update_subset_insert
  by (cases n) (fastforce simp: props_ok_filter list_all_iff split: option.split)+

lemma store_ok_update: "store_ok ts h \<Longrightarrow> node_ok ts (ts ! a) n \<Longrightarrow> store_ok ts (h[a := n])"
  unfolding store_ok_def list_all2_conv_all_nth by (metis length_list_update nth_list_update_eq nth_list_update_neq)

lemma put_prop_ok [typed]: "store_ok ts h \<Longrightarrow> val_ok ts x \<Longrightarrow> store_ok ts (put_prop h v k x)"
  by (cases v) (auto simp: store_ok_update store_ok_nth put_own_ok)

lemma delete_prop_ok: "store_ok ts h \<Longrightarrow> store_ok ts (snd (delete_prop h v k))"
  using delete_own_ok by (cases v) (auto simp: store_ok_nth split: prod.split intro!: store_ok_update, metis snd_conv store_ok_nth)

lemma assignValue_ok [typed]: "store_ok ts h \<Longrightarrow> val_ok ts x \<Longrightarrow> store_ok ts (assignValue h v k x)"
  by (simp add: assignValue_def Let_def put_prop_ok)

lemma new_object_ok: "store_ok ts h \<Longrightarrow> new_object h = (v, h1) \<Longrightarrow> store_ok (ts @ [ObjectTag]) h1 \<and> val_ok (ts @ [ObjectTag]) v"
  using store_ok_alloc [of ts h ObjectTag "ObjN [] None"] store_ok_length [of ts h]
  by (auto simp: new_object_def props_ok_def nth_append)

lemma new_array_ok:
  assumes "store_ok ts h" "list_all (val_ok ts) xs" "new_array h xs = (v, h1)"
  shows "store_ok (ts @ [ArrayTag]) h1 \<and> val_ok (ts @ [ArrayTag]) v"
  using store_ok_alloc [of ts h ArrayTag "ArrN (map Some xs) []"] store_ok_length [of ts h] assms
  by (auto simp: new_array_def props_ok_def list_all_iff val_ok_append nth_append)

section \<open>Operations\<close>

text \<open>Results whose store fits the typing or an extension by one cell.\<close>

lemma typed_same: "store_ok ts (snd r) \<Longrightarrow> val_ok ts (fst r) \<Longrightarrow> typed_result ts r"
  unfolding typed_result_def by (metis append_Nil2)

lemma typed_extend:
  assumes "typed_result (ts @ us) r" shows "typed_result ts r"
  using assms unfolding typed_result_def by (metis append.assoc)

lemma typed_object:
  assumes "store_ok ts h" "\<And>v h1. store_ok (ts @ [ObjectTag]) h1 \<Longrightarrow> val_ok (ts @ [ObjectTag]) v \<Longrightarrow> truthy v \<Longrightarrow> typed_result (ts @ [ObjectTag]) (f v h1)"
  shows "typed_result ts (case new_object h of (v, h1) \<Rightarrow> f v h1)"
proof -
  obtain v h1 where n: "new_object h = (v, h1)" by (cases "new_object h")
  then have "truthy v" by (auto simp: new_object_def)
  then show ?thesis using n new_object_ok [OF assms(1) n] assms(2) by (auto intro!: typed_extend [of ts "[ObjectTag]"])
qed

text \<open>Paths. A step along the path writes at most one new cell.\<close>

lemma set_value_ok:
  assumes "store_ok ts h" "val_ok ts x"
  shows "typed_result ts (set_value h nested key rest x None)"
proof (cases rest)
  case (Cons k ks)
  have "typed_result ts (new_object h)" "typed_result ts (new_array h [])"
    using new_object_ok [OF assms(1)] new_array_ok [OF assms(1), of "[]"] by (auto simp: typed_result_def new_object_def new_array_def)
  moreover have "typed_result ts (get_prop h nested key, h)" using assms(1) by (intro typed_same) (auto intro: typed)
  ultimately show ?thesis using Cons by (simp add: set_value_def Let_def)
qed (simp add: set_value_def typed_same assms)

lemma set_loop_ok:
  assumes "store_ok ts h" "val_ok ts x"
  shows "\<exists>us. store_ok (ts @ us) (set_loop h nested ks x None)"
  using assms
proof (induction ks arbitrary: h ts nested)
  case (Cons k ks)
  obtain w h0 where w: "set_value h nested (toKey k) ks x None = (w, h0)" by fastforce
  obtain us where us: "store_ok (ts @ us) h0" "val_ok (ts @ us) w"
    using set_value_ok [OF Cons.prems, of nested "toKey k" ks] w by (auto simp: typed_result_def)
  have "\<exists>vs. store_ok ((ts @ us) @ vs) (set_loop (assignValue h0 nested (toKey k) w) n1 ks x None)" for n1
    using us Cons.prems(2) by (intro Cons.IH) (auto intro: typed)
  then have "\<exists>us. store_ok (ts @ us) (set_loop (assignValue h0 nested (toKey k) w) n1 ks x None)" for n1
    by (metis append.assoc)
  moreover have "\<exists>us. store_ok (ts @ us) h" using Cons.prems(1) by (intro exI [of _ "[]"]) simp
  ultimately show ?case using w Cons.IH [OF Cons.prems] by (simp add: Let_def)
qed (auto intro: exI [of _ "[]"])

lemma set_js_ok: "store_ok ts h \<Longrightarrow> val_ok ts v \<Longrightarrow> val_ok ts x \<Longrightarrow> typed_result ts (v, set_js h v p x)"
  using set_loop_ok [of ts h x v "path_keys p (object_has h v)"] typed_same [of ts "(v, h)"] val_ok_append [of ts v]
  by (auto simp: typed_result_def set_js_def baseSet_def)

lemma get_loop_ok: "store_ok ts h \<Longrightarrow> val_ok ts v \<Longrightarrow> val_ok ts (get_loop h v ks)"
  by (induction h v ks rule: get_loop.induct) (auto intro: typed)

lemma baseGet_ok: "store_ok ts h \<Longrightarrow> val_ok ts v \<Longrightarrow> val_ok ts (baseGet h v p)"
  by (simp add: baseGet_def get_loop_ok Let_def)

lemma update_ok:
  assumes "store_ok ts h" "val_ok ts v" "typed_fun f"
  shows "typed_result ts (v, update h v p (Some f))"
proof -
  have "val_ok ts (f (baseGet h v p))" using assms baseGet_ok by (auto simp: typed_fun_def)
  then have "typed_result ts (v, set_js h v p (f (baseGet h v p)))" using assms(1,2) by (rule_tac set_js_ok)
  then show ?thesis by (simp add: update_def set_js_def baseUpdate_def castFunction_def split: if_splits)
qed

lemma unset_ok: "store_ok ts h \<Longrightarrow> val_ok ts v \<Longrightarrow> typed_result ts (v, snd (unset h v p))"
  by (auto simp: unset_def baseUnset_def Let_def delete_prop_ok intro!: typed_same)

text \<open>Sources.\<close>

lemma copy_loop_ok:
  assumes "store_ok ts h" "typed_customizer c"
  shows "store_ok ts (copy_loop source object c ks h)"
  using assms
proof (induction ks arbitrary: h)
  case (Cons k ks)
  have "val_ok ts (case c of None \<Rightarrow> Undefined | Some f \<Rightarrow> f (get_prop h object k) (get_prop h source k) k object source)"
    using Cons.prems by (cases c) (auto simp: get_prop_ok)
  then show ?case using Cons by (auto simp: Let_def intro!: Cons.IH assignValue_ok intro: get_prop_ok)
qed simp

lemma copyObject_ok:
  "store_ok ts h \<Longrightarrow> typed_customizer c \<Longrightarrow> truthy object \<Longrightarrow> store_ok ts (snd (copyObject h source ks object c))"
  by (simp add: copyObject_def copy_loop_ok)

lemma forin_loop_ok: "store_ok ts h \<Longrightarrow> store_ok ts (forin_loop source object tk ks h)"
  by (induction ks arbitrary: h) (simp_all add: assignValue_ok get_prop_ok)

text \<open>What an assignment function promises, and the sources it is applied to one after the other.\<close>

locale typed_assigner =
  fixes assigner :: assigner
  assumes keeps: "store_ok ts h \<Longrightarrow> typed_customizer c \<Longrightarrow> truthy object \<Longrightarrow> store_ok ts (assigner h object source c)"
begin

lemma sources_ok:
  "store_ok ts h \<Longrightarrow> typed_customizer c \<Longrightarrow> truthy object \<Longrightarrow> store_ok ts (sources_loop assigner c object ss h)"
proof (induction ss arbitrary: h)
  case (Cons s ss)
  then show ?case using keeps by simp
qed simp

lemma assigner_ok:
  assumes "store_ok ts h" "typed_customizer c" "val_ok ts object" "isNil object \<or> isObject object"
  shows "typed_result ts (createAssigner assigner h object sources c)"
proof (cases "isNil object")
  case True
  define used where "used = (if length sources > 2 \<and> truthy (sources ! 2) \<and> isIterateeCall h (sources ! 0) (sources ! 1) (sources ! 2)
    then take 1 sources else sources)"
  have "createAssigner assigner h object sources c =
      (case new_object h of (v, h1) \<Rightarrow> (v, sources_loop assigner c v used h1))"
    using True by (simp add: createAssigner_def Let_def used_def split: prod.split)
  moreover have "typed_result ts (case new_object h of (v, h1) \<Rightarrow> (v, sources_loop assigner c v used h1))"
    using sources_ok [OF _ assms(2)] by (intro typed_object [OF assms(1)] typed_same) auto
  ultimately show ?thesis by simp
next
  case False
  then have "truthy object" using assms(4) by (cases object) (auto simp: isObject_def)
  then show ?thesis using False assms sources_ok by (auto simp: createAssigner_def Let_def intro!: typed_same)
qed

end

interpretation own_assigner: typed_assigner assign_source
  by unfold_locales (auto simp: assign_source_def copyObject_ok forin_loop_ok)

interpretation in_assigner: typed_assigner assignIn_source
  by unfold_locales (auto simp: assignIn_source_def copyObject_ok forin_loop_ok)

interpretation in_with_assigner: typed_assigner "\<lambda>h1 obj source c. snd (copyObject h1 source (keysIn h1 source) obj c)"
  by unfold_locales (simp add: copyObject_ok)

lemma assignInDefaults_ok: "typed_customizer (Some assignInDefaults)"
  by (simp add: assignInDefaults_def)

lemma assign_family_ok:
  assumes "store_ok ts h" "val_ok ts object" "isNil object \<or> isObject object"
  shows "typed_result ts (assign h object sources)" "typed_result ts (assignIn h object sources)"
    "typed_result ts (defaults h object sources)"
proof -
  show "typed_result ts (assign h object sources)" "typed_result ts (assignIn h object sources)"
    using assms own_assigner.assigner_ok in_assigner.assigner_ok by (simp_all add: assign_def assignIn_def)
  show "typed_result ts (defaults h object sources)"
    using in_with_assigner.assigner_ok [OF assms(1) assignInDefaults_ok assms(2,3)] by (simp add: defaults_def assignInWith_def)
qed

lemma create_ok:
  assumes "store_ok ts h" "val_ok ts prototype"
  shows "typed_result ts (create h prototype properties)"
proof -
  obtain v h1 where b: "baseCreate h prototype = (v, h1)" by (cases "baseCreate h prototype")
  have "store_ok (ts @ [ObjectTag]) (h @ [ObjN [] (Some a)])" if "a < length ts" for a
    using that assms(1) by (intro store_ok_alloc) (simp_all add: props_ok_def)
  then have "store_ok (ts @ [ObjectTag]) h1 \<and> val_ok (ts @ [ObjectTag]) v \<and> truthy v"
    using b assms new_object_ok [OF assms(1)] store_ok_length [OF assms(1)]
    by (cases prototype) (auto simp: baseCreate_def new_object_def nth_append)
  then show ?thesis using b
    by (auto simp: create_def baseAssign_def copyObject_def copy_loop_ok intro!: typed_extend [of ts "[ObjectTag]"] typed_same)
qed

text \<open>New objects filled from others.\<close>

lemma pick_loop_ok: "store_ok ts h \<Longrightarrow> store_ok ts (pick_loop object res p ks h)"
  by (induction ks arbitrary: h) (simp_all add: Let_def put_prop_ok get_prop_ok)

lemma basePickBy_ok: "store_ok ts h \<Longrightarrow> typed_result ts (basePickBy h object ks p)"
  unfolding basePickBy_def by (intro typed_object typed_same) (simp_all add: pick_loop_ok)

lemma new_object_typed: "store_ok ts h \<Longrightarrow> typed_result ts (new_object h)"
  using typed_object [of ts h "\<lambda>v h1. (v, h1)"] by (simp add: typed_same)

lemma pick_family_ok:
  assumes "store_ok ts h"
  shows "typed_result ts (pick h object ps)" "typed_result ts (pickBy h object p)" "typed_result ts (omit h object ps)"
    "typed_result ts (omitBy h object p)"
  using assms by (simp_all add: pick_def pickBy_def omit_def omitBy_def basePick_def basePickBy_ok new_object_typed)

text \<open>Loops over the keys of an object whose callback may allocate.\<close>

lemma for_loop_ok:
  assumes "typed_step ts g" "store_ok (ts @ us) h"
  shows "\<exists>vs. store_ok (ts @ vs) (fst (for_loop (store_callback g) object ks h ()))"
  using assms(2)
proof (induction ks arbitrary: h us)
  case (Cons k ks)
  obtain vs where "store_ok (ts @ us @ vs) (g h (get_prop h object k) k)"
    using assms(1) Cons.prems get_prop_ok unfolding typed_step_def by (metis append.assoc)
  then show ?case using Cons.IH [of "us @ vs"] by (auto simp: store_callback_def)
qed auto

lemma baseForOwn_ok:
  assumes "store_ok ts h" "val_ok ts r" "typed_step ts g"
  shows "typed_result ts (r, fst (baseForOwn h () object (store_callback g)))"
proof -
  have "\<exists>vs. store_ok (ts @ vs) (fst (for_loop (store_callback g) object (keys h object) h ()))"
    using for_loop_ok [OF assms(3), of "[]"] assms(1) by simp
  then show ?thesis using assms(1,2) val_ok_append
    by (auto simp: typed_result_def baseForOwn_def baseFor_def createBaseFor_def intro: exI [of _ "[]"])
qed

lemma put_step:
  assumes "\<And>ts x k. val_ok ts x \<Longrightarrow> val_ok ts (vf x k)"
  shows "typed_step ts (\<lambda>h x k. put_prop h v (kf x k) (vf x k))"
  unfolding typed_step_def using assms put_prop_ok by (metis append_Nil2)

lemma push_step: "typed_step ts (\<lambda>h x k. push_at h res (kf x k) (key_value k))"
  unfolding typed_step_def
proof (intro allI impI)
  fix us h x k assume ok: "store_ok (ts @ us) h"
  obtain arr h1 where n: "new_array h [key_value k] = (arr, h1)" by fastforce
  then have "store_ok ((ts @ us) @ [ArrayTag]) (put_prop h1 res (kf x k) arr)"
    using new_array_ok [OF ok _ n] by (simp add: put_prop_ok del: append_assoc)
  moreover have "store_ok ((ts @ us) @ []) (put_prop h v1 k1 (key_value k))" for v1 k1
    using ok by (simp add: put_prop_ok)
  ultimately show "\<exists>vs. store_ok ((ts @ us) @ vs) (push_at h res (kf x k) (key_value k))"
    using n by (cases "has_own h res (kf x k)") (auto simp: push_at_def array_push_def intro: exI [of _ "[]"])
qed

lemma invert_ok:
  assumes "store_ok ts h"
  shows "typed_result ts (invert h object)" "typed_result ts (invertBy h object f)"
  using assms unfolding invert_def invertBy_def createInverter_def baseInverter_def
  by (auto intro!: typed_object baseForOwn_ok put_step push_step)

lemma map_objects_ok:
  assumes "store_ok ts h"
  shows "typed_result ts (mapKeys h object g)" "(\<And>k. typed_fun (\<lambda>x. f x k)) \<Longrightarrow> typed_result ts (mapValues h object f)"
  using assms unfolding mapKeys_def mapValues_def typed_fun_def
  by (auto intro!: typed_object baseForOwn_ok put_step)

lemma pairs_loop_ok: "store_ok ts h \<Longrightarrow> list_all (val_ok ts \<circ> snd) ps \<Longrightarrow> store_ok ts (pairs_loop ps res h)"
  by (induction ps res h rule: pairs_loop.induct) (auto intro: typed)

lemma zip_loop_ok: "store_ok ts h \<Longrightarrow> list_all (val_ok ts) vs \<Longrightarrow> store_ok ts (zip_loop assignValue res ks vs h)"
  by (induction ks arbitrary: vs h; case_tac vs) (simp_all add: assignValue_ok)

lemma built_ok:
  assumes "store_ok ts h"
  shows "list_all (val_ok ts \<circ> snd) ps \<Longrightarrow> typed_result ts (fromPairs h ps)"
    "list_all (val_ok ts) vs \<Longrightarrow> typed_result ts (zipObject h ks vs)"
proof -
  have ext: "list_all (val_ok (ts @ us)) vs" if "list_all (val_ok ts) vs" for us vs
    using that val_ok_append by (auto simp: list_all_iff)
  show "typed_result ts (fromPairs h ps)" if "list_all (val_ok ts \<circ> snd) ps"
    unfolding fromPairs_def using assms ext [of "map snd ps"] that
    by (intro typed_object typed_same) (simp_all add: pairs_loop_ok list.pred_map)
  show "typed_result ts (zipObject h ks vs)" if "list_all (val_ok ts) vs"
    unfolding zipObject_def baseZipObject_def using assms ext [OF that]
    by (intro typed_object typed_same) (simp_all add: zip_loop_ok)
qed

end
