(* ===== verification/JsClone.thy ===== *)
theory JsClone
  imports JsStore
begin

text \<open>
  Shallow and deep copies of lodash.js: \<open>baseClone\<close> with its stack of values under way, and \<open>clone\<close>,
  \<open>cloneWith\<close>, \<open>cloneDeep\<close>, \<open>cloneDeepWith\<close>. The recursion of a deep copy is bounded by fuel; a
  copy that returns is \<open>Some\<close>. It is shown that a deep copy of any graph of arrays and plain objects returns, cycles
  and sharing included, and is that graph again on new cells.
\<close>

section \<open>Copies of one value\<close>

text \<open>
  Values with internal slots: buffers, and those that \<open>initCloneByTag\<close> rebuilds with the constructors of the
  language. Slots are no part of the store, so their copies are given.
\<close>

record clone_host =
  caches :: host
  nativeIsBuffer :: "jsval \<Rightarrow> bool"
  bufferCopy :: "heap \<Rightarrow> jsval \<Rightarrow> bool \<Rightarrow> jsval \<times> heap"
  slotCopy :: "obj_tag \<Rightarrow> heap \<Rightarrow> jsval \<Rightarrow> bool \<Rightarrow> jsval \<times> heap"

fun cloneableTags :: "obj_tag \<Rightarrow> bool" where
  "cloneableTags (TypedArrayTag s) = True"
| "cloneableTags tag =
     (tag \<in> {ArgsTag, ArrayTag, ArrayBufferTag, DataViewTag, BoolTag, DateTag, MapTag, NumberTag, ObjectTag, RegexpTag,
             SetTag, StringTag, SymbolTag})"

fun getTag :: "jsval \<Rightarrow> obj_tag" where
  "getTag Undefined = OtherTag ''[object Undefined]''"
| "getTag Null = OtherTag ''[object Null]''"
| "getTag (Bool b) = BoolTag"
| "getTag (Num n) = NumberTag"
| "getTag (Str s) = StringTag"
| "getTag (Sym k) = SymbolTag"
| "getTag (Obj t a) = t"

text \<open>The constructor of an array is the built-in one.\<close>

definition initCloneArray :: "heap \<Rightarrow> jsval \<Rightarrow> jsval \<times> heap" where
  "initCloneArray h array =
     (let len = value_length (get_prop h array length_key);
          res = Obj ArrayTag (length h);
          h1 = h @ [ArrN (replicate len None) []]
      in if len \<noteq> 0 \<and> js_typeof (get_prop h array (index_key 0)) = TString \<and> has_own h array (PStr ''index'')
         then (res, put_prop (put_prop h1 res (PStr ''index'') (get_prop h array (PStr ''index'')))
                      res (PStr ''input'') (get_prop h array (PStr ''input'')))
         else (res, h1))"

text \<open>An object without a constructor in the store inherits the built-in one, a function.\<close>

definition initCloneObject :: "heap \<Rightarrow> jsval \<Rightarrow> jsval \<times> heap" where
  "initCloneObject h object =
     (let hasCtor = (case prop_find h object (PStr ''constructor'') of None \<Rightarrow> True | Some c \<Rightarrow> js_typeof c = TFunction)
      in if hasCtor \<and> \<not> isPrototype h object
         then baseCreate h (case get_proto h object of None \<Rightarrow> Null | Some p \<Rightarrow> Obj ObjectTag p)
         else new_object h)"

definition copy_elements :: "heap \<Rightarrow> jsval \<Rightarrow> jsval \<Rightarrow> heap" where
  "copy_elements h source array =
     fold (\<lambda>i h1. put_prop h1 array (index_key i) (get_prop h1 source (index_key i)))
       [0..<value_length (get_prop h source length_key)] h"

text \<open>
  The start of a copy: whether the result is final, and the result. No object is a host object of an old engine.
\<close>

definition clone_start :: "clone_host \<Rightarrow> bool \<Rightarrow> bool \<Rightarrow> heap \<Rightarrow> jsval \<Rightarrow> bool \<times> jsval \<times> heap" where
  "clone_start env isDeep nested h v =
     (if isArray v
      then (case initCloneArray h v of
              (res, h1) \<Rightarrow> if isDeep then (False, res, h1) else (True, res, copy_elements h1 v res))
      else
        (let tag = getTag v;
             isFunc = (tag = FuncTag \<or> tag = GenTag)
         in if nativeIsBuffer env v then (True, bufferCopy env h v isDeep)
            else if tag = ObjectTag \<or> tag = ArgsTag \<or> (isFunc \<and> \<not> nested)
            then (case (if isFunc then (case new_object h of (obj, h0) \<Rightarrow> initCloneObject h0 obj) else initCloneObject h v) of
                    (res, h1) \<Rightarrow>
                      if isDeep then (False, res, h1)
                      else (True, case baseAssign h1 res v of (obj, h2) \<Rightarrow> copySymbols h2 v obj))
            else if \<not> cloneableTags tag then (True, if nested then (v, h) else new_object h)
            else (False, slotCopy env tag h v isDeep)))"

section \<open>The recursive copy\<close>

type_synonym clone_customizer = "jsval \<Rightarrow> (propkey \<times> jsval) option \<Rightarrow> jsval"

type_synonym cloner = "heap \<Rightarrow> jsval \<Rightarrow> (propkey \<times> jsval) option \<Rightarrow> Stack \<Rightarrow> (jsval \<times> heap \<times> Stack) option"

fun clone_loop :: "cloner \<Rightarrow> jsval \<Rightarrow> jsval \<Rightarrow> propkey list \<Rightarrow> heap \<Rightarrow> Stack \<Rightarrow> (heap \<times> Stack) option" where
  "clone_loop cloneFunc v res [] h stack = Some (h, stack)"
| "clone_loop cloneFunc v res (key # ks) h stack =
     (case cloneFunc h (get_prop h v key) (Some (key, v)) stack of
        None \<Rightarrow> None
      | Some (x, h1, stack1) \<Rightarrow> clone_loop cloneFunc v res ks (assignValue h1 res key x) stack1)"

definition clone_keys :: "bool \<Rightarrow> heap \<Rightarrow> jsval \<Rightarrow> propkey list" where
  "clone_keys isFull h v =
     (if isArray v then map index_key [0..<value_length (get_prop h v length_key)]
      else if isFull then getAllKeys h v else keys h v)"

fun baseClone :: "nat \<Rightarrow> clone_host \<Rightarrow> bool \<Rightarrow> bool \<Rightarrow> clone_customizer option \<Rightarrow> cloner" where
  "baseClone 0 env isDeep isFull customizer h v place stack = None"
| "baseClone (Suc n) env isDeep isFull customizer h v place stack =
     (let given = (case customizer of None \<Rightarrow> Undefined | Some f \<Rightarrow> f v place)
      in if given \<noteq> Undefined then Some (given, h, stack)
         else if \<not> isObject v then Some (v, h, stack)
         else (case clone_start env isDeep (place \<noteq> None) h v of
                 (final, res, h1) \<Rightarrow>
                   if final then Some (res, h1, stack)
                   else (let stacked = stackGet (caches env) stack v
                         in if truthy stacked then Some (stacked, h1, stack)
                            else (case clone_loop (baseClone n env isDeep isFull customizer) v res (clone_keys isFull h1 v) h1
                                         (stackSet (caches env) stack v res) of
                                    None \<Rightarrow> None
                                  | Some (h2, stack2) \<Rightarrow> Some (res, h2, stack2)))))"

definition clone_result :: "(jsval \<times> heap \<times> Stack) option \<Rightarrow> (jsval \<times> heap) option" where
  "clone_result r = map_option (\<lambda>(x, h, stack). (x, h)) r"

text \<open>A shallow copy recurs only below values with internal slots.\<close>

definition clone :: "nat \<Rightarrow> clone_host \<Rightarrow> heap \<Rightarrow> jsval \<Rightarrow> (jsval \<times> heap) option" where
  "clone n env h v = clone_result (baseClone n env False True None h v None stackClear)"

definition cloneWith :: "nat \<Rightarrow> clone_host \<Rightarrow> heap \<Rightarrow> jsval \<Rightarrow> clone_customizer option \<Rightarrow> (jsval \<times> heap) option" where
  "cloneWith n env h v customizer = clone_result (baseClone n env False True customizer h v None stackClear)"

definition cloneDeep :: "nat \<Rightarrow> clone_host \<Rightarrow> heap \<Rightarrow> jsval \<Rightarrow> (jsval \<times> heap) option" where
  "cloneDeep n env h v = clone_result (baseClone n env True True None h v None stackClear)"

definition cloneDeepWith :: "nat \<Rightarrow> clone_host \<Rightarrow> heap \<Rightarrow> jsval \<Rightarrow> clone_customizer option \<Rightarrow> (jsval \<times> heap) option" where
  "cloneDeepWith n env h v customizer = clone_result (baseClone n env True True customizer h v None stackClear)"

section \<open>Graphs and their copies\<close>

text \<open>
  A graph a deep copy rebuilds: arrays and plain objects. Cells with a tag that is not copied, such as functions and
  errors, may hang off them and stay shared.
\<close>

fun copy_cell :: "clone_host \<Rightarrow> nat \<Rightarrow> obj_tag \<Rightarrow> node \<Rightarrow> bool" where
  "copy_cell env a t (ArrN es ps) = (int (length es) \<le> MAX_ARRAY_LENGTH \<and> map_of ps (PStr ''index'') = None)"
| "copy_cell env a t (ObjN ps proto) =
     (\<not> nativeIsBuffer env (Obj t a) \<and> (cloneableTags t \<longrightarrow> t = ObjectTag \<and> plain (ObjN ps proto)))"

definition copy_graph :: "clone_host \<Rightarrow> obj_tag list \<Rightarrow> heap \<Rightarrow> bool" where
  "copy_graph env ts h = (store_ok ts h \<and> list_all (\<lambda>a. copy_cell env a (ts ! a) (h ! a)) [0..<length h])"

text \<open>The copies of a value, of an element and of a cell when the copy of the cell \<open>a\<close> is the cell \<open>f a\<close>.\<close>

fun copy_val :: "(nat \<Rightarrow> nat) \<Rightarrow> jsval \<Rightarrow> jsval" where
  "copy_val f (Obj t a) = (if cloneableTags t then Obj t (f a) else Obj t a)"
| "copy_val f v = v"

fun elem_val :: "jsval option \<Rightarrow> jsval" where
  "elem_val None = Undefined"
| "elem_val (Some v) = v"

fun copy_node :: "(nat \<Rightarrow> nat) \<Rightarrow> node \<Rightarrow> node" where
  "copy_node f (ArrN es ps) = ArrN (map (\<lambda>e. Some (copy_val f (elem_val e))) es) []"
| "copy_node f (ObjN ps proto) =
     ObjN (map (\<lambda>(k, v). (k, copy_val f v)) (filter (is_string_key \<circ> fst) ps @ filter (\<lambda>p. \<not> is_string_key (fst p)) ps)) proto"

text \<open>The values a copy visits below a value, and the copied cells that a value reaches.\<close>

fun node_vals :: "node \<Rightarrow> jsval list" where
  "node_vals (ArrN es ps) = map elem_val es"
| "node_vals (ObjN ps proto) = map snd ps"

fun copied_val :: "jsval \<Rightarrow> bool" where
  "copied_val (Obj t a) = cloneableTags t"
| "copied_val v = True"

inductive leads_to :: "heap \<Rightarrow> jsval \<Rightarrow> nat \<Rightarrow> bool" for h where
  here: "cloneableTags t \<Longrightarrow> leads_to h (Obj t a) a"
| below: "leads_to h v a \<Longrightarrow> a < length h \<Longrightarrow> Obj t b \<in> set (node_vals (h ! a)) \<Longrightarrow> cloneableTags t \<Longrightarrow> leads_to h v b"

text \<open>The cell a copy starts from, the keys it visits, and the values it finds at them.\<close>

fun blank :: "node \<Rightarrow> node" where
  "blank (ArrN es ps) = ArrN (replicate (length es) None) []"
| "blank (ObjN ps proto) = ObjN [] None"

fun cell_keys :: "node \<Rightarrow> propkey list" where
  "cell_keys (ArrN es ps) = map index_key [0..<length es]"
| "cell_keys (ObjN ps proto) = map fst (filter (is_string_key \<circ> fst) ps @ filter (\<lambda>p. \<not> is_string_key (fst p)) ps)"

definition own_val :: "node \<Rightarrow> propkey \<Rightarrow> jsval" where
  "own_val n k = elem_val (own_prop n k)"

text \<open>Keys that can be written to a cell without changing the length of an array.\<close>

fun slot_key :: "node \<Rightarrow> propkey \<Rightarrow> bool" where
  "slot_key (ArrN es ps) k = (case array_index k of None \<Rightarrow> False | Some i \<Rightarrow> i < length es)"
| "slot_key (ObjN ps proto) k = True"

section \<open>Cells\<close>

lemma copy_graph_cell:
  assumes "copy_graph env ts h" "a < length h"
  shows "node_ok ts (ts ! a) (h ! a)" "copy_cell env a (ts ! a) (h ! a)"
  using assms by (auto simp: copy_graph_def store_ok_nth list_all_iff)

lemma lookup_flat: "node_proto (h ! a) = None \<Longrightarrow> a < length h \<Longrightarrow> lookup (length h) h a k = own_prop (h ! a) k"
  by (cases "length h") (auto split: option.split)

text \<open>Copied cells have no prototype but a built-in one.\<close>

lemma copied_flat:
  assumes "copy_cell env a t n" "node_ok ts t n" "cloneableTags t"
  shows "node_proto n = None" "n = ObjN ps pr \<Longrightarrow> t = ObjectTag \<and> plain n" "n = ArrN es ps1 \<Longrightarrow> t = ArrayTag"
  using assms by (cases n; auto elim: plain.elims)+

lemma get_flat: "node_proto (h ! a) = None \<Longrightarrow> a < length h \<Longrightarrow> get_prop h (Obj t a) k = own_val (h ! a) k"
  by (simp add: get_prop_def own_val_def lookup_flat split: option.split)

lemma array_index_key [simp]: "int i < MAX_ARRAY_LENGTH \<Longrightarrow> array_index (index_key i) = Some i"
  by (simp add: index_key_def)

lemma index_key_inj [simp]: "index_key i = index_key j \<longleftrightarrow> i = j"
  unfolding index_key_def by (metis propkey.inject(1) option.inject reIsUint_nat_str)

lemma value_length_own: "value_length (length_value es) = length es"
  by (simp add: length_value_def num_of_int_def num_int.simps)

lemma own_length [simp]: "own_val (ArrN es ps) length_key = length_value es"
  by (simp add: own_val_def)

lemma isPrototype_no_ctor: "get_prop h v (PStr ''constructor'') = Undefined \<Longrightarrow> \<not> isPrototype h v"
  by (simp add: isPrototype_def)

lemma clone_start_deep:
  assumes "copy_cell env a t (h ! a)" "node_ok ts t (h ! a)" "cloneableTags t" "a < length h"
  shows "clone_start env True nested h (Obj t a) = (False, Obj t (length h), h @ [blank (h ! a)])"
proof (cases "h ! a")
  case (ArrN es ps)
  have "own_prop (ArrN es ps) (PStr ''index'') = None"
    using assms(1) ArrN by (auto simp: reIsUint_def is_digit_def length_key_def)
  then have "\<not> has_own h (Obj t a) (PStr ''index'')" using ArrN by simp
  then show ?thesis using assms ArrN
    by (simp add: clone_start_def isArray_def initCloneArray_def get_flat value_length_own Let_def)
next
  case (ObjN ps proto)
  note flat = copied_flat(2) [OF assms(1-3) ObjN]
  then have "plain (h ! a)" "t = ObjectTag" by simp_all
  moreover from this have "prop_find h (Obj t a) (PStr ''constructor'') = None"
    using assms(4) ObjN by (auto simp: lookup_flat elim!: plain.elims)
  ultimately show ?thesis using assms ObjN plain_kind(2) [of h a t]
    by (auto simp: clone_start_def isArray_def initCloneObject_def Let_def baseCreate_def new_object_def elim!: plain.elims)
qed

lemma clone_keys_cell:
  assumes "copy_cell env a t (h ! a)" "node_ok ts t (h ! a)" "cloneableTags t" "a < length h"
  shows "clone_keys True h (Obj t a) = cell_keys (h ! a)"
proof (cases "h ! a")
  case (ArrN es ps)
  then show ?thesis using assms by (simp add: clone_keys_def isArray_def get_flat value_length_own)
next
  case (ObjN ps proto)
  note flat = copied_flat(2) [OF assms(1-3) ObjN]
  then show ?thesis using ObjN assms(4) plain_keys(1) [of h a t]
    by (simp add: clone_keys_def isArray_def getAllKeys_def baseGetAllKeys_def arrayPush_append string_keys_def filter_map comp_def)
qed

text \<open>Writing the keys of a cell one after the other.\<close>

lemma slot_key_put: "slot_key n k \<Longrightarrow> slot_key n k1 \<Longrightarrow> slot_key (put_own n k x) k1"
  by (cases n) (auto simp: elem_put_def split: option.splits)

lemma own_put_slot: "slot_key n k \<Longrightarrow> k1 \<noteq> k \<Longrightarrow> own_prop (put_own n k x) k1 = own_prop n k1"
  using array_index_inj [of k _ k1]
  by (cases n) (auto simp: elem_put_def length_value_def nth_list_update split: option.splits)

lemma blank_slots: "copy_cell env a t n \<Longrightarrow> k \<in> set (cell_keys n) \<Longrightarrow> slot_key (blank n) k \<and> own_prop (blank n) k = None"
  by (cases n) (auto split: option.split)

lemma elems_built:
  "int (length es) \<le> MAX_ARRAY_LENGTH \<Longrightarrow> m \<le> length es \<Longrightarrow>
   put_all (map (\<lambda>i. (index_key i, w i)) [0..<m]) (ArrN es ps) = ArrN (map (Some \<circ> w) [0..<m] @ drop m es) ps"
proof (induction m)
  case (Suc m)
  have "put_all (xs @ ys) n = put_all ys (put_all xs n)" for xs ys n by (simp add: put_all_def)
  then show ?case using Suc by (simp add: elem_put_def list_update_append Cons_nth_drop_Suc [symmetric])
qed simp

lemma node_vals_keys:
  assumes "copy_cell env a t n" "node_ok ts t n" "v \<in> set (node_vals n)"
  shows "\<exists>k\<in>set (cell_keys n). own_val n k = v"
proof (cases n)
  case (ArrN es ps)
  then obtain i where "i < length es" "v = elem_val (es ! i)" using assms(3) by (auto simp: in_set_conv_nth)
  then show ?thesis using ArrN assms(1) by (auto simp: own_val_def intro!: bexI [of _ i])
next
  case (ObjN ps proto)
  then obtain k where "(k, v) \<in> set ps" using assms(3) by auto
  then show ?thesis using ObjN assms(2) by (auto simp: own_val_def props_ok_def image_iff intro!: bexI [of _ k] bexI [of _ "(k, v)"])
qed

lemma cell_built:
  assumes "copy_cell env a t n" "node_ok ts t n" "cloneableTags t"
  shows "put_all (map (\<lambda>k. (k, copy_val f (own_val n k))) (cell_keys n)) (blank n) = copy_node f n"
proof (cases n)
  case (ArrN es ps)
  have "own_val (ArrN es ps) (index_key i) = elem_val (es ! i)" if "i < length es" for i
    using that assms ArrN by (simp add: own_val_def)
  then have "map (\<lambda>k. (k, copy_val f (own_val n k))) (cell_keys n) = map (\<lambda>i. (index_key i, copy_val f (elem_val (es ! i)))) [0..<length es]"
    using ArrN by simp
  moreover have "map (\<lambda>e. Some (copy_val f (elem_val e))) es = map (Some \<circ> (\<lambda>i. copy_val f (elem_val (es ! i)))) [0..<length es]"
    by (rule nth_equalityI) simp_all
  ultimately show ?thesis
    using ArrN assms(1) elems_built [of "replicate (length es) None" "length es" "\<lambda>i. copy_val f (elem_val (es ! i))" "[]"]
    by (simp del: map_map)
next
  case (ObjN ps proto)
  let ?qs = "filter (is_string_key \<circ> fst) ps @ filter (\<lambda>p. \<not> is_string_key (fst p)) ps"
  have flat: "proto = None" "distinct (map fst ps)" using copied_flat(2) [OF assms ObjN] ObjN by (auto elim: plain.elims)
  have "map_of ps k = Some v" if "(k, v) \<in> set ?qs" for k v using that flat(2) by (auto)
  then have "map (\<lambda>k. (k, copy_val f (own_val n k))) (cell_keys n) = map (\<lambda>(k, v). (k, copy_val f v)) ?qs"
    using ObjN by (auto simp: own_val_def)
  then have "put_all (map (\<lambda>k. (k, copy_val f (own_val n k))) (cell_keys n)) (blank n) = put_all (map (\<lambda>(k, v). (k, copy_val f v)) ?qs) (ObjN [] None)"
    using ObjN by (simp only: blank.simps)
  also have "\<dots> = ObjN (map (\<lambda>(k, v). (k, copy_val f v)) ?qs) None"
  proof -
    have "distinct (map fst ?qs)" using flat(2) by (auto simp: distinct_map intro: inj_on_subset)
    moreover have "map fst (map (\<lambda>(k, v). (k, copy_val f v)) ?qs) = map fst ?qs" by (simp add: comp_def case_prod_beta)
    ultimately show ?thesis
      using put_all_append [of "[]" "map (\<lambda>(k, v). (k, copy_val f v)) ?qs" None] by (simp only: append_Nil)
  qed
  finally show ?thesis using ObjN flat(1) by simp
qed

section \<open>States of a copy\<close>

text \<open>The copy of a cell of the original store that the stack holds.\<close>

definition stacked :: "clone_host \<Rightarrow> obj_tag list \<Rightarrow> Stack \<Rightarrow> nat \<Rightarrow> jsval" where
  "stacked env ts st a = stackGet (caches env) st (Obj (ts ! a) a)"

definition on_stack :: "clone_host \<Rightarrow> obj_tag list \<Rightarrow> Stack \<Rightarrow> nat set" where
  "on_stack env ts st = {a. a < length ts \<and> stacked env ts st a \<noteq> Undefined}"

definition addr :: "clone_host \<Rightarrow> obj_tag list \<Rightarrow> Stack \<Rightarrow> nat \<Rightarrow> nat" where
  "addr env ts st a = (case stacked env ts st a of Obj t b \<Rightarrow> b | _ \<Rightarrow> 0)"

text \<open>
  States of a copy of the store \<open>h0\<close>: it is kept, and the stack maps cells one to one to new cells.
\<close>

definition clone_inv :: "clone_host \<Rightarrow> obj_tag list \<Rightarrow> heap \<Rightarrow> heap \<Rightarrow> Stack \<Rightarrow> bool" where
  "clone_inv env ts h0 h st =
     (stack_inv (caches env) st \<and> length h0 \<le> length h \<and> take (length h0) h = h0 \<and>
      (\<forall>a\<in>on_stack env ts st. stacked env ts st a = Obj (ts ! a) (addr env ts st a) \<and>
         length h0 \<le> addr env ts st a \<and> addr env ts st a < length h) \<and>
      inj_on (addr env ts st) (on_stack env ts st))"

text \<open>A cell whose copy is complete: all it refers to has been visited.\<close>

definition complete :: "clone_host \<Rightarrow> obj_tag list \<Rightarrow> heap \<Rightarrow> heap \<Rightarrow> Stack \<Rightarrow> nat \<Rightarrow> bool" where
  "complete env ts h0 h st a =
     (h ! addr env ts st a = copy_node (addr env ts st) (h0 ! a) \<and>
      (\<forall>t b. Obj t b \<in> set (node_vals (h0 ! a)) \<longrightarrow> cloneableTags t \<longrightarrow> b \<in> on_stack env ts st))"

text \<open>A part of a copy: cells that were there stay, up to the one being filled, and cells it visits are completed.\<close>

definition clone_part :: "clone_host \<Rightarrow> obj_tag list \<Rightarrow> heap \<Rightarrow> nat set \<Rightarrow> heap \<Rightarrow> Stack \<Rightarrow> heap \<Rightarrow> Stack \<Rightarrow> bool" where
  "clone_part env ts h0 X h st h1 st1 =
     (clone_inv env ts h0 h1 st1 \<and> length h \<le> length h1 \<and> (\<forall>b. b < length h \<and> b \<notin> X \<longrightarrow> h1 ! b = h ! b) \<and>
      (\<forall>a\<in>on_stack env ts st. stacked env ts st1 a = stacked env ts st a) \<and>
      (\<forall>a\<in>on_stack env ts st1 - on_stack env ts st. length h \<le> addr env ts st1 a \<and> complete env ts h0 h1 st1 a))"

text \<open>Cells that a copy has not visited, values it has, and what a function that copies nested values promises.\<close>

definition left_over :: "clone_host \<Rightarrow> obj_tag list \<Rightarrow> Stack \<Rightarrow> nat" where
  "left_over env ts st = card ({..<length ts} - on_stack env ts st)"

definition visited :: "clone_host \<Rightarrow> obj_tag list \<Rightarrow> Stack \<Rightarrow> jsval \<Rightarrow> bool" where
  "visited env ts st v = (\<forall>t b. v = Obj t b \<longrightarrow> cloneableTags t \<longrightarrow> b \<in> on_stack env ts st)"

definition cloner_ok :: "clone_host \<Rightarrow> obj_tag list \<Rightarrow> heap \<Rightarrow> nat \<Rightarrow> cloner \<Rightarrow> bool" where
  "cloner_ok env ts h0 n F =
     (\<forall>h v place st. clone_inv env ts h0 h st \<longrightarrow> val_ok ts v \<longrightarrow> place \<noteq> None \<or> copied_val v \<longrightarrow>
        left_over env ts st < n \<longrightarrow>
        (\<exists>h1 st1. F h v place st = Some (copy_val (addr env ts st1) v, h1, st1) \<and>
           clone_part env ts h0 {} h st h1 st1 \<and> visited env ts st1 v))"

lemma part_stack: "clone_part env ts h0 X h st h1 st1 \<Longrightarrow> on_stack env ts st \<subseteq> on_stack env ts st1"
  by (auto simp: clone_part_def on_stack_def)

lemma part_addr: "clone_part env ts h0 X h st h1 st1 \<Longrightarrow> a \<in> on_stack env ts st \<Longrightarrow> addr env ts st1 a = addr env ts st a"
  by (simp add: clone_part_def addr_def)

lemma copy_val_cong:
  "(\<And>t b. v = Obj t b \<Longrightarrow> cloneableTags t \<Longrightarrow> f b = g b) \<Longrightarrow> copy_val f v = copy_val g v"
  by (cases v) auto

lemma copy_node_cong:
  assumes "\<And>t b. Obj t b \<in> set (node_vals n) \<Longrightarrow> cloneableTags t \<Longrightarrow> f b = g b"
  shows "copy_node f n = copy_node g n"
proof -
  have "copy_val f v = copy_val g v" if "v \<in> set (node_vals n)" for v using assms that by (auto intro: copy_val_cong)
  then show ?thesis by (cases n) force+
qed

lemma complete_part:
  assumes "complete env ts h0 h st a" "clone_part env ts h0 X h st h1 st1" "a \<in> on_stack env ts st"
    "addr env ts st a \<notin> X" "addr env ts st a < length h"
  shows "complete env ts h0 h1 st1 a"
proof -
  have "copy_node (addr env ts st1) (h0 ! a) = copy_node (addr env ts st) (h0 ! a)"
    using assms(1,2) part_addr by (intro copy_node_cong) (auto simp: complete_def)
  moreover have "h1 ! addr env ts st a = h ! addr env ts st a" using assms(2,4,5) by (auto simp: clone_part_def)
  ultimately show ?thesis using assms(1) part_addr [OF assms(2,3)] part_stack [OF assms(2)] by (auto simp: complete_def)
qed

lemma part_trans:
  assumes "clone_part env ts h0 X h st h1 st1" "clone_part env ts h0 Y h1 st1 h2 st2" "\<forall>y\<in>Y. y < length h" "clone_inv env ts h0 h st"
  shows "clone_part env ts h0 (X \<union> Y) h st h2 st2"
proof -
  have "length h \<le> addr env ts st2 a \<and> complete env ts h0 h2 st2 a" if a: "a \<in> on_stack env ts st2" "a \<notin> on_stack env ts st" for a
  proof (cases "a \<in> on_stack env ts st1")
    case True
    then have c: "length h \<le> addr env ts st1 a" "complete env ts h0 h1 st1 a" using assms(1) a by (auto simp: clone_part_def)
    moreover have "addr env ts st1 a < length h1" using assms(1) True by (auto simp: clone_part_def clone_inv_def)
    ultimately show ?thesis using complete_part [OF c(2) assms(2) True] part_addr [OF assms(2) True] assms(3) by fastforce
  next
    case False
    then show ?thesis using assms(1,2) a by (auto simp: clone_part_def dest: order_trans)
  qed
  moreover have "stacked env ts st2 a = stacked env ts st a" if "a \<in> on_stack env ts st" for a
    using that assms(1,2) part_stack [OF assms(1)] by (auto simp: clone_part_def)
  ultimately show ?thesis using assms(1,2) by (auto simp: clone_part_def)
qed

lemma part_refl: "clone_inv env ts h0 h st \<Longrightarrow> clone_part env ts h0 X h st h st"
  by (auto simp: clone_part_def)

text \<open>New cells that the stack does not hold, and the write of one property.\<close>

lemma inv_alloc: "clone_inv env ts h0 h st \<Longrightarrow> clone_inv env ts h0 (h @ xs) st"
  by (fastforce simp: clone_inv_def)

lemma part_alloc: "clone_inv env ts h0 h st \<Longrightarrow> clone_part env ts h0 X h st (h @ xs) st"
  by (auto simp: clone_part_def inv_alloc nth_append)

lemma part_write:
  assumes "clone_inv env ts h0 h st" "length h0 \<le> r"
  shows "clone_part env ts h0 {r} h st (h[r := n]) st"
  using assms by (auto simp: clone_part_def clone_inv_def)

lemma left_over_part: "clone_part env ts h0 X h st h1 st1 \<Longrightarrow> left_over env ts st1 \<le> left_over env ts st"
  unfolding left_over_def by (intro card_mono) (auto dest: part_stack)

lemma visited_part: "visited env ts st v \<Longrightarrow> clone_part env ts h0 X h st h1 st1 \<Longrightarrow> visited env ts st1 v"
  using part_stack by (fastforce simp: visited_def)

lemma copy_val_part:
  assumes "visited env ts st v" "clone_part env ts h0 X h st h1 st1"
  shows "copy_val (addr env ts st1) v = copy_val (addr env ts st) v"
  using assms part_addr by (intro copy_val_cong) (auto simp: visited_def)

text \<open>The stack after a cell has been put on it.\<close>

lemma stacked_set:
  assumes "stack_inv (caches env) st"
  shows "stacked env ts (stackSet (caches env) st (Obj (ts ! a) a) x) b = (if a = b then x else stacked env ts st b)"
  using stackSet_lookup(1) [OF assms, of "Obj (ts ! a) a" "Obj (ts ! b) b" x]
  by (auto simp: stacked_def isKeyable_def eq_iff_norm)

lemma inv_set:
  assumes "clone_inv env ts h0 h st" "a < length ts" "a \<notin> on_stack env ts st" "length h0 \<le> length h"
  defines "st1 \<equiv> stackSet (caches env) st (Obj (ts ! a) a) (Obj (ts ! a) (length h))"
  shows "clone_inv env ts h0 (h @ [n]) st1" "on_stack env ts st1 = insert a (on_stack env ts st)"
    "addr env ts st1 b = (if a = b then length h else addr env ts st b)" "left_over env ts st1 < left_over env ts st"
    "c \<in> on_stack env ts st \<Longrightarrow> stacked env ts st1 c = stacked env ts st c"
proof -
  have inv: "stack_inv (caches env) st" using assms(1) by (simp add: clone_inv_def)
  note st = stacked_set [OF inv, of ts a "Obj (ts ! a) (length h)", folded st1_def]
  show on: "on_stack env ts st1 = insert a (on_stack env ts st)" using st assms(2) by (auto simp: on_stack_def)
  show ad: "addr env ts st1 b = (if a = b then length h else addr env ts st b)" for b using st by (simp add: addr_def)
  have "stack_inv (caches env) st1"
    unfolding st1_def using stackSet_lookup(3) [OF inv, of "Obj (ts ! a) a" "Obj (ts ! a) a"] by (simp add: isKeyable_def)
  moreover have "inj_on (addr env ts st1) (on_stack env ts st1)"
    using assms(1,3) by (auto simp: on ad inj_on_def clone_inv_def)
  ultimately show "clone_inv env ts h0 (h @ [n]) st1"
    using assms(1,3,4) by (auto simp: clone_inv_def on ad st less_SucI)
  show "c \<in> on_stack env ts st \<Longrightarrow> stacked env ts st1 c = stacked env ts st c" using st assms(3) by auto
  show "left_over env ts st1 < left_over env ts st"
    unfolding left_over_def on using assms(2,3) by (intro psubset_card_mono) auto
qed

text \<open>Filling a new cell.\<close>

lemma clone_loop_ok:
  assumes F: "cloner_ok env ts h0 n F" and g: "store_ok ts h0" "a < length h0" "node_proto (h0 ! a) = None" "length h0 \<le> r"
  shows "clone_inv env ts h0 h st \<Longrightarrow> left_over env ts st < n \<Longrightarrow> r < length h \<Longrightarrow> distinct ks \<Longrightarrow>
    list_all (\<lambda>k. slot_key (h ! r) k \<and> own_prop (h ! r) k = None) ks \<Longrightarrow>
    \<exists>h1 st1. clone_loop F (Obj t a) (Obj t1 r) ks h st = Some (h1, st1) \<and> clone_part env ts h0 {r} h st h1 st1 \<and>
      h1 ! r = put_all (map (\<lambda>k. (k, copy_val (addr env ts st1) (own_val (h0 ! a) k))) ks) (h ! r) \<and>
      list_all (\<lambda>k. visited env ts st1 (own_val (h0 ! a) k)) ks"
proof (induction ks arbitrary: h st)
  case Nil
  then show ?case by (simp add: part_refl)
next
  case (Cons k ks)
  let ?x = "own_val (h0 ! a) k"
  have ha: "h ! a = h0 ! a" "a < length h" using Cons.prems(1) g(2) by (auto simp: clone_inv_def) (metis nth_take)
  have x: "get_prop h (Obj t a) k = ?x" using get_flat [of h a] ha g(3) by simp
  have "val_ok ts ?x" using own_prop_ok [OF store_ok_nth [OF g(1,2)], of k] by (cases "own_prop (h0 ! a) k") (auto simp: own_val_def)
  then obtain h1 st1 where F1: "F h ?x (Some (k, Obj t a)) st = Some (copy_val (addr env ts st1) ?x, h1, st1)"
    "clone_part env ts h0 {} h st h1 st1" "visited env ts st1 ?x"
    using F Cons.prems(1,2) unfolding cloner_ok_def by blast
  let ?y = "copy_val (addr env ts st1) ?x"
  have h1: "r < length h1" "h1 ! r = h ! r" "clone_inv env ts h0 h1 st1" using F1(2) Cons.prems(3) by (auto simp: clone_part_def)
  have as: "assignValue h1 (Obj t1 r) k ?y = h1[r := put_own (h ! r) k ?y]"
    using h1 Cons.prems(5) by (simp add: assignValue_def Let_def)
  let ?h2 = "h1[r := put_own (h ! r) k ?y]"
  note w = part_write [OF h1(3) g(4), of "put_own (h ! r) k ?y"]
  have inv2: "clone_inv env ts h0 ?h2 st1" "left_over env ts st1 < n"
    using w left_over_part [OF F1(2)] Cons.prems(2) by (auto simp: clone_part_def)
  have "list_all (\<lambda>k1. slot_key (?h2 ! r) k1 \<and> own_prop (?h2 ! r) k1 = None) ks"
    using Cons.prems(4,5) h1(1) slot_key_put own_put_slot by (fastforce simp: list_all_iff)
  then obtain h3 st3 where L: "clone_loop F (Obj t a) (Obj t1 r) ks ?h2 st1 = Some (h3, st3)" "clone_part env ts h0 {r} ?h2 st1 h3 st3"
    "h3 ! r = put_all (map (\<lambda>k. (k, copy_val (addr env ts st3) (own_val (h0 ! a) k))) ks) (?h2 ! r)"
    "list_all (\<lambda>k. visited env ts st3 (own_val (h0 ! a) k)) ks"
    using Cons.IH [OF inv2] Cons.prems(4) h1(1) by auto
  have "clone_part env ts h0 {r} h st h3 st3"
    using part_trans [OF part_trans [OF F1(2) w] L(2)] Cons.prems(1,3) by simp
  moreover have "copy_val (addr env ts st3) ?x = ?y" "visited env ts st3 ?x"
    using copy_val_part [OF F1(3) L(2)] visited_part [OF F1(3) L(2)] .
  ultimately show ?case using F1(1) x as L h1(1) by simp
qed

text \<open>Values that stay as they are.\<close>

lemma clone_shared:
  assumes "copy_cell env a t (h ! a)" "node_ok ts t (h ! a)" "\<not> cloneableTags t"
  shows "clone_start env True True h (Obj t a) = (True, Obj t a, h)"
proof -
  have "t \<noteq> ArrayTag" "t \<noteq> ObjectTag" "t \<noteq> ArgsTag" using assms(3) by auto
  moreover from this have "\<not> nativeIsBuffer env (Obj t a)" using assms by (cases "h ! a") auto
  ultimately show ?thesis using assms(3) by (simp add: clone_start_def isArray_def Let_def)
qed

text \<open>A cell that is visited for the first time.\<close>

lemma clone_fresh:
  assumes g: "copy_graph env ts h0" "a < length h0" "cloneableTags (ts ! a)" and F: "cloner_ok env ts h0 n F"
    and inv: "clone_inv env ts h0 h st" "left_over env ts st < Suc n" "a \<notin> on_stack env ts st"
  defines "st0 \<equiv> stackSet (caches env) st (Obj (ts ! a) a) (Obj (ts ! a) (length h))"
  shows "\<exists>h1 st1. clone_loop F (Obj (ts ! a) a) (Obj (ts ! a) (length h)) (cell_keys (h0 ! a)) (h @ [blank (h0 ! a)]) st0 = Some (h1, st1) \<and>
    clone_part env ts h0 {} h st h1 st1 \<and> addr env ts st1 a = length h \<and> a \<in> on_stack env ts st1"
proof -
  let ?h = "h @ [blank (h0 ! a)]" and ?r = "length h" and ?v = "Obj (ts ! a) a"
  note cell = copy_graph_cell [OF g(1,2)]
  have ok: "store_ok ts h0" "a < length ts" using g by (auto simp: copy_graph_def dest: store_ok_length)
  have N: "length h0 \<le> length h" using inv(1) by (simp add: clone_inv_def)
  note s0 = inv_set [OF inv(1) ok(2) inv(3) N, folded st0_def]
  have d: "distinct (cell_keys (h0 ! a))"
    using cell(1) by (cases "h0 ! a") (auto simp: distinct_map inj_on_def props_ok_def)
  obtain h1 st1 where L: "clone_loop F ?v (Obj (ts ! a) ?r) (cell_keys (h0 ! a)) ?h st0 = Some (h1, st1)"
    "clone_part env ts h0 {?r} ?h st0 h1 st1"
    "h1 ! ?r = put_all (map (\<lambda>k. (k, copy_val (addr env ts st1) (own_val (h0 ! a) k))) (cell_keys (h0 ! a))) (?h ! ?r)"
    "list_all (\<lambda>k. visited env ts st1 (own_val (h0 ! a) k)) (cell_keys (h0 ! a))"
    using clone_loop_ok [OF F ok(1) g(2) copied_flat(1) [OF cell(2,1) g(3)] N s0(1), of "blank (h0 ! a)" "cell_keys (h0 ! a)" "ts ! a" "ts ! a"]
      s0(4) inv(2) d blank_slots [OF cell(2)] by (auto simp: list_all_iff)
  have a1: "addr env ts st1 a = ?r" "a \<in> on_stack env ts st1"
    using part_addr [OF L(2)] part_stack [OF L(2)] s0(2,3) by auto
  have "h1 ! ?r = copy_node (addr env ts st1) (h0 ! a)" using L(3) cell_built [OF cell(2,1) g(3)] by simp
  moreover have "b \<in> on_stack env ts st1" if "Obj t b \<in> set (node_vals (h0 ! a))" "cloneableTags t" for t b
    using that L(4) node_vals_keys [OF cell(2,1) that(1)] by (auto simp: list_all_iff visited_def)
  ultimately have "complete env ts h0 h1 st1 a" using a1 by (simp add: complete_def)
  then have "length h \<le> addr env ts st1 b \<and> complete env ts h0 h1 st1 b" if "b \<in> on_stack env ts st1 - on_stack env ts st" for b
  proof (cases "b = a")
    case False
    then have "length ?h \<le> addr env ts st1 b \<and> complete env ts h0 h1 st1 b" using that L(2) s0(2) by (simp add: clone_part_def)
    then show ?thesis by simp
  qed (use that a1 in simp)
  moreover have "h1 ! b = h ! b" if "b < length h" for b using that L(2) by (auto simp: clone_part_def nth_append)
  moreover have "stacked env ts st1 b = stacked env ts st b" if "b \<in> on_stack env ts st" for b
    using that L(2) s0(2,5) by (auto simp: clone_part_def)
  ultimately have "clone_part env ts h0 {} h st h1 st1" using L(2) unfolding clone_part_def by simp
  then show ?thesis using L(1) a1 by blast
qed

text \<open>A value of the graph, when the copies of values below it are as promised.\<close>

lemma clone_cell:
  assumes g: "copy_graph env ts h0" "a < length h0" "cloneableTags (ts ! a)" and F: "cloner_ok env ts h0 n (baseClone n env True True None)"
    and inv: "clone_inv env ts h0 h st" "left_over env ts st < Suc n"
  shows "\<exists>h1 st1. baseClone (Suc n) env True True None h (Obj (ts ! a) a) place st = Some (Obj (ts ! a) (addr env ts st1 a), h1, st1) \<and>
      clone_part env ts h0 {} h st h1 st1 \<and> a \<in> on_stack env ts st1"
proof -
  let ?v = "Obj (ts ! a) a" and ?h = "h @ [blank (h0 ! a)]"
  have a: "h ! a = h0 ! a" "a < length h" "a < length ts"
    using g inv(1) by (auto simp: copy_graph_def clone_inv_def dest!: store_ok_length) (metis nth_take)
  note cell = copy_graph_cell [OF g(1,2)]
  have start: "clone_start env True (place \<noteq> None) h ?v = (False, Obj (ts ! a) (length h), ?h)"
    using clone_start_deep [of env a "ts ! a" h ts] cell g(3) a by simp
  show ?thesis
  proof (cases "a \<in> on_stack env ts st")
    case True
    then have "stackGet (caches env) st ?v = Obj (ts ! a) (addr env ts st a)"
      using inv(1) by (auto simp: clone_inv_def stacked_def)
    then show ?thesis using start True part_alloc [OF inv(1), of "{}" "[blank (h0 ! a)]"] by auto
  next
    case False
    then have "stackGet (caches env) st ?v = Undefined" using a(3) by (simp add: on_stack_def stacked_def)
    moreover have "clone_keys True ?h ?v = cell_keys (h0 ! a)"
      using clone_keys_cell [of env a "ts ! a" ?h ts] cell g(3) a by (simp add: nth_append)
    ultimately show ?thesis using start clone_fresh [OF g F inv False] by auto
  qed
qed

lemma baseClone_ok:
  assumes g: "copy_graph env ts h0"
  shows "cloner_ok env ts h0 n (baseClone n env True True None)"
proof (induction n)
  case (Suc n)
  show ?case unfolding cloner_ok_def
  proof (intro allI impI)
    fix h v and place :: "(propkey \<times> jsval) option" and st
    assume inv: "clone_inv env ts h0 h st" and v: "val_ok ts v" "place \<noteq> None \<or> copied_val v" and n: "left_over env ts st < Suc n"
    note refl = part_refl [OF inv, of "{}"]
    show "\<exists>h1 st1. baseClone (Suc n) env True True None h v place st = Some (copy_val (addr env ts st1) v, h1, st1) \<and>
      clone_part env ts h0 {} h st h1 st1 \<and> visited env ts st1 v"
    proof (cases "isObject v")
      case False
      then show ?thesis using refl by (cases v) (simp_all add: visited_def)
    next
      case True
      then obtain t a where va: "v = Obj t a" by (cases v) (auto simp: isObject_def)
      have a: "a < length h0" "ts ! a = t" "h ! a = h0 ! a"
        using v(1) va g inv by (auto simp: copy_graph_def clone_inv_def dest!: store_ok_length) (metis nth_take)
      note cell = copy_graph_cell [OF g a(1), unfolded a(2), folded a(3)]
      show ?thesis
      proof (cases "cloneableTags t")
        case False
        then show ?thesis using refl va v(2) clone_shared [OF cell(2,1) False] by (auto simp: visited_def)
      next
        case True
        then show ?thesis using clone_cell [OF g a(1) _ Suc.IH inv n, of place] va a(2) 
          by (auto simp: visited_def simp del: baseClone.simps)
      qed
    qed
  qed
qed (simp add: cloner_ok_def)

text \<open>The start of a copy.\<close>

lemma stackGet_clear: "stackGet host stackClear k = Undefined"
  by (simp add: stackClear_def ListCache_new_def listCacheClear_def listCacheGet_def assocIndexOf_def)

lemma inv_start: "clone_inv env ts h h stackClear" "on_stack env ts stackClear = {}"
proof -
  show on: "on_stack env ts stackClear = {}" by (simp add: on_stack_def stacked_def stackGet_clear)
  have "stack_inv (caches env) stackClear" by (simp add: stackClear_def)
  then show "clone_inv env ts h h stackClear" by (simp add: clone_inv_def on)
qed

lemma clone_leads_to:
  assumes "clone_part env ts h {} h stackClear h1 st1" "visited env ts st1 v" "leads_to h v a"
  shows "a \<in> on_stack env ts st1 \<and> length h \<le> addr env ts st1 a \<and> addr env ts st1 a < length h1 \<and>
    h1 ! addr env ts st1 a = copy_node (addr env ts st1) (h ! a)"
proof -
  have new: "length h \<le> addr env ts st1 a \<and> addr env ts st1 a < length h1 \<and> complete env ts h h1 st1 a" if "a \<in> on_stack env ts st1" for a
    using that assms(1) inv_start by (auto simp: clone_part_def clone_inv_def)
  have "a \<in> on_stack env ts st1" using assms(3,2)
    by (induction rule: leads_to.induct) (use new in \<open>auto simp: visited_def complete_def\<close>)
  then show ?thesis using new by (simp add: complete_def)
qed

lemma cloneDeep_graph:
  assumes "copy_graph env ts h" "val_ok ts v" "copied_val v" "length h < n"
  shows "\<exists>f h1. cloneDeep n env h v = Some (copy_val f v, h1) \<and> take (length h) h1 = h \<and> inj_on f {a. leads_to h v a} \<and>
    (\<forall>a. leads_to h v a \<longrightarrow> length h \<le> f a \<and> f a < length h1 \<and> h1 ! f a = copy_node f (h ! a))"
proof -
  have "left_over env ts stackClear < n"
    using assms(1,4) inv_start(2) by (auto simp: left_over_def copy_graph_def dest: store_ok_length)
  then obtain h1 st1 where c: "baseClone n env True True None h v None stackClear = Some (copy_val (addr env ts st1) v, h1, st1)"
    "clone_part env ts h {} h stackClear h1 st1" "visited env ts st1 v"
    using baseClone_ok [OF assms(1), of n] inv_start(1) assms(2,3) unfolding cloner_ok_def by blast
  note r = clone_leads_to [OF c(2,3)]
  have "inj_on (addr env ts st1) {a. leads_to h v a}" "take (length h) h1 = h"
    using c(2) r by (auto simp: clone_part_def clone_inv_def intro: inj_on_subset)
  then show ?thesis using c(1) r by (auto simp: cloneDeep_def clone_result_def)
qed

section \<open>Property\<close>

text \<open>
  (C11) A deep copy of a graph of arrays and plain objects returns, whatever cycles and shared parts the graph has. It
  leaves the store it is given as it is, and there is a one-to-one map of the cells that the value reaches to new cells
  such that every one of them is copied to its image, with references mapped along; holes of arrays become undefined
  elements, and functions and other values that are not copied stay shared.
\<close>

theorem cloneDeep_copies_graph:
  assumes "copy_graph env ts h" "val_ok ts v" "copied_val v" "length h < n"
  shows "\<exists>f h1. cloneDeep n env h v = Some (copy_val f v, h1) \<and> take (length h) h1 = h \<and> inj_on f {a. leads_to h v a} \<and>
    (\<forall>a. leads_to h v a \<longrightarrow> length h \<le> f a \<and> f a < length h1 \<and> h1 ! f a = copy_node f (h ! a))"
  using assms by (rule cloneDeep_graph)

theorem cloneDeep_copies_graph_witness:
  "\<exists>(f :: nat \<Rightarrow> nat) h1. cloneDeep 4 \<lparr>caches = \<lparr>nativeCreate = True, nativeMap = True, nativeSet = True\<rparr>, nativeIsBuffer = (\<lambda>v. False),
        bufferCopy = (\<lambda>h v d. (v, h)), slotCopy = (\<lambda>t h v d. (v, h))\<rparr>
      [ArrN [Some (Obj ObjectTag 1), None] [], ObjN [(PStr ''a'', Obj ArrayTag 0), (PStr ''f'', Obj FuncTag 2)] None, ObjN [] None]
      (Obj ArrayTag 0) = Some (Obj ArrayTag (f 0), h1) \<and>
    h1 ! f 0 = ArrN [Some (Obj ObjectTag (f 1)), Some Undefined] [] \<and>
    h1 ! f 1 = ObjN [(PStr ''a'', Obj ArrayTag (f 0)), (PStr ''f'', Obj FuncTag 2)] None"
proof -
  let ?env = "\<lparr>caches = \<lparr>nativeCreate = True, nativeMap = True, nativeSet = True\<rparr>, nativeIsBuffer = (\<lambda>v. False),
        bufferCopy = (\<lambda>h v d. (v, h)), slotCopy = (\<lambda>t h v d. (v, h))\<rparr>"
  let ?h = "[ArrN [Some (Obj ObjectTag 1), None] [], ObjN [(PStr ''a'', Obj ArrayTag 0), (PStr ''f'', Obj FuncTag 2)] None, ObjN [] None]"
  have r0: "leads_to ?h (Obj ArrayTag 0) 0" by (simp add: here)
  then have r1: "leads_to ?h (Obj ArrayTag 0) 1" by (rule below [where t = ObjectTag]) simp_all
  have "copy_graph ?env [ArrayTag, ObjectTag, FuncTag] ?h"
    by (simp add: copy_graph_def store_ok_def props_ok_def MAX_ARRAY_LENGTH_def length_key_def upt_rec)
  then obtain f h1 where f: "cloneDeep 4 ?env ?h (Obj ArrayTag 0) = Some (copy_val f (Obj ArrayTag 0), h1)"
    "\<And>a. leads_to ?h (Obj ArrayTag 0) a \<Longrightarrow> h1 ! f a = copy_node f (?h ! a)"
    using cloneDeep_copies_graph [of ?env "[ArrayTag, ObjectTag, FuncTag]" ?h "Obj ArrayTag 0" 4] by auto
  show ?thesis by (rule exI [of _ f], rule exI [of _ h1]) (use f(1) f(2) [OF r0] f(2) [OF r1] in simp)
qed

end
