(* ===== verification/JsEqual.thy ===== *)
theory JsEqual
  imports JsClone
begin

text \<open>
  Deep comparison in lodash.js: \<open>baseIsEqual\<close> with its stack of pairs under comparison, \<open>isEqual\<close> and
  \<open>isEqualWith\<close>, and what is built on it: partial comparison, matching of sources and the iteratee shorthands. The
  recursion is bounded by fuel; a comparison that returns is \<open>Some\<close>. On values that tree_of to finite trees,
  \<open>isEqual\<close> is shown to decide equality of the trees.
\<close>

section \<open>Comparison of arrays\<close>

text \<open>
  What the store does not hold: the comparison of values by internal slots, the entries of maps and the values of sets,
  and the unwrapping of wrapped values.
\<close>

record equal_host =
  eq_caches :: host
  slotEqual :: "obj_tag \<Rightarrow> heap \<Rightarrow> jsval \<Rightarrow> jsval \<Rightarrow> bool"
  mapEntries :: "jsval \<Rightarrow> (jsval \<times> jsval) list"
  setValues :: "jsval \<Rightarrow> jsval list"
  unwrapped :: "heap \<Rightarrow> jsval \<Rightarrow> jsval"

definition UNORDERED_COMPARE_FLAG :: nat where
  "UNORDERED_COMPARE_FLAG = 1"

definition PARTIAL_COMPARE_FLAG :: nat where
  "PARTIAL_COMPARE_FLAG = 2"

definition isUnordered :: "nat \<Rightarrow> bool" where
  "isUnordered bitmask = bit bitmask 0"

definition isPartial :: "nat \<Rightarrow> bool" where
  "isPartial bitmask = bit bitmask 1"

text \<open>Comparisons of nested values, and customizers, which see the key and the two objects below the top.\<close>

type_synonym equal_fun = "heap \<Rightarrow> jsval \<Rightarrow> jsval \<Rightarrow> nat \<Rightarrow> Stack \<Rightarrow> (bool \<times> Stack) option"

type_synonym equal_customizer = "jsval \<Rightarrow> jsval \<Rightarrow> (propkey \<times> jsval \<times> jsval) option \<Rightarrow> jsval"

definition compared :: "equal_customizer option \<Rightarrow> bool \<Rightarrow> jsval \<Rightarrow> jsval \<Rightarrow> propkey \<Rightarrow> jsval \<Rightarrow> jsval \<Rightarrow> jsval" where
  "compared customizer part x y key object other =
     (case customizer of
        None \<Rightarrow> Undefined
      | Some f \<Rightarrow> if part then f y x (Some (key, other, object)) else f x y (Some (key, object, other)))"

definition array_length :: "heap \<Rightarrow> jsval \<Rightarrow> nat" where
  "array_length h v = value_length (get_prop h v length_key)"

text \<open>The search for an element of the other array that has not been matched yet.\<close>

fun seen_loop ::
  "host \<Rightarrow> equal_fun \<Rightarrow> heap \<Rightarrow> jsval \<Rightarrow> jsval \<Rightarrow> nat \<Rightarrow> nat list \<Rightarrow> MapCache \<Rightarrow> Stack \<Rightarrow> (MapCache option \<times> Stack) option" where
  "seen_loop host equalFunc h arrValue other bitmask [] seen stack = Some (None, stack)"
| "seen_loop host equalFunc h arrValue other bitmask (i # is) seen stack =
     (let othIndex = Num (num_of_int (int i));
          othValue = get_prop h other (index_key i)
      in if setCacheHas host seen othIndex then seen_loop host equalFunc h arrValue other bitmask is seen stack
         else if strict_eq arrValue othValue then Some (Some (setCacheAdd host seen othIndex), stack)
         else (case equalFunc h arrValue othValue bitmask stack of
                 None \<Rightarrow> None
               | Some (b, stack1) \<Rightarrow>
                   if b then Some (Some (setCacheAdd host seen othIndex), stack1)
                   else seen_loop host equalFunc h arrValue other bitmask is seen stack1))"

fun arrays_loop ::
  "host \<Rightarrow> equal_fun \<Rightarrow> equal_customizer option \<Rightarrow> heap \<Rightarrow> jsval \<Rightarrow> jsval \<Rightarrow> nat \<Rightarrow> nat list \<Rightarrow> MapCache option \<Rightarrow> Stack
   \<Rightarrow> (bool \<times> Stack) option" where
  "arrays_loop host equalFunc customizer h array other bitmask [] seen stack = Some (True, stack)"
| "arrays_loop host equalFunc customizer h array other bitmask (i # is) seen stack =
     (let arrValue = get_prop h array (index_key i);
          othValue = get_prop h other (index_key i);
          cmp = compared customizer (isPartial bitmask) arrValue othValue (index_key i) array other
      in if cmp \<noteq> Undefined
         then (if truthy cmp then arrays_loop host equalFunc customizer h array other bitmask is seen stack else Some (False, stack))
         else (case seen of
                 Some c \<Rightarrow>
                   (case seen_loop host equalFunc h arrValue other bitmask [0..<array_length h other] c stack of
                      None \<Rightarrow> None
                    | Some (None, stack1) \<Rightarrow> Some (False, stack1)
                    | Some (Some c1, stack1) \<Rightarrow> arrays_loop host equalFunc customizer h array other bitmask is (Some c1) stack1)
               | None \<Rightarrow>
                   if strict_eq arrValue othValue then arrays_loop host equalFunc customizer h array other bitmask is None stack
                   else (case equalFunc h arrValue othValue bitmask stack of
                           None \<Rightarrow> None
                         | Some (b, stack1) \<Rightarrow>
                             if b then arrays_loop host equalFunc customizer h array other bitmask is None stack1 else Some (False, stack1))))"

text \<open>The entries of the two values in the stack while the comparison of their parts runs.\<close>

definition stack_enter :: "host \<Rightarrow> Stack \<Rightarrow> jsval \<Rightarrow> jsval \<Rightarrow> Stack" where
  "stack_enter host stack object other = stackSet host (stackSet host stack object other) other object"

definition stack_leave :: "host \<Rightarrow> Stack \<Rightarrow> jsval \<Rightarrow> jsval \<Rightarrow> Stack" where
  "stack_leave host stack object other = snd (stackDelete host (snd (stackDelete host stack object)) other)"

definition equalArrays ::
  "host \<Rightarrow> equal_fun \<Rightarrow> equal_customizer option \<Rightarrow> heap \<Rightarrow> jsval \<Rightarrow> jsval \<Rightarrow> nat \<Rightarrow> Stack \<Rightarrow> (bool \<times> Stack) option" where
  "equalArrays host equalFunc customizer h array other bitmask stack =
     (let arrLength = array_length h array;
          othLength = array_length h other;
          stacked = stackGet host stack array
      in if arrLength \<noteq> othLength \<and> \<not> (isPartial bitmask \<and> othLength > arrLength) then Some (False, stack)
         else if truthy stacked \<and> truthy (stackGet host stack other) then Some (strict_eq stacked other, stack)
         else (case arrays_loop host equalFunc customizer h array other bitmask [0..<arrLength]
                      (if isUnordered bitmask then Some (SetCache_new host []) else None) (stack_enter host stack array other) of
                 None \<Rightarrow> None
               | Some (res, stack1) \<Rightarrow> Some (res, stack_leave host stack1 array other)))"

section \<open>Comparison of objects\<close>

text \<open>The cells of a prototype chain, and \<open>ctor instanceof ctor\<close>. The built-in constructor of all objects is an instance of itself.\<close>

fun in_chain :: "nat \<Rightarrow> heap \<Rightarrow> nat \<Rightarrow> nat \<Rightarrow> bool" where
  "in_chain 0 h a p = False"
| "in_chain (Suc n) h a p =
     (a < length h \<and> (case node_proto (h ! a) of None \<Rightarrow> False | Some q \<Rightarrow> q = p \<or> in_chain n h q p))"

fun self_instance :: "heap \<Rightarrow> jsval option \<Rightarrow> bool" where
  "self_instance h None = True"
| "self_instance h (Some (Obj t a)) =
     (isFunction (Obj t a) \<and>
      (case get_prop h (Obj t a) (PStr ''prototype'') of Obj t1 p \<Rightarrow> in_chain (length h) h a p | _ \<Rightarrow> False))"
| "self_instance h (Some v) = False"

text \<open>An object without a constructor in the store inherits the built-in one, so that every object has one.\<close>

definition same_constructor :: "heap \<Rightarrow> jsval \<Rightarrow> jsval \<Rightarrow> bool" where
  "same_constructor h object other =
     (let objCtor = prop_find h object (PStr ''constructor'');
          othCtor = prop_find h other (PStr ''constructor'')
      in objCtor = othCtor \<or> (self_instance h objCtor \<and> self_instance h othCtor))"

text \<open>The loop returns the result so far and whether a key was the constructor.\<close>

fun objects_loop ::
  "equal_fun \<Rightarrow> equal_customizer option \<Rightarrow> heap \<Rightarrow> jsval \<Rightarrow> jsval \<Rightarrow> nat \<Rightarrow> propkey list \<Rightarrow> bool \<Rightarrow> Stack
   \<Rightarrow> (bool \<times> bool \<times> Stack) option" where
  "objects_loop equalFunc customizer h object other bitmask [] skipCtor stack = Some (True, skipCtor, stack)"
| "objects_loop equalFunc customizer h object other bitmask (key # ks) skipCtor stack =
     (let objValue = get_prop h object key;
          othValue = get_prop h other key;
          cmp = compared customizer (isPartial bitmask) objValue othValue key object other;
          skip = (skipCtor \<or> key = PStr ''constructor'')
      in if cmp \<noteq> Undefined
         then (if truthy cmp then objects_loop equalFunc customizer h object other bitmask ks skip stack else Some (False, skipCtor, stack))
         else if strict_eq objValue othValue then objects_loop equalFunc customizer h object other bitmask ks skip stack
         else (case equalFunc h objValue othValue bitmask stack of
                 None \<Rightarrow> None
               | Some (b, stack1) \<Rightarrow>
                   if b then objects_loop equalFunc customizer h object other bitmask ks skip stack1
                   else Some (False, skipCtor, stack1)))"

definition equalObjects ::
  "host \<Rightarrow> equal_fun \<Rightarrow> equal_customizer option \<Rightarrow> heap \<Rightarrow> jsval \<Rightarrow> jsval \<Rightarrow> nat \<Rightarrow> Stack \<Rightarrow> (bool \<times> Stack) option" where
  "equalObjects host equalFunc customizer h object other bitmask stack =
     (let part = isPartial bitmask;
          objProps = keys h object;
          othProps = keys h other;
          stacked = stackGet host stack object
      in if length objProps \<noteq> length othProps \<and> \<not> part then Some (False, stack)
         else if \<not> list_all (\<lambda>key. if part then has_prop h other key else baseHas h other key) (rev objProps) then Some (False, stack)
         else if truthy stacked \<and> truthy (stackGet host stack other) then Some (strict_eq stacked other, stack)
         else (case objects_loop equalFunc customizer h object other bitmask objProps part (stack_enter host stack object other) of
                 None \<Rightarrow> None
               | Some (res, skipCtor, stack1) \<Rightarrow>
                   Some (res \<and> (skipCtor \<or> same_constructor h object other), stack_leave host stack1 object other)))"

section \<open>The recursive comparison\<close>

text \<open>Maps and sets are compared as arrays, of pairs for maps, that live while the comparison runs.\<close>

fun pairs_arrays :: "(jsval \<times> jsval) list \<Rightarrow> heap \<Rightarrow> jsval list \<times> heap" where
  "pairs_arrays [] h = ([], h)"
| "pairs_arrays ((k, x) # es) h =
     (case new_array h [k, x] of (p, h1) \<Rightarrow> case pairs_arrays es h1 of (ps, h2) \<Rightarrow> (p # ps, h2))"

definition map_array :: "equal_host \<Rightarrow> heap \<Rightarrow> jsval \<Rightarrow> jsval \<times> heap" where
  "map_array env h v = (case pairs_arrays (mapEntries env v) h of (ps, h1) \<Rightarrow> new_array h1 ps)"

definition set_array :: "equal_host \<Rightarrow> heap \<Rightarrow> jsval \<Rightarrow> jsval \<times> heap" where
  "set_array env h v = new_array h (setValues env v)"

definition collection_size :: "equal_host \<Rightarrow> obj_tag \<Rightarrow> jsval \<Rightarrow> nat" where
  "collection_size env tag v = (if tag = MapTag then length (mapEntries env v) else length (setValues env v))"

definition equalByTag ::
  "equal_host \<Rightarrow> equal_fun \<Rightarrow> equal_customizer option \<Rightarrow> heap \<Rightarrow> jsval \<Rightarrow> jsval \<Rightarrow> obj_tag \<Rightarrow> nat \<Rightarrow> Stack \<Rightarrow> (bool \<times> Stack) option" where
  "equalByTag env equalFunc customizer h object other tag bitmask stack =
     (if tag \<in> {DataViewTag, ArrayBufferTag, BoolTag, DateTag, NumberTag, ErrorTag, RegexpTag, StringTag, SymbolTag}
      then Some (slotEqual env tag h object other, stack)
      else if tag = MapTag \<or> tag = SetTag
      then (let convert = (if tag = MapTag then map_array env else set_array env);
                stacked = stackGet (eq_caches env) stack object
            in if collection_size env tag object \<noteq> collection_size env tag other \<and> \<not> isPartial bitmask then Some (False, stack)
               else if truthy stacked then Some (strict_eq stacked other, stack)
               else (case convert h object of
                       (array1, h1) \<Rightarrow>
                         (case convert h1 other of
                            (array2, h2) \<Rightarrow>
                              (case equalArrays (eq_caches env) equalFunc customizer h2 array1 array2
                                      (or bitmask UNORDERED_COMPARE_FLAG) (stackSet (eq_caches env) stack object other) of
                                 None \<Rightarrow> None
                               | Some (res, stack1) \<Rightarrow> Some (res, snd (stackDelete (eq_caches env) stack1 object))))))
      else Some (False, stack))"

fun typed_array_tag :: "obj_tag \<Rightarrow> bool" where
  "typed_array_tag (TypedArrayTag s) = True"
| "typed_array_tag t = False"

definition isTypedArray :: "heap \<Rightarrow> jsval \<Rightarrow> bool" where
  "isTypedArray h v = (isObjectLike v \<and> isLength (get_prop h v length_key) \<and> typed_array_tag (getTag v))"

definition compare_tag :: "jsval \<Rightarrow> obj_tag" where
  "compare_tag v = (if isArray v then ArrayTag else if getTag v = ArgsTag then ObjectTag else getTag v)"

definition baseIsEqualDeep ::
  "equal_host \<Rightarrow> equal_fun \<Rightarrow> equal_customizer option \<Rightarrow> heap \<Rightarrow> jsval \<Rightarrow> jsval \<Rightarrow> nat \<Rightarrow> Stack \<Rightarrow> (bool \<times> Stack) option" where
  "baseIsEqualDeep env equalFunc customizer h object other bitmask stack =
     (let objTag = compare_tag object;
          othTag = compare_tag other;
          objIsObj = (objTag = ObjectTag);
          othIsObj = (othTag = ObjectTag);
          isSameTag = (objTag = othTag);
          objIsWrapped = (objIsObj \<and> has_own h object (PStr ''__wrapped__''));
          othIsWrapped = (othIsObj \<and> has_own h other (PStr ''__wrapped__''))
      in if isSameTag \<and> \<not> objIsObj
         then (if isArray object \<or> isTypedArray h object
               then equalArrays (eq_caches env) equalFunc customizer h object other bitmask stack
               else equalByTag env equalFunc customizer h object other objTag bitmask stack)
         else if \<not> isPartial bitmask \<and> (objIsWrapped \<or> othIsWrapped)
         then equalFunc h (if objIsWrapped then unwrapped env h object else object)
                (if othIsWrapped then unwrapped env h other else other) bitmask stack
         else if \<not> isSameTag then Some (False, stack)
         else equalObjects (eq_caches env) equalFunc customizer h object other bitmask stack)"

fun baseIsEqual :: "nat \<Rightarrow> equal_host \<Rightarrow> equal_customizer option \<Rightarrow> equal_fun" where
  "baseIsEqual 0 env customizer h value other bitmask stack = None"
| "baseIsEqual (Suc n) env customizer h value other bitmask stack =
     (if strict_eq value other then Some (True, stack)
      else if isNil value \<or> isNil other \<or> (\<not> isObject value \<and> \<not> isObjectLike other)
      then Some (\<not> strict_eq value value \<and> \<not> strict_eq other other, stack)
      else baseIsEqualDeep env (baseIsEqual n env customizer) customizer h value other bitmask stack)"

definition isEqual :: "nat \<Rightarrow> equal_host \<Rightarrow> heap \<Rightarrow> jsval \<Rightarrow> jsval \<Rightarrow> bool option" where
  "isEqual n env h value other = map_option fst (baseIsEqual n env None h value other 0 stackClear)"

definition isEqualWith :: "nat \<Rightarrow> equal_host \<Rightarrow> heap \<Rightarrow> jsval \<Rightarrow> jsval \<Rightarrow> equal_customizer option \<Rightarrow> bool option" where
  "isEqualWith n env h value other customizer =
     (let res = (case customizer of None \<Rightarrow> Undefined | Some f \<Rightarrow> f value other None)
      in if res = Undefined then map_option fst (baseIsEqual n env customizer h value other 0 stackClear) else Some (truthy res))"

section \<open>Matching\<close>

text \<open>The keys of a source with their values and whether these are compared by identity.\<close>

definition getMatchData :: "heap \<Rightarrow> jsval \<Rightarrow> (propkey \<times> jsval \<times> bool) list" where
  "getMatchData h object =
     map (\<lambda>key. (key, get_prop h object key, isStrictComparable (get_prop h object key))) (keys h object)"

definition PARTIAL_UNORDERED :: nat where
  "PARTIAL_UNORDERED = or UNORDERED_COMPARE_FLAG PARTIAL_COMPARE_FLAG"

fun match_loop ::
  "nat \<Rightarrow> equal_host \<Rightarrow> equal_customizer option \<Rightarrow> heap \<Rightarrow> jsval \<Rightarrow> jsval \<Rightarrow> (propkey \<times> jsval \<times> bool) list \<Rightarrow> bool option" where
  "match_loop n env customizer h object source [] = Some True"
| "match_loop n env customizer h object source ((key, srcValue, strict) # ds) =
     (let objValue = get_prop h object key
      in if customizer = None \<and> strict
         then (if objValue = Undefined \<and> \<not> has_prop h object key then Some False
               else match_loop n env customizer h object source ds)
         else (let res = (case customizer of None \<Rightarrow> Undefined | Some f \<Rightarrow> f objValue srcValue (Some (key, object, source)))
               in if res \<noteq> Undefined then (if truthy res then match_loop n env customizer h object source ds else Some False)
                  else (case baseIsEqual n env customizer h srcValue objValue PARTIAL_UNORDERED stackClear of
                          None \<Rightarrow> None
                        | Some (b, stack) \<Rightarrow> if b then match_loop n env customizer h object source ds else Some False)))"

definition baseIsMatch ::
  "nat \<Rightarrow> equal_host \<Rightarrow> equal_customizer option \<Rightarrow> heap \<Rightarrow> jsval \<Rightarrow> jsval \<Rightarrow> (propkey \<times> jsval \<times> bool) list \<Rightarrow> bool option" where
  "baseIsMatch n env customizer h object source matchData =
     (if isNil object then Some (matchData = [])
      else if list_ex (\<lambda>(key, srcValue, strict).
                 if customizer = None \<and> strict then \<not> strict_eq srcValue (get_prop h object key) else \<not> has_prop h object key)
               (rev matchData) then Some False
      else match_loop n env customizer h object source matchData)"

definition matchesStrictComparable :: "heap \<Rightarrow> propkey \<Rightarrow> jsval \<Rightarrow> jsval \<Rightarrow> bool" where
  "matchesStrictComparable h key srcValue object =
     (\<not> isNil object \<and> strict_eq (get_prop h object key) srcValue \<and> (srcValue \<noteq> Undefined \<or> has_prop h object key))"

text \<open>Predicates are made in one store and called in a later one.\<close>

definition baseMatches :: "nat \<Rightarrow> equal_host \<Rightarrow> heap \<Rightarrow> jsval \<Rightarrow> heap \<Rightarrow> jsval \<Rightarrow> bool option" where
  "baseMatches n env h0 source =
     (let matchData = getMatchData h0 source
      in case matchData of
           [(key, srcValue, True)] \<Rightarrow> (\<lambda>h object. Some (matchesStrictComparable h key srcValue object))
         | _ \<Rightarrow> (\<lambda>h object. if strict_eq object source then Some True else baseIsMatch n env None h object source matchData))"

definition baseMatchesProperty :: "nat \<Rightarrow> equal_host \<Rightarrow> path \<Rightarrow> jsval \<Rightarrow> heap \<Rightarrow> jsval \<Rightarrow> bool option" where
  "baseMatchesProperty n env p srcValue =
     (case p of
        PathVal k \<Rightarrow>
          if isKey p (\<lambda>_. False) \<and> isStrictComparable srcValue
          then (\<lambda>h object. Some (matchesStrictComparable h (toKey k) srcValue object))
          else (\<lambda>h object.
                  let objValue = get_js h object p Undefined
                  in if objValue = Undefined \<and> srcValue = Undefined then Some (hasIn h object p)
                     else map_option fst (baseIsEqual n env None h srcValue objValue PARTIAL_UNORDERED stackClear))
      | PathArr ks \<Rightarrow>
          (\<lambda>h object.
             let objValue = get_js h object p Undefined
             in if objValue = Undefined \<and> srcValue = Undefined then Some (hasIn h object p)
                else map_option fst (baseIsEqual n env None h srcValue objValue PARTIAL_UNORDERED stackClear)))"

definition value_path :: "heap \<Rightarrow> jsval \<Rightarrow> path" where
  "value_path h v = (if isArray v then PathArr (map (\<lambda>i. get_prop h v (index_key i)) [0..<array_length h v]) else PathVal v)"

text \<open>Functions are values that \<open>call\<close> applies.\<close>

definition baseIteratee :: "nat \<Rightarrow> equal_host \<Rightarrow> (jsval \<Rightarrow> jsval \<Rightarrow> jsval) \<Rightarrow> heap \<Rightarrow> jsval \<Rightarrow> heap \<Rightarrow> jsval \<Rightarrow> jsval option" where
  "baseIteratee n env call h0 value =
     (if js_typeof value = TFunction then (\<lambda>h x. Some (call value x))
      else if isNil value then (\<lambda>h x. Some x)
      else if js_typeof value = TObject
      then (if isArray value
            then (\<lambda>h x. map_option Bool (baseMatchesProperty n env (value_path h0 (get_prop h0 value (index_key 0)))
                                          (get_prop h0 value (index_key 1)) h x))
            else (\<lambda>h x. map_option Bool (baseMatches n env h0 value h x)))
      else (\<lambda>h x. Some (property h (PathVal value) x)))"

definition isMatch :: "nat \<Rightarrow> equal_host \<Rightarrow> heap \<Rightarrow> jsval \<Rightarrow> jsval \<Rightarrow> bool option" where
  "isMatch n env h object source =
     (if strict_eq object source then Some True else baseIsMatch n env None h object source (getMatchData h source))"

definition isMatchWith :: "nat \<Rightarrow> equal_host \<Rightarrow> heap \<Rightarrow> jsval \<Rightarrow> jsval \<Rightarrow> equal_customizer option \<Rightarrow> bool option" where
  "isMatchWith n env h object source customizer = baseIsMatch n env customizer h object source (getMatchData h source)"

text \<open>The public functions copy what they are given, so that later changes of it do not matter.\<close>

definition matches ::
  "nat \<Rightarrow> equal_host \<Rightarrow> clone_host \<Rightarrow> heap \<Rightarrow> jsval \<Rightarrow> ((heap \<Rightarrow> jsval \<Rightarrow> bool option) \<times> heap) option" where
  "matches n env cenv h source =
     map_option (\<lambda>(copy, h1, stack). (baseMatches n env h1 copy, h1)) (baseClone n cenv True False None h source None stackClear)"

definition matchesProperty ::
  "nat \<Rightarrow> equal_host \<Rightarrow> clone_host \<Rightarrow> heap \<Rightarrow> path \<Rightarrow> jsval \<Rightarrow> ((heap \<Rightarrow> jsval \<Rightarrow> bool option) \<times> heap) option" where
  "matchesProperty n env cenv h p srcValue =
     map_option (\<lambda>(copy, h1, stack). (baseMatchesProperty n env p copy, h1)) (baseClone n cenv True False None h srcValue None stackClear)"

definition iteratee ::
  "nat \<Rightarrow> equal_host \<Rightarrow> clone_host \<Rightarrow> (jsval \<Rightarrow> jsval \<Rightarrow> jsval) \<Rightarrow> heap \<Rightarrow> jsval \<Rightarrow> ((heap \<Rightarrow> jsval \<Rightarrow> jsval option) \<times> heap) option" where
  "iteratee n env cenv call h func =
     (if js_typeof func = TFunction then Some (baseIteratee n env call h func, h)
      else map_option (\<lambda>(copy, h1, stack). (baseIteratee n env call h1 copy, h1)) (baseClone n cenv True False None h func None stackClear))"

section \<open>Trees\<close>

text \<open>
  Values that tree_of to finite trees of arrays and plain objects without wrapped values, with primitives and
  values that are compared by identity as leaves.
\<close>

fun opaque_tag :: "obj_tag \<Rightarrow> bool" where
  "opaque_tag (OtherTag s) = True"
| "opaque_tag t = (t \<in> {FuncTag, GenTag, PromiseTag, WeakMapTag, WeakSetTag})"

fun tree_cell :: "obj_tag \<Rightarrow> node \<Rightarrow> bool" where
  "tree_cell t (ArrN es ps) = (t = ArrayTag \<and> int (length es) \<le> MAX_ARRAY_LENGTH)"
| "tree_cell t (ObjN ps proto) = (t = ObjectTag \<and> plain (ObjN ps proto) \<and> map_of ps (PStr ''__wrapped__'') = None)"

fun tree_ok :: "nat \<Rightarrow> heap \<Rightarrow> jsval \<Rightarrow> bool" where
  "tree_ok 0 h v = False"
| "tree_ok (Suc n) h (Obj t a) =
     (opaque_tag t \<or> (a < length h \<and> tree_cell t (h ! a) \<and> list_all (tree_ok n h) (node_vals (h ! a))))"
| "tree_ok (Suc n) h v = True"

datatype tree = LeafT jsval | ArrT "tree list" | ObjT "propkey \<Rightarrow> tree option"

text \<open>The tree of a value: the elements of arrays, and the values at the names of objects in no order.\<close>

fun node_tree :: "(jsval \<Rightarrow> tree) \<Rightarrow> node \<Rightarrow> tree" where
  "node_tree f (ArrN es ps) = ArrT (map (f \<circ> elem_val) es)"
| "node_tree f (ObjN ps proto) = ObjT (\<lambda>k. if is_string_key k then map_option f (map_of ps k) else None)"

fun tree_of :: "nat \<Rightarrow> heap \<Rightarrow> jsval \<Rightarrow> tree" where
  "tree_of 0 h v = LeafT Undefined"
| "tree_of (Suc n) h (Obj t a) = (if opaque_tag t then LeafT (Obj t a) else node_tree (tree_of n h) (h ! a))"
| "tree_of (Suc n) h v = LeafT (val_norm v)"

text \<open>The number of levels of a tree, and stacks whose values are above one of the two values compared.\<close>

definition height :: "heap \<Rightarrow> jsval \<Rightarrow> nat" where
  "height h v = (LEAST n. tree_ok n h v)"

definition on_stack_val :: "host \<Rightarrow> Stack \<Rightarrow> jsval \<Rightarrow> bool" where
  "on_stack_val host st v = (stackGet host st v \<noteq> Undefined)"

definition ready :: "host \<Rightarrow> heap \<Rightarrow> Stack \<Rightarrow> jsval \<Rightarrow> jsval \<Rightarrow> bool" where
  "ready host h st v w =
     (stack_inv host st \<and>
      (\<forall>t a. on_stack_val host st (Obj t a) \<longrightarrow> height h (Obj t a) > height h v \<or> height h (Obj t a) > height h w))"

text \<open>A stack after a comparison: as before, or changed to a map without new keys.\<close>

definition restored :: "host \<Rightarrow> Stack \<Rightarrow> Stack \<Rightarrow> bool" where
  "restored host st st1 =
     (st1 = st \<or>
      (\<exists>c. st1 = StackMap c \<and> map_cache_inv host c \<and>
         (\<forall>t a. on_stack_val host st1 (Obj t a) \<longrightarrow> on_stack_val host st (Obj t a))))"

definition equal_ok :: "host \<Rightarrow> heap \<Rightarrow> nat \<Rightarrow> equal_fun \<Rightarrow> bool" where
  "equal_ok host h n F =
     (\<forall>v w st. tree_ok n h v \<longrightarrow> tree_ok n h w \<longrightarrow> ready host h st v w \<longrightarrow>
        (\<exists>st1. F h v w 0 st = Some (tree_of n h v = tree_of n h w, st1) \<and> restored host st st1))"

section \<open>Lemmas on stacks\<close>

lemma restored_refl [simp]: "restored host st st"
  by (simp add: restored_def)

lemma restored_trans: "restored host st st1 \<Longrightarrow> restored host st1 st2 \<Longrightarrow> restored host st st2"
  by (auto simp: restored_def)

lemma ready_restored: "ready host h st v w \<Longrightarrow> restored host st st1 \<Longrightarrow> ready host h st1 v w"
  by (auto simp: restored_def ready_def)

lemma keyable_obj [simp]: "\<not> isKeyable (Obj t a)"
  by (simp add: isKeyable_def)

lemma eq_obj [simp]: "eq (Obj t a) v \<longleftrightarrow> v = Obj t a"
  by (cases v) (auto simp: eq_iff_norm)

lemma enter_keys:
  assumes "stack_inv host st"
  shows "stack_inv host (stack_enter host st (Obj t a) (Obj u b))"
    "on_stack_val host (stack_enter host st (Obj t a) (Obj u b)) (Obj s c) \<longleftrightarrow>
      Obj s c = Obj t a \<or> Obj s c = Obj u b \<or> on_stack_val host st (Obj s c)"
proof -
  note one = stackSet_lookup [OF assms keyable_obj [of t a] keyable_obj [of s c], where v = "Obj u b"]
  note two = stackSet_lookup [OF one(3) keyable_obj [of u b] keyable_obj [of s c], where v = "Obj t a"]
  show "stack_inv host (stack_enter host st (Obj t a) (Obj u b))" using two(3) by (simp add: stack_enter_def)
  show "on_stack_val host (stack_enter host st (Obj t a) (Obj u b)) (Obj s c) \<longleftrightarrow>
      Obj s c = Obj t a \<or> Obj s c = Obj u b \<or> on_stack_val host st (Obj s c)"
    using one(1) two(1) by (auto simp: stack_enter_def on_stack_val_def)
qed

lemma listCacheDelete_last: "listCacheDelete (d @ [(k, v)]) k = (True, d)"
  by (simp add: listCacheDelete_def assocIndexOf_snoc)

lemma listCacheDelete_before:
  assumes "\<not> eq k2 k" shows "listCacheDelete (d @ [(k, v), (k2, v2)]) k = (True, d @ [(k2, v2)])"
  using assms assocIndexOf_snoc [of "d @ [(k, v)]" k2 v2 k] assocIndexOf_snoc [of d k v k]
  by (simp add: listCacheDelete_def Let_def splice1_def)

lemma leave_map:
  assumes "map_cache_inv host c"
  shows "\<exists>c1. stack_leave host (StackMap c) (Obj t a) (Obj u b) = StackMap c1 \<and> map_cache_inv host c1 \<and>
    (\<forall>s e. on_stack_val host (StackMap c1) (Obj s e) \<longleftrightarrow> Obj s e \<noteq> Obj t a \<and> Obj s e \<noteq> Obj u b \<and> on_stack_val host (StackMap c) (Obj s e))"
  using assms mapc.invar_del mapc.get_del
  by (auto simp: stack_leave_def on_stack_val_def)

lemma leave_enter:
  assumes "stack_inv host st" "Obj t a \<noteq> Obj u b" "restored host (stack_enter host st (Obj t a) (Obj u b)) st1"
  shows "restored host st (stack_leave host st1 (Obj t a) (Obj u b))"
proof -
  let ?x = "Obj t a" and ?y = "Obj u b"
  have map: "restored host st (stack_leave host (StackMap c) ?x ?y)"
    if "map_cache_inv host c" "\<And>s e. on_stack_val host (StackMap c) (Obj s e) \<Longrightarrow> on_stack_val host (stack_enter host st ?x ?y) (Obj s e)" for c
  proof -
    note hyps = that
    obtain c1 where c1: "stack_leave host (StackMap c) ?x ?y = StackMap c1" "map_cache_inv host c1"
      "\<And>s e. on_stack_val host (StackMap c1) (Obj s e) \<Longrightarrow> Obj s e \<noteq> ?x \<and> Obj s e \<noteq> ?y \<and> on_stack_val host (StackMap c) (Obj s e)"
      using leave_map [OF hyps(1), of t a u b] by blast
    have "on_stack_val host st (Obj s e)" if "on_stack_val host (StackMap c1) (Obj s e)" for s e
      using c1(3) [OF that] hyps(2) [of s e] enter_keys(2) [OF assms(1), of t a u b s e] by blast
    then show ?thesis using c1(1,2) by (simp add: restored_def)
  qed
  show ?thesis
  proof (cases "st1 = stack_enter host st ?x ?y")
    case True
    show ?thesis
    proof (cases st1)
      case (StackList d1)
      then obtain d where "st = StackList d" "d1 = d @ [(?x, ?y), (?y, ?x)]"
        using True by (cases st) (auto simp: stack_enter_def split: if_splits)
      then show ?thesis using StackList assms(2)
        by (auto simp: stack_leave_def listCacheDelete_before listCacheDelete_last)
    next
      case (StackMap c)
      then show ?thesis using map True enter_keys(1) [OF assms(1), of t a u b] by simp
    qed
  next
    case False
    then show ?thesis using assms(3) map by (auto simp: restored_def)
  qed
qed

section \<open>Lemmas on trees\<close>

lemma tree_ok_Suc: "tree_ok n h v \<Longrightarrow> tree_ok (Suc n) h v"
proof (induction n arbitrary: v)
  case (Suc n)
  then show ?case by (cases v) (auto simp: list_all_iff)
qed simp

lemma tree_ok_mono: "tree_ok n h v \<Longrightarrow> n \<le> m \<Longrightarrow> tree_ok m h v"
  by (induction m) (auto simp: le_Suc_eq tree_ok_Suc simp del: tree_ok.simps(2))

lemma height_ok: "tree_ok n h v \<Longrightarrow> tree_ok (height h v) h v"
  unfolding height_def by (rule LeastI)

lemma height_child:
  assumes "tree_ok n h (Obj t a)" "\<not> opaque_tag t" "c \<in> set (node_vals (h ! a))"
  shows "height h c < height h (Obj t a)"
proof -
  obtain m where m: "height h (Obj t a) = Suc m" using height_ok [OF assms(1)] by (cases "height h (Obj t a)") auto
  then have "tree_ok m h c" using height_ok [OF assms(1)] assms(2,3) by (simp add: list_all_iff)
  then show ?thesis unfolding m by (simp add: height_def Least_le le_imp_less_Suc)
qed

lemma ready_child:
  assumes "tree_ok n h (Obj t a)" "\<not> opaque_tag t" "c \<in> set (node_vals (h ! a))"
    and "tree_ok m h (Obj u b)" "\<not> opaque_tag u" "d \<in> set (node_vals (h ! b))"
    and "ready host h st (Obj t a) (Obj u b)"
  shows "ready host h (stack_enter host st (Obj t a) (Obj u b)) c d"
proof -
  have "height h c < height h (Obj t a)" "height h d < height h (Obj u b)" using height_child assms(1-6) by blast+
  then show ?thesis using assms(7) enter_keys by (fastforce simp: ready_def)
qed

lemma ready_fresh:
  assumes "ready host h st (Obj t a) (Obj u b)"
  shows "\<not> (truthy (stackGet host st (Obj t a)) \<and> truthy (stackGet host st (Obj u b)))"
proof
  assume "truthy (stackGet host st (Obj t a)) \<and> truthy (stackGet host st (Obj u b))"
  then have "on_stack_val host st (Obj t a)" "on_stack_val host st (Obj u b)" by (auto simp: on_stack_val_def)
  then show False using assms unfolding ready_def by (meson less_asym less_irrefl)
qed

lemma strict_tree: "strict_eq v w \<Longrightarrow> tree_of n h v = tree_of n h w"
  by (cases n; cases v; cases w) (auto simp: strict_eq_iff eq_iff_norm)

lemma leaf_tree:
  assumes "tree_ok n h v" "tree_ok n h w" "\<not> isObject v" "\<not> isObject w"
  shows "tree_of n h v = tree_of n h w \<longleftrightarrow> eq v w"
proof -
  have "tree_of n h x = LeafT (val_norm x)" if "tree_ok n h x" "\<not> isObject x" for x
    using that by (cases n; cases x) auto
  then show ?thesis using assms by (simp add: eq_iff_norm)
qed

section \<open>Lemmas on comparisons\<close>

lemma plain_compare [simp]: "\<not> isPartial 0" "\<not> isUnordered 0" "compared None b x y k object other = Undefined"
  by (simp_all add: isPartial_def isUnordered_def compared_def)

lemma equal_okD:
  assumes "equal_ok host h n F" "tree_ok n h v" "tree_ok n h w" "ready host h st v w"
  obtains st1 where "F h v w 0 st = Some (tree_of n h v = tree_of n h w, st1)" "restored host st st1"
  using assms unfolding equal_ok_def by blast

lemma arrays_loop_ok:
  assumes F: "equal_ok host h n F"
  shows "(\<And>i. i \<in> set is \<Longrightarrow> tree_ok n h (get_prop h v (index_key i)) \<and> tree_ok n h (get_prop h w (index_key i)) \<and>
      ready host h st (get_prop h v (index_key i)) (get_prop h w (index_key i))) \<Longrightarrow>
    \<exists>st1. arrays_loop host F None h v w 0 is None st =
      Some (\<forall>i\<in>set is. tree_of n h (get_prop h v (index_key i)) = tree_of n h (get_prop h w (index_key i)), st1) \<and> restored host st st1"
proof (induction "is" arbitrary: st)
  case (Cons i "is")
  let ?x = "get_prop h v (index_key i)" and ?y = "get_prop h w (index_key i)"
  obtain st1 where F1: "F h ?x ?y 0 st = Some (tree_of n h ?x = tree_of n h ?y, st1)" "restored host st st1"
    using equal_okD [OF F, of ?x ?y st] Cons.prems by auto
  have "ready host h st1 (get_prop h v (index_key j)) (get_prop h w (index_key j))" if "j \<in> set is" for j
    using that Cons.prems ready_restored [OF _ F1(2)] by auto
  then show ?case
    using Cons.IH [of st1] Cons.IH [of st] Cons.prems F1 strict_tree [of ?x ?y n h] restored_trans [OF F1(2)]
    by (auto simp: Let_def)
qed simp

lemma objects_loop_ok:
  assumes F: "equal_ok host h n F"
  shows "(\<And>k. k \<in> set ks \<Longrightarrow> tree_ok n h (get_prop h v k) \<and> tree_ok n h (get_prop h w k) \<and>
      ready host h st (get_prop h v k) (get_prop h w k)) \<Longrightarrow>
    \<exists>skip st1. objects_loop F None h v w 0 ks b st =
      Some (\<forall>k\<in>set ks. tree_of n h (get_prop h v k) = tree_of n h (get_prop h w k), skip, st1) \<and> restored host st st1"
proof (induction ks arbitrary: st b)
  case (Cons k ks)
  let ?x = "get_prop h v k" and ?y = "get_prop h w k"
  obtain st1 where F1: "F h ?x ?y 0 st = Some (tree_of n h ?x = tree_of n h ?y, st1)" "restored host st st1"
    using equal_okD [OF F, of ?x ?y st] Cons.prems by auto
  have "ready host h st1 (get_prop h v j) (get_prop h w j)" if "j \<in> set ks" for j
    using that Cons.prems ready_restored [OF _ F1(2)] by auto
  then show ?case
    using Cons.IH [of st1 "b \<or> k = PStr ''constructor''"] Cons.IH [of st "b \<or> k = PStr ''constructor''"] Cons.prems F1
      strict_tree [of ?x ?y n h] restored_trans [OF F1(2)]
    by (auto simp: Let_def)
qed simp

text \<open>Two arrays.\<close>

lemma array_cell:
  assumes "h ! a = ArrN es ps" "a < length h" "int (length es) \<le> MAX_ARRAY_LENGTH"
  shows "array_length h (Obj ArrayTag a) = length es"
    "i < length es \<Longrightarrow> get_prop h (Obj ArrayTag a) (index_key i) = elem_val (es ! i)"
  using assms get_flat [of h a] by (simp_all add: array_length_def value_length_own own_val_def)

lemma equalArrays_ok:
  assumes F: "equal_ok host h n F" and ok: "tree_ok (Suc n) h (Obj ArrayTag a)" "tree_ok (Suc n) h (Obj ArrayTag b)"
    and st: "ready host h st (Obj ArrayTag a) (Obj ArrayTag b)" "a \<noteq> b"
  shows "\<exists>st1. equalArrays host F None h (Obj ArrayTag a) (Obj ArrayTag b) 0 st =
    Some (tree_of (Suc n) h (Obj ArrayTag a) = tree_of (Suc n) h (Obj ArrayTag b), st1) \<and> restored host st st1"
proof -
  let ?v = "Obj ArrayTag a" and ?w = "Obj ArrayTag b"
  obtain es ps es' ps' where c: "h ! a = ArrN es ps" "h ! b = ArrN es' ps'" using ok by (cases "h ! a"; cases "h ! b") auto
  note cv = array_cell [OF c(1)] and cw = array_cell [OF c(2)]
  have len: "a < length h" "b < length h" "int (length es) \<le> MAX_ARRAY_LENGTH" "int (length es') \<le> MAX_ARRAY_LENGTH"
    using ok c by auto
  show ?thesis
  proof (cases "length es = length es'")
    case True
    have "\<exists>st1. arrays_loop host F None h ?v ?w 0 [0..<length es] None (stack_enter host st ?v ?w) =
      Some (\<forall>i\<in>set [0..<length es]. tree_of n h (get_prop h ?v (index_key i)) = tree_of n h (get_prop h ?w (index_key i)), st1) \<and>
      restored host (stack_enter host st ?v ?w) st1"
    proof (rule arrays_loop_ok [OF F])
      fix i assume "i \<in> set [0..<length es]"
      then have "elem_val (es ! i) \<in> set (node_vals (h ! a))" "elem_val (es' ! i) \<in> set (node_vals (h ! b))"
        "get_prop h ?v (index_key i) = elem_val (es ! i)" "get_prop h ?w (index_key i) = elem_val (es' ! i)"
        using c True cv(2) cw(2) len by auto
      then show "tree_ok n h (get_prop h ?v (index_key i)) \<and> tree_ok n h (get_prop h ?w (index_key i)) \<and>
          ready host h (stack_enter host st ?v ?w) (get_prop h ?v (index_key i)) (get_prop h ?w (index_key i))"
        using ready_child [OF ok(1) _ _ ok(2) _ _ st(1)] ok by (auto simp: list_all_iff)
    qed
    then obtain st1 where L: "arrays_loop host F None h ?v ?w 0 [0..<length es] None (stack_enter host st ?v ?w) =
      Some (\<forall>i\<in>set [0..<length es]. tree_of n h (get_prop h ?v (index_key i)) = tree_of n h (get_prop h ?w (index_key i)), st1)"
      "restored host (stack_enter host st ?v ?w) st1" by blast
    have "(\<forall>i\<in>set [0..<length es]. tree_of n h (get_prop h ?v (index_key i)) = tree_of n h (get_prop h ?w (index_key i))) \<longleftrightarrow>
        tree_of (Suc n) h ?v = tree_of (Suc n) h ?w"
    proof -
      have "tree_of (Suc n) h ?v = ArrT (map (tree_of n h \<circ> elem_val) es)" "tree_of (Suc n) h ?w = ArrT (map (tree_of n h \<circ> elem_val) es')"
        using c by simp_all
      then show ?thesis using True cv(2) [OF len(1,3)] cw(2) [OF len(2,4)]
        by (auto simp: list_eq_iff_nth_eq [of "map (tree_of n h \<circ> elem_val) es"] simp del: tree_of.simps)
    qed
    then have "equalArrays host F None h ?v ?w 0 st = Some (tree_of (Suc n) h ?v = tree_of (Suc n) h ?w, stack_leave host st1 ?v ?w)"
      using L(1) ready_fresh [OF st(1)] cv(1) cw(1) len True by (auto simp: equalArrays_def Let_def simp del: tree_of.simps truthy.simps)
    then show ?thesis using leave_enter [OF _ _ L(2)] st by (simp add: ready_def del: tree_of.simps)
  next
    case False
    then show ?thesis using c cv(1) cw(1) len map_eq_imp_length_eq by (fastforce simp: equalArrays_def Let_def)
  qed
qed

text \<open>Two plain objects.\<close>

lemma object_trees:
  assumes d: "distinct (map fst ps)" "distinct (map fst qs)"
  defines "ks \<equiv> filter is_string_key (map fst ps)" and "ls \<equiv> filter is_string_key (map fst qs)"
  shows "node_tree f (ObjN ps p) = node_tree f (ObjN qs q) \<longleftrightarrow>
    length ks = length ls \<and> (\<forall>k\<in>set ks. map_of qs k \<noteq> None) \<and> (\<forall>k\<in>set ks. f (elem_val (map_of ps k)) = f (elem_val (map_of qs k)))"
    (is "?T \<longleftrightarrow> ?L \<and> ?H \<and> ?E")
proof -
  have ks: "k \<in> set ks \<longleftrightarrow> is_string_key k \<and> map_of ps k \<noteq> None" for k by (auto simp: ks_def map_of_eq_None_iff)
  have ls: "k \<in> set ls \<longleftrightarrow> is_string_key k \<and> map_of qs k \<noteq> None" for k by (auto simp: ls_def map_of_eq_None_iff)
  have "distinct ks" "distinct ls" using d distinct_filter unfolding ks_def ls_def by blast+
  then have len: "length ks = card (set ks)" "length ls = card (set ls)" by (simp_all add: distinct_card)
  have T: "?T \<longleftrightarrow> (\<forall>k. is_string_key k \<longrightarrow> map_option f (map_of ps k) = map_option f (map_of qs k))"
    by (auto simp: fun_eq_iff)
  show ?thesis
  proof
    assume t: ?T
    then have same: "map_option f (map_of ps k) = map_option f (map_of qs k)" if "is_string_key k" for k using T that by blast
    then have "set ks = set ls" using ks ls by (metis (no_types, opaque_lifting) map_option_is_None subsetI subset_antisym)
    moreover have "f (elem_val (map_of ps k)) = f (elem_val (map_of qs k))" if "k \<in> set ks" for k
      using that same [of k] ks [of k] by (cases "map_of ps k"; cases "map_of qs k") auto
    ultimately show "?L \<and> ?H \<and> ?E" using len ls by auto
  next
    assume r: "?L \<and> ?H \<and> ?E"
    then have "set ks \<subseteq> set ls" using ks ls by auto
    then have "set ks = set ls" using r len by (metis List.finite_set card_subset_eq)
    then have "map_option f (map_of ps k) = map_option f (map_of qs k)" if "is_string_key k" for k
      using r that ks [of k] ls [of k] by (cases "map_of ps k"; cases "map_of qs k") auto
    then show ?T using T by blast
  qed
qed

lemma object_cell:
  assumes "plain (h ! a)" "a < length h"
  shows "baseHas h (Obj ObjectTag a) k \<longleftrightarrow> map_of (node_props (h ! a)) k \<noteq> None"
    "get_prop h (Obj ObjectTag a) k = elem_val (map_of (node_props (h ! a)) k)"
    "prop_find h (Obj ObjectTag a) (PStr ''constructor'') = None"
    "k \<in> set (string_keys (h ! a)) \<Longrightarrow> get_prop h (Obj ObjectTag a) k \<in> set (node_vals (h ! a))"
proof -
  obtain ps where n: "h ! a = ObjN ps None" using plain_node [OF assms(1)] by blast
  note g = plain_get [OF assms, of ObjectTag]
  show has: "baseHas h (Obj ObjectTag a) k \<longleftrightarrow> map_of (node_props (h ! a)) k \<noteq> None"
    using g n by (simp add: baseHas_def assms(2))
  show get: "get_prop h (Obj ObjectTag a) k = elem_val (map_of (node_props (h ! a)) k)" for k
    using g(1) n by (auto simp: get_prop_def split: option.split)
  show "prop_find h (Obj ObjectTag a) (PStr ''constructor'') = None" using g(1) n assms(1) by simp
  show "k \<in> set (string_keys (h ! a)) \<Longrightarrow> get_prop h (Obj ObjectTag a) k \<in> set (node_vals (h ! a))"
  proof -
    assume "k \<in> set (string_keys (h ! a))"
    then have "map_of ps k \<noteq> None" using n by (auto simp: string_keys_def map_of_eq_None_iff)
    then obtain x where "map_of ps k = Some x" by blast
    then show ?thesis using get [of k] n by (force dest: map_of_SomeD)
  qed
qed

lemma equalObjects_ok:
  assumes F: "equal_ok host h n F" and ok: "tree_ok (Suc n) h (Obj ObjectTag a)" "tree_ok (Suc n) h (Obj ObjectTag b)"
    and st: "ready host h st (Obj ObjectTag a) (Obj ObjectTag b)" "a \<noteq> b"
  shows "\<exists>st1. equalObjects host F None h (Obj ObjectTag a) (Obj ObjectTag b) 0 st =
    Some (tree_of (Suc n) h (Obj ObjectTag a) = tree_of (Suc n) h (Obj ObjectTag b), st1) \<and> restored host st st1"
proof -
  let ?v = "Obj ObjectTag a" and ?w = "Obj ObjectTag b"
  obtain ps qs where c: "h ! a = ObjN ps None" "h ! b = ObjN qs None" "plain (h ! a)" "plain (h ! b)" "a < length h" "b < length h"
    using ok by (cases "h ! a"; cases "h ! b") (auto elim!: plain.elims)
  let ?ks = "filter is_string_key (map fst ps)" and ?ls = "filter is_string_key (map fst qs)"
  note cv = object_cell [OF c(3,5)] and cw = object_cell [OF c(4,6)]
  have keys: "keys h ?v = ?ks" "keys h ?w = ?ls" using plain_keys(1) c by (simp_all add: string_keys_def)
  have eqv: "tree_of (Suc n) h ?v = tree_of (Suc n) h ?w \<longleftrightarrow>
      length ?ks = length ?ls \<and> (\<forall>k\<in>set ?ks. baseHas h ?w k) \<and> (\<forall>k\<in>set ?ks. tree_of n h (get_prop h ?v k) = tree_of n h (get_prop h ?w k))"
    using object_trees [of ps qs "tree_of n h" None None] c cw(1,2) cv(2) by (simp add: c(1,2))
  show ?thesis
  proof (cases "length ?ks = length ?ls \<and> (\<forall>k\<in>set ?ks. baseHas h ?w k)")
    case True
    then have "set ?ks \<subseteq> set ?ls" using cw(1) c(2) by (auto simp: map_of_eq_None_iff)
    then have "get_prop h ?v k \<in> set (node_vals (h ! a))" "get_prop h ?w k \<in> set (node_vals (h ! b))" if "k \<in> set ?ks" for k
      using that cv(4) [of k] cw(4) [of k] c(1,2) by (auto simp: string_keys_def)
    then have "tree_ok n h (get_prop h ?v k) \<and> tree_ok n h (get_prop h ?w k) \<and>
        ready host h (stack_enter host st ?v ?w) (get_prop h ?v k) (get_prop h ?w k)" if "k \<in> set ?ks" for k
      using that ready_child [OF ok(1) _ _ ok(2) _ _ st(1)] ok unfolding tree_ok.simps(2) list_all_iff by simp
    then obtain skip st1 where L: "objects_loop F None h ?v ?w 0 ?ks False (stack_enter host st ?v ?w) =
      Some (\<forall>k\<in>set ?ks. tree_of n h (get_prop h ?v k) = tree_of n h (get_prop h ?w k), skip, st1)"
      "restored host (stack_enter host st ?v ?w) st1"
      using objects_loop_ok [OF F, of ?ks ?v ?w "stack_enter host st ?v ?w" False] by blast
    have "equalObjects host F None h ?v ?w 0 st = Some (tree_of (Suc n) h ?v = tree_of (Suc n) h ?w, stack_leave host st1 ?v ?w)"
      using True eqv L(1) ready_fresh [OF st(1)] cv(3) cw(3)
      by (auto simp: equalObjects_def keys Let_def list_all_iff same_constructor_def simp del: tree_of.simps truthy.simps)
    then show ?thesis using leave_enter [OF _ _ L(2)] st by (simp add: ready_def del: tree_of.simps)
  next
    case False
    then show ?thesis using eqv
      by (intro exI [of _ st]) (auto simp: equalObjects_def keys Let_def list_all_iff simp del: tree_of.simps)
  qed
qed

text \<open>Values of different kinds.\<close>

lemma tree_ok_obj:
  assumes "tree_ok n h (Obj t a)"
  shows "opaque_tag t \<or> t = ArrayTag \<or> t = ObjectTag" "t = ObjectTag \<Longrightarrow> \<not> has_own h (Obj t a) (PStr ''__wrapped__'')"
  using assms by (cases n; cases "h ! a"; auto)+

lemma compare_tag_ok:
  assumes "tree_ok n h v"
  shows "compare_tag v = getTag v" "getTag v = ObjectTag \<Longrightarrow> \<not> has_own h v (PStr ''__wrapped__'')"
proof -
  show "compare_tag v = getTag v" using assms tree_ok_obj(1) [of n h ArgsTag] by (cases v) (auto simp: compare_tag_def isArray_def)
  show "getTag v = ObjectTag \<Longrightarrow> \<not> has_own h v (PStr ''__wrapped__'')" using assms tree_ok_obj(2) [of n h] by (cases v) auto
qed

lemma deep_differ:
  assumes "tree_ok n h v" "tree_ok n h w" "getTag v \<noteq> getTag w"
  shows "baseIsEqualDeep env F None h v w 0 st = Some (False, st)"
  using compare_tag_ok [OF assms(1)] compare_tag_ok [OF assms(2)] assms(3) by (auto simp: baseIsEqualDeep_def Let_def)

lemma node_tree_leaf [simp]: "node_tree f n \<noteq> LeafT v" "LeafT v \<noteq> node_tree f n"
  by (cases n; simp)+

lemma isObject_prim [simp]: "\<not> isObject Undefined" "\<not> isObject Null" "\<not> isObject (Bool b)" "\<not> isObject (Num m)" "\<not> isObject (Str s)" "\<not> isObject (Sym k)"
  by (simp_all add: isObject_def)

lemma tag_trees:
  assumes "tree_ok (Suc n) h (Obj t a)" "tree_ok (Suc n) h (Obj u b)" "t \<noteq> u"
  shows "tree_of (Suc n) h (Obj t a) \<noteq> tree_of (Suc n) h (Obj u b)"
  using assms by (cases "h ! a"; cases "h ! b") auto

lemma deep_ok:
  assumes F: "equal_ok (eq_caches env) h n F" and ok: "tree_ok (Suc n) h (Obj t a)" "tree_ok (Suc n) h (Obj u b)"
    and st: "ready (eq_caches env) h st (Obj t a) (Obj u b)" "Obj t a \<noteq> Obj u b"
  shows "\<exists>st1. baseIsEqualDeep env F None h (Obj t a) (Obj u b) 0 st =
    Some (tree_of (Suc n) h (Obj t a) = tree_of (Suc n) h (Obj u b), st1) \<and> restored (eq_caches env) st st1"
proof -
  consider "t = ArrayTag" "u = ArrayTag" | "t = ObjectTag" "u = ObjectTag" | "opaque_tag t" "u = t" | "t \<noteq> u"
    using tree_ok_obj(1) [OF ok(1)] by blast
  then show ?thesis
  proof cases
    case 1
    then show ?thesis using equalArrays_ok [OF F, of a b st] ok st
      by (simp add: baseIsEqualDeep_def compare_tag_def isArray_def Let_def del: tree_of.simps tree_ok.simps)
  next
    case 2
    then show ?thesis using equalObjects_ok [OF F, of a b st] ok st tree_ok_obj(2)
      by (simp add: baseIsEqualDeep_def compare_tag_def isArray_def Let_def del: tree_of.simps tree_ok.simps has_own.simps)
  next
    case 3
    then have "baseIsEqualDeep env F None h (Obj t a) (Obj u b) 0 st = Some (False, st)"
      by (cases t) (simp_all add: baseIsEqualDeep_def compare_tag_def isArray_def isTypedArray_def equalByTag_def)
    then show ?thesis using 3 st(2) by simp
  next
    case 4
    then show ?thesis using deep_differ [OF ok] tag_trees [OF ok] by (simp del: tree_of.simps)
  qed
qed

lemma mixed_ok:
  assumes "isObject v \<noteq> isObject w" "tree_ok (Suc n) h v" "tree_ok (Suc n) h w" "\<not> isNil v" "\<not> isNil w"
  shows "baseIsEqualDeep env F None h v w 0 st = Some (False, st)" "tree_of (Suc n) h v \<noteq> tree_of (Suc n) h w"
proof -
  show "tree_of (Suc n) h v \<noteq> tree_of (Suc n) h w" using assms(1) by (cases v; cases w) auto
  have "getTag x \<noteq> t" if "\<not> isObject x" "\<not> isNil x" "opaque_tag t \<or> t = ArrayTag \<or> t = ObjectTag" for x t
    using that by (cases x) (auto simp: isNil_def)
  moreover have "opaque_tag (getTag x) \<or> getTag x = ArrayTag \<or> getTag x = ObjectTag" if "isObject x" "tree_ok (Suc n) h x" for x
    using that tree_ok_obj(1) by (cases x) (auto simp del: tree_ok.simps)
  ultimately have "getTag v \<noteq> getTag w" using assms by metis
  then show "baseIsEqualDeep env F None h v w 0 st = Some (False, st)" using deep_differ assms(2,3) by blast
qed

text \<open>The comparison decides equality of trees, and leaves the stack as it found it.\<close>

lemma baseIsEqual_ok: "equal_ok (eq_caches env) h n (baseIsEqual n env None)"
proof (induction n)
  case (Suc n)
  show ?case unfolding equal_ok_def
  proof (intro allI impI)
    fix v w st assume ok: "tree_ok (Suc n) h v" "tree_ok (Suc n) h w" and st: "ready (eq_caches env) h st v w"
    consider "strict_eq v w" | "\<not> strict_eq v w" "\<not> isObject v" "\<not> isObject w" | "\<not> strict_eq v w" "isObject v \<noteq> isObject w" |
      t a u b where "\<not> strict_eq v w" "v = Obj t a" "w = Obj u b" by (cases v; cases w) auto
    then show "\<exists>st1. baseIsEqual (Suc n) env None h v w 0 st = Some (tree_of (Suc n) h v = tree_of (Suc n) h w, st1) \<and> restored (eq_caches env) st st1"
    proof cases
      case 1
      then show ?thesis using strict_tree [OF 1, of "Suc n" h] by (simp del: tree_of.simps)
    next
      case 2
      then have "\<not> isObjectLike w" by (cases w) (auto simp: isObjectLike_def)
      moreover have "(\<not> strict_eq v v \<and> \<not> strict_eq w w) \<longleftrightarrow> eq v w" using 2(1) by (simp add: eq_def)
      ultimately show ?thesis using 2 leaf_tree [OF ok] by (simp del: tree_of.simps)
    next
      case 3
      then have "(\<not> strict_eq v v \<and> \<not> strict_eq w w) = False" by (cases v; cases w) auto
      moreover have "tree_of (Suc n) h v \<noteq> tree_of (Suc n) h w" using 3(2) by (cases v; cases w) auto
      ultimately show ?thesis using 3 mixed_ok(1) [OF 3(2) ok] by (auto simp del: tree_of.simps)
    next
      case 4
      then show ?thesis using deep_ok [OF Suc.IH, of t a u b st] ok st by (simp del: tree_of.simps)
    qed
  qed
qed (simp add: equal_ok_def)

lemma ready_clear: "ready host h stackClear v w"
  by (simp add: ready_def on_stack_val_def stackGet_clear) (simp add: stackClear_def)

lemma isEqual_tree:
  assumes "tree_ok n h v" "tree_ok n h w"
  shows "isEqual n env h v w = Some (tree_of n h v = tree_of n h w)"
  using equal_okD [OF baseIsEqual_ok assms ready_clear, of env] by (auto simp: isEqual_def)

section \<open>Properties\<close>

text \<open>
  (C12) On values that unfold to finite trees of arrays, plain objects, primitives and opaque values, \<open>isEqual\<close>
  returns, and it decides whether the trees are the same: arrays with the same elements in order, holes counting as
  undefined, objects with the same values at the same names in any order, numbers up to the sign of zero and with NaN
  equal to itself. The stack of pairs under comparison never cuts a comparison short, although parts may be shared.
\<close>

theorem isEqual_decides_trees:
  assumes "tree_ok n h v" "tree_ok n h w"
  shows "isEqual n env h v w = Some (tree_of n h v = tree_of n h w)"
  using assms by (rule isEqual_tree)

theorem isEqual_decides_trees_witness:
  "isEqual 3 \<lparr>eq_caches = \<lparr>nativeCreate = True, nativeMap = True, nativeSet = True\<rparr>, slotEqual = (\<lambda>t h v w. False),
       mapEntries = (\<lambda>v. []), setValues = (\<lambda>v. []), unwrapped = (\<lambda>h v. v)\<rparr>
     [ObjN [(PStr ''a'', Num NaN), (PStr ''b'', Obj ArrayTag 1)] None, ArrN [None, Some (Num NegZero)] [],
      ObjN [(PStr ''b'', Obj ArrayTag 3), (PStr ''a'', Num NaN)] None, ArrN [Some Undefined, Some (Num (Fin 0))] []]
     (Obj ObjectTag 0) (Obj ObjectTag 2) = Some True"
proof -
  let ?h = "[ObjN [(PStr ''a'', Num NaN), (PStr ''b'', Obj ArrayTag 1)] None, ArrN [None, Some (Num NegZero)] [],
      ObjN [(PStr ''b'', Obj ArrayTag 3), (PStr ''a'', Num NaN)] None, ArrN [Some Undefined, Some (Num (Fin 0))] []]"
  have "tree_of 3 ?h (Obj ObjectTag 0) = tree_of 3 ?h (Obj ObjectTag 2)"
    by (auto simp: numeral_eq_Suc fun_eq_iff)
  moreover have "tree_ok 3 ?h (Obj ObjectTag 0)" "tree_ok 3 ?h (Obj ObjectTag 2)"
    by (simp_all add: numeral_eq_Suc length_key_def MAX_ARRAY_LENGTH_def)
  ultimately show ?thesis using isEqual_decides_trees by simp
qed

end
