(* ===== verification/JsCycles.thy ===== *)
theory JsCycles
  imports JsEqual
begin

text \<open>
  Comparison of cyclic values in lodash.js. The stack that \<open>isEqual\<close> keeps of the pairs under comparison is a list
  of pairs, from which leaving a pair removes one entry, until it has grown to a map, from which it removes the key
  altogether. With a map the comparison of two cyclic arrays that are equal does not return.
\<close>

section \<open>Cyclic arrays\<close>

text \<open>Arrays that all unfold to the same infinite tree: \<open>x = [x, x]\<close>, \<open>y = [y, y]\<close> and \<open>z = [y, z]\<close>.\<close>

definition cycles :: heap where
  "cycles = [ArrN [Some (Obj ArrayTag 0), Some (Obj ArrayTag 0)] [], ArrN [Some (Obj ArrayTag 1), Some (Obj ArrayTag 1)] [],
     ArrN [Some (Obj ArrayTag 1), Some (Obj ArrayTag 2)] []]"

text \<open>The arrays \<open>x\<close> and \<open>z\<close> under a number of arrays with one element.\<close>

definition left_cell :: "nat \<Rightarrow> nat" where
  "left_cell j = (if j = 0 then 0 else 2 * j + 1)"

definition right_cell :: "nat \<Rightarrow> nat" where
  "right_cell j = 2 * j + 2"

fun nested_cycles :: "nat \<Rightarrow> heap" where
  "nested_cycles 0 = cycles"
| "nested_cycles (Suc j) =
     nested_cycles j @ [ArrN [Some (Obj ArrayTag (left_cell j))] [], ArrN [Some (Obj ArrayTag (right_cell j))] []]"

section \<open>Lemmas\<close>

lemma compare_arrays:
  assumes "h ! a = ArrN es ps" "h ! b = ArrN es' ps'" "a < length h" "b < length h" "a \<noteq> b"
    "length es = length es'" "int (length es) \<le> MAX_ARRAY_LENGTH"
  shows "baseIsEqual (Suc n) env None h (Obj ArrayTag a) (Obj ArrayTag b) 0 st =
    (if truthy (stackGet (eq_caches env) st (Obj ArrayTag a)) \<and> truthy (stackGet (eq_caches env) st (Obj ArrayTag b))
     then Some (stackGet (eq_caches env) st (Obj ArrayTag a) = Obj ArrayTag b, st)
     else (case arrays_loop (eq_caches env) (baseIsEqual n env None) None h (Obj ArrayTag a) (Obj ArrayTag b) 0 [0..<length es] None
                  (stack_enter (eq_caches env) st (Obj ArrayTag a) (Obj ArrayTag b)) of
             None \<Rightarrow> None
           | Some (res, st1) \<Rightarrow> Some (res, stack_leave (eq_caches env) st1 (Obj ArrayTag a) (Obj ArrayTag b))))"
proof -
  have "array_length h (Obj ArrayTag a) = length es" "array_length h (Obj ArrayTag b) = length es"
    using array_cell(1) assms by auto
  moreover have "strict_eq s (Obj ArrayTag b) \<longleftrightarrow> s = Obj ArrayTag b" for s by (cases s) auto
  ultimately show ?thesis using assms(5)
    by (simp add: baseIsEqualDeep_def compare_tag_def isArray_def Let_def equalArrays_def del: truthy.simps)
qed

lemma nested_length: "length (nested_cycles j) = 2 * j + 3"
  by (induction j) (simp_all add: cycles_def)

lemma nested_prefix: "i \<le> j \<Longrightarrow> a < length (nested_cycles i) \<Longrightarrow> nested_cycles j ! a = nested_cycles i ! a"
proof (induction j)
  case (Suc j)
  then show ?case using nested_length [of i] nested_length [of j] by (cases "i = Suc j") (auto simp: nth_append le_Suc_eq)
qed simp

lemma nested_cells:
  assumes "i < j"
  shows "nested_cycles j ! left_cell (Suc i) = ArrN [Some (Obj ArrayTag (left_cell i))] []"
    "nested_cycles j ! right_cell (Suc i) = ArrN [Some (Obj ArrayTag (right_cell i))] []"
  using assms nested_prefix [of "Suc i" j] nested_length [of i] nested_length [of "Suc i"]
  by (simp_all add: left_cell_def right_cell_def nth_append)

lemma base_cells:
  "nested_cycles j ! 0 = ArrN [Some (Obj ArrayTag 0), Some (Obj ArrayTag 0)] []"
  "nested_cycles j ! Suc 0 = ArrN [Some (Obj ArrayTag (Suc 0)), Some (Obj ArrayTag (Suc 0))] []"
  "nested_cycles j ! 2 = ArrN [Some (Obj ArrayTag (Suc 0)), Some (Obj ArrayTag 2)] []"
  using nested_prefix [of 0 j 0] nested_prefix [of 0 j 1] nested_prefix [of 0 j 2] by (simp_all add: cycles_def)

text \<open>The elements, read in any of the stores.\<close>

lemma cycle_elems:
  "get_prop (nested_cycles j) (Obj ArrayTag 0) (index_key 0) = Obj ArrayTag 0"
  "get_prop (nested_cycles j) (Obj ArrayTag 0) (index_key (Suc 0)) = Obj ArrayTag 0"
  "get_prop (nested_cycles j) (Obj ArrayTag (Suc 0)) (index_key 0) = Obj ArrayTag (Suc 0)"
  "get_prop (nested_cycles j) (Obj ArrayTag (Suc 0)) (index_key (Suc 0)) = Obj ArrayTag (Suc 0)"
  "get_prop (nested_cycles j) (Obj ArrayTag 2) (index_key 0) = Obj ArrayTag (Suc 0)"
  "get_prop (nested_cycles j) (Obj ArrayTag 2) (index_key (Suc 0)) = Obj ArrayTag 2"
  using array_cell(2) [OF base_cells(1) [of j], of 0] array_cell(2) [OF base_cells(1) [of j], of 1]
    array_cell(2) [OF base_cells(2) [of j], of 0] array_cell(2) [OF base_cells(2) [of j], of 1]
    array_cell(2) [OF base_cells(3) [of j], of 0] array_cell(2) [OF base_cells(3) [of j], of 1] nested_length [of j]
  by (simp_all add: MAX_ARRAY_LENGTH_def)

lemma nested_elems:
  assumes "i < j"
  shows "get_prop (nested_cycles j) (Obj ArrayTag (left_cell (Suc i))) (index_key 0) = Obj ArrayTag (left_cell i)"
    "get_prop (nested_cycles j) (Obj ArrayTag (right_cell (Suc i))) (index_key 0) = Obj ArrayTag (right_cell i)"
  using array_cell(2) [OF nested_cells(1) [OF assms], of 0] array_cell(2) [OF nested_cells(2) [OF assms], of 0] nested_length [of j] assms
  by (simp_all add: MAX_ARRAY_LENGTH_def left_cell_def right_cell_def)

text \<open>Entering and leaving a pair with the stack a map.\<close>

lemma enter_map: "\<exists>c1. stack_enter host (StackMap c) v w = StackMap c1"
  by (simp add: stack_enter_def)

lemma enter_get:
  assumes "stack_inv host st" "a \<noteq> b"
  shows "stackGet host (stack_enter host st (Obj ArrayTag a) (Obj ArrayTag b)) (Obj ArrayTag c) =
    (if c = a then Obj ArrayTag b else if c = b then Obj ArrayTag a else stackGet host st (Obj ArrayTag c))"
proof -
  note one = stackSet_lookup [OF assms(1) keyable_obj [of ArrayTag a] keyable_obj [of ArrayTag c], where v = "Obj ArrayTag b"]
  note two = stackSet_lookup [OF one(3) keyable_obj [of ArrayTag b] keyable_obj [of ArrayTag c], where v = "Obj ArrayTag a"]
  show ?thesis using one(1) two(1) assms(2) by (auto simp: stack_enter_def)
qed

lemma leave_get:
  assumes "map_cache_inv host c"
  shows "\<exists>c1. stack_leave host (StackMap c) (Obj ArrayTag a) (Obj ArrayTag b) = StackMap c1 \<and> map_cache_inv host c1 \<and>
    (\<forall>e. stackGet host (StackMap c1) (Obj ArrayTag e) = (if e = a \<or> e = b then Undefined else stackGet host (StackMap c) (Obj ArrayTag e)))"
  using assms mapc.invar_del mapc.get_del by (auto simp: stack_leave_def)

text \<open>The comparison of \<open>x\<close> and \<open>y\<close>: inside it the pair is on the stack.\<close>

lemma compare_xy:
  assumes "map_cache_inv (eq_caches env) c" "stackGet (eq_caches env) (StackMap c) (Obj ArrayTag (Suc 0)) = Undefined"
  shows "baseIsEqual n env None (nested_cycles j) (Obj ArrayTag 0) (Obj ArrayTag (Suc 0)) 0 (StackMap c) = None \<or>
    (\<exists>c1. baseIsEqual n env None (nested_cycles j) (Obj ArrayTag 0) (Obj ArrayTag (Suc 0)) 0 (StackMap c) = Some (True, StackMap c1) \<and>
       map_cache_inv (eq_caches env) c1 \<and> stackGet (eq_caches env) (StackMap c1) (Obj ArrayTag 0) = Undefined \<and>
       stackGet (eq_caches env) (StackMap c1) (Obj ArrayTag (Suc 0)) = Undefined)"
proof -
  let ?h = "nested_cycles j" and ?x = "Obj ArrayTag 0" and ?y = "Obj ArrayTag (Suc 0)"
  note step = compare_arrays [OF base_cells(1,2) [of j], of _ env]
  have bounds: "0 < length ?h" "Suc 0 < length ?h" using nested_length [of j] by simp_all
  obtain c2 where c2: "stack_enter (eq_caches env) (StackMap c) ?x ?y = StackMap c2" using enter_map by blast
  have inv: "stack_inv (eq_caches env) (StackMap c)" using assms(1) by simp
  have get2: "stackGet (eq_caches env) (StackMap c2) ?x = ?y" "stackGet (eq_caches env) (StackMap c2) ?y = ?x"
    using enter_get [OF inv, of 0 "Suc 0"] c2 by simp_all
  have inv2: "map_cache_inv (eq_caches env) c2" using enter_keys(1) [OF inv, of ArrayTag 0 ArrayTag "Suc 0"] c2 by simp
  obtain c3 where c3: "stack_leave (eq_caches env) (StackMap c2) ?x ?y = StackMap c3" "map_cache_inv (eq_caches env) c3"
    "stackGet (eq_caches env) (StackMap c3) ?x = Undefined" "stackGet (eq_caches env) (StackMap c3) ?y = Undefined"
    using leave_get [OF inv2, of 0 "Suc 0"] by (metis (full_types))
  have inner: "baseIsEqual (Suc m) env None ?h ?x ?y 0 (StackMap c2) = Some (True, StackMap c2)" for m
    using step [of m "StackMap c2"] get2 bounds by (simp add: MAX_ARRAY_LENGTH_def del: baseIsEqual.simps stackGet.simps)
  have outer: "baseIsEqual (Suc m) env None ?h ?x ?y 0 (StackMap c) =
      (case arrays_loop (eq_caches env) (baseIsEqual m env None) None ?h ?x ?y 0 [0, Suc 0] None (StackMap c2) of
         None \<Rightarrow> None | Some (res, st1) \<Rightarrow> Some (res, stack_leave (eq_caches env) st1 ?x ?y))" for m
    using step [of m "StackMap c"] assms(2) c2 bounds by (simp add: MAX_ARRAY_LENGTH_def upt_rec del: baseIsEqual.simps stackGet.simps arrays_loop.simps)
  consider "n = 0" | "n = 1" | m where "n = Suc (Suc m)" by (metis One_nat_def not0_implies_Suc)
  then show ?thesis
  proof cases
    case 3
    then show ?thesis using outer [of "Suc m"] inner [of m] c3 cycle_elems [of j]
      by (simp add: Let_def del: baseIsEqual.simps stackGet.simps)
  qed (use outer [of 0] cycle_elems [of j] in \<open>simp_all add: Let_def\<close>)
qed

text \<open>The comparison of \<open>x\<close> and \<open>z\<close>: once \<open>x\<close> and \<open>y\<close> have been left, the pair is no longer on the stack.\<close>

lemma compare_xz:
  "map_cache_inv (eq_caches env) c \<Longrightarrow> stackGet (eq_caches env) (StackMap c) (Obj ArrayTag 0) = Undefined \<Longrightarrow>
   stackGet (eq_caches env) (StackMap c) (Obj ArrayTag (Suc 0)) = Undefined \<Longrightarrow>
   baseIsEqual n env None (nested_cycles j) (Obj ArrayTag 0) (Obj ArrayTag 2) 0 (StackMap c) = None"
proof (induction n arbitrary: c)
  case (Suc n)
  let ?h = "nested_cycles j" and ?x = "Obj ArrayTag 0" and ?y = "Obj ArrayTag (Suc 0)" and ?z = "Obj ArrayTag 2"
  obtain c2 where c2: "stack_enter (eq_caches env) (StackMap c) ?x ?z = StackMap c2" using enter_map by blast
  have inv: "stack_inv (eq_caches env) (StackMap c)" using Suc.prems(1) by simp
  have get2: "stackGet (eq_caches env) (StackMap c2) ?y = Undefined"
    using enter_get [OF inv, of 0 2 "Suc 0"] c2 Suc.prems(3) by simp
  have inv2: "map_cache_inv (eq_caches env) c2" using enter_keys(1) [OF inv, of ArrayTag 0 ArrayTag 2] c2 by simp
  have "arrays_loop (eq_caches env) (baseIsEqual n env None) None ?h ?x ?z 0 [0, Suc 0] None (StackMap c2) = None"
    using compare_xy [OF inv2 get2, of n j] Suc.IH cycle_elems [of j]
    by (auto simp: Let_def simp del: baseIsEqual.simps stackGet.simps)
  then show ?case
    using compare_arrays [OF base_cells(1,3) [of j], of n env "StackMap c"] Suc.prems(2) c2 nested_length [of j]
    by (simp add: MAX_ARRAY_LENGTH_def upt_rec del: baseIsEqual.simps stackGet.simps arrays_loop.simps)
qed simp

text \<open>Nested comparisons fill the list until it becomes a map.\<close>

lemma compare_nested:
  assumes "nativeMap (eq_caches env)"
  shows "i \<le> j \<Longrightarrow> length d + 2 * i = LARGE_ARRAY_SIZE \<Longrightarrow> i \<noteq> 0 \<Longrightarrow>
   (\<And>a. a \<le> right_cell i \<Longrightarrow> listCacheGet d (Obj ArrayTag a) = Undefined) \<Longrightarrow>
   baseIsEqual n env None (nested_cycles j) (Obj ArrayTag (left_cell i)) (Obj ArrayTag (right_cell i)) 0 (StackList d) = None"
proof (induction i arbitrary: d n)
  case (Suc i)
  note prems = Suc.prems
  let ?v = "Obj ArrayTag (left_cell (Suc i))" and ?w = "Obj ArrayTag (right_cell (Suc i))" and ?h = "nested_cycles j"
  let ?st = "stack_enter (eq_caches env) (StackList d) ?v ?w"
  have ne: "left_cell (Suc i) \<noteq> right_cell (Suc i)" by (simp add: left_cell_def right_cell_def)
  have get: "stackGet (eq_caches env) ?st (Obj ArrayTag a) = Undefined" if "a \<le> right_cell i" for a
    using that enter_get [of "eq_caches env" "StackList d" "left_cell (Suc i)" "right_cell (Suc i)" a] ne Suc.prems(4) [of a]
    by (simp add: left_cell_def right_cell_def)
  have inner: "baseIsEqual m env None ?h (Obj ArrayTag (left_cell i)) (Obj ArrayTag (right_cell i)) 0 ?st = None" for m
  proof (cases "i = 0")
    case True
    then obtain c where c: "?st = StackMap c" using Suc.prems(2) assms by (auto simp: stack_enter_def LARGE_ARRAY_SIZE_def)
    have "map_cache_inv (eq_caches env) c" using enter_keys(1) [of "eq_caches env" "StackList d" ArrayTag "left_cell (Suc i)" ArrayTag "right_cell (Suc i)"] c by simp
    then show ?thesis using compare_xz [of env c m j] get [of 0] get [of 1] c True by (simp add: left_cell_def right_cell_def numeral_2_eq_2)
  next
    case False
    then have st: "?st = StackList (d @ [(?v, ?w), (?w, ?v)])" using Suc.prems(2) by (auto simp: stack_enter_def LARGE_ARRAY_SIZE_def)
    then show ?thesis using Suc.IH [of "d @ [(?v, ?w), (?w, ?v)]" m] Suc.prems get False by simp
  qed
  show ?case
  proof (cases n)
    case (Suc m)
    have "arrays_loop (eq_caches env) (baseIsEqual m env None) None ?h ?v ?w 0 [0] None ?st = None"
      using inner [of m] nested_elems [of i j] prems(1)
      by (auto simp: Let_def left_cell_def right_cell_def simp del: baseIsEqual.simps)
    then show ?thesis
      using compare_arrays [OF nested_cells [of i j], of m env "StackList d"] prems(1) prems(4) [of "left_cell (Suc i)"] nested_length [of j] ne Suc
      by (simp add: MAX_ARRAY_LENGTH_def left_cell_def right_cell_def del: baseIsEqual.simps arrays_loop.simps)
  qed simp
qed simp

text \<open>With the list, the comparison of \<open>x\<close> and \<open>z\<close> returns.\<close>

lemma list_stack:
  "stack_enter host (StackList []) v w = StackList [(v, w), (w, v)]"
  "stack_enter host (StackList [e1, e2]) v w = StackList [e1, e2, (v, w), (w, v)]"
  by (simp_all add: stack_enter_def LARGE_ARRAY_SIZE_def)

lemma leave_list:
  assumes "a \<noteq> b"
  shows "stack_leave host (StackList (d @ [(Obj ArrayTag a, Obj ArrayTag b), (Obj ArrayTag b, Obj ArrayTag a)])) (Obj ArrayTag a) (Obj ArrayTag b) = StackList d"
  using assms by (simp add: stack_leave_def listCacheDelete_before listCacheDelete_last)

lemma compare_list:
  "isEqual (Suc (Suc (Suc n))) env (nested_cycles j) (Obj ArrayTag 0) (Obj ArrayTag 2) = Some True"
proof -
  let ?h = "nested_cycles j" and ?x = "Obj ArrayTag 0" and ?y = "Obj ArrayTag (Suc 0)" and ?z = "Obj ArrayTag 2"
  let ?d = "[(?x, ?z), (?z, ?x)]" and ?e = "[(?x, ?z), (?z, ?x), (?x, ?y), (?y, ?x)]"
  have len: "0 < length ?h" "Suc 0 < length ?h" "2 < length ?h" using nested_length [of j] by simp_all
  note xy = compare_arrays [OF base_cells(1,2) [of j] len(1,2)] and xz = compare_arrays [OF base_cells(1,3) [of j] len(1,3)]
  have get: "listCacheGet ?d ?x = ?z" "listCacheGet ?d ?z = ?x" "listCacheGet ?d ?y = Undefined" "listCacheGet ?e ?x = ?y" "listCacheGet ?e ?y = ?x"
    by (simp_all add: listCacheGet_def assocIndexOf_def)
  have "baseIsEqual (Suc n) env None ?h ?x ?y 0 (StackList ?e) = Some (True, StackList ?e)"
    using xy [of n env "StackList ?e"] get by (simp add: MAX_ARRAY_LENGTH_def del: baseIsEqual.simps)
  then have "arrays_loop (eq_caches env) (baseIsEqual (Suc n) env None) None ?h ?x ?y 0 [0, Suc 0] None (StackList ?e) = Some (True, StackList ?e)"
    using cycle_elems [of j] by (simp add: Let_def del: baseIsEqual.simps)
  then have "baseIsEqual (Suc (Suc n)) env None ?h ?x ?y 0 (StackList ?d) = Some (True, StackList ?d)"
    using xy [of "Suc n" env "StackList ?d"] get leave_list [of 0 "Suc 0" "eq_caches env" ?d] list_stack(2)
    by (simp add: MAX_ARRAY_LENGTH_def upt_rec del: baseIsEqual.simps arrays_loop.simps)
  moreover have "baseIsEqual (Suc (Suc n)) env None ?h ?x ?z 0 (StackList ?d) = Some (True, StackList ?d)"
    using xz [of "Suc n" env "StackList ?d"] get by (simp add: MAX_ARRAY_LENGTH_def del: baseIsEqual.simps)
  ultimately have "arrays_loop (eq_caches env) (baseIsEqual (Suc (Suc n)) env None) None ?h ?x ?z 0 [0, Suc 0] None (StackList ?d) = Some (True, StackList ?d)"
    using cycle_elems [of j] by (simp add: Let_def del: baseIsEqual.simps)
  then show ?thesis
    using xz [of "Suc (Suc n)" env "StackList []"] leave_list [of 0 2 "eq_caches env" "[]"] list_stack(1)
    by (simp add: isEqual_def stackClear_def ListCache_new_def listCacheClear_def listCacheGet_def assocIndexOf_def
      MAX_ARRAY_LENGTH_def upt_rec del: baseIsEqual.simps arrays_loop.simps)
qed

section \<open>Property\<close>

text \<open>
  (C16) Where maps are native, the comparison of two cyclic arrays below a hundred arrays of one element never returns,
  whatever the fuel, although the same two arrays compare as equal at the top. By then the stack is a map; leaving the
  pair of \<open>x\<close> and \<open>y\<close> removes the entry that \<open>x\<close> had from the pair of \<open>x\<close> and \<open>z\<close>, so that the cycle through
  this pair is entered again and again.
\<close>

theorem isEqual_cycles_diverge:
  assumes "nativeMap (eq_caches env)"
  shows "isEqual n env (nested_cycles 100) (Obj ArrayTag (left_cell 100)) (Obj ArrayTag (right_cell 100)) = None \<and>
    isEqual (n + 3) env (nested_cycles 100) (Obj ArrayTag (left_cell 0)) (Obj ArrayTag (right_cell 0)) = Some True"
proof
  show "isEqual n env (nested_cycles 100) (Obj ArrayTag (left_cell 100)) (Obj ArrayTag (right_cell 100)) = None"
    using compare_nested [OF assms, of 100 100 "[]" n]
    by (simp add: isEqual_def stackClear_def ListCache_new_def listCacheClear_def LARGE_ARRAY_SIZE_def listCacheGet_def assocIndexOf_def)
  show "isEqual (n + 3) env (nested_cycles 100) (Obj ArrayTag (left_cell 0)) (Obj ArrayTag (right_cell 0)) = Some True"
    using compare_list [of n env 100] by (simp add: left_cell_def right_cell_def numeral_3_eq_3 numeral_2_eq_2)
qed

theorem isEqual_cycles_diverge_witness:
  "isEqual 1000 \<lparr>eq_caches = \<lparr>nativeCreate = True, nativeMap = True, nativeSet = True\<rparr>, slotEqual = (\<lambda>t h v w. False),
       mapEntries = (\<lambda>v. []), setValues = (\<lambda>v. []), unwrapped = (\<lambda>h v. v)\<rparr>
     (nested_cycles 100) (Obj ArrayTag 201) (Obj ArrayTag 202) = None"
  using isEqual_cycles_diverge [of "\<lparr>eq_caches = \<lparr>nativeCreate = True, nativeMap = True, nativeSet = True\<rparr>, slotEqual = (\<lambda>t h v w. False),
       mapEntries = (\<lambda>v. []), setValues = (\<lambda>v. []), unwrapped = (\<lambda>h v. v)\<rparr>" 1000]
  by (simp add: left_cell_def right_cell_def)

end
