(* ===== verification/JsSets.thy ===== *)
theory JsSets
  imports JsArrayApi
begin

text \<open>
  The set-like array functions of lodash.js: \<open>uniq\<close>, \<open>difference\<close>, \<open>intersection\<close>, \<open>union\<close>,
  \<open>xor\<close>, \<open>without\<close> and their By and With variants. The code switches between linear scans, hash
  caches and the native set depending on the length of the input and on the host; the theorems
  show that the choice cannot be observed.
\<close>

section \<open>Native sets\<close>

text \<open>The \<open>Set\<close> of ECMAScript 2015: values in insertion order, without equivalent values.\<close>

type_synonym es_set = "jsval list"

definition es_set_add :: "es_set \<Rightarrow> jsval \<Rightarrow> es_set" where
  "es_set_add s v = (if \<exists>x\<in>set s. eq x v then s else s @ [val_norm v])"

definition addSetEntry :: "es_set \<Rightarrow> jsval \<Rightarrow> es_set" where
  "addSetEntry s value = es_set_add s value"

definition setToArray :: "es_set \<Rightarrow> jsval list" where
  "setToArray s = map (\<lambda>value. value) s"

definition setToPairs :: "es_set \<Rightarrow> (jsval \<times> jsval) list" where
  "setToPairs s = map (\<lambda>value. (value, value)) s"

text \<open>\<open>createSet\<close> does nothing on hosts without a set that normalises negative zero.\<close>

definition createSet :: "host \<Rightarrow> jsval list \<Rightarrow> es_set option" where
  "createSet h values = (if nativeSet h then Some (fold (\<lambda>v s. es_set_add s v) values []) else None)"

section \<open>Uniqueness\<close>

text \<open>The collection of values seen so far: the result itself, an array or a cache.\<close>

datatype seen_store = SeenResult | SeenList "jsval list" | SeenCache MapCache

definition iter :: "(jsval \<Rightarrow> jsval) option \<Rightarrow> jsval \<Rightarrow> jsval" where
  "iter iteratee v = (case iteratee of None \<Rightarrow> v | Some f \<Rightarrow> f v)"

text \<open>\<open>value = (comparator || value !== 0) ? value : 0\<close>\<close>

definition unsign_zero :: "(jsval \<Rightarrow> jsval \<Rightarrow> bool) option \<Rightarrow> jsval \<Rightarrow> jsval" where
  "unsign_zero comparator v =
     (if comparator \<noteq> None \<or> \<not> strict_eq v (Num (Fin 0)) then v else Num (Fin 0))"

text \<open>The scan from the end of an array with the strict equality.\<close>

fun scan_loop :: "jsval list \<Rightarrow> jsval \<Rightarrow> nat \<Rightarrow> bool" where
  "scan_loop values computed 0 = False"
| "scan_loop values computed (Suc n) = (if strict_eq (values ! n) computed then True else scan_loop values computed n)"

fun seen_list :: "seen_store \<Rightarrow> jsval list \<Rightarrow> jsval list" where
  "seen_list SeenResult result = result"
| "seen_list (SeenList s) result = s"
| "seen_list (SeenCache c) result = []"

fun seen_includes :: "host \<Rightarrow> seen_store \<Rightarrow> jsval list \<Rightarrow> jsval \<Rightarrow> (jsval \<Rightarrow> jsval \<Rightarrow> bool) option \<Rightarrow> bool" where
  "seen_includes h (SeenCache c) result computed comparator = cacheHas h c computed"
| "seen_includes h seen result computed comparator =
     (case comparator of
        None \<Rightarrow> arrayIncludes (Some (seen_list seen result)) computed
      | Some f \<Rightarrow> arrayIncludesWith (Some (seen_list seen result)) computed f)"

fun seen_push :: "host \<Rightarrow> seen_store \<Rightarrow> jsval \<Rightarrow> seen_store" where
  "seen_push h SeenResult computed = SeenResult"
| "seen_push h (SeenList s) computed = SeenList (s @ [computed])"
| "seen_push h (SeenCache c) computed = SeenCache (setCacheAdd h c computed)"

fun uniq_loop ::
  "host \<Rightarrow> (jsval \<Rightarrow> jsval) option \<Rightarrow> (jsval \<Rightarrow> jsval \<Rightarrow> bool) option \<Rightarrow> bool \<Rightarrow>
   jsval list \<Rightarrow> seen_store \<Rightarrow> jsval list \<Rightarrow> jsval list" where
  "uniq_loop h iteratee comparator isCommon [] seen result = result"
| "uniq_loop h iteratee comparator isCommon (v # array) seen result =
     (let computed = iter iteratee v; value = unsign_zero comparator v
      in if isCommon \<and> strict_eq computed computed
         then (if scan_loop (seen_list seen result) computed (length (seen_list seen result))
               then uniq_loop h iteratee comparator isCommon array seen result
               else uniq_loop h iteratee comparator isCommon array
                      (if iteratee \<noteq> None then seen_push h seen computed else seen) (result @ [value]))
         else if \<not> seen_includes h seen result computed comparator
         then uniq_loop h iteratee comparator isCommon array (seen_push h seen computed) (result @ [value])
         else uniq_loop h iteratee comparator isCommon array seen result)"

definition baseUniq ::
  "host \<Rightarrow> jsval list \<Rightarrow> (jsval \<Rightarrow> jsval) option \<Rightarrow> (jsval \<Rightarrow> jsval \<Rightarrow> bool) option \<Rightarrow> jsval list" where
  "baseUniq h array iteratee comparator =
     (if comparator \<noteq> None then uniq_loop h iteratee comparator False array SeenResult []
      else if length array \<ge> LARGE_ARRAY_SIZE
      then (case (if iteratee \<noteq> None then None else createSet h array) of
              Some s \<Rightarrow> setToArray s
            | None \<Rightarrow> uniq_loop h iteratee comparator False array (SeenCache (SetCache_new h [])) [])
      else uniq_loop h iteratee comparator True array (if iteratee \<noteq> None then SeenList [] else SeenResult) [])"

section \<open>Differences\<close>

fun difference_loop ::
  "host \<Rightarrow> (jsval \<Rightarrow> jsval) option \<Rightarrow> (jsval \<Rightarrow> jsval \<Rightarrow> bool) option \<Rightarrow> bool \<Rightarrow>
   seen_store \<Rightarrow> jsval list \<Rightarrow> jsval list \<Rightarrow> jsval list" where
  "difference_loop h iteratee comparator isCommon values [] result = result"
| "difference_loop h iteratee comparator isCommon values (v # array) result =
     (let computed = iter iteratee v; value = unsign_zero comparator v
      in if isCommon \<and> strict_eq computed computed
         then difference_loop h iteratee comparator isCommon values array
                (if scan_loop (seen_list values []) computed (length (seen_list values [])) then result
                 else result @ [value])
         else difference_loop h iteratee comparator isCommon values array
                (if \<not> seen_includes h values [] computed comparator then result @ [value] else result))"

definition baseDifference ::
  "host \<Rightarrow> jsval list \<Rightarrow> jsval list \<Rightarrow> (jsval \<Rightarrow> jsval) option \<Rightarrow> (jsval \<Rightarrow> jsval \<Rightarrow> bool) option \<Rightarrow> jsval list" where
  "baseDifference h array values iteratee comparator =
     (if length array = 0 then []
      else (let values1 = (case iteratee of None \<Rightarrow> values | Some f \<Rightarrow> arrayMap (Some values) (baseUnary f))
            in if comparator \<noteq> None
               then difference_loop h iteratee comparator False (SeenList values1) array []
               else if length values1 \<ge> LARGE_ARRAY_SIZE
               then difference_loop h iteratee comparator False (SeenCache (SetCache_new h values1)) array []
               else difference_loop h iteratee comparator True (SeenList values1) array []))"

section \<open>Intersections\<close>

text \<open>The shortest length of the arrays; None is infinity.\<close>

definition min_length :: "nat option \<Rightarrow> jsval list \<Rightarrow> nat option" where
  "min_length maxLength array =
     (case maxLength of None \<Rightarrow> Some (length array) | Some m \<Rightarrow> Some (min (length array) m))"

definition intersection_cache ::
  "host \<Rightarrow> (jsval \<Rightarrow> jsval) option \<Rightarrow> (jsval \<Rightarrow> jsval \<Rightarrow> bool) option \<Rightarrow> jsval list list \<Rightarrow> nat \<Rightarrow> MapCache option" where
  "intersection_cache h iteratee comparator arrays othIndex =
     (let array = (if othIndex \<noteq> 0 \<and> iteratee \<noteq> None
                   then arrayMap (Some (arrays ! othIndex)) (baseUnary (iter iteratee)) else arrays ! othIndex)
      in if comparator = None \<and> (iteratee \<noteq> None \<or> (length (arrays ! 0) \<ge> 120 \<and> length array \<ge> 120))
         then Some (SetCache_new h (if othIndex \<noteq> 0 then array else [])) else None)"

definition cache_or_array ::
  "host \<Rightarrow> MapCache option \<Rightarrow> jsval list \<Rightarrow> jsval \<Rightarrow> (jsval \<Rightarrow> jsval \<Rightarrow> bool) option \<Rightarrow> bool" where
  "cache_or_array h cache array computed comparator =
     (case cache of
        Some c \<Rightarrow> cacheHas h c computed
      | None \<Rightarrow> (case comparator of
                   None \<Rightarrow> arrayIncludes (Some array) computed
                 | Some f \<Rightarrow> arrayIncludesWith (Some array) computed f))"

text \<open>\<open>while (--othIndex)\<close>: the other arrays from the last to the second.\<close>

fun others_loop ::
  "host \<Rightarrow> MapCache option list \<Rightarrow> jsval list list \<Rightarrow> jsval \<Rightarrow> (jsval \<Rightarrow> jsval \<Rightarrow> bool) option \<Rightarrow> nat \<Rightarrow> bool" where
  "others_loop h caches arrays computed comparator 0 = True"
| "others_loop h caches arrays computed comparator (Suc othIndex) =
     (if othIndex = 0 then True
      else if \<not> cache_or_array h (caches ! othIndex) (arrays ! othIndex) computed comparator then False
      else others_loop h caches arrays computed comparator othIndex)"

fun intersection_loop ::
  "host \<Rightarrow> (jsval \<Rightarrow> jsval) option \<Rightarrow> (jsval \<Rightarrow> jsval \<Rightarrow> bool) option \<Rightarrow> MapCache option list \<Rightarrow>
   jsval list list \<Rightarrow> nat option \<Rightarrow> jsval list \<Rightarrow> MapCache option \<Rightarrow> jsval list \<Rightarrow> jsval list" where
  "intersection_loop h iteratee comparator caches arrays maxLength [] seen result = result"
| "intersection_loop h iteratee comparator caches arrays maxLength (v # array) seen result =
     (if (case maxLength of None \<Rightarrow> True | Some m \<Rightarrow> length result < m)
      then (let computed = iter iteratee v; value = unsign_zero comparator v
            in if \<not> cache_or_array h seen result computed comparator \<and>
                  others_loop h caches arrays computed comparator (length arrays)
               then intersection_loop h iteratee comparator caches arrays maxLength array
                      (map_option (\<lambda>c. setCacheAdd h c computed) seen) (result @ [value])
               else intersection_loop h iteratee comparator caches arrays maxLength array seen result)
      else result)"

definition baseIntersection ::
  "host \<Rightarrow> jsval list list \<Rightarrow> (jsval \<Rightarrow> jsval) option \<Rightarrow> (jsval \<Rightarrow> jsval \<Rightarrow> bool) option \<Rightarrow> jsval list" where
  "baseIntersection h arrays iteratee comparator =
     (let caches = map (intersection_cache h iteratee comparator arrays) [0..<length arrays];
          maxLength = foldr (\<lambda>array m. min_length m array) arrays None
      in intersection_loop h iteratee comparator caches arrays maxLength (arrays ! 0) (caches ! 0) [])"

section \<open>Symmetric differences\<close>

fun xor_loop ::
  "host \<Rightarrow> (jsval \<Rightarrow> jsval) option \<Rightarrow> (jsval \<Rightarrow> jsval \<Rightarrow> bool) option \<Rightarrow>
   jsval list list \<Rightarrow> jsval list option \<Rightarrow> jsval list option" where
  "xor_loop h iteratee comparator [] result = result"
| "xor_loop h iteratee comparator (array # arrays) result =
     xor_loop h iteratee comparator arrays
       (Some (case result of
                Some r \<Rightarrow> arrayPush (baseDifference h r array iteratee comparator)
                                     (baseDifference h array r iteratee comparator)
              | None \<Rightarrow> array))"

definition baseXor ::
  "host \<Rightarrow> jsval list list \<Rightarrow> (jsval \<Rightarrow> jsval) option \<Rightarrow> (jsval \<Rightarrow> jsval \<Rightarrow> bool) option \<Rightarrow> jsval list" where
  "baseXor h arrays iteratee comparator =
     (case xor_loop h iteratee comparator arrays None of
        None \<Rightarrow> []
      | Some result \<Rightarrow> if result \<noteq> [] then baseUniq h result iteratee comparator else [])"

section \<open>The public functions\<close>

text \<open>
  An argument is an array-like object or, in the last position of the By and With variants, the
  iteratee or comparator.
\<close>

datatype 'f arg = ArrArg "jsval list" | FunArg 'f

fun arg_item :: "'f arg \<Rightarrow> jsval item" where
  "arg_item (ArrArg xs) = Nested ArrayLikeObject (map Item xs)"
| "arg_item (FunArg f) = Item Undefined"

fun item_value :: "jsval item \<Rightarrow> jsval" where
  "item_value (Item v) = v"
| "item_value (Nested kind xs) = Undefined"

definition flatten_args :: "'f arg list \<Rightarrow> jsval list" where
  "flatten_args args =
     map item_value (baseFlatten (map arg_item args) (Fin 1) (Some isArrayLikeObject) True [])"

text \<open>The last argument when it is not array-like; \<open>last\<close> of no arguments is undefined.\<close>

fun last_fun :: "'f arg list \<Rightarrow> 'f option" where
  "last_fun [] = None"
| "last_fun [FunArg f] = Some f"
| "last_fun [ArrArg xs] = None"
| "last_fun (a # b # args) = last_fun (b # args)"

text \<open>\<open>getIteratee(undefined)\<close> is the identity function.\<close>

definition getIteratee :: "(jsval \<Rightarrow> jsval) option \<Rightarrow> (jsval \<Rightarrow> jsval)" where
  "getIteratee func = (case func of None \<Rightarrow> (\<lambda>v. v) | Some f \<Rightarrow> f)"

definition difference :: "host \<Rightarrow> jsval list option \<Rightarrow> (jsval \<Rightarrow> jsval) arg list \<Rightarrow> jsval list" where
  "difference h array values =
     (case array of None \<Rightarrow> [] | Some xs \<Rightarrow> baseDifference h xs (flatten_args values) None None)"

definition differenceBy :: "host \<Rightarrow> jsval list option \<Rightarrow> (jsval \<Rightarrow> jsval) arg list \<Rightarrow> jsval list" where
  "differenceBy h array values =
     (let iteratee = last_fun values
      in case array of
           None \<Rightarrow> []
         | Some xs \<Rightarrow> baseDifference h xs (flatten_args values) (Some (getIteratee iteratee)) None)"

definition differenceWith :: "host \<Rightarrow> jsval list option \<Rightarrow> (jsval \<Rightarrow> jsval \<Rightarrow> bool) arg list \<Rightarrow> jsval list" where
  "differenceWith h array values =
     (let comparator = last_fun values
      in case array of
           None \<Rightarrow> []
         | Some xs \<Rightarrow> baseDifference h xs (flatten_args values) None comparator)"

fun castArrayLikeObject :: "'f arg \<Rightarrow> jsval list" where
  "castArrayLikeObject (ArrArg xs) = xs"
| "castArrayLikeObject (FunArg f) = []"

text \<open>\<open>mapped.length && mapped[0] === arrays[0]\<close>: the first argument is array-like.\<close>

definition first_is_array :: "'f arg list \<Rightarrow> jsval list list \<Rightarrow> bool" where
  "first_is_array arrays mapped =
     (mapped \<noteq> [] \<and> (case arrays of ArrArg xs # _ \<Rightarrow> True | _ \<Rightarrow> False))"

definition intersection :: "host \<Rightarrow> (jsval \<Rightarrow> jsval) arg list \<Rightarrow> jsval list" where
  "intersection h arrays =
     (let mapped = arrayMap (Some arrays) (baseUnary castArrayLikeObject)
      in if first_is_array arrays mapped then baseIntersection h mapped None None else [])"

definition intersectionBy :: "host \<Rightarrow> (jsval \<Rightarrow> jsval) arg list \<Rightarrow> jsval list" where
  "intersectionBy h arrays =
     (let iteratee = last_fun arrays;
          mapped = arrayMap (Some arrays) (baseUnary castArrayLikeObject);
          mapped1 = (if iteratee = None then mapped else butlast mapped)
      in if first_is_array arrays mapped1
         then baseIntersection h mapped1 (Some (getIteratee iteratee)) None else [])"

definition intersectionWith :: "host \<Rightarrow> (jsval \<Rightarrow> jsval \<Rightarrow> bool) arg list \<Rightarrow> jsval list" where
  "intersectionWith h arrays =
     (let comparator = last_fun arrays;
          mapped = arrayMap (Some arrays) (baseUnary castArrayLikeObject);
          mapped1 = (if comparator = None then mapped else butlast mapped)
      in if first_is_array arrays mapped1 then baseIntersection h mapped1 None comparator else [])"

definition union_js :: "host \<Rightarrow> (jsval \<Rightarrow> jsval) arg list \<Rightarrow> jsval list" where
  "union_js h arrays = baseUniq h (flatten_args arrays) None None"

definition unionBy :: "host \<Rightarrow> (jsval \<Rightarrow> jsval) arg list \<Rightarrow> jsval list" where
  "unionBy h arrays =
     (let iteratee = last_fun arrays in baseUniq h (flatten_args arrays) (Some (getIteratee iteratee)) None)"

definition unionWith :: "host \<Rightarrow> (jsval \<Rightarrow> jsval \<Rightarrow> bool) arg list \<Rightarrow> jsval list" where
  "unionWith h arrays =
     (let comparator = last_fun arrays in baseUniq h (flatten_args arrays) None comparator)"

definition uniq :: "host \<Rightarrow> jsval list option \<Rightarrow> jsval list" where
  "uniq h array = (if arr_len array \<noteq> 0 then baseUniq h (arr_items array) None None else [])"

definition uniqBy :: "host \<Rightarrow> jsval list option \<Rightarrow> (jsval \<Rightarrow> jsval) \<Rightarrow> jsval list" where
  "uniqBy h array iteratee =
     (if arr_len array \<noteq> 0 then baseUniq h (arr_items array) (Some iteratee) None else [])"

definition uniqWith :: "host \<Rightarrow> jsval list option \<Rightarrow> (jsval \<Rightarrow> jsval \<Rightarrow> bool) option \<Rightarrow> jsval list" where
  "uniqWith h array comparator =
     (if arr_len array \<noteq> 0 then baseUniq h (arr_items array) None comparator else [])"

definition without :: "host \<Rightarrow> jsval list option \<Rightarrow> jsval list \<Rightarrow> jsval list" where
  "without h array values =
     (case array of None \<Rightarrow> [] | Some xs \<Rightarrow> baseDifference h xs values None None)"

text \<open>The arrays among the arguments of \<open>xor\<close>.\<close>

definition arg_arrays :: "'f arg list \<Rightarrow> jsval list list" where
  "arg_arrays args =
     map castArrayLikeObject (arrayFilter (Some args) (\<lambda>a _ _. case a of ArrArg xs \<Rightarrow> True | FunArg f \<Rightarrow> False))"

definition xor_js :: "host \<Rightarrow> (jsval \<Rightarrow> jsval) arg list \<Rightarrow> jsval list" where
  "xor_js h arrays = baseXor h (arg_arrays arrays) None None"

definition xorBy :: "host \<Rightarrow> (jsval \<Rightarrow> jsval) arg list \<Rightarrow> jsval list" where
  "xorBy h arrays =
     (let iteratee = last_fun arrays in baseXor h (arg_arrays arrays) (Some (getIteratee iteratee)) None)"

definition xorWith :: "host \<Rightarrow> (jsval \<Rightarrow> jsval \<Rightarrow> bool) arg list \<Rightarrow> jsval list" where
  "xorWith h arrays = (let comparator = last_fun arrays in baseXor h (arg_arrays arrays) None comparator)"

text \<open>
  The reference: keep an element when the class of its computed value is new. A class is the
  normal form of a value under same-value-zero equality.
\<close>

fun uniq_eq :: "(jsval \<Rightarrow> jsval) \<Rightarrow> jsval set \<Rightarrow> jsval list \<Rightarrow> jsval list" where
  "uniq_eq f S [] = []"
| "uniq_eq f S (x # xs) =
     (if val_norm (f x) \<in> S then uniq_eq f S xs
      else val_norm x # uniq_eq f (insert (val_norm (f x)) S) xs)"

definition classes :: "(jsval \<Rightarrow> jsval) option \<Rightarrow> jsval list \<Rightarrow> jsval set" where
  "classes iteratee xs = (\<lambda>x. val_norm (iter iteratee x)) ` set xs"

text \<open>What a store of seen values holds, as a set of classes.\<close>

fun seen_rel :: "host \<Rightarrow> (jsval \<Rightarrow> jsval) option \<Rightarrow> seen_store \<Rightarrow> jsval list \<Rightarrow> jsval set \<Rightarrow> bool" where
  "seen_rel h iteratee SeenResult result S = (iteratee = None \<and> S = val_norm ` set result)"
| "seen_rel h iteratee (SeenList s) result S = (S = val_norm ` set s)"
| "seen_rel h iteratee (SeenCache c) result S = (map_cache_inv h c \<and> (\<forall>k. cacheHas h c k \<longleftrightarrow> val_norm k \<in> S))"

subsection \<open>Intersections\<close>

fun cache_rel :: "host \<Rightarrow> (jsval \<Rightarrow> jsval) option \<Rightarrow> MapCache option \<Rightarrow> jsval list \<Rightarrow> jsval set \<Rightarrow> bool" where
  "cache_rel h it None xs S = (it = None \<and> S = val_norm ` set xs)"
| "cache_rel h it (Some c) xs S = (map_cache_inv h c \<and> (\<forall>k. cacheHas h c k \<longleftrightarrow> val_norm k \<in> S))"

section \<open>Lemmas\<close>

subsection \<open>Membership tests\<close>

lemma iter_simps [simp]: "iter None = (\<lambda>v. v)" "iter (Some f) = f"
  by (simp_all add: iter_def fun_eq_iff)

lemma unsign_zero_None [simp]: "unsign_zero None v = val_norm v"
proof (cases v)
  case (Num n)
  then show ?thesis by (cases n) (auto simp: unsign_zero_def num_strict_eq_def)
qed (simp_all add: unsign_zero_def)

lemma unsign_zero_Some [simp]: "unsign_zero (Some c) v = v"
  by (simp add: unsign_zero_def)

lemma scan_loop_ex: "n \<le> length xs \<Longrightarrow> scan_loop xs c n \<longleftrightarrow> (\<exists>x\<in>set (take n xs). strict_eq x c)"
  by (induction n) (auto simp: take_Suc_conv_app_nth)

lemma ex_eq_class: "(\<exists>x\<in>set xs. eq x c) \<longleftrightarrow> val_norm c \<in> val_norm ` set xs"
  by (simp add: eq_iff_norm image_iff) metis

lemma scan_loop_class:
  assumes "strict_eq c c"
  shows "scan_loop xs c (length xs) \<longleftrightarrow> val_norm c \<in> val_norm ` set xs"
proof -
  have "strict_eq x c \<longleftrightarrow> eq x c" for x
    using assms by (auto simp: strict_eq_iff strict_eq_self eq_sym eq_NaN baseIsNaN_def)
  then show ?thesis by (simp add: scan_loop_ex ex_eq_class)
qed

lemma arrayIncludes_class: "arrayIncludes (Some xs) c \<longleftrightarrow> val_norm c \<in> val_norm ` set xs"
  by (simp add: ex_eq_class)

lemma seen_includes_class:
  "seen_rel h it seen result S \<Longrightarrow> seen_includes h seen result c None \<longleftrightarrow> val_norm c \<in> S"
  by (cases seen) (simp_all add: ex_eq_class)

lemma seen_scan_class:
  "seen_rel h it seen result S \<Longrightarrow> (\<And>k. seen \<noteq> SeenCache k) \<Longrightarrow> strict_eq c c \<Longrightarrow>
   scan_loop (seen_list seen result) c (length (seen_list seen result)) \<longleftrightarrow> val_norm c \<in> S"
  by (cases seen) (auto simp: scan_loop_class)

lemma cacheHas_add:
  "map_cache_inv h c \<Longrightarrow> cacheHas h (setCacheAdd h c v) k \<longleftrightarrow> val_norm k = val_norm v \<or> cacheHas h c k"
  by (auto simp: cacheHas_def setCacheHas_def setCacheAdd_def mapc.has_put eq_iff_norm)

lemma setCacheAdd_inv: "map_cache_inv h c \<Longrightarrow> map_cache_inv h (setCacheAdd h c v)"
  by (simp add: setCacheAdd_def mapc.invar_put)

lemma SetCache_new_inv: "map_cache_inv h (SetCache_new h vs)"
proof -
  have "map_cache_inv h c \<Longrightarrow> map_cache_inv h (fold (\<lambda>v c. setCacheAdd h c v) vs c)" for c
    by (induction vs arbitrary: c) (auto simp: setCacheAdd_inv)
  then show ?thesis using mapc.invar_new by (simp add: SetCache_new_def)
qed

lemma SetCache_new_rel: "seen_rel h it (SeenCache (SetCache_new h vs)) result (val_norm ` set vs)"
  by (simp add: SetCache_new_inv cacheHas_def SetCache_has ex_eq_class)

lemma seen_rel_push:
  "seen_rel h it seen result S \<Longrightarrow> seen \<noteq> SeenResult \<Longrightarrow>
   seen_rel h it (seen_push h seen c) (result @ [v]) (insert (val_norm c) S)"
  by (cases seen) (auto simp: cacheHas_add setCacheAdd_inv)

lemma uniq_loop_uniq_eq:
  "seen_rel h it seen result S \<Longrightarrow> (isCommon \<Longrightarrow> \<forall>k. seen \<noteq> SeenCache k) \<Longrightarrow>
   (it = None \<and> isCommon \<Longrightarrow> seen = SeenResult) \<Longrightarrow>
   uniq_loop h it None isCommon xs seen result = result @ uniq_eq (iter it) S xs"
proof (induction xs arbitrary: seen result S)
  case (Cons v xs)
  let ?c = "iter it v"
  have t: "seen_includes h seen result ?c None \<longleftrightarrow> val_norm ?c \<in> S" by (rule seen_includes_class [OF Cons.prems(1)])
  have s: "isCommon \<Longrightarrow> strict_eq ?c ?c \<Longrightarrow>
      scan_loop (seen_list seen result) ?c (length (seen_list seen result)) \<longleftrightarrow> val_norm ?c \<in> S"
    using Cons.prems by (intro seen_scan_class) auto
  show ?case
  proof (cases "val_norm ?c \<in> S")
    case True
    then show ?thesis using s t Cons.IH [OF Cons.prems] by (cases isCommon) (simp_all add: Let_def)
  next
    case False
    define sn where "sn = (if seen = SeenResult then SeenResult else seen_push h seen ?c)"
    have r: "seen_rel h it sn (result @ [val_norm v]) (insert (val_norm ?c) S)"
      using Cons.prems(1) seen_rel_push [OF Cons.prems(1)] by (cases "seen = SeenResult") (auto simp: sn_def)
    have c: "isCommon \<Longrightarrow> \<forall>k. sn \<noteq> SeenCache k" "it = None \<and> isCommon \<Longrightarrow> sn = SeenResult"
      using Cons.prems(2,3) by (cases seen; auto simp: sn_def)+
    have p: "seen_push h seen ?c = sn" by (cases seen) (auto simp: sn_def)
    have q: "(if it \<noteq> None then seen_push h seen ?c else seen) = sn" if "isCommon"
      using Cons.prems(3) that p by (cases "it = None") (auto simp: sn_def)
    show ?thesis using False s t q Cons.IH [OF r c]
      by (cases isCommon; cases "strict_eq ?c ?c") (simp_all add: Let_def p)
  qed
qed simp

lemma es_set_uniq: "fold (\<lambda>v s. es_set_add s v) xs s = s @ uniq_eq (\<lambda>v. v) (val_norm ` set s) xs"
proof (induction xs arbitrary: s)
  case (Cons x xs)
  have "(\<exists>y\<in>set s. eq y x) \<longleftrightarrow> val_norm x \<in> val_norm ` set s" by (rule ex_eq_class)
  with Cons show ?case by (simp add: es_set_add_def)
qed simp

lemma baseUniq_uniq_eq: "baseUniq h xs it None = uniq_eq (iter it) {} xs"
proof (cases "length xs \<ge> LARGE_ARRAY_SIZE \<and> it = None \<and> nativeSet h")
  case True
  then show ?thesis by (simp add: baseUniq_def createSet_def setToArray_def es_set_uniq)
next
  case False
  have c: "seen_rel h it (SeenCache (SetCache_new h [])) [] {}" using SetCache_new_rel [of h it "[]" "[]"] by simp
  from False show ?thesis
    using uniq_loop_uniq_eq [OF c, of False xs] uniq_loop_uniq_eq [of h it "SeenList []" "[]" "{}" True xs]
      uniq_loop_uniq_eq [of h it SeenResult "[]" "{}" True xs]
    by (auto simp: baseUniq_def createSet_def)
qed

lemma uniq_eq_append: "uniq_eq f S (xs @ ys) = uniq_eq f S xs @ uniq_eq f (S \<union> (\<lambda>x. val_norm (f x)) ` set xs) ys"
  by (induction xs arbitrary: S) (auto simp: insert_absorb)

lemma uniq_eq_classes: "val_norm ` set (uniq_eq (\<lambda>v. v) S xs) = val_norm ` set xs - S"
  by (induction xs arbitrary: S) auto

lemma uniq_eq_distinct: "distinct (uniq_eq (\<lambda>v. v) S xs) \<and> set (uniq_eq (\<lambda>v. v) S xs) \<inter> S = {}"
proof (induction xs arbitrary: S)
  case (Cons x xs)
  from Cons [of S] Cons [of "insert (val_norm x) S"] show ?case by auto
qed simp

subsection \<open>Differences\<close>

lemma difference_loop_filter:
  assumes "seen_rel h it' vals [] S" "isCommon \<Longrightarrow> \<forall>k. vals \<noteq> SeenCache k"
  shows "difference_loop h it None isCommon vals xs result =
    result @ map val_norm (filter (\<lambda>x. val_norm (iter it x) \<notin> S) xs)"
proof (induction xs arbitrary: result)
  case (Cons v xs)
  have "seen_includes h vals [] (iter it v) None \<longleftrightarrow> val_norm (iter it v) \<in> S"
    by (rule seen_includes_class [OF assms(1)])
  moreover have "isCommon \<Longrightarrow> strict_eq (iter it v) (iter it v) \<Longrightarrow>
      scan_loop (seen_list vals []) (iter it v) (length (seen_list vals [])) \<longleftrightarrow> val_norm (iter it v) \<in> S"
    using assms by (intro seen_scan_class) auto
  ultimately show ?case using Cons.IH by (auto simp: Let_def)
qed simp

lemma difference_loop_with:
  "difference_loop h it (Some c) False (SeenList vs) xs result =
     result @ filter (\<lambda>x. \<not> (\<exists>v\<in>set vs. c (iter it x) v)) xs"
  by (induction xs arbitrary: result) (auto simp: Let_def)

lemma baseDifference_filter:
  "baseDifference h xs vs it None = map val_norm (filter (\<lambda>x. val_norm (iter it x) \<notin> classes it vs) xs)"
proof -
  define ws where "ws = (case it of None \<Rightarrow> vs | Some f \<Rightarrow> map f vs)"
  have ws: "val_norm ` set ws = classes it vs" by (auto simp: ws_def classes_def split: option.split)
  show ?thesis
    using difference_loop_filter [of h it "SeenList ws" "classes it vs" True it xs "[]"]
      difference_loop_filter [of h it "SeenCache (SetCache_new h ws)" "classes it vs" False it xs "[]"]
      SetCache_new_rel [of h it ws "[]"] ws
    by (cases it) (auto simp: baseDifference_def Let_def ws_def)
qed

lemma baseDifference_with:
  "baseDifference h xs vs None (Some c) = filter (\<lambda>x. \<not> (\<exists>v\<in>set vs. c x v)) xs"
  by (simp add: baseDifference_def Let_def difference_loop_with)

lemma cache_or_array_class: "cache_rel h it cache xs S \<Longrightarrow> cache_or_array h cache xs c None \<longleftrightarrow> val_norm c \<in> S"
  by (cases cache) (auto simp: cache_or_array_def arrayIncludes_class simp del: arrayIncludes_eq)

lemma SetCache_new_class: "cacheHas h (SetCache_new h vs) k \<longleftrightarrow> val_norm k \<in> val_norm ` set vs"
  by (simp add: cacheHas_def SetCache_has ex_eq_class)

lemma intersection_cache_rel:
  assumes "i < length arrays"
  shows "i \<noteq> 0 \<Longrightarrow> cache_rel h it (intersection_cache h it None arrays i) (arrays ! i) (classes it (arrays ! i))"
    and "cache_rel h it (intersection_cache h it None arrays 0) [] {}"
  by (cases it; auto simp: intersection_cache_def Let_def SetCache_new_inv SetCache_new_class classes_def image_image)+

lemma others_loop_all:
  assumes "\<And>i. i \<noteq> 0 \<Longrightarrow> i < length arrays \<Longrightarrow> cache_rel h it (caches ! i) (arrays ! i) (classes it (arrays ! i))"
  shows "n \<le> length arrays \<Longrightarrow>
    others_loop h caches arrays c None n \<longleftrightarrow> (\<forall>i<n. i \<noteq> 0 \<longrightarrow> val_norm c \<in> classes it (arrays ! i))"
proof (induction n)
  case (Suc n)
  then show ?case
    using cache_or_array_class [OF assms, of n c] by (auto simp: less_Suc_eq)
qed simp

lemma uniq_eq_seen: "\<forall>x\<in>set xs. val_norm (f x) \<in> S \<Longrightarrow> uniq_eq f S xs = []"
  by (induction xs) auto

lemma cache_rel_push:
  "cache_rel h it seen result S \<Longrightarrow>
   cache_rel h it (map_option (\<lambda>c. setCacheAdd h c (iter it v)) seen) (result @ [val_norm v]) (insert (val_norm (iter it v)) S)"
  by (cases seen) (auto simp: cacheHas_add setCacheAdd_inv)

lemma card_class_full:
  assumes "length zs \<le> card S" "S \<subseteq> classes it zs"
  shows "S = classes it zs"
proof (rule card_seteq [OF _ assms(2)])
  show "finite (classes it zs)" by (simp add: classes_def)
  have "card (classes it zs) \<le> length zs"
    unfolding classes_def by (metis card_image_le card_length finite_set le_trans)
  then show "card (classes it zs) \<le> card S" using assms(1) by simp
qed

text \<open>The classes found so far number at most the shortest length, so the cap loses nothing.\<close>

lemma intersection_loop_uniq:
  assumes caches: "\<And>i. i \<noteq> 0 \<Longrightarrow> i < length arrays \<Longrightarrow> cache_rel h it (caches ! i) (arrays ! i) (classes it (arrays ! i))"
    and m: "i0 < length arrays" "m = length (arrays ! i0)"
  defines "ok \<equiv> \<lambda>x. \<forall>i<length arrays. i \<noteq> 0 \<longrightarrow> val_norm (iter it x) \<in> classes it (arrays ! i)"
  shows "set xs \<subseteq> set (arrays ! 0) \<Longrightarrow> cache_rel h it seen result S \<Longrightarrow> finite S \<Longrightarrow> card S = length result \<Longrightarrow>
    (\<forall>i<length arrays. S \<subseteq> classes it (arrays ! i)) \<Longrightarrow>
    intersection_loop h it None caches arrays (Some m) xs seen result = result @ uniq_eq (iter it) S (filter ok xs)"
proof (induction xs arbitrary: seen result S)
  case (Cons v xs)
  let ?c = "iter it v"
  show ?case
  proof (cases "length result < m")
    case False
    then have "S = classes it (arrays ! i0)"
      using card_class_full [of "arrays ! i0" S it] m Cons.prems(4,5) by simp
    then have "\<forall>x\<in>set (filter ok (v # xs)). val_norm (iter it x) \<in> S"
      using m(1) Cons.prems(1) by (cases "i0 = 0") (auto simp: ok_def classes_def)
    then have "uniq_eq (iter it) S (filter ok (v # xs)) = []" by (rule uniq_eq_seen)
    with False show ?thesis by (simp only: intersection_loop.simps option.case if_False append_Nil2)
  next
    case True
    have o: "others_loop h caches arrays ?c None (length arrays) \<longleftrightarrow> ok v"
      using others_loop_all [OF caches, where c = ?c and n = "length arrays"] by (auto simp: ok_def)
    have t: "cache_or_array h seen result ?c None \<longleftrightarrow> val_norm ?c \<in> S" by (rule cache_or_array_class [OF Cons.prems(2)])
    show ?thesis
    proof (cases "ok v \<and> val_norm ?c \<notin> S")
      case new: True
      have "\<forall>i<length arrays. insert (val_norm ?c) S \<subseteq> classes it (arrays ! i)"
      proof (intro allI impI)
        fix i assume "i < length arrays"
        then show "insert (val_norm ?c) S \<subseteq> classes it (arrays ! i)"
          using new Cons.prems(1,5) by (cases "i = 0") (auto simp: ok_def classes_def)
      qed
      then have "intersection_loop h it None caches arrays (Some m) xs
            (map_option (\<lambda>c. setCacheAdd h c ?c) seen) (result @ [val_norm v]) =
          (result @ [val_norm v]) @ uniq_eq (iter it) (insert (val_norm ?c) S) (filter ok xs)"
        using Cons.prems(1,3,4) new by (intro Cons.IH cache_rel_push [OF Cons.prems(2)]) auto
      then show ?thesis using True new o t by (simp add: Let_def)
    next
      case False
      then have "intersection_loop h it None caches arrays (Some m) (v # xs) seen result =
          intersection_loop h it None caches arrays (Some m) xs seen result"
        using True o t by (auto simp: Let_def)
      moreover have "uniq_eq (iter it) S (filter ok (v # xs)) = uniq_eq (iter it) S (filter ok xs)"
        using False by auto
      ultimately show ?thesis using Cons.IH [OF _ Cons.prems(2-)] Cons.prems(1) by simp
    qed
  qed
qed simp

lemma min_length_attained:
  "arrays \<noteq> [] \<Longrightarrow> \<exists>i<length arrays. foldr (\<lambda>a m. min_length m a) arrays None = Some (length (arrays ! i))"
proof (induction arrays)
  case (Cons a as)
  show ?case
  proof (cases "as = []")
    case False
    with Cons obtain i where "i < length as" "foldr (\<lambda>a m. min_length m a) as None = Some (length (as ! i))" by blast
    then show ?thesis
      by (intro exI [of _ "if length a \<le> length (as ! i) then 0 else Suc i"]) (auto simp: min_length_def)
  qed (auto simp: min_length_def)
qed simp

lemma baseIntersection_uniq:
  assumes "arrays \<noteq> []"
  shows "baseIntersection h arrays it None =
    uniq_eq (iter it) {} (filter (\<lambda>x. \<forall>i<length arrays. i \<noteq> 0 \<longrightarrow> val_norm (iter it x) \<in> classes it (arrays ! i)) (arrays ! 0))"
proof -
  obtain i0 where i0: "i0 < length arrays" "foldr (\<lambda>a m. min_length m a) arrays None = Some (length (arrays ! i0))"
    using min_length_attained [OF assms] by blast
  let ?caches = "map (intersection_cache h it None arrays) [0..<length arrays]"
  have c0: "cache_rel h it (?caches ! 0) [] {}"
    using assms intersection_cache_rel(2) [of 0 arrays h it] by simp
  show ?thesis
    unfolding baseIntersection_def Let_def i0(2)
    by (subst intersection_loop_uniq [OF _ i0(1) refl _ c0])
      (auto simp: intersection_cache_rel)
qed

subsection \<open>Arguments\<close>

lemma baseFlatten_strict_one:
  "baseFlatten xs (Fin 1) (Some p) True result = result @ concat (map (\<lambda>v. if p v then item_list v else []) xs)"
  by (induction xs arbitrary: result) simp_all

lemma flatten_args_concat: "flatten_args args = concat (map castArrayLikeObject args)"
  unfolding flatten_args_def baseFlatten_strict_one
proof (induction args)
  case (Cons a args)
  then show ?case by (cases a) (simp_all add: comp_def)
qed simp

subsection \<open>Symmetric differences\<close>

lemma classes_None: "classes None xs = val_norm ` set xs"
  by (simp add: classes_def)

lemma classes_difference: "classes None (baseDifference h xs ys None None) = classes None xs - classes None ys"
  by (auto simp: baseDifference_filter classes_None image_image)

lemma classes_append: "classes it (xs @ ys) = classes it xs \<union> classes it ys"
  by (simp add: classes_def image_Un)

lemma xor_loop_parity:
  "\<exists>r'. xor_loop h None None arrays (Some r) = Some r' \<and>
    (\<forall>c. c \<in> classes None r' \<longleftrightarrow> (c \<in> classes None r) \<noteq> odd (length (filter (\<lambda>a. c \<in> classes None a) arrays)))"
proof (induction arrays arbitrary: r)
  case (Cons a arrays)
  let ?r = "baseDifference h r a None None @ baseDifference h a r None None"
  have "c \<in> classes None ?r \<longleftrightarrow> (c \<in> classes None r) \<noteq> (c \<in> classes None a)" for c
    by (auto simp: classes_append classes_difference)
  with Cons [of ?r] show ?case by auto
qed simp

lemma baseXor_parity:
  "distinct (baseXor h arrays None None) \<and>
   set (baseXor h arrays None None) = {c. odd (length (filter (\<lambda>a. c \<in> classes None a) arrays))}"
proof (cases arrays)
  case (Cons a as)
  obtain r where r: "xor_loop h None None as (Some a) = Some r"
    "\<forall>c. c \<in> classes None r \<longleftrightarrow> (c \<in> classes None a) \<noteq> odd (length (filter (\<lambda>a. c \<in> classes None a) as))"
    using xor_loop_parity [of h as a] by blast
  have "set (uniq_eq (\<lambda>v. v) {} r) = classes None r"
  proof -
    have "val_norm v = v" if "v \<in> set (uniq_eq (\<lambda>v. v) S xs)" for v S xs
      using that by (induction xs arbitrary: S) (auto split: if_splits)
    then have "val_norm ` set (uniq_eq (\<lambda>v. v) {} r) = set (uniq_eq (\<lambda>v. v) {} r)" by force
    then show ?thesis using uniq_eq_classes [of "{}" r] by (simp add: classes_None)
  qed
  moreover have "baseXor h arrays None None = uniq_eq (\<lambda>v. v) {} r"
    using r(1) by (auto simp: Cons baseXor_def baseUniq_uniq_eq)
  ultimately show ?thesis using uniq_eq_distinct [of "{}" r] r(2) by (auto simp: Cons)
qed (simp add: baseXor_def)

section \<open>Properties\<close>

text \<open>
  (C22) The result of \<open>uniq\<close> and \<open>uniqBy\<close> does not depend on the length threshold, the hash caches or
  the native set of the host: it keeps the first element of every same-value-zero class of
  computed values, in order, and \<open>uniq\<close> has every class exactly once.
\<close>

theorem uniq_keeps_first:
  "uniq h (Some xs) = uniq_eq (\<lambda>v. v) {} xs \<and> uniqBy h (Some xs) f = uniq_eq f {} xs \<and>
   distinct (uniq h (Some xs)) \<and> val_norm ` set (uniq h (Some xs)) = val_norm ` set xs"
proof -
  have "uniq h (Some xs) = uniq_eq (\<lambda>v. v) {} xs" "uniqBy h (Some xs) f = uniq_eq f {} xs"
    by (auto simp: uniq_def uniqBy_def baseUniq_uniq_eq)
  then show ?thesis using uniq_eq_distinct [of "{}" xs] uniq_eq_classes [of "{}" xs] by simp
qed

text \<open>
  (C13) \<open>differenceBy\<close> and \<open>intersectionBy\<close> compute the difference and the intersection of the classes
  of computed values, for every host and every length: the caches, the scans and the early stop
  at the shortest length agree with the filters.
\<close>

theorem difference_intersection_filters:
  assumes "arrays = map ArrArg xss @ [FunArg f]"
  shows "differenceBy h (Some xs) arrays =
      map val_norm (filter (\<lambda>x. \<not> (\<exists>ys\<in>set xss. \<exists>y\<in>set ys. eq (f x) (f y))) xs) \<and>
    intersectionBy h (ArrArg xs # arrays) =
      uniq_eq f {} (filter (\<lambda>x. \<forall>ys\<in>set xss. \<exists>y\<in>set ys. eq (f x) (f y)) xs)"
proof
  have last: "last_fun (as @ [FunArg f]) = Some f" for as :: "(jsval \<Rightarrow> jsval) arg list"
  proof (induction as)
    case (Cons a as)
    then show ?case by (cases as) simp_all
  qed simp
  have cast: "map castArrayLikeObject (map ArrArg xss) = xss" by (simp add: comp_def)
  have cls: "val_norm (f x) \<in> classes (Some f) ys \<longleftrightarrow> (\<exists>y\<in>set ys. eq (f x) (f y))" for x ys
    by (auto simp: classes_def eq_iff_norm)
  have "flatten_args arrays = concat xss" by (simp add: flatten_args_concat assms cast comp_def)
  then show "differenceBy h (Some xs) arrays =
      map val_norm (filter (\<lambda>x. \<not> (\<exists>ys\<in>set xss. \<exists>y\<in>set ys. eq (f x) (f y))) xs)"
    by (auto simp: differenceBy_def Let_def assms last getIteratee_def baseDifference_filter cls intro!: filter_cong)
  have all: "(\<forall>i<Suc (length xss). 0 < i \<longrightarrow> (\<exists>y\<in>set (xss ! (i - Suc 0)). eq (f x) (f y))) \<longleftrightarrow>
      (\<forall>ys\<in>set xss. \<exists>y\<in>set ys. eq (f x) (f y))" for x
    by (simp add: all_set_conv_all_nth All_less_Suc2)
  show "intersectionBy h (ArrArg xs # arrays) =
      uniq_eq f {} (filter (\<lambda>x. \<forall>ys\<in>set xss. \<exists>y\<in>set ys. eq (f x) (f y)) xs)"
    using last [of "ArrArg xs # map ArrArg xss"]
    by (simp add: intersectionBy_def Let_def assms first_is_array_def cast getIteratee_def butlast_append
        baseIntersection_uniq cls all comp_def)
qed

theorem difference_intersection_filters_witness:
  "differenceBy \<lparr>nativeCreate = True, nativeMap = True, nativeSet = True\<rparr> (Some [Null, Undefined]) [ArrArg [Null], FunArg (\<lambda>v. v)]
     = [Undefined]"
proof -
  have "[ArrArg [Null], FunArg (\<lambda>v. v)] = map ArrArg [[Null]] @ [FunArg (\<lambda>v. v)]" by simp
  from difference_intersection_filters [OF this, of "\<lparr>nativeCreate = True, nativeMap = True, nativeSet = True\<rparr>" "[Null, Undefined]"]
  show ?thesis by (simp add: eq_iff_norm)
qed

text \<open>
  \<open>xor\<close> returns, once each, the classes that occur in an odd number of the arrays.
\<close>

theorem xor_odd_occurrences:
  "distinct (xor_js h arrays) \<and>
   set (xor_js h arrays) = {c. odd (length (filter (\<lambda>a. c \<in> val_norm ` set a) (arg_arrays arrays)))}"
  using baseXor_parity [of h "arg_arrays arrays"] by (simp add: xor_js_def classes_None)

end
