(* ===== verification/JsSorted.thy ===== *)
theory JsSorted
  imports JsSets JsMath "HOL-Library.Multiset" "HOL-Library.Product_Lexorder"
begin

text \<open>
  Sorting and sorted arrays in lodash.js: the binary searches \<open>baseSortedIndex\<close> and \<open>baseSortedIndexBy\<close> with
  the functions on top of them, \<open>baseSortedUniq\<close>, the comparators \<open>compareAscending\<close> and
  \<open>compareMultiple\<close>, and \<open>orderBy\<close> and \<open>sortBy\<close>. The sort method of the host's arrays is a parameter.
\<close>

section \<open>Binary search\<close>

text \<open>
  The search on numbers halves with an unsigned 32-bit shift. Whether it returns depends on that shift not
  wrapping, so that the loop is partial: None stands for a loop that never ends.
\<close>

partial_function (option) sorted_index_loop :: "jsval list \<Rightarrow> jsval \<Rightarrow> bool \<Rightarrow> nat \<Rightarrow> nat \<Rightarrow> nat option" where
  "sorted_index_loop array value retHighest low high =
     (if low < high
      then (let mid = ((low + high) mod 2 ^ 32) div 2; computed = arr_get array mid
            in if computed \<noteq> Null \<and> \<not> isSymbol computed \<and>
                  (if retHighest then js_le computed value else js_less computed value)
               then sorted_index_loop array value retHighest (mid + 1) high
               else sorted_index_loop array value retHighest low mid)
      else Some high)"

definition setLow :: "jsval \<Rightarrow> bool \<Rightarrow> jsval \<Rightarrow> bool" where
  "setLow value retHighest computed =
     (let othIsDefined = (computed \<noteq> Undefined);
          othIsNull = (computed = Null);
          othIsReflexive = strict_eq computed computed;
          othIsSymbol = isSymbol computed
      in if \<not> strict_eq value value then retHighest \<or> othIsReflexive
         else if value = Undefined then othIsReflexive \<and> (retHighest \<or> othIsDefined)
         else if value = Null then othIsReflexive \<and> othIsDefined \<and> (retHighest \<or> \<not> othIsNull)
         else if isSymbol value then othIsReflexive \<and> othIsDefined \<and> \<not> othIsNull \<and> (retHighest \<or> \<not> othIsSymbol)
         else if othIsNull \<or> othIsSymbol then False
         else if retHighest then js_le computed value else js_less computed value)"

function sorted_index_by_loop :: "jsval list \<Rightarrow> jsval \<Rightarrow> (jsval \<Rightarrow> jsval) \<Rightarrow> bool \<Rightarrow> nat \<Rightarrow> nat \<Rightarrow> nat" where
  "sorted_index_by_loop array value iteratee retHighest low high =
     (if low < high
      then (let mid = (low + high) div 2
            in if setLow value retHighest (iteratee (arr_get array mid))
               then sorted_index_by_loop array value iteratee retHighest (mid + 1) high
               else sorted_index_by_loop array value iteratee retHighest low mid)
      else high)"
  by pat_completeness auto

termination
  by (relation "measure (\<lambda>(a, v, i, r, low, high). high - low)") auto

declare sorted_index_by_loop.simps [simp del]

definition baseSortedIndexBy :: "jsval list option \<Rightarrow> jsval \<Rightarrow> (jsval \<Rightarrow> jsval) \<Rightarrow> bool \<Rightarrow> nat" where
  "baseSortedIndexBy array value iteratee retHighest =
     min (sorted_index_by_loop (arr_items array) (iteratee value) iteratee retHighest 0 (arr_len array)) (nat MAX_ARRAY_INDEX)"

definition baseSortedIndex :: "jsval list option \<Rightarrow> jsval \<Rightarrow> bool \<Rightarrow> nat option" where
  "baseSortedIndex array value retHighest =
     (if js_typeof value = TNumber \<and> strict_eq value value \<and> int (arr_len array) \<le> HALF_MAX_ARRAY_LENGTH
      then sorted_index_loop (arr_items array) value retHighest 0 (arr_len array)
      else Some (baseSortedIndexBy array value (\<lambda>v. v) retHighest))"

definition sortedIndex :: "jsval list option \<Rightarrow> jsval \<Rightarrow> nat option" where
  "sortedIndex array value = baseSortedIndex array value False"

definition sortedIndexBy :: "jsval list option \<Rightarrow> jsval \<Rightarrow> (jsval \<Rightarrow> jsval) \<Rightarrow> nat" where
  "sortedIndexBy array value iteratee = baseSortedIndexBy array value iteratee False"

definition sortedIndexOf :: "jsval list option \<Rightarrow> jsval \<Rightarrow> int option" where
  "sortedIndexOf array value =
     (if arr_len array \<noteq> 0
      then map_option (\<lambda>index. if index < arr_len array \<and> eq (arr_get (arr_items array) index) value then int index else -1)
             (baseSortedIndex array value False)
      else Some (-1))"

definition sortedLastIndex :: "jsval list option \<Rightarrow> jsval \<Rightarrow> nat option" where
  "sortedLastIndex array value = baseSortedIndex array value True"

definition sortedLastIndexBy :: "jsval list option \<Rightarrow> jsval \<Rightarrow> (jsval \<Rightarrow> jsval) \<Rightarrow> nat" where
  "sortedLastIndexBy array value iteratee = baseSortedIndexBy array value iteratee True"

text \<open>The index before the first is -1, where an array has no element.\<close>

definition sortedLastIndexOf :: "jsval list option \<Rightarrow> jsval \<Rightarrow> int option" where
  "sortedLastIndexOf array value =
     (if arr_len array \<noteq> 0
      then map_option (\<lambda>last. let index = int last - 1;
                                  elem = (if index < 0 then Undefined else arr_get (arr_items array) (nat index))
                              in if eq elem value then index else -1)
             (baseSortedIndex array value True)
      else Some (-1))"

section \<open>Sorted duplicates\<close>

fun sorted_uniq_loop :: "jsval list \<Rightarrow> (jsval \<Rightarrow> jsval) \<Rightarrow> jsval option \<Rightarrow> jsval list \<Rightarrow> jsval list" where
  "sorted_uniq_loop [] iteratee seen res = res"
| "sorted_uniq_loop (value # array) iteratee seen res =
     (let computed = iteratee value
      in if (case seen of None \<Rightarrow> True | Some s \<Rightarrow> \<not> eq computed s)
         then sorted_uniq_loop array iteratee (Some computed) (res @ [if strict_eq value (Num (Fin 0)) then Num (Fin 0) else value])
         else sorted_uniq_loop array iteratee seen res)"

definition baseSortedUniq :: "jsval list \<Rightarrow> (jsval \<Rightarrow> jsval) option \<Rightarrow> jsval list" where
  "baseSortedUniq array iteratee =
     sorted_uniq_loop array (case iteratee of None \<Rightarrow> (\<lambda>v. v) | Some f \<Rightarrow> f) None []"

definition sortedUniq :: "jsval list option \<Rightarrow> jsval list" where
  "sortedUniq array = (if arr_len array \<noteq> 0 then baseSortedUniq (arr_items array) None else [])"

definition sortedUniqBy :: "jsval list option \<Rightarrow> (jsval \<Rightarrow> jsval) \<Rightarrow> jsval list" where
  "sortedUniqBy array iteratee = (if arr_len array \<noteq> 0 then baseSortedUniq (arr_items array) (Some iteratee) else [])"

section \<open>Comparators and sorting\<close>

definition compareAscending :: "jsval \<Rightarrow> jsval \<Rightarrow> int" where
  "compareAscending value other =
     (if strict_eq value other then 0
      else
        (let valIsDefined = (value \<noteq> Undefined); valIsNull = (value = Null);
             valIsReflexive = strict_eq value value; valIsSymbol = isSymbol value;
             othIsDefined = (other \<noteq> Undefined); othIsNull = (other = Null);
             othIsReflexive = strict_eq other other; othIsSymbol = isSymbol other
         in if (\<not> othIsNull \<and> \<not> othIsSymbol \<and> \<not> valIsSymbol \<and> js_less other value) \<or>
               (valIsSymbol \<and> othIsDefined \<and> othIsReflexive \<and> \<not> othIsNull \<and> \<not> othIsSymbol) \<or>
               (valIsNull \<and> othIsDefined \<and> othIsReflexive) \<or>
               (\<not> valIsDefined \<and> othIsReflexive) \<or>
               \<not> valIsReflexive then 1
            else if (\<not> valIsNull \<and> \<not> valIsSymbol \<and> \<not> othIsSymbol \<and> js_less value other) \<or>
               (othIsSymbol \<and> valIsDefined \<and> valIsReflexive \<and> \<not> valIsNull \<and> \<not> valIsSymbol) \<or>
               (othIsNull \<and> valIsDefined \<and> valIsReflexive) \<or>
               (\<not> othIsDefined \<and> valIsReflexive) \<or>
               \<not> othIsReflexive then -1
            else 0))"

record sort_entry =
  criteria :: "jsval list"
  index :: nat
  entry_value :: jsval

text \<open>The loop over the criteria: 0 if no criterion decides.\<close>

fun compare_criteria :: "jsval list \<Rightarrow> jsval list \<Rightarrow> string list \<Rightarrow> int" where
  "compare_criteria [] ys orders = 0"
| "compare_criteria (x # xs) ys orders =
     (let res = compareAscending x (case ys of [] \<Rightarrow> Undefined | y # _ \<Rightarrow> y)
      in if res \<noteq> 0 then (case orders of [] \<Rightarrow> res | order # _ \<Rightarrow> res * (if order = ''desc'' then -1 else 1))
         else compare_criteria xs (tl ys) (tl orders))"

definition compareMultiple :: "sort_entry \<Rightarrow> sort_entry \<Rightarrow> string list \<Rightarrow> int" where
  "compareMultiple object other orders =
     (let res = compare_criteria (criteria object) (criteria other) orders
      in if res \<noteq> 0 then res else int (index object) - int (index other))"

text \<open>The sort method of an array: it returns the array sorted by a comparator.\<close>

type_synonym host_sort = "(sort_entry \<Rightarrow> sort_entry \<Rightarrow> int) \<Rightarrow> sort_entry list \<Rightarrow> sort_entry list"

definition baseSortBy :: "host_sort \<Rightarrow> sort_entry list \<Rightarrow> (sort_entry \<Rightarrow> sort_entry \<Rightarrow> int) \<Rightarrow> jsval list" where
  "baseSortBy sort_host array comparer = map entry_value (sort_host comparer array)"

fun order_entries :: "jsval list \<Rightarrow> (jsval \<Rightarrow> jsval) list \<Rightarrow> nat \<Rightarrow> sort_entry list" where
  "order_entries [] iteratees i = []"
| "order_entries (value # collection) iteratees i =
     \<lparr>criteria = map (\<lambda>iteratee. iteratee value) iteratees, index = i, entry_value = value\<rparr> #
     order_entries collection iteratees (Suc i)"

definition baseOrderBy :: "host_sort \<Rightarrow> jsval list \<Rightarrow> (jsval \<Rightarrow> jsval) list \<Rightarrow> string list \<Rightarrow> jsval list" where
  "baseOrderBy sort_host collection iteratees orders =
     (let its = (if iteratees \<noteq> [] then iteratees else [\<lambda>v. v])
      in baseSortBy sort_host (order_entries collection its 0) (\<lambda>object other. compareMultiple object other orders))"

text \<open>An argument that may be left out, be one value or be an array of values.\<close>

datatype 'a one_or_many = Absent | One 'a | Many "'a list"

fun many :: "'a one_or_many \<Rightarrow> 'a list" where
  "many Absent = []"
| "many (One x) = [x]"
| "many (Many xs) = xs"

definition orderBy ::
  "host_sort \<Rightarrow> jsval list option \<Rightarrow> (jsval \<Rightarrow> jsval) one_or_many \<Rightarrow> string one_or_many \<Rightarrow> bool \<Rightarrow> jsval list" where
  "orderBy sort_host collection iteratees orders guard =
     (case collection of
        None \<Rightarrow> []
      | Some xs \<Rightarrow> baseOrderBy sort_host xs (many iteratees) (many (if guard then Absent else orders)))"

text \<open>The two flags are the results of the tests for a call as an iteratee.\<close>

definition sortBy ::
  "host_sort \<Rightarrow> jsval list option \<Rightarrow> (jsval \<Rightarrow> jsval) one_or_many list \<Rightarrow> bool \<Rightarrow> bool \<Rightarrow> jsval list" where
  "sortBy sort_host collection iteratees call1 call2 =
     (case collection of
        None \<Rightarrow> []
      | Some xs \<Rightarrow>
          (let its = (if length iteratees > 1 \<and> call1 then []
                      else if length iteratees > 2 \<and> call2 then [hd iteratees] else iteratees)
           in baseOrderBy sort_host xs (concat (map many its)) []))"

section \<open>Specifications\<close>

text \<open>
  The values that \<open>compareAscending\<close> orders: numbers other than NaN, then symbols, null and undefined. Strings
  among themselves are ordered as well, but not consistently with numbers.
\<close>

fun sortable :: "jsval \<Rightarrow> bool" where
  "sortable (Num n) = (n \<noteq> NaN)"
| "sortable (Sym k) = True"
| "sortable Null = True"
| "sortable Undefined = True"
| "sortable v = False"

fun sort_rank :: "jsval \<Rightarrow> nat \<times> rat" where
  "sort_rank (Num NInf) = (0, 0)"
| "sort_rank (Num (Fin q)) = (1, q)"
| "sort_rank (Num NegZero) = (1, 0)"
| "sort_rank (Num PInf) = (2, 0)"
| "sort_rank (Sym k) = (3, 0)"
| "sort_rank Null = (4, 0)"
| "sort_rank Undefined = (5, 0)"
| "sort_rank v = (6, 0)"

text \<open>
  The order of lists of criteria: the first criterion whose ranks differ decides, the other way round where the order asked for is descending.
\<close>

fun in_order :: "string list \<Rightarrow> jsval list \<Rightarrow> jsval list \<Rightarrow> bool" where
  "in_order orders (x # xs) (y # ys) =
     (if sort_rank x = sort_rank y then in_order (tl orders) xs ys
      else if orders \<noteq> [] \<and> hd orders = ''desc'' then sort_rank y < sort_rank x else sort_rank x < sort_rank y)"
| "in_order orders xs ys = True"

definition same_rank :: "(jsval \<Rightarrow> jsval) list \<Rightarrow> jsval \<Rightarrow> jsval \<Rightarrow> bool" where
  "same_rank its x y = list_all (\<lambda>f. sort_rank (f x) = sort_rank (f y)) its"

text \<open>A comparator that is consistent on a set of entries.\<close>

definition consistent :: "(sort_entry \<Rightarrow> sort_entry \<Rightarrow> int) \<Rightarrow> sort_entry set \<Rightarrow> bool" where
  "consistent cmp A =
     ((\<forall>a\<in>A. \<forall>b\<in>A. cmp b a = - cmp a b) \<and>
      (\<forall>a\<in>A. \<forall>b\<in>A. \<forall>c\<in>A. cmp a b \<le> 0 \<longrightarrow> cmp b c \<le> 0 \<longrightarrow> cmp a c \<le> 0))"

text \<open>What the language guarantees of the sort method: with a consistent comparator it returns a sorted permutation.\<close>

definition sort_contract :: "host_sort \<Rightarrow> bool" where
  "sort_contract sort_host =
     (\<forall>cmp xs. consistent cmp (set xs) \<longrightarrow>
        mset (sort_host cmp xs) = mset xs \<and> sorted_wrt (\<lambda>a b. cmp a b \<le> 0) (sort_host cmp xs))"

text \<open>One criterion with its order decides like the ranks, reversed for a descending order.\<close>

definition order_sign :: "string list \<Rightarrow> int" where
  "order_sign orders = (case orders of [] \<Rightarrow> 1 | order # _ \<Rightarrow> if order = ''desc'' then -1 else 1)"

abbreviation all_sortable :: "jsval list \<Rightarrow> bool" where
  "all_sortable xs \<equiv> \<forall>x\<in>set xs. sortable x"

text \<open>Insertion sort by a comparator, a sort method that meets the contract.\<close>

primrec insert_by :: "('a \<Rightarrow> 'a \<Rightarrow> int) \<Rightarrow> 'a \<Rightarrow> 'a list \<Rightarrow> 'a list" where
  "insert_by cmp x [] = [x]"
| "insert_by cmp x (y # ys) = (if cmp x y \<le> 0 then x # y # ys else y # insert_by cmp x ys)"

definition insertion_sort :: "('a \<Rightarrow> 'a \<Rightarrow> int) \<Rightarrow> 'a list \<Rightarrow> 'a list" where
  "insertion_sort cmp xs = foldr (insert_by cmp) xs []"

section \<open>Lemmas\<close>

subsection \<open>Binary search\<close>

lemma setLow_number:
  assumes "js_typeof v = TNumber" "strict_eq v v"
  shows "setLow v retHighest computed \<longleftrightarrow>
    computed \<noteq> Null \<and> \<not> isSymbol computed \<and> (if retHighest then js_le computed v else js_less computed v)"
proof -
  obtain n where "v = Num n" "n \<noteq> NaN" using assms by (cases v) (auto split: if_splits)
  then show ?thesis by (simp add: setLow_def isSymbol_def)
qed

lemma sorted_index_loop_returns:
  assumes "js_typeof v = TNumber" "strict_eq v v" "high \<le> 2147483647"
  shows "sorted_index_loop array v retHighest low high =
         Some (sorted_index_by_loop array v (\<lambda>x. x) retHighest low high)"
  using assms
proof (induction array v "\<lambda>x :: jsval. x" retHighest low high rule: sorted_index_by_loop.induct)
  case (1 array v retHighest low high)
  show ?case
  proof (cases "low < high")
    case True
    then have mid: "((low + high) mod 2 ^ 32) div 2 = (low + high) div 2" using 1(5) by simp
    show ?thesis using 1 True
      by (subst sorted_index_loop.simps, subst sorted_index_by_loop.simps)
        (simp add: mid Let_def setLow_number del: power_numeral)
  next
    case False
    then show ?thesis by (subst sorted_index_loop.simps, subst sorted_index_by_loop.simps) simp
  qed
qed

lemma sorted_index_by_loop_boundary:
  assumes "low \<le> high" "r = sorted_index_by_loop array v iteratee retHighest low high"
  shows "low \<le> r \<and> r \<le> high \<and> (r = low \<or> setLow v retHighest (iteratee (arr_get array (r - 1)))) \<and>
         (r = high \<or> \<not> setLow v retHighest (iteratee (arr_get array r)))"
  using assms
proof (induction array v iteratee retHighest low high arbitrary: r rule: sorted_index_by_loop.induct)
  case (1 array v iteratee retHighest low high)
  define mid where "mid = (low + high) div 2"
  show ?case
  proof (cases "low < high")
    case True
    then have mid: "low \<le> mid" "mid < high" by (auto simp: mid_def)
    show ?thesis
    proof (cases "setLow v retHighest (iteratee (arr_get array mid))")
      case low: True
      then have "r = sorted_index_by_loop array v iteratee retHighest (mid + 1) high"
        using 1(4) True by (subst (asm) sorted_index_by_loop.simps) (simp add: Let_def mid_def)
      with 1(1) [OF True mid_def low] mid low show ?thesis by (auto simp: Suc_le_eq)
    next
      case high: False
      then have "r = sorted_index_by_loop array v iteratee retHighest low mid"
        using 1(4) True by (subst (asm) sorted_index_by_loop.simps) (simp add: Let_def mid_def)
      with 1(2) [OF True mid_def high] mid high show ?thesis by auto
    qed
  next
    case False
    then have "r = high" using 1(4) by (subst (asm) sorted_index_by_loop.simps) simp
    then show ?thesis using False 1(3) by simp
  qed
qed

lemma partition_point:
  assumes "r \<le> length xs" "r = 0 \<or> P (xs ! (r - 1))" "r = length xs \<or> \<not> P (xs ! r)"
    and down: "\<And>i j. i < j \<Longrightarrow> j < length xs \<Longrightarrow> P (xs ! j) \<Longrightarrow> P (xs ! i)"
  shows "r = length (filter P xs)"
proof -
  have low: "P (xs ! i)" if "i < r" for i
    using that assms(1,2) down [of i "r - 1"] by (cases "i = r - 1") auto
  have high: "\<not> P (xs ! i)" if "r \<le> i" "i < length xs" for i
    using that assms(3) down [of r i] by (cases "i = r") auto
  have "filter P (take r xs) = take r xs" using low assms(1) by (intro filter_True) (auto simp: in_set_conv_nth)
  moreover have "filter P (drop r xs) = []" using high by (intro filter_False) (auto simp: in_set_conv_nth)
  ultimately have "filter P xs = take r xs" by (metis append_Nil2 append_take_drop_id filter_append)
  then show ?thesis using assms(1) by simp
qed

lemma baseSortedIndex_total:
  "baseSortedIndex array v retHighest = Some (baseSortedIndexBy array v (\<lambda>x. x) retHighest)"
proof (cases "js_typeof v = TNumber \<and> strict_eq v v \<and> int (arr_len array) \<le> HALF_MAX_ARRAY_LENGTH")
  case True
  then have len: "arr_len array \<le> 2147483647" by (simp add: HALF_MAX_ARRAY_LENGTH_def MAX_ARRAY_LENGTH_def)
  define r where "r = sorted_index_by_loop (arr_items array) v (\<lambda>x. x) retHighest 0 (arr_len array)"
  have "r \<le> arr_len array" using sorted_index_by_loop_boundary [OF _ r_def] by simp
  then have "min r (nat MAX_ARRAY_INDEX) = r" using len by (simp add: MAX_ARRAY_INDEX_def MAX_ARRAY_LENGTH_def)
  then show ?thesis using True sorted_index_loop_returns [OF _ _ len]
    by (simp add: baseSortedIndex_def baseSortedIndexBy_def r_def)
next
  case False
  then show ?thesis by (auto simp: baseSortedIndex_def)
qed

lemma sorted_uniq_loop_runs:
  "map val_norm (sorted_uniq_loop xs (\<lambda>x. x) seen res) =
     map val_norm res @ (case seen of None \<Rightarrow> remdups_adj (map val_norm xs)
                         | Some s \<Rightarrow> tl (remdups_adj (val_norm s # map val_norm xs)))"
proof (induction xs arbitrary: seen res)
  case Nil
  then show ?case by (cases seen) simp_all
next
  case (Cons x xs)
  have z: "val_norm (if strict_eq x (Num (Fin 0)) then Num (Fin 0) else x) = val_norm x"
    using eq_iff_norm [of x "Num (Fin 0)"] by (auto simp: eq_def)
  show ?case
  proof (cases "case seen of None \<Rightarrow> True | Some s \<Rightarrow> \<not> eq x s")
    case True
    have "sorted_uniq_loop (x # xs) (\<lambda>x. x) seen res =
          sorted_uniq_loop xs (\<lambda>x. x) (Some x) (res @ [if strict_eq x (Num (Fin 0)) then Num (Fin 0) else x])"
      using True by simp
    then show ?thesis using True z Cons.IH [of "Some x"]
      by (auto simp: eq_iff_norm remdups_adj_Cons split: option.splits list.splits)
  next
    case False
    then obtain s where s: "seen = Some s" "val_norm x = val_norm s" by (auto simp: eq_iff_norm split: option.splits)
    then show ?thesis using False Cons.IH [of "Some s"] by (auto simp: Let_def)
  qed
qed

lemma arr_get_map_Num: "i < length ns \<Longrightarrow> arr_get (map Num ns) i = Num (ns ! i)"
  by (simp add: arr_get_def)

lemma num_le_less_trans: "num_le a b \<Longrightarrow> num_less b c \<Longrightarrow> num_less a c"
  by (cases a; cases b; cases c) (auto simp: num_le_def num_strict_eq_def split: if_splits)

subsection \<open>Comparators\<close>

lemma compareAscending_rank:
  assumes "sortable a" "sortable b"
  shows "compareAscending a b = (if sort_rank a < sort_rank b then -1 else if sort_rank b < sort_rank a then 1 else 0)"
  using assms
  by (cases a rule: sort_rank.cases; cases b rule: sort_rank.cases)
    (simp_all add: compareAscending_def Let_def js_less_def isSymbol_def num_strict_eq_def)

lemma order_sign_cases: "order_sign orders = 1 \<or> order_sign orders = -1"
  by (simp add: order_sign_def split: list.split)

lemma compare_criteria_Cons:
  assumes "sortable x" "sortable y"
  shows "compare_criteria (x # xs) (y # ys) orders =
    (if sort_rank x < sort_rank y then - order_sign orders
     else if sort_rank y < sort_rank x then order_sign orders else compare_criteria xs ys (tl orders))"
  using assms by (simp add: compareAscending_rank order_sign_def split: list.split)

declare compare_criteria.simps(2) [simp del]

lemma compare_criteria_antisym:
  assumes "length xs = length ys" "all_sortable xs" "all_sortable ys"
  shows "compare_criteria ys xs orders = - compare_criteria xs ys orders"
  using assms by (induction xs ys arbitrary: orders rule: list_induct2) (auto simp: compare_criteria_Cons)

lemma compare_criteria_trans:
  assumes "length xs = length ys" "length ys = length zs" "all_sortable xs" "all_sortable ys" "all_sortable zs"
    and "compare_criteria xs ys orders \<le> 0" "compare_criteria ys zs orders \<le> 0"
  shows "compare_criteria xs zs orders \<le> 0 \<and>
         (compare_criteria xs zs orders = 0 \<longrightarrow> compare_criteria xs ys orders = 0 \<and> compare_criteria ys zs orders = 0)"
  using assms
proof (induction xs ys zs arbitrary: orders rule: list_induct3)
  case (Cons x xs y ys z zs)
  have ord: "sortable x" "sortable y" "sortable z" using Cons.prems by auto
  note cs = compare_criteria_Cons [OF ord(1,2)] compare_criteria_Cons [OF ord(2,3)] compare_criteria_Cons [OF ord(1,3)]
  show ?case
  proof (cases "sort_rank x = sort_rank y \<and> sort_rank y = sort_rank z")
    case True
    then show ?thesis using Cons.IH [of "tl orders"] Cons.prems by (auto simp: cs)
  next
    case False
    then show ?thesis using order_sign_cases [of orders] Cons.prems
      by (auto simp: cs split: if_splits)
  qed
qed simp

lemma compareMultiple_consistent:
  assumes "\<forall>e\<in>A. all_sortable (criteria e) \<and> length (criteria e) = n"
  shows "consistent (\<lambda>object other. compareMultiple object other orders) A"
  unfolding consistent_def
proof (intro conjI ballI impI)
  fix a b assume "a \<in> A" "b \<in> A"
  then show "compareMultiple b a orders = - compareMultiple a b orders"
    using assms compare_criteria_antisym [of "criteria a" "criteria b" orders] by (simp add: compareMultiple_def Let_def)
next
  fix a b c assume "a \<in> A" "b \<in> A" "c \<in> A" "compareMultiple a b orders \<le> 0" "compareMultiple b c orders \<le> 0"
  then show "compareMultiple a c orders \<le> 0"
    using assms compare_criteria_trans [of "criteria a" "criteria b" "criteria c" orders]
    by (auto simp: compareMultiple_def Let_def split: if_splits)
qed

lemma order_entries_props:
  "map entry_value (order_entries xs its i) = xs"
  "map index (order_entries xs its i) = [i..<i + length xs]"
  "e \<in> set (order_entries xs its i) \<Longrightarrow> criteria e = map (\<lambda>f. f (entry_value e)) its \<and> entry_value e \<in> set xs"
  by (induction xs arbitrary: i) (auto simp: upt_conv_Cons simp del: upt_Suc)

lemma order_entries_inj: "inj_on index (set (order_entries xs its i))"
  by (metis distinct_map distinct_upt order_entries_props(2))

lemma sorted_by_index_unique:
  assumes "mset es = mset fs" "inj_on index (set es)" "sorted (map index es)" "sorted (map index fs)"
  shows "es = (fs :: sort_entry list)"
  using assms by (metis sort_key_inj_key_eq mset_eq_setD)

lemma consistent_antisym: "consistent cmp A \<Longrightarrow> a \<in> A \<Longrightarrow> b \<in> A \<Longrightarrow> cmp b a = - cmp a b"
  unfolding consistent_def by blast

lemma consistent_trans:
  "consistent cmp A \<Longrightarrow> a \<in> A \<Longrightarrow> b \<in> A \<Longrightarrow> c \<in> A \<Longrightarrow> cmp a b \<le> 0 \<Longrightarrow> cmp b c \<le> 0 \<Longrightarrow> cmp a c \<le> 0"
  unfolding consistent_def by blast

lemma consistent_subset: "consistent cmp A \<Longrightarrow> B \<subseteq> A \<Longrightarrow> consistent cmp B"
  unfolding consistent_def by blast

lemma mset_insert_by [simp]: "mset (insert_by cmp x ys) = add_mset x (mset ys)"
  by (induction ys) auto

lemma set_insert_by [simp]: "set (insert_by cmp x ys) = insert x (set ys)"
  by (induction ys) auto

lemma sorted_insert_by:
  assumes "consistent cmp (insert x (set ys))" "sorted_wrt (\<lambda>a b. cmp a b \<le> 0) ys"
  shows "sorted_wrt (\<lambda>a b. cmp a b \<le> 0) (insert_by cmp x ys)"
  using assms
proof (induction ys)
  case (Cons y ys)
  have ih: "sorted_wrt (\<lambda>a b. cmp a b \<le> 0) (insert_by cmp x ys)"
    by (rule Cons.IH) (rule consistent_subset [OF Cons.prems(1)], use Cons.prems(2) in auto)
  have anti: "cmp y x = - cmp x y" by (rule consistent_antisym [OF Cons.prems(1)]) simp_all
  have "cmp x z \<le> 0" if "cmp x y \<le> 0" "z \<in> set ys" for z
    by (rule consistent_trans [OF Cons.prems(1), of x y z]) (use that Cons.prems(2) in auto)
  then show ?case using ih anti Cons.prems(2) by auto
qed simp

lemma insertion_sort_contract: "sort_contract insertion_sort"
proof -
  have "mset (insertion_sort cmp xs) = mset xs \<and> sorted_wrt (\<lambda>a b. cmp a b \<le> 0) (insertion_sort cmp xs)"
    if "consistent cmp (set xs)" for cmp :: "sort_entry \<Rightarrow> sort_entry \<Rightarrow> int" and xs
    using that
  proof (induction xs)
    case (Cons x xs)
    have ih: "mset (insertion_sort cmp xs) = mset xs" "sorted_wrt (\<lambda>a b. cmp a b \<le> 0) (insertion_sort cmp xs)"
      using Cons.IH [OF consistent_subset [OF Cons.prems]] by auto
    have "insert x (set (insertion_sort cmp xs)) = set (x # xs)" using mset_eq_setD [OF ih(1)] by simp
    then have "sorted_wrt (\<lambda>a b. cmp a b \<le> 0) (insert_by cmp x (insertion_sort cmp xs))"
      using Cons.prems by (intro sorted_insert_by ih(2)) simp
    then show ?case using ih(1) by (simp add: insertion_sort_def)
  qed (simp add: insertion_sort_def)
  then show ?thesis unfolding sort_contract_def by blast
qed

lemma compare_criteria_in_order:
  "length xs = length ys \<Longrightarrow> all_sortable xs \<Longrightarrow> all_sortable ys \<Longrightarrow>
   (compare_criteria xs ys orders \<le> 0 \<longleftrightarrow> in_order orders xs ys)"
proof (induction xs ys arbitrary: orders rule: list_induct2)
  case (Cons x xs y ys)
  have "order_sign orders = (if orders \<noteq> [] \<and> hd orders = ''desc'' then -1 else 1)"
    by (cases orders) (simp_all add: order_sign_def)
  then show ?case using Cons by (auto simp: compare_criteria_Cons)
qed simp

lemma compare_criteria_same_rank:
  assumes "\<forall>f\<in>set its. sortable (f x) \<and> sortable (f y)"
  shows "compare_criteria (map (\<lambda>f. f x) its) (map (\<lambda>f. f y) its) orders = 0 \<longleftrightarrow> same_rank its x y"
proof -
  have "order_sign orders \<noteq> 0" for orders using order_sign_cases [of orders] by auto
  with assms show ?thesis by (induction its arbitrary: orders) (auto simp: compare_criteria_Cons same_rank_def)
qed

section \<open>Properties\<close>

text \<open>
  (C25) The binary search of \<open>baseSortedIndex\<close> returns on every array, sorted or not, although the loop on
  numbers halves with a 32-bit shift: the guard on the length keeps the shift from wrapping. It
  gives the index that the general search gives.
\<close>

theorem baseSortedIndex_returns:
  "baseSortedIndex array v retHighest = Some (baseSortedIndexBy array v (\<lambda>x. x) retHighest) \<and>
   baseSortedIndexBy array v (\<lambda>x. x) retHighest \<le> arr_len array"
proof -
  define r where "r = sorted_index_by_loop (arr_items array) v (\<lambda>x. x) retHighest 0 (arr_len array)"
  have "r \<le> arr_len array" using sorted_index_by_loop_boundary [OF _ r_def] by simp
  then show ?thesis using baseSortedIndex_total by (simp add: baseSortedIndexBy_def r_def)
qed

text \<open>
  (C36) On a sorted array of numbers \<open>sortedIndex\<close> returns the number of elements below a value and
  \<open>sortedLastIndex\<close> the number of elements not above it, the lowest and the highest index at
  which the value can be inserted.
\<close>

theorem sortedIndex_counts:
  assumes "sorted_wrt num_le ns" "NaN \<notin> set ns" "n \<noteq> NaN" "int (length ns) \<le> MAX_ARRAY_INDEX"
  shows "sortedIndex (Some (map Num ns)) (Num n) = Some (length (filter (\<lambda>x. num_less x n) ns)) \<and>
         sortedLastIndex (Some (map Num ns)) (Num n) = Some (length (filter (\<lambda>x. num_le x n) ns))"
proof -
  have low: "setLow (Num n) h (Num x) = (if h then num_le x n else num_less x n)" for h x
    using assms(3) by (subst setLow_number) (simp_all add: js_le_def js_less_def isSymbol_def)
  have main: "baseSortedIndexBy (Some (map Num ns)) (Num n) (\<lambda>x. x) h =
              length (filter (\<lambda>x. if h then num_le x n else num_less x n) ns)" (is "_ = length (filter ?P ns)") for h
  proof -
    define r where "r = sorted_index_by_loop (map Num ns) (Num n) (\<lambda>x. x) h 0 (length ns)"
    note b = sorted_index_by_loop_boundary [OF _ r_def, simplified]
    have "r = length (filter ?P ns)"
    proof (rule partition_point)
      show "r \<le> length ns" using b by simp
      show "r = 0 \<or> ?P (ns ! (r - 1))" using b arr_get_map_Num [of "r - 1" ns] low by (cases r) auto
      show "r = length ns \<or> \<not> ?P (ns ! r)" using b arr_get_map_Num [of r ns] low by (cases "r = length ns") auto
      fix i j assume ij: "i < j" "j < length ns" and j: "?P (ns ! j)"
      have "num_le (ns ! i) (ns ! j)" using assms(1) ij by (rule sorted_wrt_nth_less)
      then show "?P (ns ! i)" using j num_le_trans num_le_less_trans by (auto split: if_splits)
    qed
    moreover have "min r (nat MAX_ARRAY_INDEX) = r" using b assms(4) by auto
    ultimately show ?thesis by (simp add: baseSortedIndexBy_def r_def arr_len_def)
  qed
  show ?thesis using main [of False] main [of True]
    by (simp add: sortedIndex_def sortedLastIndex_def baseSortedIndex_total)
qed

theorem sortedIndex_counts_witness:
  "sortedIndex (Some (map Num [Fin 1, Fin 5, Fin 5, PInf])) (Num (Fin 5)) = Some 1 \<and>
   sortedLastIndex (Some (map Num [Fin 1, Fin 5, Fin 5, PInf])) (Num (Fin 5)) = Some 3"
  using sortedIndex_counts [of "[Fin 1, Fin 5, Fin 5, PInf]" "Fin 5"]
  by (simp add: num_le_def num_strict_eq_def MAX_ARRAY_INDEX_def MAX_ARRAY_LENGTH_def)


text \<open>
  (C21) \<open>orderBy\<close> sorts by the criteria in turn, each ascending or descending: with a sort method that sorts by
  consistent comparators and criteria that are numbers other than NaN, symbols, null or undefined,
  the result is a permutation of the array and keeps the order of elements whose criteria have the same ranks. Of two elements in it, the first
  criterion that differs is smaller in the earlier one, greater if its order is \<open>desc\<close>; numbers rank by value, before symbols, null and
  undefined. The engine's sort need not be stable.
\<close>

theorem orderBy_stable:
  fixes its :: "(jsval \<Rightarrow> jsval) list" and sort_host :: host_sort and orders :: "string list" and xs :: "jsval list"
  assumes "sort_contract sort_host" "its \<noteq> []" "\<forall>x\<in>set xs. \<forall>f\<in>set its. sortable (f x)"
  defines "ys \<equiv> orderBy sort_host (Some xs) (Many its) (Many orders) False"
  shows "mset ys = mset xs \<and> sorted_wrt (\<lambda>x y. in_order orders (map (\<lambda>f. f x) its) (map (\<lambda>f. f y) its)) ys \<and>
         (\<forall>z\<in>set xs. filter (\<lambda>x. same_rank its x z) ys = filter (\<lambda>x. same_rank its x z) xs)"
proof -
  define es where "es = order_entries xs its 0"
  define ss where "ss = sort_host (\<lambda>a b. compareMultiple a b orders) es"
  let ?c = "\<lambda>x. map (\<lambda>f. f x) its"
  have crit: "criteria e = ?c (entry_value e)" "entry_value e \<in> set xs" if "e \<in> set es" for e
    using that order_entries_props(3) by (auto simp: es_def)
  have ms: "mset ss = mset es" and srt: "sorted_wrt (\<lambda>a b. compareMultiple a b orders \<le> 0) ss"
    using assms(1) compareMultiple_consistent [of "set es" "length its" orders] crit assms(3)
    by (auto simp: sort_contract_def ss_def)
  have set: "set ss = set es" using ms by (rule mset_eq_setD)
  have ys: "ys = map entry_value ss" and xs: "xs = map entry_value es"
    using assms(2) order_entries_props(1)
    by (simp_all add: ys_def orderBy_def baseOrderBy_def baseSortBy_def ss_def es_def)
  have cmp: "compareMultiple a b orders \<le> 0 \<longleftrightarrow>
      (if same_rank its (entry_value a) (entry_value b) then index a \<le> index b else in_order orders (?c (entry_value a)) (?c (entry_value b)))"
    if "a \<in> set es" "b \<in> set es" for a b
    using crit that assms(3) compare_criteria_same_rank [of its "entry_value a" "entry_value b" orders]
      compare_criteria_in_order [of "?c (entry_value a)" "?c (entry_value b)" orders]
    by (auto simp: compareMultiple_def)
  have "in_order orders (?c x) (?c y)" if "same_rank its x y" for x y
    using that by (induction its arbitrary: orders) (auto simp: same_rank_def)
  then have "sorted_wrt (\<lambda>x y. in_order orders (?c x) (?c y)) ys"
    unfolding ys sorted_wrt_map by (intro sorted_wrt_mono_rel [OF _ srt]) (auto simp: cmp set split: if_splits)
  moreover have "filter (\<lambda>x. same_rank its x z) ys = filter (\<lambda>x. same_rank its x z) xs" for z
  proof -
    let ?P = "\<lambda>e. same_rank its (entry_value e) z"
    have tie: "same_rank its (entry_value a) (entry_value b)" if "?P a" "?P b" for a b
      using that by (simp add: same_rank_def list_all_iff)
    have "sorted (map index (filter ?P ss))"
      unfolding sorted_wrt_map
      by (rule sorted_wrt_mono_rel [OF _ sorted_wrt_filter [OF srt]]) (auto simp: cmp set tie)
    moreover have "sorted (map index (filter ?P es))"
      using order_entries_props(2) [of xs its 0] sorted_filter [of index es] by (simp add: es_def)
    moreover have "inj_on index (set (filter ?P ss))"
      using order_entries_inj [of xs its 0] by (auto simp: es_def set inj_on_def)
    moreover have "mset (filter ?P ss) = mset (filter ?P es)" using ms by simp
    ultimately have "filter ?P ss = filter ?P es" by (intro sorted_by_index_unique)
    then show ?thesis by (simp add: ys xs filter_map o_def)
  qed
  moreover have "mset ys = mset xs" using ms by (simp add: ys xs)
  ultimately show ?thesis by blast
qed

theorem orderBy_stable_witness:
  "mset (orderBy insertion_sort (Some [Num (Fin 2), Num (Fin 1), Null]) (Many [\<lambda>v. v]) (Many [''desc'']) False) =
   mset [Num (Fin 2), Num (Fin 1), Null] \<and>
   orderBy insertion_sort (Some [Num (Fin 2), Num (Fin 1), Null]) (Many [\<lambda>v. v]) (Many [''desc'']) False =
   [Null, Num (Fin 2), Num (Fin 1)] \<and>
   sorted_wrt (\<lambda>x y. in_order [''desc''] [x] [y]) [Null, Num (Fin 2), Num (Fin 1)]"
  using orderBy_stable [OF insertion_sort_contract, of "[\<lambda>v. v]" "[Num (Fin 2), Num (Fin 1), Null]" "[''desc'']"]
  by (simp add: orderBy_def baseOrderBy_def baseSortBy_def insertion_sort_def compareMultiple_def
      compare_criteria.simps compareAscending_rank)

text \<open>
  With NaN among the criteria the comparator contradicts itself: two NaN each compare as greater than the other,
  so that no order of the two is consistent and the tie-breaking by index is never reached.
\<close>

theorem compare_NaN_inconsistent:
  "compareMultiple \<lparr>criteria = [Num NaN], index = i, entry_value = v\<rparr> \<lparr>criteria = [Num NaN], index = j, entry_value = w\<rparr> [] = 1"
  by (simp add: compareMultiple_def compare_criteria.simps compareAscending_def num_strict_eq_def)

end
