(* ===== verification/JsDouble.thy ===== *)
theory JsDouble
  imports JsMath
begin

text \<open>
  The double precision numbers of the language: rounding of an exact result to the nearest double with ties to even, with overflow to
  infinity and gradual underflow, and the decimal that a double is printed as. Code whose results depend on rounding is modelled with them.
\<close>

section \<open>Rounding to doubles\<close>

text \<open>Doubles are the multiples of a unit below \<open>2 ^ 53\<close> of it; the units are the powers of two from the least double to the greatest unit.\<close>

definition least_double :: rat where
  "least_double = 1 / 2 ^ 1074"

definition ulp :: "nat \<Rightarrow> rat" where
  "ulp n = 2 ^ n * least_double"

definition binades :: "nat list" where
  "binades = [0..<2046]"

definition round_even :: "rat \<Rightarrow> int" where
  "round_even x =
     (let f = \<lfloor>x\<rfloor>; d = x - of_int f in if d < 1 / 2 \<or> (d = 1 / 2 \<and> even f) then f else f + 1)"

text \<open>The double nearest to a number that is not negative, None on overflow.\<close>

definition double_abs :: "rat \<Rightarrow> rat option" where
  "double_abs q =
     (case find (\<lambda>n. q < 2 ^ 53 * ulp n) binades of
        None \<Rightarrow> None
      | Some n \<Rightarrow> (let r = of_int (round_even (q / ulp n)) * ulp n in if r < 2 ^ 53 * ulp 2045 then Some r else None))"

fun to_double :: "jsnum \<Rightarrow> jsnum" where
  "to_double (Fin q) = signed (q < 0) (case double_abs \<bar>q\<bar> of None \<Rightarrow> PInf | Some r \<Rightarrow> Fin r)"
| "to_double n = n"

definition dbl_add :: "jsnum \<Rightarrow> jsnum \<Rightarrow> jsnum" where
  "dbl_add a b = to_double (num_add a b)"

definition dbl_sub :: "jsnum \<Rightarrow> jsnum \<Rightarrow> jsnum" where
  "dbl_sub a b = to_double (num_sub a b)"

definition dbl_div :: "jsnum \<Rightarrow> jsnum \<Rightarrow> jsnum" where
  "dbl_div a b = to_double (num_div a b)"

section \<open>The text of doubles\<close>

text \<open>
  A number is printed as a decimal of as few digits as identify it, and of these decimals the closest one. The text is modelled by the
  value of that decimal. The magnitude of a number is the number of its digits before the point, negative for a small fraction; the decimals
  tried are the neighbours with one digit, two digits and so on, up to the 17 digits that identify every double.
\<close>

definition decades :: "nat list" where
  "decades = [0..<633]"

definition magnitude :: "rat \<Rightarrow> int" where
  "magnitude q = (case find (\<lambda>i. q < 10 powi (int i - 323)) decades of None \<Rightarrow> 310 | Some i \<Rightarrow> int i - 323)"

definition decimals :: "rat \<Rightarrow> nat \<Rightarrow> rat list" where
  "decimals q k =
     (let u = 10 powi (magnitude q - int k)
      in [of_int (round_even (q / u)) * u, of_int \<lfloor>q / u\<rfloor> * u, of_int \<lceil>q / u\<rceil> * u])"

definition printed_abs :: "rat \<Rightarrow> rat" where
  "printed_abs q =
     (case find (\<lambda>d. double_abs d = Some q) (concat (map (decimals q) [1..<18])) of None \<Rightarrow> q | Some d \<Rightarrow> d)"

definition printed :: "rat \<Rightarrow> rat" where
  "printed q = (if q < 0 then - printed_abs (- q) else printed_abs q)"

section \<open>Specification\<close>

definition is_double :: "rat \<Rightarrow> bool" where
  "is_double q = (\<exists>m n. q = of_nat m * ulp n \<and> m < 2 ^ 53 \<and> n < 2046)"

section \<open>Lemmas\<close>

subsection \<open>Units\<close>

lemma least_double_pos [simp]: "0 < least_double"
  by (simp add: least_double_def)

lemma ulp_pos [simp]: "0 < ulp n"
  by (simp add: ulp_def)

lemma ulp_nonzero [simp]: "ulp n \<noteq> 0"
  by (metis ulp_pos less_irrefl)

lemma ulp_0: "ulp 0 = least_double"
  by (simp add: ulp_def)

lemma ulp_add: "ulp (n + k) = 2 ^ k * ulp n"
  by (simp add: ulp_def power_add)

lemma ulp_Suc: "ulp (Suc n) = 2 * ulp n"
  by (simp add: ulp_def)

lemma ulp_mono: "m \<le> n \<Longrightarrow> ulp m \<le> ulp n"
  by (simp add: ulp_def)

lemma ulp_dyadic: "k \<le> 1074 \<Longrightarrow> ulp (1074 - k) = 1 / 2 ^ k"
  by (simp add: ulp_def least_double_def power_diff)

lemma ulp_one: "ulp 1074 = 1"
  by (simp add: ulp_def least_double_def)

lemma below_divide: "q < 2 ^ 53 * ulp n \<Longrightarrow> q / ulp n \<le> of_int (2 ^ 53)"
  using ulp_pos [of n] by (simp add: pos_divide_le_eq less_imp_le)

subsection \<open>Rounding to integers\<close>

lemma round_even_int [simp]: "round_even (of_int k) = k"
  by (simp add: round_even_def)

lemma round_even_error: "\<bar>of_int (round_even x) - x\<bar> \<le> 1 / 2"
  using floor_correct [of x] by (auto simp: round_even_def Let_def abs_le_iff)

lemma round_even_cases: "round_even x = \<lfloor>x\<rfloor> \<or> round_even x = \<lfloor>x\<rfloor> + 1"
  by (simp add: round_even_def Let_def)

lemma round_even_mono:
  assumes "x \<le> y"
  shows "round_even x \<le> round_even y"
proof (cases "\<lfloor>x\<rfloor> = \<lfloor>y\<rfloor>")
  case True
  then show ?thesis using assms by (auto simp: round_even_def Let_def)
next
  case False
  then have "\<lfloor>x\<rfloor> + 1 \<le> \<lfloor>y\<rfloor>" using floor_mono [OF assms] by linarith
  then show ?thesis using round_even_cases [of x] round_even_cases [of y] by linarith
qed

lemma round_even_le: "x \<le> of_int k \<Longrightarrow> round_even x \<le> k"
  using round_even_mono [of x "of_int k"] by simp

lemma round_even_ge: "of_int k \<le> x \<Longrightarrow> k \<le> round_even x"
  using round_even_mono [of "of_int k" x] by simp

subsection \<open>Rounding to doubles\<close>

text \<open>The unit of a number: the least one of which it has less than \<open>2 ^ 53\<close>.\<close>

lemma find_upt: "find P [0..<N] = Some n \<longleftrightarrow> n < N \<and> P n \<and> (\<forall>j<n. \<not> P j)"
proof
  assume "find P [0..<N] = Some n"
  then obtain i where "i < N" "P ([0..<N] ! i)" "n = [0..<N] ! i" "\<forall>j<i. \<not> P ([0..<N] ! j)" by (auto simp: find_Some_iff)
  then show "n < N \<and> P n \<and> (\<forall>j<n. \<not> P j)" by simp
next
  assume "n < N \<and> P n \<and> (\<forall>j<n. \<not> P j)"
  then show "find P [0..<N] = Some n" unfolding find_Some_iff by (intro exI [of _ n]) simp
qed

lemma find_binade: "find P binades = Some n \<longleftrightarrow> n < 2046 \<and> P n \<and> (\<forall>j<n. \<not> P j)"
  unfolding binades_def by (rule find_upt)

lemma binade_exists:
  assumes "q < 2 ^ 53 * ulp n" "n < 2046"
  obtains k where "find (\<lambda>n. q < 2 ^ 53 * ulp n) binades = Some k" "k \<le> n"
proof -
  define k where "k = (LEAST k. q < 2 ^ 53 * ulp k)"
  have "q < 2 ^ 53 * ulp k" "k \<le> n" unfolding k_def using assms(1) by (rule LeastI, rule Least_le)
  moreover have "\<forall>j<k. \<not> q < 2 ^ 53 * ulp j" unfolding k_def using not_less_Least by blast
  ultimately show ?thesis using assms(2) that [of k] unfolding find_binade by (meson le_less_trans)
qed

lemma binade_lower:
  assumes "find (\<lambda>n. q < 2 ^ 53 * ulp n) binades = Some n" "0 < n"
  shows "2 ^ 52 * ulp n \<le> q"
proof -
  obtain j where "n = Suc j" using assms(2) by (cases n) auto
  moreover from this have "\<not> q < 2 ^ 53 * ulp j" using assms(1) by (simp add: find_binade)
  ultimately show ?thesis by (simp add: ulp_Suc)
qed

lemma double_abs_cases:
  assumes "double_abs q = Some r"
  obtains n where "find (\<lambda>n. q < 2 ^ 53 * ulp n) binades = Some n" "q < 2 ^ 53 * ulp n" "n < 2046"
    "r = of_int (round_even (q / ulp n)) * ulp n" "r < 2 ^ 53 * ulp 2045"
  using assms that by (auto simp: double_abs_def Let_def find_binade split: option.splits if_splits)

lemma double_abs_fixed:
  assumes "is_double q"
  shows "double_abs q = Some q"
proof -
  obtain m n where q: "q = of_nat m * ulp n" "m < 2 ^ 53" "n < 2046" using assms by (auto simp: is_double_def)
  have "q < 2 ^ 53 * ulp n"
    unfolding q(1) using q(2) by (intro mult_strict_right_mono) (simp_all flip: of_nat_less_iff)
  then obtain k where k: "find (\<lambda>n. q < 2 ^ 53 * ulp n) binades = Some k" "k \<le> n" using binade_exists q(3) by blast
  have "q / ulp k = of_int (int m * 2 ^ (n - k))"
    using ulp_add [of k "n - k"] k(2) by (simp add: q(1))
  then have "of_int (round_even (q / ulp k)) * ulp k = q" using round_even_int by (metis nonzero_eq_divide_eq ulp_nonzero)
  moreover have "q < 2 ^ 53 * ulp 2045"
  proof -
    have "q < 2 ^ 53 * ulp k" "k \<le> 2045" using k(1) by (simp_all add: find_binade)
    then show ?thesis using ulp_mono [of k 2045] by simp
  qed
  ultimately show ?thesis using k(1) by (simp add: double_abs_def)
qed

lemma double_abs_double:
  assumes "double_abs q = Some r" "0 \<le> q"
  shows "is_double r \<and> 0 \<le> r"
proof -
  obtain n where n: "q < 2 ^ 53 * ulp n" "n < 2046" "r = of_int (round_even (q / ulp n)) * ulp n" "r < 2 ^ 53 * ulp 2045"
    using assms(1) by (rule double_abs_cases)
  let ?m = "round_even (q / ulp n)"
  have m: "0 \<le> ?m" "?m \<le> 2 ^ 53"
    using round_even_ge [of 0 "q / ulp n"] round_even_le [OF below_divide [OF n(1)]] assms(2) by (simp_all add: less_imp_le)
  show ?thesis
  proof (cases "?m = 2 ^ 53")
    case True
    have "n \<noteq> 2045" using n(3,4) True by auto
    then have "r = of_nat (2 ^ 52) * ulp (Suc n) \<and> (2 :: nat) ^ 52 < 2 ^ 53 \<and> Suc n < 2046" using n(2,3) True by (simp add: ulp_Suc)
    then show ?thesis unfolding is_double_def by (metis of_nat_0_le_iff mult_nonneg_nonneg less_imp_le ulp_pos)
  next
    case False
    then have "r = of_nat (nat ?m) * ulp n \<and> nat ?m < 2 ^ 53 \<and> n < 2046" using m n(2,3) by simp
    then show ?thesis unfolding is_double_def by (metis of_nat_0_le_iff mult_nonneg_nonneg less_imp_le ulp_pos)
  qed
qed

lemma double_abs_mono:
  assumes "x \<le> y" "double_abs y = Some b"
  shows "\<exists>a. double_abs x = Some a \<and> a \<le> b"
proof -
  obtain k where k: "find (\<lambda>n. y < 2 ^ 53 * ulp n) binades = Some k" "y < 2 ^ 53 * ulp k" "k < 2046"
    "b = of_int (round_even (y / ulp k)) * ulp k" "b < 2 ^ 53 * ulp 2045"
    using assms(2) by (rule double_abs_cases)
  have "x < 2 ^ 53 * ulp k" using assms(1) k(2) by simp
  then obtain n where n: "find (\<lambda>n. x < 2 ^ 53 * ulp n) binades = Some n" "n \<le> k" using binade_exists k(3) by blast
  let ?a = "of_int (round_even (x / ulp n)) * ulp n"
  have "?a \<le> b"
  proof (cases "n = k")
    case True
    then show ?thesis using assms(1) k(4) round_even_mono [of "x / ulp k" "y / ulp k"] by (simp add: divide_right_mono less_imp_le)
  next
    case False
    have "x < 2 ^ 53 * ulp n" using n(1) by (simp add: find_binade)
    then have "round_even (x / ulp n) \<le> 2 ^ 53" by (intro round_even_le below_divide)
    then have "?a \<le> of_int (2 ^ 53) * ulp n" by (intro mult_right_mono) (simp_all only: of_int_le_iff less_imp_le ulp_pos)
    also have "\<dots> = 2 ^ 52 * ulp (Suc n)" by (simp add: ulp_Suc)
    also have "\<dots> \<le> 2 ^ 52 * ulp k" using ulp_mono [of "Suc n" k] n(2) False by simp
    also have "\<dots> \<le> b"
    proof -
      have "2 ^ 52 * ulp k \<le> y" using binade_lower [OF k(1)] n(2) False by simp
      then have "2 ^ 52 \<le> round_even (y / ulp k)" using round_even_ge [of "2 ^ 52" "y / ulp k"] by (simp add: pos_le_divide_eq)
      then have "of_int (2 ^ 52) * ulp k \<le> b" unfolding k(4) by (intro mult_right_mono) (simp_all only: of_int_le_iff less_imp_le ulp_pos)
      then show ?thesis by simp
    qed
    finally show ?thesis .
  qed
  moreover from this have "double_abs x = Some ?a" using n(1) k(5) by (simp add: double_abs_def)
  ultimately show ?thesis by blast
qed

lemma double_abs_between:
  assumes "is_double a" "is_double b" "a \<le> x" "x \<le> b"
  shows "\<exists>r. double_abs x = Some r \<and> a \<le> r \<and> r \<le> b"
  using double_abs_mono [OF assms(4) double_abs_fixed [OF assms(2)]] double_abs_mono [OF assms(3)] double_abs_fixed [OF assms(1)] by fastforce

text \<open>The error is at most half a unit: half the least double, or a fraction of \<open>2 ^ -53\<close> of the number.\<close>

lemma double_abs_error:
  assumes "double_abs x = Some r" "0 \<le> x"
  shows "\<bar>r - x\<bar> \<le> max (least_double / 2) (x / 2 ^ 53)"
proof -
  obtain n where n: "find (\<lambda>n. x < 2 ^ 53 * ulp n) binades = Some n" "r = of_int (round_even (x / ulp n)) * ulp n"
    using assms(1) by (rule double_abs_cases)
  have "r - x = (of_int (round_even (x / ulp n)) - x / ulp n) * ulp n" by (simp add: n(2) left_diff_distrib)
  then have "\<bar>r - x\<bar> = \<bar>of_int (round_even (x / ulp n)) - x / ulp n\<bar> * ulp n" by (simp only: abs_mult abs_of_pos ulp_pos)
  also have "\<dots> \<le> 1 / 2 * ulp n" by (intro mult_right_mono round_even_error less_imp_le ulp_pos)
  also have "\<dots> \<le> max (least_double / 2) (x / 2 ^ 53)"
  proof (cases "n = 0")
    case False
    then have "2 ^ 52 * ulp n \<le> x" using binade_lower [OF n(1)] by simp
    then show ?thesis by simp
  qed (simp add: ulp_0)
  finally show ?thesis .
qed

lemma double_abs_half:
  assumes "double_abs x = Some r" "least_double \<le> x"
  shows "x / 2 \<le> r"
proof -
  have "0 \<le> x" using assms(2) least_double_pos by linarith
  then show ?thesis using double_abs_error [OF assms(1)] assms(2) by (auto simp: abs_le_iff max_def split: if_splits)
qed

subsection \<open>Doubles\<close>

lemma is_double_dyadic: "m < 2 ^ 53 \<Longrightarrow> k \<le> 1074 \<Longrightarrow> is_double (of_nat m / 2 ^ k)"
  unfolding is_double_def by (intro exI [of _ m] exI [of _ "1074 - k"]) (simp add: ulp_dyadic)

lemma is_double_nat:
  assumes "m \<le> 2 ^ 53"
  shows "is_double (of_nat m)"
proof (cases "m = 2 ^ 53")
  case True
  have "of_nat (2 ^ 53) = of_nat (2 ^ 52) * ulp 1075 \<and> (2 :: nat) ^ 52 < 2 ^ 53 \<and> (1075 :: nat) < 2046"
    using ulp_Suc [of 1074] ulp_one by simp
  then show ?thesis unfolding is_double_def True by blast
next
  case False
  then show ?thesis using is_double_dyadic [of m 0] assms by simp
qed

lemma is_double_zero: "is_double 0"
  using is_double_nat [of 0] by simp

lemma is_double_least: "is_double least_double"
  unfolding is_double_def by (intro exI [of _ 1] exI [of _ 0]) (simp add: ulp_0)

lemma is_double_nonneg: "is_double q \<Longrightarrow> 0 \<le> q"
  by (auto simp: is_double_def less_imp_le)

text \<open>Doubles are multiples of the least one, and great ones of their units.\<close>

lemma is_double_multiple: "is_double q \<Longrightarrow> \<exists>m :: int. q = of_int m * least_double"
proof -
  assume "is_double q"
  then obtain m n where "q = of_nat m * ulp n" by (auto simp: is_double_def)
  then have "q = of_int (int (m * 2 ^ n)) * least_double" by (simp add: ulp_def)
  then show ?thesis by blast
qed

lemma is_double_multiple_ulp:
  assumes "is_double q" "2 ^ 52 * ulp n \<le> q"
  shows "\<exists>m :: int. q = of_int m * ulp n"
proof -
  obtain m k where q: "q = of_nat m * ulp k" "m < 2 ^ 53" using assms(1) by (auto simp: is_double_def)
  have "n \<le> k"
  proof (rule ccontr)
    assume "\<not> n \<le> k"
    then have "2 * ulp k \<le> ulp n" using ulp_mono [of "Suc k" n] by (simp add: ulp_Suc)
    moreover have "q < 2 ^ 53 * ulp k" unfolding q(1) using q(2) by (intro mult_strict_right_mono) (simp_all flip: of_nat_less_iff)
    ultimately show False using assms(2) by simp
  qed
  then have "q = of_int (int (m * 2 ^ (k - n))) * ulp n" using ulp_add [of n "k - n"] by (simp add: q(1))
  then show ?thesis by blast
qed

lemma multiple_gap:
  assumes "x = of_int a * u" "y = of_int b * u" "x < y" "0 < (u :: rat)"
  shows "u \<le> y - x"
proof -
  have "a < b" using assms by (simp add: mult_less_cancel_right)
  then have "of_int 1 \<le> (of_int (b - a) :: rat)" by (simp only: of_int_le_iff)
  then have "of_int 1 * u \<le> of_int (b - a) * u" using assms(4) by (intro mult_right_mono) simp_all
  then show ?thesis using assms(1,2) by (simp add: left_diff_distrib)
qed

text \<open>The difference of two doubles is not small against them.\<close>

lemma double_gap:
  assumes "is_double x" "is_double y" "x < y"
  shows "least_double \<le> y - x" "y \<le> 2 ^ 54 * (y - x) \<or> y < 1"
proof -
  show "least_double \<le> y - x"
    using is_double_multiple [OF assms(1)] is_double_multiple [OF assms(2)] multiple_gap [OF _ _ assms(3) least_double_pos] by blast
  obtain n where n: "find (\<lambda>n. y < 2 ^ 53 * ulp n) binades = Some n" using double_abs_fixed [OF assms(2)] double_abs_cases by blast
  show "y \<le> 2 ^ 54 * (y - x) \<or> y < 1"
  proof (cases n)
    case 0
    then have "y < 2 ^ 53 * least_double" using n by (simp add: find_binade ulp_0)
    also have "\<dots> \<le> 1" by (simp add: least_double_def)
    finally show ?thesis by simp
  next
    case (Suc k)
    have y: "y < 2 ^ 54 * ulp k" "2 ^ 53 * ulp k \<le> y"
      using n binade_lower [OF n] Suc by (simp_all add: find_binade ulp_Suc)
    show ?thesis
    proof (cases "2 ^ 52 * ulp k \<le> x")
      case True
      moreover have "2 ^ 52 * ulp k \<le> y" using True assms(3) by (simp only: order_trans less_imp_le)
      ultimately have "ulp k \<le> y - x"
        using is_double_multiple_ulp [OF assms(1)] is_double_multiple_ulp [OF assms(2)] multiple_gap [OF _ _ assms(3) ulp_pos] by blast
      then show ?thesis using y(1) by simp
    next
      case False
      then show ?thesis using y is_double_nonneg [OF assms(1)] by simp
    qed
  qed
qed

lemma to_double_pos: "0 < q \<Longrightarrow> to_double (Fin q) = (case double_abs q of None \<Rightarrow> PInf | Some r \<Rightarrow> Fin r)"
  by (simp add: signed_def)

lemma to_double_fixed: "is_double \<bar>q\<bar> \<Longrightarrow> q \<noteq> 0 \<Longrightarrow> to_double (Fin q) = Fin q"
  by (simp add: double_abs_fixed signed_def)

subsection \<open>Printed decimals\<close>

lemma decimals_nonneg: "0 \<le> q \<Longrightarrow> d \<in> set (decimals q k) \<Longrightarrow> 0 \<le> d"
proof -
  assume "0 \<le> q" and d: "d \<in> set (decimals q k)"
  let ?x = "q / 10 powi (magnitude q - int k)"
  have x: "0 \<le> ?x" using \<open>0 \<le> q\<close> by simp
  then have "0 \<le> \<lceil>?x\<rceil>" "0 \<le> \<lfloor>?x\<rfloor>" "0 \<le> round_even ?x" using round_even_ge [of 0 ?x] by (simp_all add: order_trans [OF _ le_of_int_ceiling])
  then show "0 \<le> d" using d by (auto simp: decimals_def Let_def)
qed

lemma printed_abs_double:
  assumes "is_double q"
  shows "double_abs (printed_abs q) = Some q" "0 \<le> printed_abs q"
proof -
  show "double_abs (printed_abs q) = Some q"
    using double_abs_fixed [OF assms] by (auto simp: printed_abs_def find_Some_iff split: option.split)
  have "0 \<le> d" if "find (\<lambda>d. double_abs d = Some q) (concat (map (decimals q) [1..<18])) = Some d" for d
  proof -
    have "d \<in> set (concat (map (decimals q) [1..<18]))" using that unfolding find_Some_iff by (metis nth_mem)
    then show ?thesis using decimals_nonneg [OF is_double_nonneg [OF assms]] by (auto simp del: upt_rec_numeral)
  qed
  then show "0 \<le> printed_abs q" using is_double_nonneg [OF assms] by (auto simp: printed_abs_def split: option.split)
qed

lemma printed_double:
  assumes "is_double \<bar>q\<bar>"
  shows "to_double (Fin (printed q)) = Fin q" "printed q = 0 \<longleftrightarrow> q = 0"
proof -
  have d: "double_abs (printed_abs \<bar>q\<bar>) = Some \<bar>q\<bar>" "0 \<le> printed_abs \<bar>q\<bar>" by (rule printed_abs_double [OF assms])+
  have z: "double_abs 0 = Some 0" by (rule double_abs_fixed [OF is_double_zero])
  then have nz: "q \<noteq> 0 \<Longrightarrow> printed_abs \<bar>q\<bar> \<noteq> 0" using d(1) by auto
  have zero: "printed_abs 0 = 0 \<or> 0 < printed_abs 0" using printed_abs_double(2) [OF is_double_zero] by linarith
  show "to_double (Fin (printed q)) = Fin q" using d nz zero z
    by (cases "q < 0"; cases "q = 0") (auto simp: printed_def signed_def)
  have "printed_abs 0 = 0" 
    unfolding printed_abs_def upt_rec [of 1 18] using z round_even_int [of 0] by (simp add: decimals_def)
  then show "printed q = 0 \<longleftrightarrow> q = 0" using nz by (cases "q < 0") (auto simp: printed_def)
qed

text \<open>Integers below \<open>2 ^ 53\<close> are printed exactly: decimals with fewer digits are other integers.\<close>

lemma magnitude_eq:
  assumes "10 powi (n - 1) \<le> q" "q < 10 powi n" "- 323 < n" "n < 310"
  shows "magnitude q = n"
proof -
  have "find (\<lambda>i. q < 10 powi (int i - 323)) decades = Some (nat (n + 323))"
    unfolding decades_def find_upt
  proof (intro conjI allI impI)
    show "nat (n + 323) < 633" "q < 10 powi (int (nat (n + 323)) - 323)" using assms(2-4) by simp_all
    fix j assume "j < nat (n + 323)"
    then have "(10 :: rat) powi (int j - 323) \<le> 10 powi (n - 1)" by (intro power_int_increasing) simp_all
    then show "\<not> q < 10 powi (int j - 323)" using assms(1) by linarith
  qed
  then show ?thesis using assms(3) by (simp add: magnitude_def)
qed

lemma magnitude_nat:
  assumes "0 < k" "k < 2 ^ 53"
  obtains n where "magnitude (of_nat k) = int n" "0 < n" "n < 17"
proof -
  define n where "n = (LEAST n. k < 10 ^ n)"
  have ex: "k < 10 ^ 16" using assms(2) by simp
  have n: "k < 10 ^ n" "n \<le> 16" unfolding n_def using ex by (rule LeastI, intro Least_le)
  have "n \<noteq> 0" using n(1) assms(1) by (cases n) auto
  then obtain j where j: "n = Suc j" by (cases n) auto
  then have "\<not> k < 10 ^ j" using not_less_Least [of j "\<lambda>n. k < 10 ^ n"] by (simp add: n_def)
  then have "of_nat (10 ^ j) \<le> (of_nat k :: rat)" "of_nat k < (of_nat (10 ^ n) :: rat)"
    using n(1) by (simp_all only: of_nat_le_iff of_nat_less_iff not_less)
  then have "10 powi (int n - 1) \<le> (of_nat k :: rat)" "of_nat k < (10 :: rat) powi int n" by (simp_all add: j power_int_add flip: power_int_of_nat)
  then have "magnitude (of_nat k) = int n" using n(2) by (intro magnitude_eq) simp_all
  then show ?thesis using n(2) \<open>n \<noteq> 0\<close> by (intro that [of n]) simp_all
qed

lemma find_prefix: "find P xs = Some d \<Longrightarrow> find P (xs @ ys) = Some d"
  by (induction xs) (auto split: if_splits)

lemma printed_nat:
  assumes "0 < k" "k < 2 ^ 53"
  shows "printed_abs (of_nat k) = of_nat k"
proof -
  let ?q = "of_nat k :: rat" and ?P = "\<lambda>d. double_abs d = Some (of_nat k)"
  obtain n where n: "magnitude ?q = int n" "0 < n" "n < 17" using magnitude_nat [OF assms] .
  have P: "?P d \<longleftrightarrow> d = ?q" if "d = of_nat i" for d i
  proof (cases "i \<le> 2 ^ 53")
    case True
    then show ?thesis using that double_abs_fixed [OF is_double_nat] by auto
  next
    case False
    then have "of_nat (2 ^ 53) \<le> d" unfolding that by (simp only: of_nat_le_iff)
    then have "?P d \<Longrightarrow> of_nat (2 ^ 53) \<le> ?q"
      using double_abs_mono [of "of_nat (2 ^ 53)" d] double_abs_fixed [OF is_double_nat [of "2 ^ 53"]] by fastforce
    then have "\<not> ?P d" using assms(2) by (metis leD of_nat_le_iff)
    then show ?thesis using assms(2) that False by (simp only: of_nat_eq_iff) simp
  qed
  have nat: "\<exists>i. d = of_nat i" if d: "d \<in> set (decimals ?q j)" and "j \<le> n" for d j
  proof -
    have "(10 :: rat) powi (magnitude ?q - int j) = of_int (10 ^ (n - j))" using n(1) that(2) by (simp add: power_int_def nat_diff_distrib)
    then obtain z :: int where "d = of_int z"
      using d that [of "_ * 10 ^ (n - j)"] unfolding decimals_def Let_def by (auto simp only: list.set insert_iff empty_iff of_int_mult)
    moreover from this have "0 \<le> z" using decimals_nonneg [OF _ d] by simp
    ultimately show ?thesis by (metis int_nat_eq of_int_of_nat_eq)
  qed
  have in_list: "?q \<in> set (decimals ?q n)" using n(1) round_even_int [of "int k"] by (simp add: decimals_def)
  have split: "[1..<18] = [1..<Suc n] @ [Suc n..<18]" using n(2,3) upt_add_eq_append [of 1 "Suc n" "17 - n"] by simp
  obtain d where d: "find ?P (concat (map (decimals ?q) [1..<Suc n])) = Some d"
    using in_list P [of ?q k] n(2) find_None_iff [of ?P "concat (map (decimals ?q) [1..<Suc n])"] by fastforce
  then have Pd: "?P d" and "d \<in> set (concat (map (decimals ?q) [1..<Suc n]))" unfolding find_Some_iff by (metis nth_mem)+
  then obtain j where "d \<in> set (decimals ?q j)" "j \<le> n" by (auto simp: less_Suc_eq_le)
  then have "d = ?q" using P nat Pd by blast
  moreover have "find ?P (concat (map (decimals ?q) [1..<18])) = Some d" unfolding split map_append concat_append using d by (rule find_prefix)
  ultimately show ?thesis by (simp add: printed_abs_def)
qed

end
