(* ===== verification/JsBenchmark.thy ===== *)
theory JsBenchmark
  imports JsSorted JsStrings JsDouble
begin

text \<open>
  The benchmark runner benchmark.js: the comparison of samples by the Mann-Whitney test, the statistics
  of a sample, the cycles that establish a run count, the event listeners of benchmarks and suites,
  the abort and reset protocol of suites, and the formatting of numbers. Times are rational numbers of seconds.
\<close>

section \<open>Tables\<close>

definition divisors :: "(nat \<times> int) list" where
  "divisors = [(1, 4096), (2, 512), (3, 64), (4, 8), (5, 0)]"

definition tTable :: "(int \<times> rat) list" where
  "tTable =
     [(1, 12706 / 1000), (2, 4303 / 1000), (3, 3182 / 1000), (4, 2776 / 1000), (5, 2571 / 1000), (6, 2447 / 1000),
      (7, 2365 / 1000), (8, 2306 / 1000), (9, 2262 / 1000), (10, 2228 / 1000), (11, 2201 / 1000), (12, 2179 / 1000),
      (13, 216 / 100), (14, 2145 / 1000), (15, 2131 / 1000), (16, 212 / 100), (17, 211 / 100), (18, 2101 / 1000),
      (19, 2093 / 1000), (20, 2086 / 1000), (21, 208 / 100), (22, 2074 / 1000), (23, 2069 / 1000), (24, 2064 / 1000),
      (25, 206 / 100), (26, 2056 / 1000), (27, 2052 / 1000), (28, 2048 / 1000), (29, 2045 / 1000), (30, 2042 / 1000)]"

definition tTable_infinity :: rat where
  "tTable_infinity = 196 / 100"

definition uTable :: "(nat \<times> nat list) list" where
  "uTable =
     [(5, [0, 1, 2]),
      (6, [1, 2, 3, 5]),
      (7, [1, 3, 5, 6, 8]),
      (8, [2, 4, 6, 8, 10, 13]),
      (9, [2, 4, 7, 10, 12, 15, 17]),
      (10, [3, 5, 8, 11, 14, 17, 20, 23]),
      (11, [3, 6, 9, 13, 16, 19, 23, 26, 30]),
      (12, [4, 7, 11, 14, 18, 22, 26, 29, 33, 37]),
      (13, [4, 8, 12, 16, 20, 24, 28, 33, 37, 41, 45]),
      (14, [5, 9, 13, 17, 22, 26, 31, 36, 40, 45, 50, 55]),
      (15, [5, 10, 14, 19, 24, 29, 34, 39, 44, 49, 54, 59, 64]),
      (16, [6, 11, 15, 21, 26, 31, 37, 42, 47, 53, 59, 64, 70, 75]),
      (17, [6, 11, 17, 22, 28, 34, 39, 45, 51, 57, 63, 67, 75, 81, 87]),
      (18, [7, 12, 18, 24, 30, 36, 42, 48, 55, 61, 67, 74, 80, 86, 93, 99]),
      (19, [7, 13, 19, 25, 32, 38, 45, 52, 58, 65, 72, 78, 85, 92, 99, 106, 113]),
      (20, [8, 14, 20, 27, 34, 41, 48, 55, 62, 69, 76, 83, 90, 98, 105, 112, 119, 127]),
      (21, [8, 15, 22, 29, 36, 43, 50, 58, 65, 73, 80, 88, 96, 103, 111, 119, 126, 134, 142]),
      (22, [9, 16, 23, 30, 38, 45, 53, 61, 69, 77, 85, 93, 101, 109, 117, 125, 133, 141, 150, 158]),
      (23, [9, 17, 24, 32, 40, 48, 56, 64, 73, 81, 89, 98, 106, 115, 123, 132, 140, 149, 157, 166, 175]),
      (24, [10, 17, 25, 33, 42, 50, 59, 67, 76, 85, 94, 102, 111, 120, 129, 138, 147, 156, 165, 174, 183, 192]),
      (25, [10, 18, 27, 35, 44, 53, 62, 71, 80, 89, 98, 107, 117, 126, 135, 145, 154, 163, 173, 182, 192, 201, 211]),
      (26, [11, 19, 28, 37, 46, 55, 64, 74, 83, 93, 102, 112, 122, 132, 141, 151, 161, 171, 181, 191, 200, 210, 220, 230]),
      (27, [11, 20, 29, 38, 48, 57, 67, 77, 87, 97, 107, 118, 125, 138, 147, 158, 168, 178, 188, 199, 209, 219, 230, 240, 250]),
      (28, [12, 21, 30, 40, 50, 60, 70, 80, 90, 101, 111, 122, 132, 143, 154, 164, 175, 186, 196, 207, 218, 228, 239, 250, 261, 272]),
      (29, [13, 22, 32, 42, 52, 62, 73, 83, 94, 105, 116, 127, 138, 149, 160, 171, 182, 193, 204, 215, 226, 238, 249, 260, 271, 282, 294]),
      (30, [13, 23, 33, 43, 54, 65, 76, 87, 98, 109, 120, 131, 143, 154, 166, 177, 189, 200, 212, 223, 235, 247, 258, 270, 282, 293, 305, 317])]"

section \<open>Comparison of samples\<close>

definition getMean :: "rat list \<Rightarrow> rat" where
  "getMean xs = (if xs = [] then 0 else foldl (+) (hd xs) (tl xs) / of_nat (length xs))"

definition getScore :: "rat \<Rightarrow> rat list \<Rightarrow> rat" where
  "getScore xA sampleB = foldl (\<lambda>total xB. total + (if xB > xA then 0 else if xB < xA then 1 else 1 / 2)) 0 sampleB"

definition getU :: "rat list \<Rightarrow> rat list \<Rightarrow> rat" where
  "getU sampleA sampleB = foldl (\<lambda>total xA. total + getScore xA sampleB) 0 sampleA"

definition getZ :: "nat \<Rightarrow> nat \<Rightarrow> rat \<Rightarrow> real" where
  "getZ size1 size2 u =
     (real_of_rat u - real (size1 * size2) / 2) / sqrt (real (size1 * size2 * (size1 + size2 + 1)) / 12)"

text \<open>The critical value for samples of at most 30 values together; None where the table has no entry.\<close>

definition critical_u :: "nat \<Rightarrow> nat \<Rightarrow> nat option" where
  "critical_u maxSize minSize =
     (if maxSize < 5 \<or> minSize < 3 then Some 0
      else case map_of uTable maxSize of
             None \<Rightarrow> None
           | Some row \<Rightarrow> if minSize - 3 < length row then Some (row ! (minSize - 3)) else None)"

record bench_stats =
  sample :: "rat list"
  mean :: rat
  moe :: rat

record bench =
  bench_id :: nat
  bench_hz :: jsnum
  bench_cycles :: nat
  bench_error :: bool
  stats :: bench_stats

text \<open>\<open>compare\<close>: 1 if faster, -1 if slower, 0 if indeterminate; None if the table look-up fails.\<close>

definition compare_samples :: "rat list \<Rightarrow> rat list \<Rightarrow> int option" where
  "compare_samples sample1 sample2 =
     (let size1 = length sample1; size2 = length sample2;
          u1 = getU sample1 sample2; u2 = getU sample2 sample1; u = min u1 u2;
          faster = (if u = u1 then 1 else -1)
      in if size1 + size2 > 30
         then Some (if \<bar>getZ size1 size2 u\<bar> > 196 / 100 then faster else 0)
         else map_option (\<lambda>critical. if u \<le> of_nat critical then faster else 0)
                (critical_u (max size1 size2) (min size1 size2)))"

definition compare :: "bench \<Rightarrow> bench \<Rightarrow> int option" where
  "compare bench other =
     (if bench_id bench = bench_id other then Some 0
      else compare_samples (sample (stats bench)) (sample (stats other)))"

datatype filter_arg = Successful | Fastest | Slowest | Callback "bench \<Rightarrow> bool"

definition successful :: "bench \<Rightarrow> bool" where
  "successful b = (bench_cycles b \<noteq> 0 \<and> bench_hz b \<notin> {NaN, PInf, NInf} \<and> \<not> bench_error b)"

definition speed_order :: "bool \<Rightarrow> bench \<Rightarrow> bench \<Rightarrow> int" where
  "speed_order fastest a b =
     (if mean (stats a) + moe (stats a) > mean (stats b) + moe (stats b) then 1 else -1) * (if fastest then 1 else -1)"

text \<open>\<open>sort_host\<close> is the sort method of the host's arrays.\<close>

definition filter_js :: "((bench \<Rightarrow> bench \<Rightarrow> int) \<Rightarrow> bench list \<Rightarrow> bench list) \<Rightarrow> bench list \<Rightarrow> filter_arg \<Rightarrow> bench list" where
  "filter_js sort_host array callback =
     (case callback of
        Callback p \<Rightarrow> filter p array
      | Successful \<Rightarrow> filter successful array
      | _ \<Rightarrow>
          (let res = sort_host (speed_order (callback = Fastest)) (filter successful array)
           in filter (\<lambda>bench. compare (hd res) bench = Some 0) res))"

section \<open>Statistics of a run\<close>

text \<open>The sums run from the left, as reductions; undefined and NaN results become 0 by the \<open>||\<close> of the code.\<close>

definition sample_variance :: "rat list \<Rightarrow> rat" where
  "sample_variance xs =
     (if length xs = 1 then 0
      else foldl (\<lambda>sum x. sum + (x - getMean xs) ^ 2) 0 xs / (of_nat (length xs) - 1))"

definition critical_t :: "nat \<Rightarrow> rat" where
  "critical_t n =
     (let df = int n - 1
      in case map_of tTable (if df \<noteq> 0 then df else 1) of None \<Rightarrow> tTable_infinity | Some t \<Rightarrow> t)"

text \<open>None stands for NaN: the standard error of no values is 0 / 0.\<close>

record run_stats =
  st_mean :: rat
  st_variance :: rat
  st_deviation :: real
  st_sem :: "real option"
  st_moe :: "real option"
  st_rme :: real

definition sample_stats :: "rat list \<Rightarrow> run_stats" where
  "sample_stats xs =
     (let m = getMean xs; variance = sample_variance xs; sd = sqrt (real_of_rat variance);
          sem = (if xs = [] then None else Some (sd / sqrt (real (length xs))));
          moe = map_option (\<lambda>s. s * real_of_rat (critical_t (length xs))) sem;
          rme = (case moe of None \<Rightarrow> 0 | Some e \<Rightarrow> if m = 0 then 0 else e / real_of_rat m * 100)
      in \<lparr>st_mean = m, st_variance = variance, st_deviation = sd, st_sem = sem, st_moe = moe, st_rme = rme\<rparr>)"

text \<open>What \<open>compute\<close> keeps while a benchmark runs.\<close>

record run_state =
  run_sample :: "rat list"
  queue_length :: nat
  elapsed :: rat
  run_hz :: jsnum
  run_running :: bool
  run_aborted :: bool
  run_stats :: "run_stats option"
  minSamples :: nat
  maxTime :: rat

text \<open>
  \<open>evaluate\<close>, called after each clone has run; the second result is \<open>event.aborted\<close>. The elapsed time of the
  clone is in milliseconds, and it is added only when the sample is large enough. A mean of 0 gives a rate of infinity.
\<close>

definition evaluate :: "run_state \<Rightarrow> rat \<Rightarrow> jsnum \<Rightarrow> rat \<Rightarrow> run_state \<times> bool" where
  "evaluate s period clone_hz clone_elapsed =
     (let sample1 = run_sample s @ [period];
          enough = (length sample1 \<ge> minSamples s);
          elapsed1 = (if enough then elapsed s + clone_elapsed else elapsed s);
          drop_all = (run_aborted s \<or> clone_hz = PInf);
          maxedOut = (if drop_all then True else enough \<and> elapsed1 / 1000 > maxTime s);
          sample2 = (if drop_all then [] else sample1);
          queue1 = (if drop_all then 0 else queue_length s);
          done = (run_aborted s \<or> maxedOut);
          queue2 = (if queue1 < 2 \<and> \<not> maxedOut then queue1 + 1 else queue1)
      in (if run_aborted s then s\<lparr>run_sample := sample2, queue_length := queue2, elapsed := elapsed1\<rparr>
          else s\<lparr>run_sample := sample2, queue_length := queue2, elapsed := elapsed1,
                run_stats := Some (sample_stats sample2),
                run_running := (if maxedOut then False else run_running s),
                run_hz := (if run_hz s = PInf then PInf else num_div (Fin 1) (Fin (getMean sample2)))\<rparr>,
          done))"

section \<open>Cycles\<close>

definition num_ceil :: "jsnum \<Rightarrow> jsnum" where
  "num_ceil n = (case n of Fin q \<Rightarrow> num_of_int \<lceil>q\<rceil> | _ \<Rightarrow> n)"

definition num_floor :: "jsnum \<Rightarrow> jsnum" where
  "num_floor n = (case n of Fin q \<Rightarrow> num_of_int \<lfloor>q\<rfloor> | _ \<Rightarrow> n)"

record clone_state =
  count :: jsnum
  cycles :: nat
  running :: bool
  hz :: jsnum
  period_time :: jsnum
  cycle_time :: jsnum
  initCount :: jsnum

text \<open>The number of iterations for the next cycle, from the time the last one took.\<close>

definition next_count :: "nat \<Rightarrow> jsnum \<Rightarrow> jsnum \<Rightarrow> jsnum \<Rightarrow> jsnum" where
  "next_count n cnt clocked minTime =
     (let cnt1 = (if \<not> num_truthy clocked
                  then (case map_of divisors n of
                          None \<Rightarrow> cnt
                        | Some divisor \<Rightarrow> num_floor (dbl_div (Fin 4000000) (num_of_int divisor)))
                  else cnt)
      in if num_le cnt1 cnt
         then dbl_add cnt1 (num_ceil (dbl_div (dbl_sub minTime clocked) (dbl_div clocked cnt)))
         else cnt1)"

text \<open>
  One pass of \<open>cycle\<close> on a running clone whose test does not fail and whose listeners do not abort it, without a deferred
  clock; \<open>clocked\<close> is the time that \<open>clock\<close> measured.
\<close>

definition cycle_pass :: "jsnum \<Rightarrow> jsnum \<Rightarrow> clone_state \<Rightarrow> clone_state" where
  "cycle_pass minTime clocked clone =
     (let n = cycles clone + 1; p = dbl_div clocked (count clone);
          again = num_less clocked minTime;
          cnt = (if again then next_count n (count clone) clocked minTime else count clone);
          go = (again \<and> cnt \<noteq> PInf)
      in clone\<lparr>cycles := n, cycle_time := clocked, period_time := p, hz := dbl_div (Fin 1) p, initCount := count clone,
               running := go, count := (if go then cnt else count clone)\<rparr>)"

text \<open>The cycles of a clone, with a clock that depends on the number of iterations; None if they never end.\<close>

partial_function (option) run_cycles :: "(jsnum \<Rightarrow> jsnum) \<Rightarrow> jsnum \<Rightarrow> clone_state \<Rightarrow> clone_state option" where
  "run_cycles clock minTime clone =
     (if running clone then run_cycles clock minTime (cycle_pass minTime (clock (count clone)) clone)
      else Some clone)"

section \<open>Event listeners\<close>

text \<open>Listeners are identified by numbers; an object without listeners has no \<open>events\<close> property (None).\<close>

type_synonym events = "(string \<times> nat list) list option"

definition listeners_of :: "events \<Rightarrow> string \<Rightarrow> nat list" where
  "listeners_of ev t = (case ev of None \<Rightarrow> [] | Some es \<Rightarrow> (case map_of es t of None \<Rightarrow> [] | Some ls \<Rightarrow> ls))"

fun split_space :: "string \<Rightarrow> string list" where
  "split_space [] = [[]]"
| "split_space (c # s) =
     (if c = CHR '' '' then [] # split_space s
      else case split_space s of [] \<Rightarrow> [[c]] | w # ws \<Rightarrow> (c # w) # ws)"

definition listeners :: "events \<Rightarrow> string \<Rightarrow> events \<times> nat list" where
  "listeners ev t =
     (let es = (case ev of None \<Rightarrow> [] | Some es \<Rightarrow> es)
      in case map_of es t of Some ls \<Rightarrow> (Some es, ls) | None \<Rightarrow> (Some (es @ [(t, [])]), []))"

definition set_listeners :: "(string \<times> nat list) list \<Rightarrow> string \<Rightarrow> nat list \<Rightarrow> (string \<times> nat list) list" where
  "set_listeners es t ls =
     (if map_of es t = None then es @ [(t, ls)] else map (\<lambda>(k, v). if k = t then (k, ls) else (k, v)) es)"

definition push_listener :: "nat \<Rightarrow> string \<Rightarrow> (string \<times> nat list) list \<Rightarrow> (string \<times> nat list) list" where
  "push_listener l t es = set_listeners es t (listeners_of (Some es) t @ [l])"

definition on_js :: "events \<Rightarrow> string \<Rightarrow> nat \<Rightarrow> events" where
  "on_js ev types l =
     Some (fold (push_listener l) (split_space types) (case ev of None \<Rightarrow> [] | Some es \<Rightarrow> es))"

definition drop_listener :: "nat option \<Rightarrow> string \<Rightarrow> (string \<times> nat list) list \<Rightarrow> (string \<times> nat list) list" where
  "drop_listener l t es =
     (case map_of es t of
        None \<Rightarrow> es
      | Some ls \<Rightarrow> set_listeners es t (case l of None \<Rightarrow> [] | Some x \<Rightarrow> remove1 x ls))"

text \<open>An empty or absent type stands for all types.\<close>

definition off_js :: "events \<Rightarrow> string option \<Rightarrow> nat option \<Rightarrow> events" where
  "off_js ev types l =
     (case ev of
        None \<Rightarrow> None
      | Some es \<Rightarrow>
          Some (fold (drop_listener l)
                 (case types of None \<Rightarrow> map fst es | Some t \<Rightarrow> if t = [] then map fst es else split_space t) es))"

record event =
  event_type :: string
  cancelled :: bool
  aborted :: bool
  event_result :: jsval

text \<open>
  \<open>call\<close> is what a listener does: its return value and the event afterwards. The third result lists
  the listeners called.
\<close>

fun emit_loop :: "(nat \<Rightarrow> event \<Rightarrow> jsval \<times> event) \<Rightarrow> nat list \<Rightarrow> event \<Rightarrow> event \<times> nat list" where
  "emit_loop call [] e = (e, [])"
| "emit_loop call (l # ls) e =
     (case call l e of (r, e1) \<Rightarrow>
        let e2 = e1\<lparr>event_result := r, cancelled := (if r = Bool False then True else cancelled e1)\<rparr>
        in if aborted e2 then (e2, [l])
           else (case emit_loop call ls e2 of (e3, called) \<Rightarrow> (e3, l # called)))"

definition emit :: "(nat \<Rightarrow> event \<Rightarrow> jsval \<times> event) \<Rightarrow> events \<Rightarrow> event \<Rightarrow> event \<times> nat list" where
  "emit call ev e = emit_loop call (listeners_of ev (event_type e)) (e\<lparr>event_result := Undefined\<rparr>)"

section \<open>Aborting and resetting a suite\<close>

text \<open>
  The state of a suite with the flags of \<open>calledBy\<close>. The parameters say whether a listener
  cancels the abort and the reset event; the log records the events and the methods invoked on
  the benchmarks.
\<close>

datatype suite_log = EmitAbort | EmitReset | InvokeAbort | InvokeReset

record suite =
  suite_running :: bool
  suite_aborted :: bool
  by_abort :: bool
  by_reset :: bool
  log :: "suite_log list"

text \<open>The part of \<open>resetSuite\<close> that resets, taken unless the suite runs and is not being aborted.\<close>

definition reset_state :: "bool \<Rightarrow> suite \<Rightarrow> suite" where
  "reset_state cancel_reset s =
     (if suite_aborted s \<or> suite_running s
      then (let s1 = s\<lparr>log := log s @ [EmitReset]\<rparr>
            in if cancel_reset then s1
               else (let s2 = s1\<lparr>suite_aborted := False, suite_running := False\<rparr>
                     in if by_abort s then s2 else s2\<lparr>log := log s2 @ [InvokeReset]\<rparr>))
      else s)"

text \<open>
  \<open>abortSuite\<close>; its call of \<open>reset\<close> is made with \<open>calledBy.abortSuite\<close> set and so takes the
  branch that resets.
\<close>

definition abortSuite :: "bool \<Rightarrow> bool \<Rightarrow> suite \<Rightarrow> suite" where
  "abortSuite cancel_abort cancel_reset s =
     (if suite_running s
      then (let s1 = s\<lparr>log := log s @ [EmitAbort]\<rparr>
            in if \<not> cancel_abort \<or> by_reset s
               then (let s2 = (reset_state cancel_reset (s1\<lparr>by_abort := True\<rparr>))\<lparr>by_abort := False\<rparr>
                     in if by_reset s then s2 else s2\<lparr>suite_aborted := True, log := log s2 @ [InvokeAbort]\<rparr>)
               else s1)
      else s)"

definition resetSuite :: "bool \<Rightarrow> bool \<Rightarrow> suite \<Rightarrow> suite" where
  "resetSuite cancel_abort cancel_reset s =
     (if suite_running s \<and> \<not> by_abort s
      then (abortSuite cancel_abort cancel_reset (s\<lparr>by_reset := True\<rparr>))\<lparr>by_reset := False\<rparr>
      else reset_state cancel_reset s)"

section \<open>Formatting\<close>

definition is_word :: "char \<Rightarrow> bool" where
  "is_word c =
     (let n = of_char c :: nat
      in is_digit c \<or> (65 \<le> n \<and> n \<le> 90) \<or> (97 \<le> n \<and> n \<le> 122) \<or> n = 95)"

text \<open>A comma goes before the rest \<open>s\<close> of a string after \<open>prev\<close> (None at the start) where the pattern of \<open>formatNumber\<close> matches.\<close>

definition comma_before :: "char option \<Rightarrow> string \<Rightarrow> bool" where
  "comma_before prev s =
     (s \<noteq> [] \<and> list_all is_digit s \<and> length s mod 3 = 0 \<and>
      (case prev of None \<Rightarrow> False | Some c \<Rightarrow> is_word c))"

fun insert_commas :: "char option \<Rightarrow> string \<Rightarrow> string" where
  "insert_commas prev [] = []"
| "insert_commas prev (c # s) =
     (if comma_before prev (c # s) then CHR '','' # c # insert_commas (Some c) s else c # insert_commas (Some c) s)"

text \<open>\<open>formatNumber\<close> on the printed number; of several dots, only the first two parts are kept.\<close>

definition formatNumber :: "string \<Rightarrow> string" where
  "formatNumber number =
     (let whole = takeWhile (\<lambda>c. c \<noteq> CHR ''.'') number;
          frac = takeWhile (\<lambda>c. c \<noteq> CHR ''.'') (drop (Suc (length whole)) number)
      in insert_commas None whole @ (if frac \<noteq> [] then CHR ''.'' # frac else []))"

text \<open>\<open>join\<close> of an array of strings, and of an object as a list of keys and values.\<close>

fun join_strings :: "string \<Rightarrow> string list \<Rightarrow> string" where
  "join_strings sep [] = []"
| "join_strings sep [s] = s"
| "join_strings sep (s # t # rest) = s @ sep @ join_strings sep (t # rest)"

definition join_js :: "string list + (string \<times> string) list \<Rightarrow> string \<Rightarrow> string \<Rightarrow> string" where
  "join_js object separator1 separator2 =
     (let sep2 = (if separator2 = [] then '': '' else separator2);
          parts = (case object of Inl xs \<Rightarrow> xs | Inr kvs \<Rightarrow> map (\<lambda>(k, v). k @ sep2 @ v) kvs)
      in join_strings (if separator1 = [] then '','' else separator1) parts)"

section \<open>Specifications\<close>

text \<open>The score of a pair of values: 1 if the second is less, 1/2 if they are equal.\<close>

definition pair_score :: "rat \<Rightarrow> rat \<Rightarrow> rat" where
  "pair_score xA xB = (if xB > xA then 0 else if xB < xA then 1 else 1 / 2)"

text \<open>Every entry of a row is below half of the number of pairs of values, the mean of the statistic.\<close>

fun below_half :: "nat \<Rightarrow> nat \<Rightarrow> nat list \<Rightarrow> bool" where
  "below_half m k [] = True"
| "below_half m k (c # cs) = (2 * c < m * k \<and> below_half m (Suc k) cs)"

text \<open>A decimal numeral cut into groups of three digits from the right.\<close>

function groups3 :: "string \<Rightarrow> string list" where
  "groups3 s = (if length s \<le> 3 then [s] else groups3 (take (length s - 3) s) @ [drop (length s - 3) s])"
  by pat_completeness auto

termination
  by (relation "measure length") auto

declare groups3.simps [simp del]

section \<open>Lemmas\<close>


subsection \<open>Samples\<close>

lemma foldl_add_sum: "foldl (\<lambda>t x. t + f x) a xs = a + sum_list (map f xs)" for a :: rat
  by (induction xs arbitrary: a) (simp_all add: add.assoc)

lemma sum_list_swap:
  "sum_list (map (\<lambda>a. sum_list (map (f a) ys)) xs) = sum_list (map (\<lambda>b. sum_list (map (\<lambda>a. f a b) xs)) ys)"
  for f :: "'a \<Rightarrow> 'b \<Rightarrow> rat"
  by (induction xs) (simp_all add: sum_list_addf)

lemma getU_sum: "getU xs ys = sum_list (map (\<lambda>a. sum_list (map (pair_score a) ys)) xs)"
  by (simp add: getU_def getScore_def foldl_add_sum pair_score_def [abs_def])

lemma getU_complement: "getU xs ys + getU ys xs = of_nat (length xs * length ys)"
proof -
  have "getU xs ys + getU ys xs =
        sum_list (map (\<lambda>a. sum_list (map (pair_score a) ys) + sum_list (map (\<lambda>b. pair_score b a) ys)) xs)"
    by (simp only: getU_sum sum_list_swap [of pair_score xs ys] sum_list_addf)
  also have "\<dots> = sum_list (map (\<lambda>a. sum_list (map (\<lambda>b. pair_score a b + pair_score b a) ys)) xs)"
    by (simp only: sum_list_addf)
  also have "\<dots> = sum_list (map (\<lambda>a. sum_list (map (\<lambda>b. 1) ys)) xs)"
    by (intro arg_cong [of _ _ sum_list] map_cong refl) (simp add: pair_score_def)
  finally show ?thesis by (simp add: sum_list_triv)
qed

lemma getU_nonneg: "0 \<le> getU xs ys"
  by (auto simp: getU_sum pair_score_def intro!: sum_list_nonneg)

lemma uTable_rows: "list_all (\<lambda>(m, row). length row + 2 = m \<and> below_half m 3 row) uTable"
  by (simp add: uTable_def)

lemma uTable_keys: "map fst uTable = [5..<31]"
  by (simp add: uTable_def upt_rec)

lemma below_half_nth: "below_half m k row \<Longrightarrow> i < length row \<Longrightarrow> 2 * row ! i < m * (k + i)"
proof (induction row arbitrary: k i)
  case (Cons c row)
  then show ?case using Cons.IH [of "Suc k" "i - 1"] by (cases i) auto
qed simp

lemma critical_u_defined:
  assumes "m + k \<le> 30" "k \<le> m"
  shows "\<exists>c. critical_u m k = Some c \<and> (2 * c < m * k \<or> m * k = 0)"
proof (cases "m < 5 \<or> k < 3")
  case True
  then show ?thesis by (auto simp: critical_u_def)
next
  case False
  then have "m \<in> set (map fst uTable)" using assms unfolding uTable_keys set_upt by simp
  then obtain row where row: "map_of uTable m = Some row" by (metis map_of_eq_None_iff not_None_eq image_set)
  then have "length row + 2 = m" "below_half m 3 row"
    using uTable_rows map_of_SomeD [OF row] by (auto simp: list_all_iff)
  then have "critical_u m k = Some (row ! (k - 3))" "2 * row ! (k - 3) < m * k"
    using False assms row below_half_nth [of m 3 row "k - 3"] by (auto simp: critical_u_def)
  then show ?thesis by blast
qed

lemma critical_u_max_min:
  assumes "n + m \<le> 30"
  shows "\<exists>c. critical_u (max n m) (min n m) = Some c \<and> (2 * c < n * m \<or> n * m = 0)"
proof (cases "n \<le> m")
  case True
  then show ?thesis using assms critical_u_defined [of m n] by (simp add: max_absorb2 min_absorb1 mult.commute)
next
  case False
  then show ?thesis using assms critical_u_defined [of n m] by (simp add: max_absorb1 min_absorb2)
qed

lemma getZ_commute: "getZ n m u = getZ m n u"
  by (simp add: getZ_def mult.commute add.commute)

lemma compare_samples_at_half:
  assumes "xs \<noteq> []" "ys \<noteq> []" "getU xs ys = getU ys xs"
  shows "compare_samples xs ys = Some 0"
proof -
  let ?n = "length xs" and ?m = "length ys"
  have pos: "0 < ?n * ?m" using assms by simp
  have "2 * getU xs ys = of_nat (?n * ?m)" using getU_complement [of xs ys] assms(3) by simp
  then have half: "getU xs ys = of_nat (?n * ?m) / 2" by simp
  show ?thesis
  proof (cases "?n + ?m > 30")
    case True
    have "getZ ?n ?m (getU xs ys) = 0" by (simp add: getZ_def half of_rat_divide of_rat_mult)
    then show ?thesis using True assms(3) by (simp add: compare_samples_def Let_def)
  next
    case False
    then obtain c where c: "critical_u (max ?n ?m) (min ?n ?m) = Some c" "2 * c < ?n * ?m"
      using critical_u_max_min [of ?n ?m] pos by auto
    then have "of_nat (2 * c) < (of_nat (?n * ?m) :: rat)" by (simp only: of_nat_less_iff)
    then have "\<not> getU xs ys \<le> of_nat c" by (simp add: half)
    then show ?thesis using False c(1) assms(3) by (simp add: compare_samples_def Let_def)
  qed
qed

lemma compare_samples_defined: "compare_samples xs ys \<noteq> None"
proof (cases "length xs + length ys > 30")
  case False
  then show ?thesis using critical_u_max_min [of "length xs" "length ys"]
    by (auto simp: compare_samples_def Let_def)
qed (simp add: compare_samples_def Let_def)

lemma compare_samples_swap:
  assumes "getU xs ys \<noteq> getU ys xs"
  shows "compare_samples ys xs = map_option uminus (compare_samples xs ys)"
proof -
  have m: "min (getU ys xs) (getU xs ys) = min (getU xs ys) (getU ys xs)" by (rule min.commute)
  have f: "(if min (getU xs ys) (getU ys xs) = getU ys xs then 1 else -1 :: int) = - (if min (getU xs ys) (getU ys xs) = getU xs ys then 1 else -1)"
    using assms by (auto simp: min_def)
  show ?thesis
    by (simp only: compare_samples_def Let_def m f getZ_commute [of "length ys"] max.commute [of "length ys"]
          min.commute [of "length ys"] add.commute [of "length ys"])
      (cases "critical_u (max (length xs) (length ys)) (min (length xs) (length ys))"; simp)
qed

subsection \<open>Cycles\<close>

lemma num_div_pos: "0 < p \<Longrightarrow> 0 < q \<Longrightarrow> num_div (Fin p) (Fin q) = Fin (p / q)"
  by (simp add: num_div_def num_infinite_def signed_def Let_def)

lemma dbl_div_pos: "0 < p \<Longrightarrow> 0 < q \<Longrightarrow> double_abs (p / q) = Some r \<Longrightarrow> dbl_div (Fin p) (Fin q) = Fin r"
  by (simp add: dbl_div_def num_div_pos to_double_pos del: to_double.simps)

lemma last_cycle:
  assumes "running cl" "clock (count cl) = Fin t" "m \<le> t"
  shows "\<exists>r. run_cycles clock (Fin m) cl = Some r \<and> \<not> running r \<and> cycles r = cycles cl + 1 \<and> clock (count r) = Fin t \<and>
    cycle_time r = Fin t \<and> period_time r = dbl_div (Fin t) (count r) \<and> hz r = dbl_div (Fin 1) (period_time r)"
  by (subst run_cycles.simps, subst run_cycles.simps) (use assms in \<open>simp add: cycle_pass_def Let_def\<close>)

lemma dbl_add_pos: "0 < p + q \<Longrightarrow> double_abs (p + q) = Some r \<Longrightarrow> dbl_add (Fin p) (Fin q) = Fin r"
  by (simp add: dbl_add_def signed_def)

lemma dbl_sub_pos: "q < p \<Longrightarrow> 0 < q \<Longrightarrow> double_abs (p - q) = Some r \<Longrightarrow> dbl_sub (Fin p) (Fin q) = Fin r"
  by (simp add: dbl_sub_def num_sub_def signed_def)

text \<open>The estimate of the iterations that are still needed is at least one.\<close>

lemma estimate_positive:
  assumes "is_double t" "is_double m" "is_double p" "0 < p" "t < m" "m \<le> p * 2 ^ 53" "1 \<le> c" "p * c \<le> t"
  shows "\<exists>e. num_ceil (dbl_div (dbl_sub (Fin m) (Fin t)) (dbl_div (Fin t) (Fin c))) = Fin (of_nat e) \<and> 0 < e \<and> e \<le> 2 ^ 53"
proof -
  have t: "0 < t" using assms(4,7,8) mult_left_mono [of 1 c p] by linarith
  have "p \<le> t / c" "t / c \<le> t" using assms(7,8) t mult_left_mono [of 1 c t] by (simp_all add: pos_le_divide_eq pos_divide_le_eq)
  then obtain per where per: "double_abs (t / c) = Some per" "p \<le> per" "per \<le> t" using double_abs_between [OF assms(3,1)] by blast
  note gap = double_gap [OF assms(1,2,5)]
  obtain dm where dm: "double_abs (m - t) = Some dm" "least_double \<le> dm" "dm \<le> m"
    using double_abs_between [OF is_double_least assms(2) gap(1)] t by auto
  have pos: "0 < per" "0 < dm" using per(2) assms(4) dm(2) least_double_pos by linarith+
  have half: "(m - t) / 2 \<le> dm" by (rule double_abs_half [OF dm(1) gap(1)])
  have "least_double \<le> dm / per"
  proof (cases "m < 1")
    case True
    then have "dm * per \<le> dm * 1" using per(3) assms(5) pos by (intro mult_left_mono) simp_all
    then have "dm \<le> dm / per" using pos by (simp add: pos_le_divide_eq)
    then show ?thesis using dm(2) by simp
  next
    case False
    then have "m \<le> 2 ^ 54 * (m - t)" using gap(2) by simp
    then have "per \<le> 2 ^ 55 * dm" using half per(3) assms(5) by simp
    then have "1 / 2 ^ 55 \<le> dm / per" using pos by (simp add: field_simps)
    moreover have "least_double \<le> 1 / 2 ^ 55" by (simp add: least_double_def)
    ultimately show ?thesis by (rule order_trans [rotated])
  qed
  moreover have "dm / per \<le> of_nat (2 ^ 53)"
  proof -
    have "dm \<le> 2 ^ 53 * per" using dm(3) assms(6) per(2) by simp
    then show ?thesis using pos by (simp add: pos_divide_le_eq)
  qed
  ultimately obtain quo where quo: "double_abs (dm / per) = Some quo" "least_double \<le> quo" "quo \<le> of_nat (2 ^ 53)"
    using double_abs_between [OF is_double_least is_double_nat [of "2 ^ 53"]] by blast
  have "0 < quo" using quo(2) least_double_pos by linarith
  moreover have "\<lceil>quo\<rceil> \<le> int (2 ^ 53)" using quo(3) by (simp add: ceiling_le_iff)
  ultimately have "0 < \<lceil>quo\<rceil>" "nat \<lceil>quo\<rceil> \<le> 2 ^ 53" by (simp_all only: zero_less_ceiling nat_le_iff)
  moreover have "dbl_div (dbl_sub (Fin m) (Fin t)) (dbl_div (Fin t) (Fin c)) = Fin quo"
    using dbl_sub_pos [OF assms(5) t dm(1)] dbl_div_pos [OF t _ per(1)] dbl_div_pos [OF pos(2,1) quo(1)] assms(7) by simp
  ultimately show ?thesis by (intro exI [of _ "nat \<lceil>quo\<rceil>"]) (simp add: num_ceil_def num_of_int_def)
qed

lemma next_count_grows:
  assumes "is_double t" "is_double m" "is_double p" "0 < p" "t < m" "m \<le> p * 2 ^ 53" "1 \<le> k" "p * of_nat k \<le> t" "k < 2 ^ 53"
  shows "\<exists>d. next_count n (Fin (of_nat k)) (Fin t) (Fin m) = Fin d \<and> ((\<exists>j>k. d = of_nat j \<and> j \<le> 2 ^ 53) \<or> 2 ^ 53 \<le> d \<and> d \<le> 2 ^ 54)"
proof -
  obtain e where e: "num_ceil (dbl_div (dbl_sub (Fin m) (Fin t)) (dbl_div (Fin t) (Fin (of_nat k)))) = Fin (of_nat e)" "0 < e" "e \<le> 2 ^ 53"
    using estimate_positive [OF assms(1-6) _ assms(8)] assms(7) by auto
  have "0 < p * of_nat k" using assms(4,7) by simp
  then have t: "t \<noteq> 0" using assms(8) by linarith
  then have nc: "next_count n (Fin (of_nat k)) (Fin t) (Fin m) = dbl_add (Fin (of_nat k)) (Fin (of_nat e))"
    using e(1) by (simp add: next_count_def num_le_def num_strict_eq_def)
  show ?thesis
  proof (cases "k + e \<le> 2 ^ 53")
    case True
    then have "dbl_add (Fin (of_nat k)) (Fin (of_nat e)) = Fin (of_nat (k + e))"
      using double_abs_fixed [OF is_double_nat [OF True]] e(2) assms(7) by (intro dbl_add_pos) simp_all
    then show ?thesis using nc e(2) by (intro exI [of _ "of_nat (k + e)"] conjI disjI1 exI [of _ "k + e"] True) simp_all
  next
    case False
    have "is_double (of_nat (2 ^ 54))"
      unfolding is_double_def using ulp_add [of 1074 2] ulp_one by (intro exI [of _ "2 ^ 52"] exI [of _ "1074 + 2"]) simp
    moreover have "of_nat (2 ^ 53) \<le> (of_nat (k + e) :: rat)" "(of_nat (k + e) :: rat) \<le> of_nat (2 ^ 54)"
      using False e(3) assms(9) by (simp_all only: of_nat_le_iff) simp_all
    ultimately obtain d where d: "double_abs (of_nat (k + e)) = Some d" "of_nat (2 ^ 53) \<le> d" "d \<le> of_nat (2 ^ 54)"
      using double_abs_between [OF is_double_nat [of "2 ^ 53"]] by blast
    then have "dbl_add (Fin (of_nat k)) (Fin (of_nat e)) = Fin d" using e(2) assms(7) by (intro dbl_add_pos) simp_all
    then show ?thesis using nc d(2,3) by auto
  qed
qed

lemma num_div_zero: "0 < c \<Longrightarrow> num_div (Fin 0) (Fin c) = Fin 0" "num_div (Fin 1) (Fin 0) = PInf" "num_div (Fin 4000000) (Fin 0) = PInf"
  by (simp_all add: num_div_def num_infinite_def signed_def Let_def)

lemma dbl_div_zero: "0 < c \<Longrightarrow> dbl_div (Fin 0) (Fin c) = Fin 0" "dbl_div (Fin 1) (Fin 0) = PInf" "dbl_div (Fin 4000000) (Fin 0) = PInf"
  using double_abs_fixed [OF is_double_zero] by (simp_all add: dbl_div_def num_div_zero signed_def)

lemma next_count_zero:
  "next_count 1 (Fin 1) (Fin 0) (Fin m) = Fin 976" "next_count 2 (Fin 976) (Fin 0) (Fin m) = Fin 7812"
  "next_count 3 (Fin 7812) (Fin 0) (Fin m) = Fin 62500" "next_count 4 (Fin 62500) (Fin 0) (Fin m) = Fin 500000"
proof -
  have fl: "\<lfloor>4000000 / 4096 :: rat\<rfloor> = 976" "\<lfloor>4000000 / 512 :: rat\<rfloor> = 7812"
    by (rule floor_unique; simp)+
  have d: "dbl_div (Fin 4000000) (Fin 4096) = Fin (4000000 / 4096)" "dbl_div (Fin 4000000) (Fin 512) = Fin (4000000 / 512)"
    "dbl_div (Fin 4000000) (Fin 64) = Fin 62500" "dbl_div (Fin 4000000) (Fin 8) = Fin 500000"
    using is_double_dyadic [of 4000000 12] is_double_dyadic [of 4000000 9] is_double_nat [of 62500] is_double_nat [of 500000]
    by (auto intro!: dbl_div_pos double_abs_fixed)
  note defs = next_count_def divisors_def num_of_int_def num_floor_def num_le_def num_strict_eq_def
  show "next_count 1 (Fin 1) (Fin 0) (Fin m) = Fin 976" "next_count 2 (Fin 976) (Fin 0) (Fin m) = Fin 7812"
    "next_count 3 (Fin 7812) (Fin 0) (Fin m) = Fin 62500" "next_count 4 (Fin 62500) (Fin 0) (Fin m) = Fin 500000"
    using fl d by (simp_all add: defs)
qed

lemma next_count_infinite: "next_count 5 (Fin c) (Fin 0) (Fin m) = PInf"
  by (simp add: next_count_def divisors_def num_of_int_def dbl_div_zero num_floor_def num_le_def num_strict_eq_def)

subsection \<open>Listeners\<close>

lemma map_of_update_keys:
  "map_of (map (\<lambda>(k, v). if k = t then (k, w) else (k, v)) es) x =
     (if x = t then map_option (\<lambda>_. w) (map_of es t) else map_of es x)"
  by (induction es) auto

lemma map_of_set_listeners [simp]: "map_of (set_listeners es t ls) = (map_of es)(t \<mapsto> ls)"
  by (rule ext) (auto simp: set_listeners_def map_of_update_keys map_add_def split: option.splits)

lemma listeners_of_push: "listeners_of (Some (push_listener l t es)) x = listeners_of (Some es) x @ (if x = t then [l] else [])"
  by (auto simp: push_listener_def listeners_of_def)

lemma listeners_of_fold_push:
  "listeners_of (Some (fold (push_listener l) ts es)) x = listeners_of (Some es) x @ replicate (count_list ts x) l"
  by (induction ts arbitrary: es) (auto simp: listeners_of_push replicate_app_Cons_same)

lemma listeners_of_on:
  "listeners_of (on_js ev types l) t = listeners_of ev t @ replicate (count_list (split_space types) t) l"
  by (cases ev) (simp_all add: on_js_def listeners_of_fold_push, simp add: listeners_of_def)

lemma listeners_of_drop:
  "listeners_of (Some (drop_listener l t es)) x =
     (if x = t then (case l of None \<Rightarrow> [] | Some y \<Rightarrow> remove1 y (listeners_of (Some es) x)) else listeners_of (Some es) x)"
  by (cases "map_of es t") (auto simp: drop_listener_def listeners_of_def split: option.splits)

lemma remove1_funpow_replicate: "l \<notin> set xs \<Longrightarrow> (remove1 l ^^ n) (xs @ replicate n l) = xs"
  by (induction n) (auto simp: remove1_append funpow_swap1 remove1_idem)

lemma listeners_of_fold_drop:
  "listeners_of (Some (fold (drop_listener (Some l)) ts es)) x = (remove1 l ^^ count_list ts x) (listeners_of (Some es) x)"
  by (induction ts arbitrary: es) (auto simp: listeners_of_drop funpow_swap1)

lemma listeners_of_off:
  "types \<noteq> [] \<Longrightarrow> listeners_of (off_js ev (Some types) (Some l)) t =
     (remove1 l ^^ count_list (split_space types) t) (listeners_of ev t)"
proof (cases ev)
  case None
  have "(remove1 l ^^ n) [] = []" for n by (induction n) auto
  then show ?thesis using None by (simp add: off_js_def listeners_of_def)
qed (simp add: off_js_def listeners_of_fold_drop)

lemma emit_loop_all:
  assumes "\<And>l e. l \<in> set ls \<Longrightarrow> \<not> aborted e \<Longrightarrow> \<not> aborted (snd (call l e))" "\<not> aborted e"
  shows "snd (emit_loop call ls e) = ls"
  using assms
proof (induction ls arbitrary: e)
  case (Cons l ls)
  obtain r e1 where c: "call l e = (r, e1)" by (cases "call l e")
  then have "\<not> aborted e1" using Cons.prems(1) [of l e] Cons.prems(2) by simp
  then show ?case using c Cons.IH Cons.prems(1) by (simp add: Let_def case_prod_beta)
qed simp

subsection \<open>Formatting\<close>

lemma is_digit_word: "is_digit c \<Longrightarrow> is_word c"
  by (simp add: is_word_def)

lemma insert_commas_append:
  assumes "u \<noteq> []" "list_all is_digit u" "list_all is_digit v" "length v mod 3 = 0"
  shows "insert_commas prev (u @ v) = insert_commas prev u @ insert_commas (Some (last u)) v"
  using assms
proof (induction u arbitrary: prev)
  case (Cons c u)
  have "comma_before prev (c # u @ v) = comma_before prev (c # u)"
    using Cons.prems by (auto simp: comma_before_def) presburger+
  then show ?case using Cons by (cases "u = []") simp_all
qed simp

lemma insert_commas_three:
  assumes "list_all is_digit [a, b, c]" "is_digit d"
  shows "insert_commas (Some d) [a, b, c] = [CHR '','', a, b, c]"
  using assms by (simp add: comma_before_def is_digit_word)

lemma insert_commas_short: "length s \<le> 3 \<Longrightarrow> insert_commas None s = s"
proof -
  assume "length s \<le> 3"
  then consider "s = []" | a where "s = [a]" | a b where "s = [a, b]" | a b c where "s = [a, b, c]"
    by (cases s; cases "tl s"; cases "tl (tl s)") auto
  then show ?thesis by cases (simp_all add: comma_before_def)
qed

lemma join_strings_snoc: "xs \<noteq> [] \<Longrightarrow> join_strings sep (xs @ [s]) = join_strings sep xs @ sep @ s"
  by (induction sep xs rule: join_strings.induct) simp_all

lemma groups3_not_Nil: "groups3 s \<noteq> []"
  by (subst groups3.simps) simp

lemma insert_commas_groups:
  "list_all is_digit s \<Longrightarrow> insert_commas None s = join_strings '','' (groups3 s)"
proof (induction s rule: groups3.induct)
  case (1 s)
  show ?case
  proof (cases "length s \<le> 3")
    case True
    then show ?thesis by (subst groups3.simps) (simp add: insert_commas_short)
  next
    case False
    define u v where "u = take (length s - 3) s" and "v = drop (length s - 3) s"
    have s: "s = u @ v" by (simp add: u_def v_def)
    have digits: "list_all is_digit u" "list_all is_digit v" using 1(2) by (simp_all add: s)
    have u: "u \<noteq> []" and v: "length v = 3" using False by (auto simp: u_def v_def)
    obtain a b c where abc: "v = [a, b, c]" using v by (auto simp: numeral_3_eq_3 length_Suc_conv)
    have "is_digit (last u)" using digits(1) u by (simp add: list_all_iff)
    then have "insert_commas None s = insert_commas None u @ '','' @ v"
      using insert_commas_append [OF u digits] insert_commas_three [of a b c "last u"] digits(2) v by (simp add: s abc)
    also have "insert_commas None u = join_strings '','' (groups3 u)"
      using 1(1) False digits(1) by (simp add: u_def)
    finally show ?thesis using False
      by (subst groups3.simps) (simp add: join_strings_snoc groups3_not_Nil u_def [symmetric] v_def [symmetric])
  qed
qed

section \<open>Properties\<close>

text \<open>
  (C24) The comparison of two benchmarks by the Mann-Whitney test always returns: the look-up in the table of critical values
  never fails. The statistics of the two directions add up to the number of pairs. On samples with values the
  verdict is antisymmetric: one benchmark is faster exactly when the other is slower.
\<close>

theorem compare_antisymmetric:
  assumes "xs \<noteq> []" "ys \<noteq> []"
  shows "getU xs ys + getU ys xs = of_nat (length xs * length ys) \<and>
         (\<exists>r \<in> {-1, 0, 1}. compare_samples xs ys = Some r \<and> compare_samples ys xs = Some (- r) \<and>
           (r = 1 \<longrightarrow> getU xs ys < getU ys xs))"
proof -
  obtain r where r: "compare_samples xs ys = Some r" using compare_samples_defined [of xs ys] by auto
  show ?thesis
  proof (cases "getU xs ys = getU ys xs")
    case True
    then show ?thesis
      using compare_samples_at_half [OF assms] compare_samples_at_half [OF assms(2,1)] getU_complement [of xs ys] by auto
  next
    case False
    have "r \<in> {-1, 0, 1}" "r = 1 \<longrightarrow> getU xs ys < getU ys xs"
      using r False by (auto simp: compare_samples_def Let_def min_def split: if_splits)
    then show ?thesis using r compare_samples_swap [OF False] getU_complement by auto
  qed
qed

theorem compare_antisymmetric_witness:
  "\<exists>r \<in> {-1, 0, 1}. compare_samples [1, 2, 3] [4, 5, 6, 7, 8] = Some r \<and> compare_samples [4, 5, 6, 7, 8] [1, 2, 3] = Some (- r)"
  using compare_antisymmetric [of "[1, 2, 3]" "[4, 5, 6, 7, 8]"] by auto

text \<open>
  Without values there is nothing to compare, but each of two benchmarks without samples is reported as faster than
  the other; and one value on each side is enough for a verdict.
\<close>

theorem compare_without_samples:
  "compare_samples [] [] = Some 1 \<and> compare_samples [] xs = Some (if length xs > 30 then 0 else 1)"
  by (auto simp: compare_samples_def Let_def getU_sum critical_u_def getZ_def sum_list_0)

theorem compare_single_values: "a < b \<Longrightarrow> compare_samples [a] [b] = Some 1 \<and> compare_samples [b] [a] = Some (-1)"
  by (simp add: compare_samples_def Let_def getU_def getScore_def critical_u_def)

text \<open>
  (C26) In double precision, the cycles of a test end if the clock measures at least some time \<open>p\<close> for each iteration: the count grows with every pass
  although the estimate is rounded, and a last pass takes at least the minimum time. The passes are no more than the iterations that
  take the minimum time, and one. The minimum time is at most that of \<open>2 ^ 53\<close> iterations, beyond which counts are not exact. The period and the rate reported are those of the
  last pass.
\<close>

theorem run_cycles_terminates:
  assumes "is_double p" "0 < p" "is_double m" "m \<le> p * 2 ^ 53" "1 \<le> k" "k \<le> 2 ^ 53" "count clone = Fin (of_nat k)" "running clone"
    "\<And>q. 1 \<le> q \<Longrightarrow> q \<le> 2 ^ 54 \<Longrightarrow> \<exists>t. clock (Fin q) = Fin t \<and> is_double t \<and> p * q \<le> t"
  shows "\<exists>r t. run_cycles clock (Fin m) clone = Some r \<and> \<not> running r \<and> cycles r \<le> cycles clone + 1 + (nat \<lceil>m / p\<rceil> - k) \<and>
    clock (count r) = Fin t \<and> cycle_time r = Fin t \<and> m \<le> t \<and>
    period_time r = dbl_div (Fin t) (count r) \<and> hz r = dbl_div (Fin 1) (period_time r)"
  using assms(5-8)
proof (induction "nat \<lceil>m / p\<rceil> - k" arbitrary: k clone rule: less_induct)
  case less
  have "(of_nat k :: rat) \<le> of_nat (2 ^ 53)" using less.prems(2) by (simp only: of_nat_le_iff)
  then obtain t where t: "clock (Fin (of_nat k)) = Fin t" "is_double t" "p * of_nat k \<le> t"
    using assms(9) [of "of_nat k"] less.prems(1) by auto
  show ?case
  proof (cases "m \<le> t")
    case True
    then show ?thesis using last_cycle [OF less.prems(4), of clock t m] t(1) less.prems(3) by fastforce
  next
    case False
    have "of_nat k < m / p" using t(3) False assms(2) by (simp add: pos_less_divide_eq mult.commute)
    then have k: "int k < \<lceil>m / p\<rceil>" by (simp add: less_ceiling_iff)
    have "\<lceil>m / p\<rceil> \<le> int (2 ^ 53)" using assms(2,4) by (simp add: ceiling_le_iff pos_divide_le_eq mult.commute)
    then have "int k < int (2 ^ 53)" using k by (rule less_le_trans [rotated])
    then have "k < 2 ^ 53" by (simp only: of_nat_less_iff)
    then obtain d where d: "next_count (cycles clone + 1) (Fin (of_nat k)) (Fin t) (Fin m) = Fin d"
        "(\<exists>j>k. d = of_nat j \<and> j \<le> 2 ^ 53) \<or> 2 ^ 53 \<le> d \<and> d \<le> 2 ^ 54"
      using next_count_grows [OF t(2) assms(3,1,2) _ assms(4) less.prems(1) t(3)] False by (meson not_le)
    define cl where "cl = cycle_pass (Fin m) (Fin t) clone"
    have cl: "running cl" "count cl = Fin d" "cycles cl = cycles clone + 1"
      using d(1) False less.prems(3) by (simp_all add: cl_def cycle_pass_def Let_def)
    have run: "run_cycles clock (Fin m) clone = run_cycles clock (Fin m) cl"
      by (subst run_cycles.simps) (simp add: less.prems cl_def t(1))
    from d(2) show ?thesis
    proof (elim disjE exE conjE)
      fix j assume j: "k < j" "d = of_nat j" "j \<le> 2 ^ 53"
      then show ?thesis using less.hyps [of j cl] less.prems(1) cl k run by fastforce
    next
      assume big: "2 ^ 53 \<le> d" "d \<le> 2 ^ 54"
      then obtain u where u: "clock (Fin d) = Fin u" "p * d \<le> u" using assms(9) [of d] by auto
      have "p * 2 ^ 53 \<le> p * d" using big assms(2) by simp
      then have "m \<le> u" using u(2) assms(4) by linarith
      then show ?thesis using last_cycle [OF cl(1), of clock u m] u(1) cl k run by fastforce
    qed
  qed
qed

theorem run_cycles_terminates_witness:
  "\<exists>r t. run_cycles (\<lambda>n. Fin (if num_rat n \<le> 2 ^ 52 then of_int \<lceil>num_rat n\<rceil> / 2 ^ 10 else 2 ^ 44)) (Fin (1 / 16))
         \<lparr>count = Fin 1, cycles = 0, running = True, hz = Fin 0, period_time = Fin 0, cycle_time = Fin 0, initCount = Fin 1\<rparr> = Some r \<and>
       cycles r \<le> 64 \<and> cycle_time r = Fin t \<and> 1 / 16 \<le> t"
proof -
  let ?clock = "\<lambda>n. Fin (if num_rat n \<le> 2 ^ 52 then of_int \<lceil>num_rat n\<rceil> / 2 ^ 10 else 2 ^ 44)"
  let ?cl = "\<lparr>count = Fin 1, cycles = 0, running = True, hz = Fin 0, period_time = Fin 0, cycle_time = Fin 0, initCount = Fin 1\<rparr>"
  have d: "is_double (1 / 1024)" "is_double (1 / 16)" "is_double (2 ^ 44)"
    using is_double_dyadic [of 1 10] is_double_dyadic [of 1 4] is_double_nat [of "2 ^ 44"] by simp_all
  have clock: "\<exists>t. ?clock (Fin q) = Fin t \<and> is_double t \<and> 1 / 1024 * q \<le> t" if "1 \<le> q" "q \<le> 2 ^ 54" for q
  proof (cases "q \<le> 2 ^ 52")
    case True
    have "0 \<le> \<lceil>q\<rceil>" "\<lceil>q\<rceil> \<le> int (2 ^ 52)" using that(1) True by (simp_all add: ceiling_le_iff)
    then have "of_nat (nat \<lceil>q\<rceil>) = (of_int \<lceil>q\<rceil> :: rat)" "nat \<lceil>q\<rceil> \<le> 2 ^ 52" by (simp_all only: of_nat_nat nat_le_iff)
    then have "is_double (of_int \<lceil>q\<rceil> / 2 ^ 10)" using is_double_dyadic [of "nat \<lceil>q\<rceil>" 10] by auto
    then show ?thesis using True by (intro exI [of _ "of_int \<lceil>q\<rceil> / 2 ^ 10"]) simp
  next
    case False
    then show ?thesis using that(2) d(3) by simp
  qed
  have "nat \<lceil>(1 / 16) / (1 / 1024) :: rat\<rceil> = 64" by simp
  then show ?thesis using run_cycles_terminates [of "1 / 1024" "1 / 16" 1 ?cl ?clock, OF d(1) _ d(2) _ _ _ _ _ clock] by fastforce
qed

text \<open>
  A test that the clock always measures as 0 is given up in the fifth cycle, with a rate of infinity.
\<close>

theorem unclockable_gives_up:
  assumes "0 < m"
  shows "\<exists>r. run_cycles (\<lambda>n. Fin 0) (Fin m)
    \<lparr>count = Fin 1, cycles = 0, running = True, hz = Fin 0, period_time = Fin 0, cycle_time = Fin 0, initCount = Fin 1\<rparr> = Some r \<and>
    cycles r = 5 \<and> hz r = PInf \<and> \<not> running r"
proof -
  define cl :: "nat \<Rightarrow> rat \<Rightarrow> rat \<Rightarrow> jsnum \<Rightarrow> clone_state" where
    "cl n c i h = \<lparr>count = Fin c, cycles = n, running = True, hz = h, period_time = Fin 0, cycle_time = Fin 0, initCount = Fin i\<rparr>"
    for n c i h
  have run: "run_cycles (\<lambda>n. Fin 0) (Fin m) (cl n c i h) = run_cycles (\<lambda>n. Fin 0) (Fin m) (cl (Suc n) d c PInf)"
    if "next_count (Suc n) (Fin c) (Fin 0) (Fin m) = Fin d" "0 < c" for n c d i h
    by (subst run_cycles.simps) (use that assms in \<open>simp add: cl_def cycle_pass_def dbl_div_zero Let_def\<close>)
  note counts = next_count_zero [of m]
  have last: "run_cycles (\<lambda>n. Fin 0) (Fin m) (cl 4 c i PInf) = Some ((cl 5 c c PInf)\<lparr>running := False\<rparr>)" if "0 < c" for c i
    by (subst run_cycles.simps, subst run_cycles.simps)
      (use that assms in \<open>simp add: cl_def cycle_pass_def dbl_div_zero Let_def next_count_infinite\<close>)
  have "run_cycles (\<lambda>n. Fin 0) (Fin m) (cl 0 1 1 (Fin 0)) = run_cycles (\<lambda>n. Fin 0) (Fin m) (cl 4 500000 62500 PInf)"
    using run [of 0 1 976 1 "Fin 0"] run [of 1 976 7812 1 PInf] run [of 2 7812 62500 976 PInf] run [of 3 62500 500000 7812 PInf] counts
    by (simp add: eval_nat_numeral)
  then show ?thesis using last [of 500000 62500] by (simp add: cl_def)
qed

text \<open>
  Listeners are called in the order in which they were registered, every one as long as none aborts the event, and
  \<open>off\<close> undoes \<open>on\<close>: it leaves the listeners of every type as they were before a new listener was registered.
\<close>

theorem listeners_round_trip:
  assumes "types \<noteq> []" "l \<notin> set (listeners_of ev t)"
    and "\<And>k e. \<not> aborted e \<Longrightarrow> \<not> aborted (snd (call k e))" "\<not> aborted e" "event_type e = t"
  shows "snd (emit call (on_js ev types l) e) = listeners_of ev t @ replicate (count_list (split_space types) t) l \<and>
         listeners_of (off_js (on_js ev types l) (Some types) (Some l)) t = listeners_of ev t"
proof
  show "snd (emit call (on_js ev types l) e) = listeners_of ev t @ replicate (count_list (split_space types) t) l"
    unfolding emit_def assms(5) listeners_of_on by (rule emit_loop_all) (use assms(3,4) in auto)
  show "listeners_of (off_js (on_js ev types l) (Some types) (Some l)) t = listeners_of ev t"
    using remove1_funpow_replicate [OF assms(2)] by (simp only: listeners_of_off [OF assms(1)] listeners_of_on)
qed

theorem listeners_round_trip_witness:
  "snd (emit (\<lambda>k e. (Undefined, e)) (on_js (Some [(''cycle'', [1, 2])]) ''start cycle'' 3)
         \<lparr>event_type = ''cycle'', cancelled = False, aborted = False, event_result = Undefined\<rparr>) = [1, 2, 3]"
  using listeners_round_trip [of "''start cycle''" 3 "Some [(''cycle'', [1, 2])]" "''cycle''" "\<lambda>k e. (Undefined, e)"
      "\<lparr>event_type = ''cycle'', cancelled = False, aborted = False, event_result = Undefined\<rparr>"]
  by (simp add: listeners_of_def)

text \<open>
  Aborting a running suite emits the abort and the reset event, marks it as aborted and aborts its benchmarks; resetting a running suite
  stops it without the mark. A listener that cancels the reset event leaves an aborted suite running.
\<close>

theorem abort_reset_suite:
  assumes "suite_running s" "\<not> by_abort s" "\<not> by_reset s"
  shows "abortSuite False False s = s\<lparr>suite_running := False, suite_aborted := True, log := log s @ [EmitAbort, EmitReset, InvokeAbort]\<rparr>"
    and "resetSuite c False s = s\<lparr>suite_running := False, suite_aborted := False, log := log s @ [EmitAbort, EmitReset]\<rparr>"
    and "suite_running (abortSuite False True s) \<and> suite_aborted (abortSuite False True s)"
  using assms by (simp_all add: abortSuite_def resetSuite_def reset_state_def Let_def)

text \<open>
  \<open>formatNumber\<close> separates the digits of a number into groups of three from the right.
\<close>

theorem formatNumber_groups:
  assumes "list_all is_digit s"
  shows "formatNumber s = join_strings '','' (groups3 s)"
proof -
  have whole: "takeWhile (\<lambda>c. c \<noteq> CHR ''.'') s = s"
    using assms by (intro takeWhile_eq_all_conv [THEN iffD2]) (auto simp: list_all_iff is_digit_def)
  show ?thesis using insert_commas_groups [OF assms] by (simp only: formatNumber_def Let_def whole) simp
qed

end
