(* ===== verification/JsSuite.thy ===== *)
theory JsSuite
  imports JsBenchmark
begin

text \<open>
  Running the benchmarks of a suite in benchmark.js: \<open>invoke\<close>, which calls a method on every benchmark in turn, waits
  for those that run asynchronously and calls back between them, and \<open>runSuite\<close>, which runs a suite with it. The
  closures of \<open>invoke\<close> are functions on its variables; what makes it go on (its loop, a timer, the completion of
  a benchmark) are the steps of a machine.
\<close>

section \<open>Invoking a method on benchmarks\<close>

text \<open>
  Benchmarks are identified by numbers. The world is what listeners and methods can change: the suite and the
  benchmarks in it, and which benchmarks failed. The history of all benchmarks that were added to the suite is kept for specifications; no
  operation reads it.
\<close>

record world =
  w_suite :: suite
  members :: "nat list"
  failed :: "nat \<Rightarrow> bool"
  joined :: "nat list"

text \<open>
  What \<open>invoke\<close> is given: whether the method is \<open>run\<close>, whether the benchmarks are a suite, the options, the async
  flag of the first argument (None for null and undefined), the host's timers, the options of the benchmarks, the
  callbacks and the method. The callback between benchmarks says whether its event was aborted. What other code does to the world while
  \<open>invoke\<close> waits for a timer or for a benchmark is given as well, and what the complete listeners of a benchmark do.
\<close>

record invoke_env =
  is_run :: bool
  is_suite :: bool
  queued :: bool
  args_async :: "bool option"
  support_timeout :: bool
  options_async :: "nat \<Rightarrow> bool"
  deferred :: "nat \<Rightarrow> bool"
  has_method :: "nat \<Rightarrow> bool"
  call_method :: "nat \<Rightarrow> world \<Rightarrow> jsval \<times> world"
  onStart :: "nat \<Rightarrow> world \<Rightarrow> world"
  onCycle :: "nat \<Rightarrow> world \<Rightarrow> world \<times> bool"
  onComplete :: "nat \<Rightarrow> world \<Rightarrow> world"
  meantime :: "nat \<Rightarrow> world \<Rightarrow> world"
  bench_complete :: "nat \<Rightarrow> world \<Rightarrow> world"

text \<open>An entry of the result is a benchmark until its method has been called.\<close>

datatype slot = Bench nat | Value jsval

datatype phase = Exec | Delayed | Waiting | Finished

text \<open>The calls of callbacks and methods that \<open>invoke\<close> makes, in order.\<close>

datatype trace_event = StartEv nat | CallEv nat | BenchCompleteEv nat | CycleEv nat | CompleteEv nat

text \<open>The index is None once it is false; the current benchmark is the one of the last event.\<close>

record invoke_state =
  result :: "slot list"
  index :: "int option"
  cur :: nat
  phase :: phase
  trace :: "trace_event list"
  world_of :: world

definition isAsync :: "invoke_env \<Rightarrow> nat \<Rightarrow> bool" where
  "isAsync env b =
     (is_run env \<and>
      ((case args_async env of None \<Rightarrow> options_async env b | Some async \<Rightarrow> async) \<and> support_timeout env \<or> deferred env b))"

definition raiseIndex :: "invoke_env \<Rightarrow> invoke_state \<Rightarrow> bool \<times> invoke_state" where
  "raiseIndex env s =
     (let i = (case index s of None \<Rightarrow> 1 | Some j \<Rightarrow> j + 1);
          w = (if queued env \<and> i > 0 then (world_of s)\<lparr>members := drop 1 (members (world_of s))\<rparr> else world_of s);
          found = (if queued env then members w \<noteq> [] else i < int (length (result s)))
      in (found, s\<lparr>index := (if found then Some i else None), world_of := w\<rparr>))"

fun slot_bench :: "slot \<Rightarrow> nat" where
  "slot_bench (Bench b) = b"
| "slot_bench (Value v) = 0"

text \<open>Writing past the end extends the result.\<close>

definition put_result :: "slot list \<Rightarrow> int option \<Rightarrow> slot \<Rightarrow> slot list" where
  "put_result rs i x =
     (case i of
        None \<Rightarrow> rs
      | Some j \<Rightarrow> if nat j < length rs then rs[nat j := x] else rs @ replicate (nat j - length rs) (Value Undefined) @ [x])"

text \<open>The end: the last callback gets the current benchmark.\<close>

definition finish :: "invoke_env \<Rightarrow> invoke_state \<Rightarrow> invoke_state" where
  "finish env s =
     s\<lparr>phase := Finished, trace := trace s @ [CompleteEv (cur s)], world_of := onComplete env (cur s) (world_of s)\<rparr>"

text \<open>
  After an asynchronous benchmark its own listeners are called first. The next benchmark is started by a timer if it is
  asynchronous and otherwise by the loop, which goes on or starts again.
\<close>

definition getNext :: "invoke_env \<Rightarrow> invoke_state \<Rightarrow> invoke_state" where
  "getNext env s =
     (let b = cur s;
          own = (if isAsync env b then [BenchCompleteEv b] else []);
          w0 = (if isAsync env b then bench_complete env b (world_of s) else world_of s);
          (w, event_aborted) = onCycle env b w0;
          s1 = s\<lparr>trace := trace s @ own @ [CycleEv b], world_of := w\<rparr>
      in if event_aborted then finish env s1
         else (case raiseIndex env s1 of
                 (found, s2) \<Rightarrow>
                   if found
                   then (let next = (if queued env then hd (members (world_of s2)) else slot_bench (result s2 ! nat (the (index s2))))
                         in s2\<lparr>cur := next, phase := (if isAsync env next then Delayed else Exec)\<rparr>)
                   else finish env s2))"

definition execute :: "invoke_env \<Rightarrow> invoke_state \<Rightarrow> invoke_state" where
  "execute env s =
     (let b = cur s;
          (v, w) = (if has_method env b then call_method env b (world_of s) else (Undefined, world_of s));
          s1 = s\<lparr>result := put_result (result s) (index s) (Value v), trace := trace s @ [CallEv b], world_of := w\<rparr>
      in if isAsync env b then s1\<lparr>phase := Waiting\<rparr> else getNext env s1)"

text \<open>The call of \<open>invoke\<close> up to its first pass through the loop or its first timer.\<close>

definition invoke_start :: "invoke_env \<Rightarrow> world \<Rightarrow> invoke_state" where
  "invoke_start env w =
     (case raiseIndex env \<lparr>result = map Bench (members w), index = Some (-1), cur = 0, phase = Finished, trace = [], world_of = w\<rparr> of
        (found, s) \<Rightarrow>
          if \<not> found then s
          else (let b = slot_bench (result s ! nat (the (index s)));
                    s1 = s\<lparr>cur := b, trace := [StartEv b], world_of := onStart env b (world_of s)\<rparr>
                in if is_run env \<and> is_suite env \<and> suite_aborted (w_suite (world_of s1))
                   then finish env (s1\<lparr>trace := trace s1 @ [CycleEv b], world_of := fst (onCycle env b (world_of s1))\<rparr>)
                   else s1\<lparr>phase := (if isAsync env b then Delayed else Exec)\<rparr>))"

text \<open>
  The steps: a pass through the loop, a timer that expires, and an asynchronous benchmark that completes after
  its method has returned. Timers do expire, and asynchronous benchmarks do complete.
\<close>

definition waited :: "invoke_env \<Rightarrow> invoke_state \<Rightarrow> invoke_state" where
  "waited env s = s\<lparr>world_of := meantime env (cur s) (world_of s)\<rparr>"

inductive invoke_step :: "invoke_env \<Rightarrow> invoke_state \<Rightarrow> invoke_state \<Rightarrow> bool" for env where
  loop_pass: "phase s = Exec \<Longrightarrow> invoke_step env s (execute env s)"
| timer: "phase s = Delayed \<Longrightarrow> invoke_step env s (execute env (waited env s))"
| completion: "phase s = Waiting \<Longrightarrow> invoke_step env s (getNext env (waited env s))"

inductive_cases invoke_stepE: "invoke_step env s t"

inductive invoke_reach :: "invoke_env \<Rightarrow> world \<Rightarrow> nat \<Rightarrow> invoke_state \<Rightarrow> bool" for env w where
  begin_reach: "invoke_reach env w 0 (invoke_start env w)"
| step_reach: "invoke_reach env w n s \<Longrightarrow> invoke_step env s t \<Longrightarrow> invoke_reach env w (Suc n) t"

section \<open>Running a suite\<close>

text \<open>
  \<open>listen\<close> is what the listeners of the suite do on an event: start, error, cycle and complete. The
  listeners of the reset event are given by whether they cancel it.
\<close>

datatype suite_event = SuiteStart nat | SuiteError nat | SuiteCycle nat | SuiteComplete nat

record suite_env =
  listen :: "suite_event \<Rightarrow> world \<Rightarrow> world"
  cancel_abort :: bool
  cancel_reset :: bool
  opt_queued :: bool
  opt_async :: "bool option"
  host_timeout :: bool
  bench_async :: "nat \<Rightarrow> bool"
  bench_defer :: "nat \<Rightarrow> bool"
  bench_run :: "nat \<Rightarrow> world \<Rightarrow> jsval \<times> world"
  between :: "nat \<Rightarrow> world \<Rightarrow> world"
  bench_listen :: "nat \<Rightarrow> world \<Rightarrow> world"

definition set_running :: "bool \<Rightarrow> world \<Rightarrow> world" where
  "set_running b w = w\<lparr>w_suite := (w_suite w)\<lparr>suite_running := b\<rparr>\<rparr>"

definition suite_cycle :: "suite_env \<Rightarrow> nat \<Rightarrow> world \<Rightarrow> world \<times> bool" where
  "suite_cycle e b w =
     (let w1 = (if failed w b then listen e (SuiteError b) w else w);
          w2 = listen e (SuiteCycle b) w1
      in (w2, suite_aborted (w_suite w2)))"

definition suite_invoke :: "suite_env \<Rightarrow> invoke_env" where
  "suite_invoke e =
     \<lparr>is_run = True, is_suite = True, queued = opt_queued e, args_async = opt_async e, support_timeout = host_timeout e,
      options_async = bench_async e, deferred = bench_defer e, has_method = (\<lambda>b. True), call_method = bench_run e,
      onStart = (\<lambda>b. listen e (SuiteStart b)), onCycle = suite_cycle e,
      onComplete = (\<lambda>b w. listen e (SuiteComplete b) (set_running False w)), meantime = between e, bench_complete = bench_listen e\<rparr>"

definition runSuite :: "suite_env \<Rightarrow> world \<Rightarrow> invoke_state" where
  "runSuite e w =
     invoke_start (suite_invoke e) (set_running True (w\<lparr>w_suite := resetSuite (cancel_abort e) (cancel_reset e) (w_suite w)\<rparr>))"


section \<open>Specifications\<close>

text \<open>The events of one benchmark, and of benchmarks one after the other.\<close>

definition round_of :: "invoke_env \<Rightarrow> nat \<Rightarrow> trace_event list" where
  "round_of env b = CallEv b # (if isAsync env b then [BenchCompleteEv b] else []) @ [CycleEv b]"

definition rounds :: "invoke_env \<Rightarrow> nat list \<Rightarrow> trace_event list" where
  "rounds env bs = concat (map (round_of env) bs)"

text \<open>The state after \<open>n\<close> steps when the first \<open>m\<close> benchmarks are done; the aborted cycle is the last one.\<close>

definition invoke_inv :: "invoke_env \<Rightarrow> nat list \<Rightarrow> nat \<Rightarrow> invoke_state \<Rightarrow> nat \<Rightarrow> bool" where
  "invoke_inv env bs n s m =
     (case phase s of
        Finished \<Rightarrow> 0 < m \<and> m \<le> length bs \<and> n \<le> 2 * m \<and> length (result s) = length bs \<and>
          trace s = StartEv (hd bs) # rounds env (take m bs) @ [CompleteEv (bs ! (m - 1))] \<and>
          drop m (result s) = map Bench (drop m bs) \<and>
          (m = length bs \<or> (\<exists>w. snd (onCycle env (bs ! (m - 1)) w)))
      | Waiting \<Rightarrow> m < length bs \<and> n \<le> 2 * m + 1 \<and> index s = Some (int m) \<and> cur s = bs ! m \<and> isAsync env (cur s) \<and>
          length (result s) = length bs \<and> trace s = StartEv (hd bs) # rounds env (take m bs) @ [CallEv (bs ! m)] \<and>
          drop (Suc m) (result s) = map Bench (drop (Suc m) bs)
      | _ \<Rightarrow> m < length bs \<and> n \<le> 2 * m \<and> index s = Some (int m) \<and> cur s = bs ! m \<and>
          length (result s) = length bs \<and> trace s = StartEv (hd bs) # rounds env (take m bs) \<and>
          drop m (result s) = map Bench (drop m bs))"





section \<open>Lemmas\<close>

lemma rounds_snoc: "m < length bs \<Longrightarrow> rounds env (take (Suc m) bs) = rounds env (take m bs) @ round_of env (bs ! m)"
  by (simp add: rounds_def take_Suc_conv_app_nth)

text \<open>The next benchmark after \<open>m\<close> benchmarks whose calls are made.\<close>

lemma getNext_inv:
  assumes "\<not> queued env" "m < length bs" "n \<le> 2 * m + 1" "index s = Some (int m)" "cur s = bs ! m"
    "length (result s) = length bs" "trace s = StartEv (hd bs) # rounds env (take m bs) @ [CallEv (bs ! m)]"
    "drop (Suc m) (result s) = map Bench (drop (Suc m) bs)"
  shows "invoke_inv env bs (Suc n) (getNext env s) (Suc m)"
proof -
  obtain w ab where c: "onCycle env (bs ! m) (if isAsync env (bs ! m) then bench_complete env (bs ! m) (world_of s) else world_of s) = (w, ab)"
    by fastforce
  have tr: "trace s @ (if isAsync env (bs ! m) then [BenchCompleteEv (bs ! m)] else []) @ [CycleEv (bs ! m)] =
      StartEv (hd bs) # rounds env (take (Suc m) bs)"
    using assms(2,7) by (simp add: rounds_snoc round_of_def)
  show ?thesis
  proof (cases "ab \<or> Suc m = length bs")
    case True
    then have "Suc m = length bs \<or> (\<exists>w. snd (onCycle env (bs ! m) w))" using c by (metis snd_conv)
    then show ?thesis using True c tr assms
      by (auto simp: getNext_def raiseIndex_def finish_def invoke_inv_def Let_def)
  next
    case False
    then have nx: "Suc m < length bs" using assms(2) by simp
    then have "result s ! Suc m = Bench (bs ! Suc m)"
      using assms(6,8) by (metis Cons_nth_drop_Suc list.inject list.simps(9))
    moreover have "nat (1 + int m) = Suc m" "nat (int m + 1) = Suc m" by simp_all
    ultimately show ?thesis using c tr assms nx False
      by (auto simp: getNext_def raiseIndex_def invoke_inv_def Let_def)
  qed
qed

lemma execute_inv:
  assumes "\<not> queued env" "invoke_inv env bs n s m" "phase s = Exec \<or> phase s = Delayed"
  shows "\<exists>m1. invoke_inv env bs (Suc n) (execute env s) m1"
proof -
  obtain v w where c: "(if has_method env (bs ! m) then call_method env (bs ! m) (world_of s) else (Undefined, world_of s)) = (v, w)"
    by fastforce
  let ?s = "s\<lparr>result := put_result (result s) (index s) (Value v), trace := trace s @ [CallEv (bs ! m)], world_of := w\<rparr>"
  have i: "m < length bs" "n \<le> 2 * m" "index s = Some (int m)" "cur s = bs ! m" "length (result s) = length bs"
    "trace s = StartEv (hd bs) # rounds env (take m bs)" "drop m (result s) = map Bench (drop m bs)"
    using assms(2,3) by (auto simp: invoke_inv_def)
  have "drop (Suc m) (result s) = map Bench (drop (Suc m) bs)" using i(7) by (metis drop_Suc drop_map drop_drop add_Suc add_0 plus_1_eq_Suc)
  then have r: "length (result ?s) = length bs" "drop (Suc m) (result ?s) = map Bench (drop (Suc m) bs)"
    using i(1,3,5) by (simp_all add: put_result_def)
  show ?thesis
  proof (cases "isAsync env (bs ! m)")
    case True
    then have "execute env s = ?s\<lparr>phase := Waiting\<rparr>" using c i(4) by (simp add: execute_def Let_def split: prod.split)
    then show ?thesis using True i r by (auto simp: invoke_inv_def)
  next
    case False
    then have "execute env s = getNext env ?s" using c i(4) by (simp add: execute_def Let_def split: prod.split)
    then show ?thesis using getNext_inv [OF assms(1) i(1), of n ?s] i r by auto
  qed
qed

text \<open>A suite that is not aborted by the listeners of its start event.\<close>

definition starts :: "invoke_env \<Rightarrow> world \<Rightarrow> bool" where
  "starts env w = (members w \<noteq> [] \<and> \<not> (is_run env \<and> is_suite env \<and> suite_aborted (w_suite (onStart env (hd (members w)) w))))"

lemma start_inv:
  assumes "\<not> queued env" "starts env w"
  shows "invoke_inv env (members w) 0 (invoke_start env w) 0"
  using assms
  by (cases "members w") (auto simp: invoke_start_def starts_def raiseIndex_def invoke_inv_def Let_def rounds_def)

lemma invoke_reach_inv:
  assumes "\<not> queued env" "starts env w" "invoke_reach env w n s"
  shows "\<exists>m. invoke_inv env (members w) n s m"
  using assms(3)
proof (induction rule: invoke_reach.induct)
  case begin_reach
  then show ?case using start_inv [OF assms(1,2)] by blast
next
  case (step_reach n s t)
  then obtain m where inv: "invoke_inv env (members w) n s m" by blast
  then have inv1: "invoke_inv env (members w) n (waited env s) m" by (cases "phase s") (auto simp: invoke_inv_def waited_def)
  from step_reach.hyps(2) show ?case
  proof (cases rule: invoke_step.cases)
    case completion
    then have "invoke_inv env (members w) (Suc n) (getNext env (waited env s)) (Suc m)"
      using inv1 by (intro getNext_inv [OF assms(1)]) (auto simp: invoke_inv_def waited_def)
    then show ?thesis using completion by blast
  qed (use execute_inv [OF assms(1) inv] execute_inv [OF assms(1) inv1] in \<open>auto simp: waited_def\<close>)
qed

lemma invoke_progress: "phase s \<noteq> Finished \<Longrightarrow> \<exists>t. invoke_step env s t"
  by (cases "phase s") (auto intro: invoke_step.intros)

lemma invoke_stuck: "phase s = Finished \<Longrightarrow> \<not> invoke_step env s t"
  by (auto elim: invoke_stepE)

lemma reach_or_finish: "(\<exists>n s. invoke_reach env w n s \<and> phase s = Finished) \<or> (\<exists>s. invoke_reach env w k s)"
proof (induction k)
  case (Suc k)
  then show ?case using invoke_progress step_reach by meson
qed (use begin_reach in blast)

lemma invoke_bound:
  assumes "\<not> queued env" "starts env w" "invoke_reach env w n s"
  shows "n \<le> 2 * length (members w)"
proof -
  obtain m where "invoke_inv env (members w) n s m" using invoke_reach_inv [OF assms] by blast
  then show ?thesis by (cases "phase s") (auto simp: invoke_inv_def)
qed

lemma invoke_finishes:
  assumes "\<not> queued env" "starts env w"
  shows "\<exists>n s. invoke_reach env w n s \<and> phase s = Finished"
  using reach_or_finish [of env w "Suc (2 * length (members w))"] invoke_bound [OF assms] by (meson Suc_n_not_le_n)








text \<open>The last callback is the last event, and what it leaves is the world at the end.\<close>

definition completed :: "invoke_env \<Rightarrow> invoke_state \<Rightarrow> bool" where
  "completed env s = (\<exists>b w. world_of s = onComplete env b w \<and> last (trace s) = CompleteEv b)"

lemma finish_completed: "completed env (finish env s)"
  by (auto simp: completed_def finish_def)

lemma getNext_finished: "phase (getNext env s) = Finished \<Longrightarrow> completed env (getNext env s)"
proof -
  let ?b = "cur s"
  obtain w ab where w: "onCycle env ?b (if isAsync env ?b then bench_complete env ?b (world_of s) else world_of s) = (w, ab)"
    by fastforce
  obtain found t where t: "raiseIndex env (s\<lparr>trace := trace s @ (if isAsync env ?b then [BenchCompleteEv ?b] else []) @ [CycleEv ?b],
      world_of := w\<rparr>) = (found, t)"
    by fastforce
  show "phase (getNext env s) = Finished \<Longrightarrow> completed env (getNext env s)"
    unfolding getNext_def Let_def w prod.case t by (auto simp: finish_completed split: if_splits)
qed

lemma step_finished: "invoke_step env s t \<Longrightarrow> phase t = Finished \<Longrightarrow> completed env t"
  by (erule invoke_stepE) (auto simp: execute_def Let_def dest!: getNext_finished split: prod.splits if_splits)

lemma reach_finished:
  assumes "invoke_reach env w n s" "phase s = Finished" "members w \<noteq> []"
  shows "completed env s"
  using assms(1)
proof (cases rule: invoke_reach.cases)
  case begin_reach
  then show ?thesis using assms(2,3)
    by (cases "members w") (auto simp: invoke_start_def raiseIndex_def Let_def finish_completed split: if_splits)
qed (use step_finished assms(2) in blast)

lemma start_finishes:
  assumes "\<not> starts env w" "members w \<noteq> []"
  shows "phase (invoke_start env w) = Finished"
  using assms by (cases "members w") (auto simp: invoke_start_def starts_def raiseIndex_def Let_def finish_def)

section \<open>Properties\<close>





text \<open>
  (C29) Running a suite that has benchmarks ends if it is not run as a queue, also when it is aborted at the start. Whenever a run ends, as a queue or not, the
  last event is the complete event of the suite, and its listeners are called when the suite is no longer marked as running. A run of an empty suite never
  announces anything: it leaves the suite marked as running, and nothing follows.
\<close>

theorem runSuite_ends:
  defines "start e w \<equiv> set_running True (w\<lparr>w_suite := resetSuite (cancel_abort e) (cancel_reset e) (w_suite w)\<rparr>)"
  shows "(members w \<noteq> [] \<longrightarrow>
      (\<not> opt_queued e \<longrightarrow> (\<exists>n s. invoke_reach (suite_invoke e) (start e w) n s \<and> phase s = Finished)) \<and>
      (\<forall>n s. invoke_reach (suite_invoke e) (start e w) n s \<longrightarrow> phase s = Finished \<longrightarrow>
         (\<exists>b v. last (trace s) = CompleteEv b \<and> \<not> suite_running (w_suite v) \<and> world_of s = listen e (SuiteComplete b) v))) \<and>
    (members w = [] \<longrightarrow> suite_running (w_suite (world_of (runSuite e w))) \<and> trace (runSuite e w) = [] \<and>
      (\<forall>t. \<not> invoke_step (suite_invoke e) (runSuite e w) t))"
proof (intro conjI impI allI)
  have m: "members (start e w) = members w" by (simp add: start_def set_running_def)
  {
    assume ne: "members w \<noteq> []" and "\<not> opt_queued e"
    then have q: "\<not> queued (suite_invoke e)" by (simp add: suite_invoke_def)
    show "\<exists>n s. invoke_reach (suite_invoke e) (start e w) n s \<and> phase s = Finished"
    proof (cases "starts (suite_invoke e) (start e w)")
      case True
      then show ?thesis by (rule invoke_finishes [OF q])
    next
      case False
      then show ?thesis using start_finishes [OF False] ne m begin_reach by metis
    qed
  next
    fix n s assume "members w \<noteq> []" "invoke_reach (suite_invoke e) (start e w) n s" "phase s = Finished"
    then have "completed (suite_invoke e) s" using reach_finished m by metis
    then obtain b v where "world_of s = listen e (SuiteComplete b) (set_running False v)" "last (trace s) = CompleteEv b"
      by (auto simp: completed_def suite_invoke_def)
    then show "\<exists>b v. last (trace s) = CompleteEv b \<and> \<not> suite_running (w_suite v) \<and> world_of s = listen e (SuiteComplete b) v"
      by (intro exI [of _ b] exI [of _ "set_running False v"]) (simp add: set_running_def)
  next
    assume "members w = []"
    then have "runSuite e w = \<lparr>result = [], index = None, cur = 0, phase = Finished, trace = [], world_of = start e w\<rparr>"
      by (simp add: runSuite_def invoke_start_def raiseIndex_def start_def set_running_def Let_def)
    then show "suite_running (w_suite (world_of (runSuite e w)))" "trace (runSuite e w) = []" "\<not> invoke_step (suite_invoke e) (runSuite e w) t" for t
      by (simp_all add: invoke_stuck) (simp add: start_def set_running_def)
  }
qed

theorem runSuite_ends_witness:
  "\<exists>(s :: invoke_state) b (v :: world). phase s = Finished \<and> last (trace s) = CompleteEv b \<and> \<not> suite_running (w_suite v) \<and> world_of s = v \<and>
    suite_running (w_suite (world_of (runSuite \<lparr>listen = (\<lambda>ev w. w), cancel_abort = False, cancel_reset = False, opt_queued = False, opt_async = None, host_timeout = True,
       bench_async = (\<lambda>b. b = 2), bench_defer = (\<lambda>b. False), bench_run = (\<lambda>b w. (Undefined, w)), between = (\<lambda>b w. w), bench_listen = (\<lambda>b w. w)\<rparr>
      \<lparr>w_suite = \<lparr>suite_running = False, suite_aborted = False, by_abort = False, by_reset = False, log = []\<rparr>,
        members = [], failed = (\<lambda>b. False), joined = []\<rparr>)))"
proof -
  define e :: suite_env where "e = \<lparr>listen = (\<lambda>ev w. w), cancel_abort = False, cancel_reset = False, opt_queued = False, opt_async = None, host_timeout = True,
       bench_async = (\<lambda>b. b = 2), bench_defer = (\<lambda>b. False), bench_run = (\<lambda>b w. (Undefined, w)), between = (\<lambda>b w. w), bench_listen = (\<lambda>b w. w)\<rparr>"
  define v :: world where "v = \<lparr>w_suite = \<lparr>suite_running = False, suite_aborted = False, by_abort = False, by_reset = False, log = []\<rparr>,
        members = [1, 2], failed = (\<lambda>b. False), joined = []\<rparr>"
  define v0 :: world where "v0 = \<lparr>w_suite = \<lparr>suite_running = False, suite_aborted = False, by_abort = False, by_reset = False, log = []\<rparr>,
        members = [], failed = (\<lambda>b. False), joined = []\<rparr>"
  have a: "members v \<noteq> []" "\<not> opt_queued e" "members v0 = []" "\<And>ev w. listen e ev w = w" by (simp_all add: e_def v_def v0_def)
  obtain n s where s: "invoke_reach (suite_invoke e) (set_running True (v\<lparr>w_suite := resetSuite (cancel_abort e) (cancel_reset e) (w_suite v)\<rparr>)) n s"
      "phase s = Finished"
    using runSuite_ends [where w = v and e = e] a by blast
  then have "\<exists>b u. last (trace s) = CompleteEv b \<and> \<not> suite_running (w_suite u) \<and> world_of s = u"
    using runSuite_ends [where w = v and e = e] a by metis
  moreover have "suite_running (w_suite (world_of (runSuite e v0)))" using runSuite_ends [where w = v0 and e = e] a by blast
  ultimately show ?thesis using s(2) unfolding e_def v0_def by blast
qed

end
