(* ===== verification/JsFlow.thy ===== *)
theory JsFlow
  imports JsLazy
begin

text \<open>
  Functions of lodash.js that combine functions and wrappers: \<open>flow\<close> with its shortcut through lazy evaluation, \<open>cond\<close>,
  \<open>over\<close> and the small helpers, and the methods of wrappers that plant, clone, commit and enumerate them. A function of a flow is
  plain, a wrapper or a laziable method by its constructor; the code tells them apart by \<open>getFuncName\<close>, \<open>isLaziable\<close> and \<open>getData\<close>.
\<close>

section \<open>Wrappers\<close>

text \<open>A copy of a wrapper has copies of its lists, so that in a model without updates in place it is the wrapper itself.\<close>

definition lazyClone :: "'a lazy_data \<Rightarrow> 'a lazy_data" where
  "lazyClone d =
     \<lparr>actions = actions d, dir = dir d, filtered = filtered d, iteratees = iteratees d, takeCount = takeCount d, views = views d\<rparr>"

fun wrapperClone :: "'a wrapped \<Rightarrow> 'a wrapped" where
  "wrapperClone (LazyWrapper w d) = LazyWrapper w (lazyClone d)"
| "wrapperClone (LodashWrapper w acts) = LodashWrapper w acts"
| "wrapperClone (ArrayV xs) = ArrayV xs"

text \<open>\<open>lodash\<close> called on a value or wrapper, and the methods of wrappers.\<close>

fun lodash :: "'a wrapped \<Rightarrow> 'a wrapped" where
  "lodash (LodashWrapper w acts) = LodashWrapper w acts"
| "lodash w = LodashWrapper w []"

fun set_wrapped :: "'a wrapped \<Rightarrow> 'a wrapped \<Rightarrow> 'a wrapped" where
  "set_wrapped (LazyWrapper w d) v = LazyWrapper v d"
| "set_wrapped (LodashWrapper w acts) v = LodashWrapper v acts"
| "set_wrapped (ArrayV xs) v = ArrayV xs"

fun wrapperPlant :: "'a wrapped \<Rightarrow> 'a list \<Rightarrow> 'a wrapped" where
  "wrapperPlant (ArrayV xs) value = ArrayV value"
| "wrapperPlant (LodashWrapper w acts) value = set_wrapped (wrapperClone (LodashWrapper w acts)) (wrapperPlant w value)"
| "wrapperPlant (LazyWrapper w d) value = set_wrapped (wrapperClone (LazyWrapper w d)) (wrapperPlant w value)"

definition wrapperCommit :: "'a wrapped \<Rightarrow> 'a wrapped" where
  "wrapperCommit w = LodashWrapper (ArrayV (wrapper_value w)) []"

text \<open>The method \<open>thru\<close> of a wrapper, as made by \<open>mixin\<close>: a copy with the call as one more action.\<close>

fun wrapper_thru :: "('a list \<Rightarrow> 'a list) \<Rightarrow> 'a wrapped \<Rightarrow> 'a wrapped" where
  "wrapper_thru f (LodashWrapper w acts) = LodashWrapper w (acts @ [f])"
| "wrapper_thru f w = w"

text \<open>A wrapper as an iterator: the index and the values of a \<open>LodashWrapper\<close>.\<close>

record 'a iterated =
  iter_wrapper :: "'a wrapped"
  iter_index :: nat
  iter_values :: "'a list option"

definition wrapperNext :: "'a iterated \<Rightarrow> 'a option \<times> 'a iterated" where
  "wrapperNext it =
     (let vs = (case iter_values it of None \<Rightarrow> wrapper_value (iter_wrapper it) | Some xs \<Rightarrow> xs);
          it1 = it\<lparr>iter_values := Some vs\<rparr>
      in if iter_index it \<ge> length vs then (None, it1)
         else (Some (vs ! iter_index it), it1\<lparr>iter_index := Suc (iter_index it)\<rparr>))"

fun next_calls :: "nat \<Rightarrow> 'a iterated \<Rightarrow> 'a option list" where
  "next_calls 0 it = []"
| "next_calls (Suc n) it = (case wrapperNext it of (r, it1) \<Rightarrow> r # next_calls n it1)"

section \<open>Flow\<close>

text \<open>
  The functions that \<open>createFlow\<close> tells apart, as functions on arrays: laziable functions of one parameter, and
  functions named \<open>wrapper\<close>, of which those made by currying and partially applying a laziable function carry the call.
\<close>

datatype 'a flow_fun =
    PlainF "'a list \<Rightarrow> 'a list"
  | WrapperF "'a list \<Rightarrow> 'a list"
  | UnaryF "'a chain_call"
  | CurriedF "'a chain_call"

fun call_fun :: "'a flow_fun \<Rightarrow> 'a list \<Rightarrow> 'a list" where
  "call_fun (PlainF f) xs = f xs"
| "call_fun (WrapperF f) xs = f xs"
| "call_fun (UnaryF c) xs = eager_call c xs"
| "call_fun (CurriedF c) xs = eager_call c xs"

fun is_wrapper :: "'a flow_fun \<Rightarrow> bool" where
  "is_wrapper (WrapperF f) = True"
| "is_wrapper (CurriedF c) = True"
| "is_wrapper f = False"

fun flow_step :: "'a flow_fun \<Rightarrow> 'a wrapped \<Rightarrow> 'a wrapped" where
  "flow_step (CurriedF c) w = chain_method c w"
| "flow_step (UnaryF c) w = chain_method c w"
| "flow_step (PlainF f) w = wrapper_thru f w"
| "flow_step (WrapperF f) w = wrapper_thru f w"

fun check_funcs :: "'a flow_fun option list \<Rightarrow> js_error + 'a flow_fun list" where
  "check_funcs [] = Inr []"
| "check_funcs (f # fs) =
     (case (f, check_funcs fs) of (Some func, Inr funcs) \<Rightarrow> Inr (func # funcs) | _ \<Rightarrow> Inl (TypeError FUNC_ERROR_TEXT))"

definition flow_wrapper :: "'a flow_fun list \<Rightarrow> 'a wrapped option" where
  "flow_wrapper funcs =
     (if list_ex is_wrapper funcs then Some (fold flow_step funcs (LodashWrapper (ArrayV []) [])) else None)"

definition flow_call :: "'a flow_fun list \<Rightarrow> 'a list \<Rightarrow> 'a list" where
  "flow_call funcs value =
     (case flow_wrapper funcs of
        Some w \<Rightarrow> if length value \<ge> LARGE_ARRAY_SIZE then wrapper_value (wrapperPlant w value) else fold call_fun funcs value
      | None \<Rightarrow> fold call_fun funcs value)"

text \<open>\<open>createFlow\<close>, with a function that is none as None.\<close>

definition createFlow :: "bool \<Rightarrow> 'a flow_fun option list \<Rightarrow> js_error + ('a list \<Rightarrow> 'a list)" where
  "createFlow fromRight funcs =
     (case check_funcs (if fromRight then rev funcs else funcs) of
        Inl e \<Rightarrow> Inl e
      | Inr fs \<Rightarrow> Inr (flow_call fs))"

definition flow :: "'a flow_fun option list \<Rightarrow> js_error + ('a list \<Rightarrow> 'a list)" where
  "flow funcs = createFlow False funcs"

definition flowRight :: "'a flow_fun option list \<Rightarrow> js_error + ('a list \<Rightarrow> 'a list)" where
  "flowRight funcs = createFlow True funcs"

section \<open>Functions of functions\<close>

definition over :: "('t \<Rightarrow> jsval list \<Rightarrow> jsval) list \<Rightarrow> 't \<Rightarrow> jsval list \<Rightarrow> jsval list" where
  "over funcs thisArg args = createOver arrayMap funcs thisArg args"

definition overEvery :: "('t \<Rightarrow> jsval list \<Rightarrow> bool) list \<Rightarrow> 't \<Rightarrow> jsval list \<Rightarrow> bool" where
  "overEvery predicates thisArg args = createOver arrayEvery predicates thisArg args"

definition overSome :: "('t \<Rightarrow> jsval list \<Rightarrow> bool) list \<Rightarrow> 't \<Rightarrow> jsval list \<Rightarrow> bool" where
  "overSome predicates thisArg args = createOver arraySome predicates thisArg args"

text \<open>\<open>cond\<close>: the predicates are already functions; a second component that is no function is None.\<close>

fun cond_loop :: "((jsval list \<Rightarrow> bool) \<times> (jsval list \<Rightarrow> jsval) option) list \<Rightarrow> jsval list \<Rightarrow> jsval" where
  "cond_loop [] args = Undefined"
| "cond_loop ((p, func) # pairs) args = (if p args then (case func of Some f \<Rightarrow> f args | None \<Rightarrow> Undefined) else cond_loop pairs args)"

definition cond :: "((jsval list \<Rightarrow> bool) \<times> (jsval list \<Rightarrow> jsval) option) list \<Rightarrow> js_error + (jsval list \<Rightarrow> jsval)" where
  "cond pairs =
     (if list_ex (\<lambda>pair. snd pair = None) pairs then Inl (TypeError FUNC_ERROR_TEXT) else Inr (cond_loop pairs))"

text \<open>A call that may throw; \<open>is_error\<close> tells the errors among the values thrown and \<open>new_error\<close> makes one of another value.\<close>

definition attempt :: "(jsval \<Rightarrow> bool) \<Rightarrow> (jsval \<Rightarrow> jsval) \<Rightarrow> (jsval list \<Rightarrow> jsval + jsval) \<Rightarrow> jsval list \<Rightarrow> jsval" where
  "attempt is_error new_error func args =
     (case func args of Inr v \<Rightarrow> v | Inl e \<Rightarrow> if is_error e then e else new_error e)"

definition constant_js :: "'v \<Rightarrow> jsval list \<Rightarrow> 'v" where
  "constant_js value args = value"

definition defaultTo :: "jsval \<Rightarrow> jsval \<Rightarrow> jsval" where
  "defaultTo value defaultValue = (if isNil value \<or> \<not> strict_eq value value then defaultValue else value)"

definition identity :: "'v \<Rightarrow> 'v" where
  "identity value = value"

definition noop :: "jsval list \<Rightarrow> jsval" where
  "noop args = Undefined"

definition nthArg :: "jsnum \<Rightarrow> jsval list \<Rightarrow> jsval" where
  "nthArg n args = baseNth args (num_int (toInteger n))"

definition stubArray :: "jsval list" where
  "stubArray = []"

definition stubFalse :: jsval where
  "stubFalse = Bool False"

definition stubString :: jsval where
  "stubString = Str []"

definition stubTrue :: jsval where
  "stubTrue = Bool True"

definition tap :: "'v \<Rightarrow> ('v \<Rightarrow> 's \<Rightarrow> 's) \<Rightarrow> 's \<Rightarrow> 'v \<times> 's" where
  "tap value interceptor s = (value, interceptor value s)"

definition thru :: "'v \<Rightarrow> ('v \<Rightarrow> 's \<Rightarrow> 'r \<times> 's) \<Rightarrow> 's \<Rightarrow> 'r \<times> 's" where
  "thru value interceptor s = interceptor value s"

definition castArray :: "jsval list \<Rightarrow> (jsval \<Rightarrow> jsval list option) \<Rightarrow> jsval list" where
  "castArray args elements = (if args = [] then [] else (case elements (hd args) of Some xs \<Rightarrow> xs | None \<Rightarrow> [hd args]))"

text \<open>\<open>idCounter\<close> is the state; the prefix is already a string.\<close>

definition uniqueId :: "string \<Rightarrow> nat \<Rightarrow> string \<times> nat" where
  "uniqueId pre idCounter = (pre @ nat_str (Suc idCounter), Suc idCounter)"

fun unique_ids :: "string list \<Rightarrow> nat \<Rightarrow> string list" where
  "unique_ids [] idCounter = []"
| "unique_ids (pre # pres) idCounter = (case uniqueId pre idCounter of (s, c) \<Rightarrow> s # unique_ids pres c)"

section \<open>Specifications\<close>

text \<open>Flows whose stretches of laziable functions are faithful chains; another function starts a new chain.\<close>

fun faithful_flow :: "phase \<Rightarrow> 'a flow_fun list \<Rightarrow> bool" where
  "faithful_flow ph [] = True"
| "faithful_flow ph (PlainF f # fs) = faithful_flow Unfiltered fs"
| "faithful_flow ph (WrapperF f # fs) = faithful_flow Unfiltered fs"
| "faithful_flow ph (UnaryF c # fs) = (case next_phase ph c of None \<Rightarrow> False | Some ph1 \<Rightarrow> faithful_flow ph1 fs)"
| "faithful_flow ph (CurriedF c # fs) = (case next_phase ph c of None \<Rightarrow> False | Some ph1 \<Rightarrow> faithful_flow ph1 fs)"

text \<open>Functions whose results fit in an array.\<close>

fun fits :: "'a flow_fun \<Rightarrow> bool" where
  "fits (PlainF f) = (\<forall>xs. small xs \<longrightarrow> small (f xs))"
| "fits (WrapperF f) = (\<forall>xs. small xs \<longrightarrow> small (f xs))"
| "fits f = True"

section \<open>Lemmas\<close>

lemma lazyClone_same [simp]: "lazyClone d = d"
  by (simp add: lazyClone_def)

lemma wrapperPlant_lazy [simp]: "wrapperPlant (LazyWrapper w d) xs = LazyWrapper (wrapperPlant w xs) d"
  by simp

lemma is_lazy_plant [simp]: "is_lazy (wrapperPlant w xs) = is_lazy w"
  by (cases w) auto

lemma is_filtered_plant [simp]: "is_filtered (wrapperPlant w xs) = is_filtered w"
  by (cases w) auto

lemma plant_map_lazy: "wrapperPlant (map_lazy f w) xs = map_lazy f (wrapperPlant w xs)"
  by (cases w) auto

lemma plant_reverse: "wrapperPlant (lazyReverse w) xs = lazyReverse (wrapperPlant w xs)"
  by (simp add: lazyReverse_def plant_map_lazy)

lemma plant_drop: "wrapperPlant (lazy_drop n w) xs = lazy_drop n (wrapperPlant w xs)"
  by (simp add: lazy_drop_def plant_map_lazy)

lemmas plant_methods = plant_reverse plant_drop plant_map_lazy

text \<open>Every method of a lazy wrapper works on what is planted as on what was wrapped before.\<close>

lemma plant_lazy_method: "wrapperPlant (lazy_method c w) xs = lazy_method c (wrapperPlant w xs)"
  by (cases c) (auto simp: lazy_map_def lazy_filter_def lazy_reject_def lazy_takeWhile_def lazy_takeRightWhile_def lazy_take_def
      lazy_takeRight_def lazy_dropRight_def lazy_initial_def lazy_tail_def lazy_slice_def Let_def plant_methods split: option.split)

lemma plant_chain_method: "wrapperPlant (chain_method c w) xs = chain_method c (wrapperPlant w xs)"
  by (cases w) (simp_all add: wrapperReverse_def push_action_def plant_methods plant_lazy_method)

lemma plant_flow_step: "wrapperPlant (flow_step f w) xs = flow_step f (wrapperPlant w xs)"
  by (cases f; cases w) (simp_all add: plant_chain_method del: chain_method.simps)

lemma plant_flow: "wrapperPlant (fold flow_step fs w) xs = fold flow_step fs (wrapperPlant w xs)"
  by (induction fs arbitrary: w) (simp_all add: plant_flow_step)

text \<open>The wrapper of a flow holds the value of the calls made so far.\<close>

lemma thru_inv: "chain_inv ph ys lw \<Longrightarrow> small (f ys) \<Longrightarrow> chain_inv Unfiltered (f ys) (wrapper_thru f lw)"
  using chain_inv_value [of ph ys lw] by (cases lw) (auto simp: chain_inv_def run_actions_def)

lemma flow_fold:
  assumes "faithful_flow ph fs" "list_all fits fs" "chain_inv ph ys lw"
  shows "wrapper_value (fold flow_step fs lw) = fold call_fun fs ys"
  using assms
proof (induction fs arbitrary: ph ys lw)
  case (Cons f fs)
  have "small ys" using Cons.prems(3) by (simp add: chain_inv_def)
  then show ?case using Cons thru_inv [OF Cons.prems(3)] chain_inv_method [OF Cons.prems(3)]
    by (cases f) (fastforce split: option.splits)+
qed (simp add: chain_inv_value)

lemma flow_call_composes:
  assumes "small xs" "faithful_flow Unfiltered fs" "list_all fits fs"
  shows "flow_call fs xs = fold call_fun fs xs"
proof -
  have "chain_inv Unfiltered xs (LodashWrapper (ArrayV xs) [])" using assms(1) by (simp add: chain_inv_def run_actions_def)
  from flow_fold [OF assms(2,3) this] show ?thesis by (simp add: flow_call_def flow_wrapper_def plant_flow)
qed

lemma check_funcs_Some [simp]: "check_funcs (map Some fs) = Inr fs"
  by (induction fs) auto

lemma check_funcs_None: "None \<in> set fs \<Longrightarrow> check_funcs fs = Inl (TypeError FUNC_ERROR_TEXT)"
  by (induction fs) (auto split: option.split sum.split)

text \<open>The calls of \<open>next\<close> enumerate the value of the wrapper as it was at the first call.\<close>

lemma next_calls_values:
  "iter_values it = Some vs \<Longrightarrow> iter_index it \<le> length vs \<Longrightarrow>
   next_calls n it = map Some (take n (drop (iter_index it) vs)) @ replicate (n - (length vs - iter_index it)) None"
proof (induction n arbitrary: it)
  case (Suc n)
  show ?case
  proof (cases "iter_index it < length vs")
    case True
    let ?it = "it\<lparr>iter_values := Some vs, iter_index := Suc (iter_index it)\<rparr>"
    have "next_calls (Suc n) it = Some (vs ! iter_index it) # next_calls n ?it" using True Suc.prems by (simp add: wrapperNext_def)
    moreover have "drop (iter_index it) vs = vs ! iter_index it # drop (Suc (iter_index it)) vs" using True by (simp add: Cons_nth_drop_Suc)
    moreover have "Suc n - (length vs - iter_index it) = n - (length vs - Suc (iter_index it))" using True by simp
    ultimately show ?thesis using Suc.IH [of ?it] True by simp
  next
    case False
    then show ?thesis using Suc.IH [of "it\<lparr>iter_values := Some vs\<rparr>"] Suc.prems by (simp add: wrapperNext_def)
  qed
qed simp

lemma next_calls_first: "next_calls n \<lparr>iter_wrapper = w, iter_index = 0, iter_values = None\<rparr> =
    next_calls n \<lparr>iter_wrapper = w, iter_index = 0, iter_values = Some (wrapper_value w)\<rparr>"
  by (cases n) (simp_all add: wrapperNext_def Let_def)

text \<open>Identifiers.\<close>

lemma nat_str_eq [simp]: "nat_str m = nat_str n \<longleftrightarrow> m = n"
  by (metis str_nat_nat_str)

lemma unique_ids_nth: "i < length ps \<Longrightarrow> unique_ids ps c ! i = ps ! i @ nat_str (Suc (c + i))"
proof (induction ps arbitrary: c i)
  case (Cons p ps)
  then show ?case by (cases i) (simp_all add: uniqueId_def)
qed simp

lemma unique_ids_length [simp]: "length (unique_ids ps c) = length ps"
  by (induction ps arbitrary: c) (simp_all add: uniqueId_def)

section \<open>Properties\<close>

text \<open>
  (C38) A flow calls its functions one after the other, in the reversed order from the right; with a function that is none it
  throws. The shortcut for long arrays, which plants the array in a wrapper prepared from the laziable functions, gives
  the same result if every stretch of laziable functions is a faithful chain and the other functions turn arrays of fewer than
  \<open>2 ^ 32\<close> elements into such arrays.
\<close>

theorem flow_composes:
  assumes "length xs < 2 ^ 32" "faithful_flow Unfiltered (if fromRight then rev fs else fs)" "list_all fits fs"
  shows "(\<exists>f. createFlow fromRight (map Some fs) = Inr f \<and> f xs = fold call_fun (if fromRight then rev fs else fs) xs) \<and>
    (None \<in> set gs \<longrightarrow> createFlow fromRight gs = Inl (TypeError FUNC_ERROR_TEXT))"
proof -
  have "list_all fits (rev fs)" using assms(3) by (simp add: list_all_iff)
  then show ?thesis using assms flow_call_composes [of xs "if fromRight then rev fs else fs"]
    by (auto simp: createFlow_def small_def check_funcs_None rev_map)
qed

theorem flow_composes_witness:
  "\<exists>f. createFlow False [Some (CurriedF (CMap (\<lambda>v. v + 1))), Some (PlainF rev), Some (CurriedF (CFilter even)), Some (CurriedF (CTake None))] = Inr f \<and>
    f [3, 1, 2 :: int] = [2]"
  using flow_composes [of "[3, 1, 2]" False "[CurriedF (CMap (\<lambda>v. v + 1)), PlainF rev, CurriedF (CFilter even), CurriedF (CTake None)]" "[]"]
  by (simp add: small_def eager_simps count_arg_def del: eager_call.simps(1-12))

text \<open>
  The identifiers made with one prefix are all different. Identifiers made with different prefixes need not be: the
  digits of the counter may complete one prefix to another.
\<close>

theorem uniqueId_per_prefix:
  "distinct (unique_ids (replicate n p) c) \<and>
   (\<exists>ps. distinct ps \<and> \<not> distinct (unique_ids ps 0))"
proof
  show "distinct (unique_ids (replicate n p) c)" by (auto simp: distinct_conv_nth unique_ids_nth)
  let ?ps = "[''b1'', ''a'', ''c'', ''d'', ''e'', ''f'', ''g'', ''h'', ''i'', ''j'', ''b'']"
  have "nat_str 1 = ''1''" "nat_str 11 = ''11''" by (code_simp, code_simp)
  then have "unique_ids ?ps 0 ! 0 = unique_ids ?ps 0 ! 10" 
    by (simp add: unique_ids_nth del: unique_ids.simps)
  then have "\<not> distinct (unique_ids ?ps 0)"
    using nth_eq_iff_index_eq [of "unique_ids ?ps 0" 0 10] by (auto simp del: unique_ids.simps)
  moreover have "distinct ?ps" by simp
  ultimately show "\<exists>ps. distinct ps \<and> \<not> distinct (unique_ids ps 0)" by blast
qed

end
