(* ===== verification/JsRound.thy ===== *)
theory JsRound
  imports JsDouble
begin

text \<open>
  The rounding functions of lodash.js: \<open>ceil\<close>, \<open>floor\<close> and \<open>round\<close> to a number of decimal places, which shift the decimal
  point in the text of the number, round to an integer and shift back. Numbers are doubles.
\<close>

section \<open>Rounding\<close>

text \<open>The functions of Math; a number that rounds to zero from below gives negative zero.\<close>

definition signed_zero :: "rat \<Rightarrow> int \<Rightarrow> jsnum" where
  "signed_zero q n = (if n = 0 \<and> q < 0 then NegZero else Fin (of_int n))"

fun math_ceil :: "jsnum \<Rightarrow> jsnum" where
  "math_ceil (Fin q) = signed_zero q \<lceil>q\<rceil>"
| "math_ceil n = n"

fun math_floor :: "jsnum \<Rightarrow> jsnum" where
  "math_floor (Fin q) = signed_zero q \<lfloor>q\<rfloor>"
| "math_floor n = n"

fun math_round :: "jsnum \<Rightarrow> jsnum" where
  "math_round (Fin q) = signed_zero q \<lfloor>q + 1 / 2\<rfloor>"
| "math_round n = n"

text \<open>
  The number that is read from the text of a number with its exponent raised by \<open>k\<close>: the double nearest to the decimal shifted. The text of an infinity
  with an exponent is not the text of a number, and neither is a text whose exponent is so great that it is itself printed with an exponent.
\<close>

definition shift_exponent :: "jsnum \<Rightarrow> int \<Rightarrow> jsnum" where
  "shift_exponent n k =
     (if \<bar>k\<bar> \<ge> 10 ^ 21 then NaN
      else (case n of Fin q \<Rightarrow> to_double (Fin (printed q * 10 powi k)) | NegZero \<Rightarrow> NegZero | _ \<Rightarrow> NaN))"

definition round_places :: "jsnum option \<Rightarrow> int" where
  "round_places precision = min (case precision of None \<Rightarrow> 0 | Some n \<Rightarrow> num_int (toInteger n)) 292"

definition createRound :: "(jsnum \<Rightarrow> jsnum) \<Rightarrow> jsnum \<Rightarrow> jsnum option \<Rightarrow> jsnum" where
  "createRound func number precision =
     (let p = round_places precision
      in if p \<noteq> 0 then shift_exponent (func (shift_exponent number p)) (- p) else func number)"

definition ceil :: "jsnum \<Rightarrow> jsnum option \<Rightarrow> jsnum" where
  "ceil number precision = createRound math_ceil number precision"

definition floor_js :: "jsnum \<Rightarrow> jsnum option \<Rightarrow> jsnum" where
  "floor_js number precision = createRound math_floor number precision"

definition round_js :: "jsnum \<Rightarrow> jsnum option \<Rightarrow> jsnum" where
  "round_js number precision = createRound math_round number precision"

section \<open>Lemmas\<close>

text \<open>Rounding a number that lies between integers below \<open>2 ^ 53\<close> to a double leaves it between them, with a small error.\<close>

lemma to_double_between_pos:
  assumes "0 \<le> x" "of_int a \<le> x" "x \<le> of_int b" "b \<le> 2 ^ 53"
  shows "\<exists>y. double_abs x = Some y \<and> of_int a \<le> y \<and> y \<le> of_int b \<and> 0 \<le> y \<and> \<bar>y - x\<bar> \<le> max (least_double / 2) (x / 2 ^ 53)"
proof -
  have b: "0 \<le> b" using assms(1,3) by (metis order_trans of_int_0_le_iff)
  let ?a = "max a 0"
  have a: "0 \<le> ?a" "?a \<le> b" "of_int ?a \<le> x" using assms b by (auto simp: max_def)
  have "is_double (of_int ?a)" "is_double (of_int b)"
    using is_double_nat [of "nat ?a"] is_double_nat [of "nat b"] a b assms(4) by simp_all
  then obtain y where y: "double_abs x = Some y" "of_int ?a \<le> y" "y \<le> of_int b"
    using double_abs_between a(3) assms(3) by blast
  then show ?thesis using double_abs_error [OF y(1) assms(1)] by (auto simp: max_def split: if_splits)
qed

lemma to_double_between:
  assumes "of_int a \<le> x" "x \<le> of_int b" "- (2 ^ 53) \<le> a" "b \<le> 2 ^ 53"
  obtains y where "to_double (Fin x) = Fin y \<or> to_double (Fin x) = NegZero \<and> y = 0" "of_int a \<le> y" "y \<le> of_int b"
    "\<bar>y - x\<bar> \<le> max (least_double / 2) (\<bar>x\<bar> / 2 ^ 53)"
proof (cases "x < 0")
  case True
  obtain y where y: "double_abs (- x) = Some y" "of_int (- b) \<le> y" "y \<le> of_int (- a)" "0 \<le> y" "\<bar>y - - x\<bar> \<le> max (least_double / 2) (- x / 2 ^ 53)"
    using to_double_between_pos [of "- x" "- b" "- a"] assms True by auto
  then show ?thesis using True by (intro that [of "- y"]) (auto simp: signed_def abs_minus_commute)
next
  case False
  then show ?thesis using to_double_between_pos [of x a b] assms that by (auto simp: signed_def)
qed

lemma printed_int: "\<bar>k\<bar> < 2 ^ 53 \<Longrightarrow> printed (of_int k) = of_int k"
proof -
  assume k: "\<bar>k\<bar> < 2 ^ 53"
  consider "k = 0" | "0 < k" | "k < 0" by linarith
  then show ?thesis
  proof cases
    case 1
    then show ?thesis using printed_double(2) [of 0] is_double_zero by simp
  next
    case 2
    then show ?thesis using printed_nat [of "nat k"] k by (simp add: printed_def)
  next
    case 3
    then show ?thesis using printed_nat [of "nat (- k)"] k by (simp add: printed_def)
  qed
qed

text \<open>Rounding to places, by a function that rounds by \<open>f\<close> to an integer.\<close>

lemma createRound_places:
  fixes p :: "jsnum option" and q :: rat
  defines "x \<equiv> printed q * 10 powi round_places p"
  assumes "round_places p \<noteq> 0" "- (10 ^ 21) < round_places p" "\<bar>x\<bar> \<le> 2 ^ 53 - 1"
    "\<And>q. func (Fin q) = signed_zero q (f q)" "func NegZero = NegZero" "f 0 = 0"
    "\<And>y. of_int \<lfloor>x\<rfloor> \<le> y \<Longrightarrow> y \<le> of_int \<lceil>x\<rceil> \<Longrightarrow> \<lfloor>x\<rfloor> \<le> f y \<and> f y \<le> \<lceil>x\<rceil>"
  shows "\<exists>y. of_int \<lfloor>x\<rfloor> \<le> y \<and> y \<le> of_int \<lceil>x\<rceil> \<and> \<bar>y - x\<bar> \<le> max (least_double / 2) (\<bar>x\<bar> / 2 ^ 53) \<and>
    num_strict_eq (createRound func (Fin q) p) (to_double (Fin (of_int (f y) * 10 powi (- round_places p))))"
proof -
  have "round_places p \<le> 292" by (simp add: round_places_def)
  then have places: "\<not> 10 ^ 21 \<le> \<bar>round_places p\<bar>" "\<not> 10 ^ 21 \<le> \<bar>- round_places p\<bar>" using assms(3) by auto
  have fl: "- (2 ^ 53 - 1) \<le> \<lfloor>x\<rfloor>" "\<lceil>x\<rceil> \<le> 2 ^ 53 - 1"
    using assms(4) by (simp_all add: le_floor_iff ceiling_le_iff abs_le_iff)
  obtain y where y: "to_double (Fin x) = Fin y \<or> to_double (Fin x) = NegZero \<and> y = 0" "of_int \<lfloor>x\<rfloor> \<le> y" "y \<le> of_int \<lceil>x\<rceil>"
    "\<bar>y - x\<bar> \<le> max (least_double / 2) (\<bar>x\<bar> / 2 ^ 53)"
    using to_double_between [of "\<lfloor>x\<rfloor>" x "\<lceil>x\<rceil>"] fl by auto
  have "\<lfloor>x\<rfloor> \<le> f y" "f y \<le> \<lceil>x\<rceil>" using assms(8) [OF y(2,3)] by blast+
  then have "\<bar>f y\<bar> < 2 ^ 53" using fl by linarith
  note k = printed_int [OF this]
  have sh: "shift_exponent (Fin q) (round_places p) = to_double (Fin x)" using places by (simp add: shift_exponent_def x_def)
  have fz: "func (to_double (Fin x)) = Fin (of_int (f y)) \<or> func (to_double (Fin x)) = NegZero \<and> f y = 0"
    using y(1) assms(5) [of y] assms(6,7) by (auto simp: signed_zero_def simp del: to_double.simps split: if_splits)
  have z: "to_double (Fin 0) = Fin 0" using is_double_zero by (simp add: double_abs_fixed signed_def)
  have nan: "to_double (Fin r) \<noteq> NaN" for r by (auto simp: signed_def split: option.split)
  have cr: "createRound func (Fin q) p = shift_exponent (func (to_double (Fin x))) (- round_places p)"
    using assms(2) by (simp add: createRound_def sh del: to_double.simps)
  have "num_strict_eq (createRound func (Fin q) p) (to_double (Fin (of_int (f y) * 10 powi (- round_places p))))"
    using fz places k z nan unfolding cr by (auto simp: shift_exponent_def num_strict_eq_def simp del: to_double.simps)
  then show ?thesis using y by blast
qed

text \<open>The functions of Math stay between the integers around a number, and keep integers.\<close>

lemma floor_between: "of_int a \<le> y \<Longrightarrow> y \<le> of_int b \<Longrightarrow> a \<le> \<lfloor>y\<rfloor> \<and> \<lfloor>y\<rfloor> \<le> b" for y :: rat
  by (simp add: le_floor_iff) (metis floor_mono floor_of_int)

lemma ceiling_between: "of_int a \<le> y \<Longrightarrow> y \<le> of_int b \<Longrightarrow> a \<le> \<lceil>y\<rceil> \<and> \<lceil>y\<rceil> \<le> b" for y :: rat
  by (simp add: ceiling_le_iff) (metis ceiling_mono ceiling_of_int)

lemma round_between: "of_int a \<le> y \<Longrightarrow> y \<le> of_int b \<Longrightarrow> a \<le> \<lfloor>y + 1 / 2\<rfloor> \<and> \<lfloor>y + 1 / 2\<rfloor> \<le> b" for y :: rat
  by (simp add: le_floor_iff floor_le_iff)

text \<open>Rounding a number that was read with a small error.\<close>

lemma floor_read:
  fixes x :: rat
  assumes "of_int \<lfloor>x\<rfloor> \<le> y" "y \<le> of_int \<lceil>x\<rceil>" "\<bar>y - x\<bar> \<le> err"
  shows "\<lfloor>y\<rfloor> = \<lfloor>x\<rfloor> \<or> \<lfloor>y\<rfloor> = \<lceil>x\<rceil> \<and> of_int \<lfloor>y\<rfloor> - x \<le> err"
proof -
  have "\<lfloor>y\<rfloor> = \<lfloor>x\<rfloor> \<or> \<lfloor>y\<rfloor> = \<lceil>x\<rceil>" using floor_between [OF assms(1,2)] ceiling_diff_floor_le_1 [of x] by linarith
  moreover have "of_int \<lfloor>y\<rfloor> - x \<le> err" using assms(3) of_int_floor_le [of y] unfolding abs_le_iff by linarith
  ultimately show ?thesis by blast
qed

lemma ceiling_read:
  fixes x :: rat
  assumes "of_int \<lfloor>x\<rfloor> \<le> y" "y \<le> of_int \<lceil>x\<rceil>" "\<bar>y - x\<bar> \<le> err"
  shows "\<lceil>y\<rceil> = \<lceil>x\<rceil> \<or> \<lceil>y\<rceil> = \<lfloor>x\<rfloor> \<and> x - of_int \<lceil>y\<rceil> \<le> err"
proof -
  have "\<lceil>y\<rceil> = \<lceil>x\<rceil> \<or> \<lceil>y\<rceil> = \<lfloor>x\<rfloor>" using ceiling_between [OF assms(1,2)] ceiling_diff_floor_le_1 [of x] by linarith
  moreover have "x - of_int \<lceil>y\<rceil> \<le> err" using assms(3) le_of_int_ceiling [of y] unfolding abs_le_iff by linarith
  ultimately show ?thesis by blast
qed

lemma round_read: "\<bar>y - x\<bar> \<le> err \<Longrightarrow> \<bar>of_int \<lfloor>y + 1 / 2\<rfloor> - x\<bar> \<le> 1 / 2 + err" for x :: rat
  using floor_correct [of "y + 1 / 2"] unfolding abs_le_iff by linarith

section \<open>Properties\<close>

text \<open>
  (C39) Rounding a double to decimal places works on the decimal it is printed as, shifted by the places. If the shifted decimal stays below
  \<open>2 ^ 53\<close>, the result is the double nearest to an integer shifted back: for \<open>floor\<close> the integer below the decimal, unless the decimal is so close to the
  integer above that it is read as that one, for \<open>ceil\<close> the other way round, and for \<open>round\<close> an integer that is nearest up to
  the error of reading. A number printed with no more places than asked for is not changed. A number whose shifted decimal overflows,
  and an infinity, gives NaN.
\<close>

theorem rounding_to_places:
  fixes q :: rat and p :: "jsnum option"
  assumes "is_double \<bar>q\<bar>" "round_places p \<noteq> 0" "- (10 ^ 21) < round_places p"
  defines "x \<equiv> printed q * 10 powi round_places p"
  defines "err \<equiv> max (least_double / 2) (\<bar>x\<bar> / 2 ^ 53)"
    and "places k \<equiv> to_double (Fin (of_int k * 10 powi (- round_places p)))"
  shows "(\<bar>x\<bar> \<le> 2 ^ 53 - 1 \<longrightarrow>
      (\<exists>k. num_strict_eq (floor_js (Fin q) p) (places k) \<and> (k = \<lfloor>x\<rfloor> \<or> k = \<lceil>x\<rceil> \<and> of_int k - x \<le> err)) \<and>
      (\<exists>k. num_strict_eq (ceil (Fin q) p) (places k) \<and> (k = \<lceil>x\<rceil> \<or> k = \<lfloor>x\<rfloor> \<and> x - of_int k \<le> err)) \<and>
      (\<exists>k. num_strict_eq (round_js (Fin q) p) (places k) \<and> \<bar>of_int k - x\<bar> \<le> 1 / 2 + err)) \<and>
    (\<bar>x\<bar> \<le> 2 ^ 53 - 1 \<longrightarrow> x \<in> \<int> \<longrightarrow>
      num_strict_eq (floor_js (Fin q) p) (Fin q) \<and> num_strict_eq (ceil (Fin q) p) (Fin q) \<and> num_strict_eq (round_js (Fin q) p) (Fin q)) \<and>
    (double_abs \<bar>x\<bar> = None \<longrightarrow> floor_js (Fin q) p = NaN \<and> ceil (Fin q) p = NaN \<and> round_js (Fin q) p = NaN) \<and>
    floor_js PInf p = NaN \<and> ceil PInf p = NaN \<and> round_js PInf p = NaN"
proof -
  let ?in = "\<bar>x\<bar> \<le> 2 ^ 53 - 1"
  have half: "\<lfloor>1 / 2 :: rat\<rfloor> = 0" by (simp add: floor_eq_iff)
  have fl: "?in \<Longrightarrow> \<exists>y. of_int \<lfloor>x\<rfloor> \<le> y \<and> y \<le> of_int \<lceil>x\<rceil> \<and> \<bar>y - x\<bar> \<le> err \<and> num_strict_eq (floor_js (Fin q) p) (places \<lfloor>y\<rfloor>)"
    using createRound_places [OF assms(2,3), of q math_floor floor] floor_between
    by (simp add: x_def err_def places_def floor_js_def del: to_double.simps)
  have ce: "?in \<Longrightarrow> \<exists>y. of_int \<lfloor>x\<rfloor> \<le> y \<and> y \<le> of_int \<lceil>x\<rceil> \<and> \<bar>y - x\<bar> \<le> err \<and> num_strict_eq (ceil (Fin q) p) (places \<lceil>y\<rceil>)"
    using createRound_places [OF assms(2,3), of q math_ceil ceiling] ceiling_between
    by (simp add: x_def err_def places_def ceil_def del: to_double.simps)
  have ro: "?in \<Longrightarrow> \<exists>y. of_int \<lfloor>x\<rfloor> \<le> y \<and> y \<le> of_int \<lceil>x\<rceil> \<and> \<bar>y - x\<bar> \<le> err \<and> num_strict_eq (round_js (Fin q) p) (places \<lfloor>y + 1 / 2\<rfloor>)"
    using createRound_places [OF assms(2,3), of q math_round "\<lambda>y. \<lfloor>y + 1 / 2\<rfloor>"] round_between half
    by (simp add: x_def err_def places_def round_js_def del: to_double.simps)
  have near: "(\<exists>k. num_strict_eq (floor_js (Fin q) p) (places k) \<and> (k = \<lfloor>x\<rfloor> \<or> k = \<lceil>x\<rceil> \<and> of_int k - x \<le> err)) \<and>
      (\<exists>k. num_strict_eq (ceil (Fin q) p) (places k) \<and> (k = \<lceil>x\<rceil> \<or> k = \<lfloor>x\<rfloor> \<and> x - of_int k \<le> err)) \<and>
      (\<exists>k. num_strict_eq (round_js (Fin q) p) (places k) \<and> \<bar>of_int k - x\<bar> \<le> 1 / 2 + err)" if i: ?in
    using fl [OF i] ce [OF i] ro [OF i] floor_read ceiling_read round_read by meson
  have D: "num_strict_eq (floor_js (Fin q) p) (Fin q) \<and> num_strict_eq (ceil (Fin q) p) (Fin q) \<and> num_strict_eq (round_js (Fin q) p) (Fin q)"
    if i: ?in "x \<in> \<int>"
  proof -
    obtain z where z: "x = of_int z" using i(2) by (rule Ints_cases)
    have "x * 10 powi (- round_places p) = printed q" by (simp add: x_def power_int_minus mult.assoc)
    then have pl: "places z = Fin q" using printed_double(1) [OF assms(1)] by (simp add: places_def flip: z del: to_double.simps)
    have "\<lfloor>of_int z + (1 / 2 :: rat)\<rfloor> = z" by linarith
    then show ?thesis using fl [OF i(1)] ce [OF i(1)] ro [OF i(1)] pl by (auto simp: z dest!: order_antisym)
  qed
  have "floor_js (Fin q) p = NaN \<and> ceil (Fin q) p = NaN \<and> round_js (Fin q) p = NaN" if "double_abs \<bar>x\<bar> = None"
    using that assms(2,3) by (auto simp: x_def floor_js_def ceil_def round_js_def createRound_def Let_def shift_exponent_def signed_def)
  then show ?thesis using near D assms(2,3)
    by (simp add: floor_js_def [of PInf] ceil_def [of PInf] round_js_def [of PInf] createRound_def shift_exponent_def Let_def)
qed

theorem rounding_to_places_witness:
  "num_strict_eq (floor_js (Fin (3 / 2)) (Some (Fin 1))) (Fin (3 / 2)) \<and> floor_js PInf (Some (Fin 1)) = NaN"
proof -
  have places: "round_places (Some (Fin 1)) = 1" by code_simp
  have d: "double_abs (3 / 2) = Some (3 / 2)" "double_abs 1 = Some 1" "double_abs 2 = Some 2"
    using is_double_dyadic [of 3 1] is_double_nat [of 1] is_double_nat [of 2] double_abs_fixed by simp_all
  have "magnitude (3 / 2) = 1" by (rule magnitude_eq) simp_all
  moreover have fl: "\<lfloor>3 / 2 :: rat\<rfloor> = 1" "\<lceil>3 / 2 :: rat\<rceil> = 2" by (simp_all add: floor_eq_iff ceiling_eq_iff)
  moreover have "round_even (3 / 2) = 2" "round_even 15 = 15" using round_even_int [of 15] fl by (simp_all add: round_even_def)
  ultimately have pr: "printed (3 / 2) = 3 / 2"
    unfolding printed_def printed_abs_def upt_rec [of 1 18] upt_rec [of "Suc 1" 18] using d by (simp add: decimals_def)
  have "is_double (3 / 2)" using is_double_dyadic [of 3 1] by simp
  then show ?thesis using rounding_to_places [of "3 / 2" "Some (Fin 1)", unfolded pr places] by (simp del: to_double.simps)
qed

end
