(* ===== verification/JsTests.thy ===== *)
theory JsTests
  imports JsEqual
begin

text \<open>
  Type tests of lodash.js on values in the store, and the conversion to plain objects.
\<close>

section \<open>Tests by tag\<close>

text \<open>
  Where the host has a test of its own it is given and used; otherwise the tag decides.
\<close>

definition host_test :: "(jsval \<Rightarrow> bool) option \<Rightarrow> (jsval \<Rightarrow> bool) \<Rightarrow> jsval \<Rightarrow> bool" where
  "host_test node_test base_test value = (case node_test of None \<Rightarrow> base_test value | Some f \<Rightarrow> f value)"

definition isArrayBuffer :: "(jsval \<Rightarrow> bool) option \<Rightarrow> jsval \<Rightarrow> bool" where
  "isArrayBuffer nodeIsArrayBuffer = host_test nodeIsArrayBuffer (\<lambda>v. isObjectLike v \<and> objectToString v = Some ArrayBufferTag)"

definition isDate :: "(jsval \<Rightarrow> bool) option \<Rightarrow> jsval \<Rightarrow> bool" where
  "isDate nodeIsDate = host_test nodeIsDate (\<lambda>v. isObjectLike v \<and> objectToString v = Some DateTag)"

definition isMap :: "(jsval \<Rightarrow> bool) option \<Rightarrow> jsval \<Rightarrow> bool" where
  "isMap nodeIsMap = host_test nodeIsMap baseIsMap"

definition isSet :: "(jsval \<Rightarrow> bool) option \<Rightarrow> jsval \<Rightarrow> bool" where
  "isSet nodeIsSet = host_test nodeIsSet baseIsSet"

definition isRegExp :: "(jsval \<Rightarrow> bool) option \<Rightarrow> jsval \<Rightarrow> bool" where
  "isRegExp nodeIsRegExp = host_test nodeIsRegExp (\<lambda>v. isObject v \<and> objectToString v = Some RegexpTag)"

definition isBuffer :: "(jsval \<Rightarrow> bool) option \<Rightarrow> jsval \<Rightarrow> bool" where
  "isBuffer nativeTest = host_test nativeTest (\<lambda>v. False)"

text \<open>The number in a wrapped number is no part of the store; \<open>unboxed\<close> gives it.\<close>

definition isNaN_js :: "(jsval \<Rightarrow> jsnum) \<Rightarrow> jsval \<Rightarrow> bool" where
  "isNaN_js unboxed value =
     (isNumber value \<and> (case value of Num n \<Rightarrow> n = NaN | _ \<Rightarrow> unboxed value = NaN))"

definition isError :: "heap \<Rightarrow> jsval \<Rightarrow> bool" where
  "isError h value =
     (isObjectLike value \<and>
      (objectToString value = Some ErrorTag \<or>
       (js_typeof (get_prop h value (PStr ''message'')) = TString \<and> js_typeof (get_prop h value (PStr ''name'')) = TString)))"

text \<open>
  The constructor of a prototype in the store is plain only if its source text is that of the built-in constructor of objects,
  which \<open>object_ctor\<close> tells. An object without a prototype in the store has the built-in one or none.
\<close>

definition isPlainObject :: "(jsval \<Rightarrow> bool) \<Rightarrow> heap \<Rightarrow> jsval \<Rightarrow> bool" where
  "isPlainObject object_ctor h value =
     (isObjectLike value \<and> objectToString value = Some ObjectTag \<and>
      (case get_proto h value of
         None \<Rightarrow> True
       | Some p \<Rightarrow>
           (case (if p < length h then own_prop (h ! p) (PStr ''constructor'') else None) of
              None \<Rightarrow> False
            | Some Ctor \<Rightarrow> js_typeof Ctor = TFunction \<and> self_instance h (Some Ctor) \<and> object_ctor Ctor)))"

definition isElement :: "(jsval \<Rightarrow> bool) \<Rightarrow> heap \<Rightarrow> jsval \<Rightarrow> bool" where
  "isElement object_ctor h value =
     (truthy value \<and> strict_eq (get_prop h value (PStr ''nodeType'')) (Num (Fin 1)) \<and> isObjectLike value \<and>
      \<not> isPlainObject object_ctor h value)"

definition isArrayLikeObject_js :: "heap \<Rightarrow> jsval \<Rightarrow> bool" where
  "isArrayLikeObject_js h value = (isObjectLike value \<and> isArrayLike h value)"

text \<open>The sizes of maps and sets are given.\<close>

definition isEmpty :: "(jsval \<Rightarrow> bool) option \<Rightarrow> (jsval \<Rightarrow> nat) \<Rightarrow> heap \<Rightarrow> jsval \<Rightarrow> bool" where
  "isEmpty nativeTest size_of h value =
     (if isArrayLike h value \<and>
         (isArray value \<or> isString value \<or> isFunction (get_prop h value (PStr ''splice'')) \<or> isArguments h value \<or> isBuffer nativeTest value)
      then \<not> truthy (get_prop h value length_key)
      else if isObjectLike value \<and> (getTag value = MapTag \<or> getTag value = SetTag) then size_of value = 0
      else \<not> list_ex (has_own h value) (baseKeysIn h value))"

text \<open>Native functions are told by their source text, which is given; core-js marks functions that it hides.\<close>

definition baseIsNative :: "(jsval \<Rightarrow> bool) \<Rightarrow> (jsval \<Rightarrow> bool) \<Rightarrow> jsval \<Rightarrow> bool" where
  "baseIsNative isMasked native_source value = (isObject value \<and> \<not> isMasked value \<and> native_source value)"

definition isNative :: "bool \<Rightarrow> (jsval \<Rightarrow> bool) \<Rightarrow> (jsval \<Rightarrow> bool) \<Rightarrow> jsval \<Rightarrow> string + bool" where
  "isNative coreJsData isMasked native_source value =
     (if coreJsData \<and> isFunction value
      then Inl ''This method is not supported with core-js. Try https://github.com/es-shims.''
      else Inr (baseIsNative isMasked native_source value))"

section \<open>Conversions\<close>

definition toPlainObject :: "heap \<Rightarrow> jsval \<Rightarrow> jsval \<times> heap" where
  "toPlainObject h value = copyObject h value (keysIn h value) Undefined None"

definition at_js :: "heap \<Rightarrow> jsval \<Rightarrow> path list \<Rightarrow> jsval list" where
  "at_js h object paths = baseAt h object paths"

definition invoke :: "heap \<Rightarrow> (jsval \<Rightarrow> jsval \<Rightarrow> jsval list \<Rightarrow> jsval) \<Rightarrow> jsval \<Rightarrow> path \<Rightarrow> jsval list \<Rightarrow> jsval" where
  "invoke h call object p args = baseInvoke h call object p args"

definition getValue :: "heap \<Rightarrow> jsval \<Rightarrow> propkey \<Rightarrow> jsval" where
  "getValue h object key = (if isNil object then Undefined else get_prop h object key)"

definition getNative :: "(jsval \<Rightarrow> bool) \<Rightarrow> (jsval \<Rightarrow> bool) \<Rightarrow> heap \<Rightarrow> jsval \<Rightarrow> propkey \<Rightarrow> jsval" where
  "getNative isMasked native_source h object key =
     (let value = getValue h object key in if baseIsNative isMasked native_source value then value else Undefined)"

definition conforms ::
  "nat \<Rightarrow> clone_host \<Rightarrow> (jsval \<Rightarrow> jsval \<Rightarrow> bool) \<Rightarrow> heap \<Rightarrow> jsval \<Rightarrow> ((heap \<Rightarrow> jsval \<Rightarrow> bool) \<times> heap) option" where
  "conforms n cenv call h source =
     map_option (\<lambda>(copy, h1, stack). (\<lambda>h2. baseConforms h2 call copy, h1)) (baseClone n cenv True False None h source None stackClear)"

end
