(* ===== verification/JsMerge.thy ===== *)
theory JsMerge
  imports JsTests
begin

text \<open>
  Deep merging in lodash.js: \<open>baseMerge\<close> and \<open>baseMergeDeep\<close> with their stack, \<open>merge\<close>, \<open>mergeWith\<close> and
  \<open>defaultsDeep\<close>. The recursion is bounded by fuel; a merge that returns is \<open>Some\<close>. Merging writes to objects that
  the target inherits, as is shown.
\<close>

section \<open>Merging\<close>

text \<open>
  The host: what copies need, which constructors are the built-in one of objects, and the fuel of copies. Keys are
  numbers below an array and names below other objects.
\<close>

record merge_host =
  copies :: clone_host
  object_ctor :: "jsval \<Rightarrow> bool"
  copy_fuel :: nat

datatype merge_key = NumK nat | NameK propkey

fun key_name :: "merge_key \<Rightarrow> propkey" where
  "key_name (NumK i) = index_key i"
| "key_name (NameK k) = k"

fun numeric :: "merge_key \<Rightarrow> bool" where
  "numeric (NumK i) = True"
| "numeric (NameK k) = False"

definition assignMergeValue :: "heap \<Rightarrow> jsval \<Rightarrow> merge_key \<Rightarrow> jsval \<Rightarrow> heap" where
  "assignMergeValue h object key value =
     (if (value \<noteq> Undefined \<and> \<not> eq (get_prop h object (key_name key)) value) \<or>
         (numeric key \<and> value = Undefined \<and> \<not> has_prop h object (key_name key))
      then put_prop h object (key_name key) value else h)"

text \<open>A customizer sees the two values, the key, the two objects and the stack, and may change the store.\<close>

type_synonym merge_customizer =
  "heap \<Rightarrow> Stack \<Rightarrow> jsval \<Rightarrow> jsval \<Rightarrow> propkey \<Rightarrow> jsval \<Rightarrow> jsval \<Rightarrow> (jsval \<times> heap \<times> Stack) option"

definition customized ::
  "merge_customizer option \<Rightarrow> heap \<Rightarrow> Stack \<Rightarrow> jsval \<Rightarrow> jsval \<Rightarrow> propkey \<Rightarrow> jsval \<Rightarrow> jsval \<Rightarrow> (jsval \<times> heap \<times> Stack) option" where
  "customized customizer h stack objValue srcValue key object source =
     (case customizer of None \<Rightarrow> Some (Undefined, h, stack) | Some f \<Rightarrow> f h stack objValue srcValue key object source)"

definition copied :: "merge_host \<Rightarrow> heap \<Rightarrow> jsval \<Rightarrow> (jsval \<times> heap) option" where
  "copied host h value = clone_result (baseClone (copy_fuel host) (copies host) True False None h value None stackClear)"

text \<open>What is assigned for a source value that is an object, and whether the source value is merged into it.\<close>

definition merge_target :: "merge_host \<Rightarrow> nat \<Rightarrow> heap \<Rightarrow> jsval \<Rightarrow> jsval \<Rightarrow> (bool \<times> jsval \<times> heap) option" where
  "merge_target host srcIndex h objValue srcValue =
     (if isArray srcValue \<or> isTypedArray h srcValue
      then (if isArray objValue then Some (True, objValue, h)
            else if isArrayLikeObject_js h objValue
            then (case new_array h (map (\<lambda>i. get_prop h objValue (index_key i)) [0..<array_length h objValue]) of
                    (v, h1) \<Rightarrow> Some (True, v, h1))
            else map_option (\<lambda>(v, h1). (False, v, h1)) (copied host h srcValue))
      else if isPlainObject (object_ctor host) h srcValue \<or> isArguments h srcValue
      then (if isArguments h objValue then (case toPlainObject h objValue of (v, h1) \<Rightarrow> Some (True, v, h1))
            else if \<not> isObject objValue \<or> (srcIndex \<noteq> 0 \<and> isFunction objValue)
            then map_option (\<lambda>(v, h1). (False, v, h1)) (copied host h srcValue)
            else Some (True, objValue, h))
      else Some (False, srcValue, h))"

type_synonym merge_fun = "jsval \<Rightarrow> jsval \<Rightarrow> heap \<Rightarrow> Stack \<Rightarrow> (heap \<times> Stack) option"

definition baseMergeDeep ::
  "merge_host \<Rightarrow> merge_fun \<Rightarrow> merge_customizer option \<Rightarrow> nat \<Rightarrow> jsval \<Rightarrow> jsval \<Rightarrow> merge_key \<Rightarrow> heap \<Rightarrow> Stack \<Rightarrow> (heap \<times> Stack) option" where
  "baseMergeDeep host mergeFunc customizer srcIndex object source key h stack =
     (let objValue = get_prop h object (key_name key);
          srcValue = get_prop h source (key_name key);
          stacked = stackGet (caches (copies host)) stack srcValue
      in if truthy stacked then Some (assignMergeValue h object key stacked, stack)
         else (case customized customizer h stack objValue srcValue (key_name key) object source of
                 None \<Rightarrow> None
               | Some (given, h1, stack1) \<Rightarrow>
                   if given \<noteq> Undefined then Some (assignMergeValue h1 object key given, stack1)
                   else (case merge_target host srcIndex h1 objValue srcValue of
                           None \<Rightarrow> None
                         | Some (isCommon, newValue, h2) \<Rightarrow>
                             if isCommon
                             then (case mergeFunc newValue srcValue h2 (stackSet (caches (copies host)) stack1 srcValue newValue) of
                                     None \<Rightarrow> None
                                   | Some (h3, stack3) \<Rightarrow>
                                       Some (assignMergeValue h3 object key newValue, snd (stackDelete (caches (copies host)) stack3 srcValue)))
                             else Some (assignMergeValue h2 object key newValue, stack1))))"

text \<open>One turn of the loop over the source.\<close>

definition merge_step ::
  "merge_host \<Rightarrow> merge_fun \<Rightarrow> merge_customizer option \<Rightarrow> nat \<Rightarrow> jsval \<Rightarrow> jsval \<Rightarrow> merge_key \<Rightarrow> heap \<Rightarrow> Stack \<Rightarrow> (heap \<times> Stack) option" where
  "merge_step host mergeFunc customizer srcIndex object source key h stack =
     (let srcValue = get_prop h source (key_name key)
      in if isObject srcValue then baseMergeDeep host mergeFunc customizer srcIndex object source key h stack
         else (case customized customizer h stack (get_prop h object (key_name key)) srcValue (key_name key) object source of
                 None \<Rightarrow> None
               | Some (newValue, h1, stack1) \<Rightarrow>
                   Some (assignMergeValue h1 object key (if newValue = Undefined then srcValue else newValue), stack1)))"

fun merge_loop :: "(merge_key \<Rightarrow> heap \<Rightarrow> Stack \<Rightarrow> (heap \<times> Stack) option) \<Rightarrow> merge_key list \<Rightarrow> heap \<Rightarrow> Stack \<Rightarrow> (heap \<times> Stack) option" where
  "merge_loop step [] h stack = Some (h, stack)"
| "merge_loop step (key # ks) h stack =
     (case step key h stack of None \<Rightarrow> None | Some (h1, stack1) \<Rightarrow> merge_loop step ks h1 stack1)"

definition merge_keys :: "heap \<Rightarrow> jsval \<Rightarrow> merge_key list" where
  "merge_keys h source =
     (if isArray source \<or> isTypedArray h source then map NumK [0..<array_length h source] else map NameK (keysIn h source))"

fun baseMerge :: "nat \<Rightarrow> merge_host \<Rightarrow> nat \<Rightarrow> merge_customizer option \<Rightarrow> merge_fun" where
  "baseMerge 0 host srcIndex customizer object source h stack = None"
| "baseMerge (Suc n) host srcIndex customizer object source h stack =
     (if strict_eq object source then Some (h, stack)
      else merge_loop (merge_step host (baseMerge n host srcIndex customizer) customizer srcIndex object source) (merge_keys h source) h stack)"

text \<open>The customizer of \<open>defaultsDeep\<close>.\<close>

fun mergeDefaults :: "nat \<Rightarrow> merge_host \<Rightarrow> merge_customizer" where
  "mergeDefaults 0 host h stack objValue srcValue key object source = None"
| "mergeDefaults (Suc n) host h stack objValue srcValue key object source =
     (if isObject objValue \<and> isObject srcValue
      then (case baseMerge (Suc n) host 0 (Some (mergeDefaults n host)) objValue srcValue h
                   (stackSet (caches (copies host)) stack srcValue objValue) of
              None \<Rightarrow> None
            | Some (h1, stack1) \<Rightarrow> Some (objValue, h1, snd (stackDelete (caches (copies host)) stack1 srcValue)))
      else Some (objValue, h, stack))"

text \<open>The sources one after the other, each with its index and a stack of its own.\<close>

fun merge_sources :: "nat \<Rightarrow> merge_host \<Rightarrow> merge_customizer option \<Rightarrow> jsval \<Rightarrow> (nat \<times> jsval) list \<Rightarrow> heap \<Rightarrow> heap option" where
  "merge_sources n host customizer object [] h = Some h"
| "merge_sources n host customizer object ((i, source) # ss) h =
     (if truthy source
      then (case baseMerge n host i customizer object source h stackClear of
              None \<Rightarrow> None
            | Some (h1, stack) \<Rightarrow> merge_sources n host customizer object ss h1)
      else merge_sources n host customizer object ss h)"

text \<open>\<open>createAssigner\<close> around \<open>baseMerge\<close>, without the call as an iteratee.\<close>

definition mergeWith ::
  "nat \<Rightarrow> merge_host \<Rightarrow> heap \<Rightarrow> jsval \<Rightarrow> jsval list \<Rightarrow> merge_customizer option \<Rightarrow> (jsval \<times> heap) option" where
  "mergeWith n host h object sources customizer =
     (let (target, h1) = (if isNil object then new_object h else (object, h))
      in map_option (\<lambda>h2. (target, h2)) (merge_sources n host customizer target (enumerate 0 sources) h1))"

definition merge_js :: "nat \<Rightarrow> merge_host \<Rightarrow> heap \<Rightarrow> jsval \<Rightarrow> jsval list \<Rightarrow> (jsval \<times> heap) option" where
  "merge_js n host h object sources = mergeWith n host h object sources None"

definition defaultsDeep :: "nat \<Rightarrow> merge_host \<Rightarrow> heap \<Rightarrow> jsval \<Rightarrow> jsval list \<Rightarrow> (jsval \<times> heap) option" where
  "defaultsDeep n host h object sources = mergeWith n host h object (sources @ [Undefined]) (Some (mergeDefaults n host))"

section \<open>Lemmas\<close>

lemma keysIn_plain:
  assumes "plain (h ! a)" "a < length h"
  shows "keysIn h (Obj ObjectTag a) = string_keys (h ! a)"
proof -
  have n: "map_of (node_props (h ! a)) length_key = None" "map_of (node_props (h ! a)) (PStr ''constructor'') = None"
    using assms(1) by (cases "h ! a" rule: plain.cases; simp)+
  have "get_prop h (Obj ObjectTag a) length_key = Undefined" using object_cell(2) [OF assms] n(1) by simp
  then have "indexKeys h (Obj ObjectTag a) = None" by (simp add: indexKeys_def)
  moreover have "PStr ''constructor'' \<notin> set (string_keys (h ! a))" using n(2) by (auto simp: string_keys_def map_of_eq_None_iff)
  ultimately show ?thesis using plain_keys(2) [OF assms] plain_kind(2) [OF assms] by (auto simp: keysIn_def filter_id_conv)
qed

lemma merge_keys_plain: "plain (h ! a) \<Longrightarrow> a < length h \<Longrightarrow> merge_keys h (Obj ObjectTag a) = map NameK (string_keys (h ! a))"
  by (simp add: merge_keys_def isArray_def isTypedArray_def keysIn_plain)

section \<open>Properties\<close>

text \<open>
  (C17) A merge into an object changes the objects that the target inherits: where the target has no value of its own, the source is merged into the
  value of its prototype. Other objects with the same prototype see the change, and the target itself gets no property.
\<close>

theorem merge_writes_prototype:
  assumes "is_string_key k" "is_string_key x" "k \<notin> {length_key, PStr ''constructor''}" "x \<notin> {length_key, PStr ''constructor''}"
    "\<not> isObject v" "v \<noteq> Undefined"
  defines "h \<equiv> [ObjN [] (Some 1), ObjN [(k, Obj ObjectTag 2)] None, ObjN [] None,
    ObjN [(k, Obj ObjectTag 4)] None, ObjN [(x, v)] None, ObjN [] (Some 1)]"
  shows "\<exists>h1. merge_js 2 host h (Obj ObjectTag 0) [Obj ObjectTag 3] = Some (Obj ObjectTag 0, h1) \<and> h1 ! 0 = ObjN [] (Some 1) \<and>
    get_prop h (get_prop h (Obj ObjectTag 5) k) x = Undefined \<and> get_prop h1 (get_prop h1 (Obj ObjectTag 5) k) x = v"
proof -
  let ?h1 = "h[2 := ObjN [(x, v)] None]" and ?o = "Obj ObjectTag 0" and ?in = "Obj ObjectTag 2"
  have plain: "plain (h ! 3)" "plain (h ! 4)" "h ! 3 = ObjN [(k, Obj ObjectTag 4)] None" "h ! 4 = ObjN [(x, v)] None"
    using assms by (auto simp: h_def)
  have keys: "merge_keys h (Obj ObjectTag 3) = [NameK k]" "merge_keys h (Obj ObjectTag 4) = [NameK x]"
    using merge_keys_plain [OF plain(1)] merge_keys_plain [OF plain(2)] plain(3,4) assms(1,2) by (simp_all add: h_def string_keys_def)
  have get: "get_prop h ?o k = ?in" "get_prop h (Obj ObjectTag 3) k = Obj ObjectTag 4" "get_prop h (Obj ObjectTag 4) x = v" "get_prop h ?in x = Undefined"
    "get_prop ?h1 ?o k = ?in" "get_prop ?h1 (Obj ObjectTag 5) k = ?in" "get_prop ?h1 ?in x = v" "get_prop h (Obj ObjectTag 5) k = ?in"
    by (simp_all add: h_def get_prop_def numeral_eq_Suc)
  have "\<not> eq Undefined v" using assms(6) by (cases v) (auto simp: eq_iff_norm)
  then have "merge_step host F None si ?in (Obj ObjectTag 4) (NameK x) h st = Some (?h1, st)" for F si st
    using get(3,4) assms(5,6) by (simp add: merge_step_def customized_def assignMergeValue_def) (simp add: h_def)
  then have inner: "baseMerge (Suc 0) host si None ?in (Obj ObjectTag 4) h st = Some (?h1, st)" for si st by (simp add: keys)
  have "merge_target host si h ?in (Obj ObjectTag 4) = Some (True, ?in, h)" for si
    by (simp add: merge_target_def isArray_def isTypedArray_def isPlainObject_def isArguments_def isObjectLike_def isObject_def isFunction_def) (simp add: h_def)
  then have "merge_step host (baseMerge (Suc 0) host si None) None si ?o (Obj ObjectTag 3) (NameK k) h stackClear =
      Some (?h1, snd (stackDelete (caches (copies host)) (stackSet (caches (copies host)) stackClear (Obj ObjectTag 4) ?in) (Obj ObjectTag 4)))" for si
    using get inner by (simp add: merge_step_def baseMergeDeep_def customized_def assignMergeValue_def isObject_def stackGet_clear Let_def del: baseMerge.simps)
  then obtain st where "baseMerge (Suc (Suc 0)) host 0 None ?o (Obj ObjectTag 3) h stackClear = Some (?h1, st)"
    by (simp add: keys baseMerge.simps(2) [of "Suc 0"] del: baseMerge.simps)
  then have "merge_js (Suc (Suc 0)) host h ?o [Obj ObjectTag 3] = Some (?o, ?h1)"
    by (simp add: merge_js_def mergeWith_def isNil_def del: baseMerge.simps)
  then have "merge_js 2 host h ?o [Obj ObjectTag 3] = Some (?o, ?h1)" by (simp only: numeral_2_eq_2)
  then show ?thesis using get by (intro exI [of _ ?h1]) (simp add: h_def)
qed

theorem merge_writes_prototype_witness:
  "\<exists>h1. merge_js 2 \<lparr>copies = \<lparr>caches = \<lparr>nativeCreate = True, nativeMap = True, nativeSet = True\<rparr>, nativeIsBuffer = (\<lambda>v. False),
        bufferCopy = (\<lambda>h v d. (v, h)), slotCopy = (\<lambda>t h v d. (v, h))\<rparr>, object_ctor = (\<lambda>v. False), copy_fuel = 1\<rparr>
      [ObjN [] (Some 1), ObjN [(PStr ''style'', Obj ObjectTag 2)] None, ObjN [] None,
       ObjN [(PStr ''style'', Obj ObjectTag 4)] None, ObjN [(PStr ''size'', Num (Fin 2))] None, ObjN [] (Some 1)]
      (Obj ObjectTag 0) [Obj ObjectTag 3] = Some (Obj ObjectTag 0, h1) \<and>
    get_prop h1 (get_prop h1 (Obj ObjectTag 5) (PStr ''style'')) (PStr ''size'') = Num (Fin 2)"
  using merge_writes_prototype [of "PStr ''style''" "PStr ''size''" "Num (Fin 2)"] by (auto simp: length_key_def isObject_def)

end
