(* ===== verification/JsCopies.thy ===== *)
theory JsCopies
  imports JsEqual
begin

text \<open>
  Copies and comparison in lodash.js together: the copy of a value that unfolds to a finite tree unfolds to the same tree.
\<close>

lemma leads_to_trans:
  assumes "leads_to h w b" "a < length h" "w \<in> set (node_vals (h ! a))" "cloneableTags t"
  shows "leads_to h (Obj t a) b"
  using assms(1,3)
proof (induction rule: leads_to.induct)
  case (here u c)
  then show ?case using assms(2,4) leads_to.here leads_to.below by metis
next
  case (below v c u d)
  then show ?case using leads_to.below by metis
qed

lemma opaque_shared: "opaque_tag t \<Longrightarrow> \<not> cloneableTags t"
  by (cases t) auto

lemma node_tree_cong:
  assumes "\<And>x. x \<in> set (node_vals n) \<Longrightarrow> f x = g x"
  shows "node_tree f n = node_tree g n"
proof (cases n)
  case (ObjN ps proto)
  have "map_option f (map_of ps k) = map_option g (map_of ps k)" for k
    using assms ObjN by (cases "map_of ps k") (force dest: map_of_SomeD)+
  then show ?thesis using ObjN by (simp add: fun_eq_iff)
qed (use assms in auto)

text \<open>A store that has been extended unfolds values as before.\<close>

lemma tree_prefix:
  assumes "take (length h) h1 = h"
  shows "tree_ok n h v \<Longrightarrow> tree_ok n h1 v \<and> tree_of n h1 v = tree_of n h v"
proof (induction n arbitrary: v)
  case (Suc n)
  show ?case
  proof (cases v)
    case (Obj t a)
    show ?thesis
    proof (cases "opaque_tag t")
      case False
      then have a: "a < length h" "list_all (tree_ok n h) (node_vals (h ! a))" "tree_cell t (h ! a)" using Suc.prems Obj by auto
      have "h1 ! a = h ! a" "a < length h1" using assms a(1) by (metis nth_take, metis length_take min_less_iff_conj)
      moreover have "tree_ok n h1 x \<and> tree_of n h1 x = tree_of n h x" if "x \<in> set (node_vals (h ! a))" for x
        using that a(2) Suc.IH by (auto simp: list_all_iff)
      moreover from this have "node_tree (tree_of n h1) (h ! a) = node_tree (tree_of n h) (h ! a)" by - (rule node_tree_cong, simp)
      ultimately show ?thesis using Obj False a(3) by (auto simp: list_all_iff)
    qed (simp add: Obj)
  qed simp_all
qed simp

text \<open>The copy of a cell unfolds as the cell if the copies of what it holds do.\<close>

lemma map_of_partition:
  assumes "distinct (map fst ps)"
  shows "map_of (filter P ps @ filter (\<lambda>p. \<not> P p) ps) = map_of ps"
proof -
  have "distinct (map fst (filter P ps @ filter (\<lambda>p. \<not> P p) ps))" using assms by (auto simp: distinct_map inj_on_def)
  moreover have "set (filter P ps @ filter (\<lambda>p. \<not> P p) ps) = set ps" by auto
  ultimately show ?thesis using assms map_of_inject_set by blast
qed

lemma copied_node_tree:
  assumes "tree_cell t n" "\<And>x. x \<in> set (node_vals n) \<Longrightarrow> g (copy_val f x) = k x"
  shows "tree_cell t (copy_node f n)" "node_tree g (copy_node f n) = node_tree k n"
    "set (node_vals (copy_node f n)) = copy_val f ` set (node_vals n)"
proof -
  have "tree_cell t (copy_node f n) \<and> node_tree g (copy_node f n) = node_tree k n \<and>
    set (node_vals (copy_node f n)) = copy_val f ` set (node_vals n)"
  proof (cases n)
    case (ArrN es ps)
    then show ?thesis using assms by auto
  next
    case (ObjN ps proto)
    let ?qs = "filter (is_string_key \<circ> fst) ps @ filter (\<lambda>p. \<not> (is_string_key \<circ> fst) p) ps"
    have d: "distinct (map fst ps)" using assms(1) ObjN by (auto elim: plain.elims)
    have "map_of (map (\<lambda>(k, v). (k, copy_val f v)) ?qs) = map_option (copy_val f) \<circ> map_of ps"
      using map_of_map [of "copy_val f" ?qs] map_of_partition [OF d, of "is_string_key \<circ> fst"] by simp
    then have m: "map_of (node_props (copy_node f n)) = map_option (copy_val f) \<circ> map_of ps" using ObjN by simp
    have "distinct (map fst ?qs)" using d by (auto simp: distinct_map intro: inj_on_subset)
    then have "distinct (map fst (node_props (copy_node f n)))" using ObjN by (simp add: comp_def case_prod_beta)
    moreover have "map_option g (map_option (copy_val f) (map_of ps j)) = map_option k (map_of ps j)" for j
      using assms(2) ObjN by (cases "map_of ps j") (force dest: map_of_SomeD)+
    moreover have "set (node_vals (copy_node f n)) = copy_val f ` set (node_vals n)" using ObjN by (force simp: image_iff)
    ultimately show ?thesis using m ObjN assms(1) by (cases proto) (simp_all add: fun_eq_iff)
  qed
  then show "tree_cell t (copy_node f n)" "node_tree g (copy_node f n) = node_tree k n"
    "set (node_vals (copy_node f n)) = copy_val f ` set (node_vals n)" by auto
qed

lemma tree_copy:
  "tree_ok n h v \<Longrightarrow> (\<And>a. leads_to h v a \<Longrightarrow> f a < length h1 \<and> h1 ! f a = copy_node f (h ! a)) \<Longrightarrow>
   tree_ok n h1 (copy_val f v) \<and> tree_of n h1 (copy_val f v) = tree_of n h v"
proof (induction n arbitrary: v)
  case (Suc n)
  show ?case
  proof (cases v)
    case (Obj t a)
    show ?thesis
    proof (cases "opaque_tag t")
      case False
      then have a: "a < length h" "list_all (tree_ok n h) (node_vals (h ! a))" "tree_cell t (h ! a)" using Suc.prems(1) Obj by auto
      then have t: "cloneableTags t" by (cases "h ! a") auto
      have c: "f a < length h1" "h1 ! f a = copy_node f (h ! a)" using Suc.prems(2) Obj t here by auto
      have sub: "tree_ok n h1 (copy_val f x) \<and> tree_of n h1 (copy_val f x) = tree_of n h x" if "x \<in> set (node_vals (h ! a))" for x
        using that a(2) Suc.prems(2) Obj leads_to_trans [OF _ a(1) that t] by (intro Suc.IH) (auto simp: list_all_iff)
      note n = copied_node_tree [OF a(3), of "tree_of n h1" f "tree_of n h"]
      show ?thesis using Obj False t c sub n by (auto simp: list_all_iff)
    qed (simp add: Obj opaque_shared)
  qed simp_all
qed simp

end
