(* ===== verification/JsApart.thy ===== *)
theory JsApart
  imports JsMerge JsCopies
begin

text \<open>
  Values of the store that unfold to trees in which no cell is met twice, what a change of one value does to them, and their copies,
  which are such trees on new cells.
\<close>

section \<open>Separate trees\<close>

text \<open>
  Cells that merging and copying go through without named properties on arrays and without symbols, the cells below a value,
  and values that unfold to trees in which no cell is met twice.
\<close>

fun tidy :: "node \<Rightarrow> bool" where
  "tidy (ArrN es ps) = (ps = [])"
| "tidy (ObjN ps proto) = list_all (is_string_key \<circ> fst) ps"

fun cells :: "nat \<Rightarrow> heap \<Rightarrow> jsval \<Rightarrow> nat set" where
  "cells (Suc n) h (Obj t a) = (if opaque_tag t then {} else insert a (\<Union>x\<in>set (node_vals (h ! a)). cells n h x))"
| "cells n h v = {}"

fun apart :: "nat \<Rightarrow> heap \<Rightarrow> jsval \<Rightarrow> bool" where
  "apart 0 h v = False"
| "apart (Suc n) h (Obj t a) =
     (opaque_tag t \<or>
      (a < length h \<and> tree_cell t (h ! a) \<and> tidy (h ! a) \<and>
       (\<forall>i<length (node_vals (h ! a)). apart n h (node_vals (h ! a) ! i) \<and> a \<notin> cells n h (node_vals (h ! a) ! i)) \<and>
       (\<forall>i<length (node_vals (h ! a)). \<forall>j<length (node_vals (h ! a)).
          i \<noteq> j \<longrightarrow> cells n h (node_vals (h ! a) ! i) \<inter> cells n h (node_vals (h ! a) ! j) = {})))"
| "apart (Suc n) h v = True"

text \<open>The place of a key in a cell, and keys that a cell can take.\<close>

fun key_pos :: "node \<Rightarrow> merge_key \<Rightarrow> nat" where
  "key_pos (ObjN ps proto) key = length (takeWhile (\<lambda>p. fst p \<noteq> key_name key) ps)"
| "key_pos (ArrN es ps) (NumK i) = i"
| "key_pos (ArrN es ps) (NameK k) = length es"

fun takes_key :: "node \<Rightarrow> merge_key \<Rightarrow> bool" where
  "takes_key (ArrN es ps) (NumK i) = (i \<le> length es \<and> int i < MAX_ARRAY_LENGTH)"
| "takes_key (ObjN ps proto) (NameK k) =
     (is_string_key k \<and> k \<noteq> length_key \<and> k \<noteq> PStr ''constructor'' \<and> k \<noteq> PStr ''__wrapped__'')"
| "takes_key n key = False"

fun get_tree :: "merge_key \<Rightarrow> tree \<Rightarrow> tree option" where
  "get_tree (NameK k) (ObjT g) = g k"
| "get_tree (NumK i) (ArrT ts) = (if i < length ts then Some (ts ! i) else None)"
| "get_tree key t = None"

fun tree_or_undef :: "tree option \<Rightarrow> tree" where
  "tree_or_undef None = LeafT Undefined"
| "tree_or_undef (Some t) = t"

fun put_tree :: "merge_key \<Rightarrow> tree option \<Rightarrow> tree \<Rightarrow> tree" where
  "put_tree (NameK k) x (ObjT g) = ObjT (g(k := x))"
| "put_tree (NumK i) x (ArrT ts) = ArrT (if i < length ts then ts[i := tree_or_undef x] else ts @ [tree_or_undef x])"
| "put_tree key x t = t"

definition set_val :: "jsval list \<Rightarrow> nat \<Rightarrow> jsval \<Rightarrow> jsval list" where
  "set_val vs i w = (if i < length vs then vs[i := w] else vs @ [w])"

section \<open>Lemmas on cells\<close>

lemma apart_children:
  assumes "apart (Suc n) h (Obj t a)" "\<not> opaque_tag t" "x \<in> set (node_vals (h ! a))"
  shows "apart n h x" "a \<notin> cells n h x" "cells n h x \<subseteq> cells (Suc n) h (Obj t a)"
proof -
  show "apart n h x" "a \<notin> cells n h x" using assms by (auto simp: in_set_conv_nth)
  show "cells n h x \<subseteq> cells (Suc n) h (Obj t a)" using assms by auto
qed

lemma apart_tree: "apart n h v \<Longrightarrow> tree_ok n h v"
proof (induction n arbitrary: v)
  case (Suc n)
  then show ?case by (cases v) (auto simp: list_all_length)
qed simp

lemma cells_bound: "apart n h v \<Longrightarrow> cells n h v \<subseteq> {..<length h}"
proof (induction n arbitrary: v)
  case (Suc n)
  show ?case
  proof (cases v)
    case (Obj t a)
    then show ?thesis using Suc.IH apart_children(1) [of n h t a] Suc.prems by (cases "opaque_tag t") fastforce+
  qed simp_all
qed simp

lemma apart_frame:
  "apart n h v \<Longrightarrow> (\<And>b. b \<in> cells n h v \<Longrightarrow> h1 ! b = h ! b) \<Longrightarrow> length h \<le> length h1 \<Longrightarrow>
   apart n h1 v \<and> cells n h1 v = cells n h v \<and> tree_of n h1 v = tree_of n h v"
proof (induction n arbitrary: v)
  case (Suc n)
  show ?case
  proof (cases v)
    case (Obj t a)
    show ?thesis
    proof (cases "opaque_tag t")
      case False
      have a: "h1 ! a = h ! a" "a < length h1" using Suc.prems Obj False by auto
      have sub: "apart n h1 x \<and> cells n h1 x = cells n h x \<and> tree_of n h1 x = tree_of n h x" if "x \<in> set (node_vals (h ! a))" for x
        using Suc.IH [of x] apart_children [of n h t a x] Suc.prems Obj False that by auto
      then have "node_tree (tree_of n h1) (h ! a) = node_tree (tree_of n h) (h ! a)" by (intro node_tree_cong) simp
      moreover have "apart n h1 (node_vals (h ! a) ! i) \<and> cells n h1 (node_vals (h ! a) ! i) = cells n h (node_vals (h ! a) ! i)"
        if "i < length (node_vals (h ! a))" for i using sub that by simp
      ultimately show ?thesis using Obj False a Suc.prems(1) sub by simp
    qed (simp add: Obj)
  qed simp_all
qed simp

text \<open>One value of a cell replaced or added, in a store that keeps the cells below the other values.\<close>

lemma apart_replace:
  assumes o: "apart (Suc n) h (Obj t a)" "\<not> opaque_tag t" and h1: "length h \<le> length h1" "tree_cell t (h1 ! a)" "tidy (h1 ! a)"
    and vals: "node_vals (h1 ! a) = set_val (node_vals (h ! a)) i w" "i \<le> length (node_vals (h ! a))"
    and w: "apart n h1 w" "a \<notin> cells n h1 w"
    and keep: "\<And>j. j < length (node_vals (h ! a)) \<Longrightarrow> j \<noteq> i \<Longrightarrow> cells n h1 w \<inter> cells n h (node_vals (h ! a) ! j) = {}"
      "\<And>j b. j < length (node_vals (h ! a)) \<Longrightarrow> j \<noteq> i \<Longrightarrow> b \<in> cells n h (node_vals (h ! a) ! j) \<Longrightarrow> h1 ! b = h ! b"
  shows "apart (Suc n) h1 (Obj t a)" "cells (Suc n) h1 (Obj t a) \<subseteq> cells (Suc n) h (Obj t a) \<union> cells n h1 w"
    "\<And>j. j < length (node_vals (h ! a)) \<Longrightarrow> j \<noteq> i \<Longrightarrow> tree_of n h1 (node_vals (h ! a) ! j) = tree_of n h (node_vals (h ! a) ! j)"
proof -
  let ?vs = "node_vals (h ! a)" and ?ws = "node_vals (h1 ! a)"
  have old: "apart n h (?vs ! j)" "a \<notin> cells n h (?vs ! j)" if "j < length ?vs" for j
    using o that by auto
  have same: "apart n h1 (?vs ! j) \<and> cells n h1 (?vs ! j) = cells n h (?vs ! j) \<and> tree_of n h1 (?vs ! j) = tree_of n h (?vs ! j)"
    if "j < length ?vs" "j \<noteq> i" for j
    using apart_frame [OF old(1) [OF that(1)] keep(2) [OF that] h1(1)] by simp
  then show "\<And>j. j < length ?vs \<Longrightarrow> j \<noteq> i \<Longrightarrow> tree_of n h1 (?vs ! j) = tree_of n h (?vs ! j)" by simp
  have len: "length ?ws = max (length ?vs) (Suc i)" using vals by (auto simp: set_val_def)
  have at_i: "?ws ! i = w" using vals by (auto simp: set_val_def)
  have other: "j < length ?vs \<and> ?ws ! j = ?vs ! j" if "j < length ?ws" "j \<noteq> i" for j
    using that vals len by (auto simp: set_val_def nth_append nth_list_update split: if_splits)
  have each: "apart n h1 (?ws ! j) \<and> a \<notin> cells n h1 (?ws ! j)" if "j < length ?ws" for j
    using that other [of j] same [of j] old [of j] w at_i by (cases "j = i") auto
  have pair: "cells n h1 (?ws ! j) \<inter> cells n h1 (?ws ! k) = {}" if "j < length ?ws" "k < length ?ws" "j \<noteq> k" for j k
    using that other [of j] other [of k] same [of j] same [of k] keep(1) [of j] keep(1) [of k] at_i o
    by (cases "j = i"; cases "k = i") auto
  show "apart (Suc n) h1 (Obj t a)" using o h1 each pair by auto
  have "cells n h1 (?ws ! j) \<subseteq> cells (Suc n) h (Obj t a) \<union> cells n h1 w" if "j < length ?ws" for j
    using that other [of j] same [of j] at_i o(2) nth_mem [of j ?vs] by (cases "j = i") (auto simp del: nth_mem)
  then show "cells (Suc n) h1 (Obj t a) \<subseteq> cells (Suc n) h (Obj t a) \<union> cells n h1 w"
    using o(2) by (fastforce simp: in_set_conv_nth)
qed

text \<open>What a cell holds at a key, and what it holds after the key has been written.\<close>

lemma key_pos_obj:
  assumes "distinct (map fst ps)" "k \<in> fst ` set ps"
  defines "i \<equiv> key_pos (ObjN ps None) (NameK k)"
  shows "i < length ps" "fst (ps ! i) = k" "map_of ps k = Some (snd (ps ! i))"
proof -
  show i: "i < length ps" unfolding i_def using assms(2) by (induction ps) auto
  show fst: "fst (ps ! i) = k" using nth_length_takeWhile [of "\<lambda>p. fst p \<noteq> k" ps] i unfolding i_def by simp
  then show "map_of ps k = Some (snd (ps ! i))" using i assms(1) by (metis map_of_is_SomeI nth_mem prod.collapse)
qed

lemma key_pos_put: "k \<in> fst ` set ps \<Longrightarrow> assoc_put ps k w = ps[key_pos (ObjN ps None) (NameK k) := (k, w)]"
proof (induction ps)
  case (Cons p ps)
  then show ?case by (cases p) (simp, metis)
qed simp

lemma key_pos_new: "k \<notin> fst ` set ps \<Longrightarrow> key_pos (ObjN ps None) (NameK k) = length ps"
  by (induction ps) auto

lemma cell_cases:
  assumes "tree_cell t n" "tidy n"
  obtains (arr) es where "n = ArrN es []" "t = ArrayTag" "int (length es) \<le> MAX_ARRAY_LENGTH"
  | (obj) ps where "n = ObjN ps None" "t = ObjectTag" "distinct (map fst ps)" "list_all (is_string_key \<circ> fst) ps"
      "map_of ps length_key = None" "map_of ps (PStr ''constructor'') = None" "map_of ps (PStr ''__wrapped__'') = None"
proof (cases n)
  case (ObjN ps proto)
  then show ?thesis using assms obj by (cases proto) auto
qed (use assms arr in auto)

lemma takes_pos: "tree_cell t n \<Longrightarrow> tidy n \<Longrightarrow> takes_key n key \<Longrightarrow> key_pos n key \<le> length (node_vals n)"
  by (cases n; cases key) (auto intro: length_takeWhile_le)

lemma get_key:
  assumes "a < length h" "tree_cell t (h ! a)" "tidy (h ! a)" "takes_key (h ! a) key"
  defines "i \<equiv> key_pos (h ! a) key" and "vs \<equiv> node_vals (h ! a)"
  shows "get_prop h (Obj t a) (key_name key) = (if i < length vs then vs ! i else Undefined)"
    "has_prop h (Obj t a) (key_name key) \<Longrightarrow> i < length vs"
    "\<not> numeric key \<Longrightarrow> i < length vs \<Longrightarrow> has_prop h (Obj t a) (key_name key)"
    "get_tree key (node_tree f (h ! a)) = (if i < length vs then Some (f (vs ! i)) else None)"
proof -
  have flat: "node_proto (h ! a) = None" using assms(2) by (cases "h ! a") (auto elim: plain.elims)
  note get = get_flat [OF flat assms(1)] and look = lookup_flat [OF flat assms(1)]
  have "get_prop h (Obj t a) (key_name key) = (if i < length vs then vs ! i else Undefined) \<and>
    (has_prop h (Obj t a) (key_name key) \<longrightarrow> i < length vs) \<and>
    (\<not> numeric key \<longrightarrow> i < length vs \<longrightarrow> has_prop h (Obj t a) (key_name key)) \<and>
    get_tree key (node_tree f (h ! a)) = (if i < length vs then Some (f (vs ! i)) else None)"
    using assms(2,3)
  proof (cases rule: cell_cases)
    case (arr es)
    then obtain j where "key = NumK j" "int j < MAX_ARRAY_LENGTH" using assms(4) by (cases key) auto
    then show ?thesis using arr by (auto simp: get look i_def vs_def own_val_def has_prop_def)
  next
    case (obj ps)
    then obtain k where k: "key = NameK k" "is_string_key k" using assms(4) by (cases key) auto
    show ?thesis
    proof (cases "k \<in> fst ` set ps")
      case True
      then show ?thesis using obj k key_pos_obj [OF obj(3) True] by (auto simp: get look i_def vs_def own_val_def has_prop_def)
    next
      case False
      then have "map_of ps k = None" by (simp add: map_of_eq_None_iff)
      then show ?thesis using obj k key_pos_new [OF False] by (auto simp: get look i_def vs_def own_val_def has_prop_def)
    qed
  qed
  then show "get_prop h (Obj t a) (key_name key) = (if i < length vs then vs ! i else Undefined)"
    "has_prop h (Obj t a) (key_name key) \<Longrightarrow> i < length vs"
    "\<not> numeric key \<Longrightarrow> i < length vs \<Longrightarrow> has_prop h (Obj t a) (key_name key)"
    "get_tree key (node_tree f (h ! a)) = (if i < length vs then Some (f (vs ! i)) else None)" by auto
qed

lemma put_key:
  fixes w :: jsval
  assumes "tree_cell t n" "tidy n" "takes_key n key"
  defines "n1 \<equiv> put_own n (key_name key) w"
  shows "tree_cell t n1" "tidy n1" "node_vals n1 = set_val (node_vals n) (key_pos n key) w"
proof -
  have "tree_cell t n1 \<and> tidy n1 \<and> node_vals n1 = set_val (node_vals n) (key_pos n key) w"
    using assms(1,2)
  proof (cases rule: cell_cases)
    case (arr es)
    then obtain j where "key = NumK j" "int j < MAX_ARRAY_LENGTH" "j \<le> length es" using assms(3) by (cases key) auto
    then show ?thesis using arr by (auto simp: n1_def elem_put_def set_val_def map_update)
  next
    case (obj ps)
    then obtain k where k: "key = NameK k" "is_string_key k" "k \<noteq> length_key" "k \<noteq> PStr ''constructor''" "k \<noteq> PStr ''__wrapped__''"
      using assms(3) by (cases key) auto
    have "fst ` set (assoc_put ps k w) = insert k (fst ` set ps)" by (rule fst_assoc_put)
    show ?thesis
    proof (cases "k \<in> fst ` set ps")
      case True
      note i = key_pos_obj [OF obj(3) True] key_pos_put [OF True, of w]
      have "map fst (ps[key_pos (ObjN ps None) (NameK k) := (k, w)]) = map fst ps" using i by (simp add: map_update list_update_same_conv)
      then show ?thesis using obj k i
        by (auto simp: n1_def set_val_def map_update map_of_eq_None_iff list_all_iff image_iff dest!: set_update_subset_insert [THEN subsetD])
    next
      case False
      then show ?thesis using obj k key_pos_new [OF False] by (auto simp: n1_def set_val_def assoc_put_append map_of_eq_None_iff)
    qed
  qed
  then show "tree_cell t n1" "tidy n1" "node_vals n1 = set_val (node_vals n) (key_pos n key) w" by auto
qed

lemma put_same:
  assumes "tree_cell t n" "tidy n" "takes_key n key" "key_pos n key < length (node_vals n)" "node_vals n ! key_pos n key \<noteq> Undefined"
  shows "put_own n (key_name key) (node_vals n ! key_pos n key) = n"
  using assms(1,2)
proof (cases rule: cell_cases)
  case (arr es)
  then obtain j where j: "key = NumK j" "int j < MAX_ARRAY_LENGTH" using assms(3) by (cases key) auto
  then obtain v where "es ! j = Some v" using assms(4,5) arr by (cases "es ! j") auto
  then show ?thesis using arr j assms(4) by (simp add: elem_put_def list_update_same_conv)
next
  case (obj ps)
  then obtain k where k: "key = NameK k" using assms(3) by (cases key) auto
  have mem: "k \<in> fst ` set ps" using assms(4) obj k key_pos_new [of k ps] by force
  have "ps[key_pos (ObjN ps None) (NameK k) := (k, snd (ps ! key_pos (ObjN ps None) (NameK k)))] = ps"
    using key_pos_obj [OF obj(3) mem] by (metis list_update_id prod.collapse)
  then show ?thesis using obj k key_pos_obj(1) [OF obj(3) mem] key_pos_put [OF mem] by simp
qed

lemma put_node_tree:
  fixes w :: jsval
  assumes "tree_cell t n" "tidy n" "takes_key n key"
    and f: "\<And>j. j < length (node_vals n) \<Longrightarrow> j \<noteq> key_pos n key \<Longrightarrow> f1 (node_vals n ! j) = f (node_vals n ! j)"
  shows "node_tree f1 (put_own n (key_name key) w) = put_tree key (Some (f1 w)) (node_tree f n)"
  using assms(1,2)
proof (cases rule: cell_cases)
  case (arr es)
  then obtain i where i: "key = NumK i" "int i < MAX_ARRAY_LENGTH" "i \<le> length es" using assms(3) by (cases key) auto
  have e: "f1 (elem_val (es ! j)) = f (elem_val (es ! j))" if "j < length es" "j \<noteq> i" for j using f [of j] that arr i by simp
  show ?thesis using arr i e by (auto simp: elem_put_def nth_list_update in_set_conv_nth intro!: nth_equalityI)
next
  case (obj ps)
  then obtain k where k: "key = NameK k" "is_string_key k" using assms(3) by (cases key) auto
  have "map_option f1 (map_of ps k1) = map_option f (map_of ps k1)" if "k1 \<noteq> k" for k1
  proof (cases "k1 \<in> fst ` set ps")
    case True
    note i = key_pos_obj [OF obj(3) True]
    have "key_pos (ObjN ps None) (NameK k1) \<noteq> key_pos (ObjN ps None) (NameK k)"
    proof (cases "k \<in> fst ` set ps")
      case True
      then show ?thesis using key_pos_obj(2) [OF obj(3) True] i(2) that by metis
    qed (use i(1) key_pos_new in \<open>simp del: key_pos.simps\<close>)
    then show ?thesis using f [of "key_pos (ObjN ps None) (NameK k1)"] i obj(1) k(1) by simp
  next
    case False
    then have "map_of ps k1 = None" by (simp add: map_of_eq_None_iff)
    then show ?thesis by simp
  qed
  moreover have "map_of (assoc_put ps k w) = (map_of ps)(k \<mapsto> w)" by (rule ext) simp
  ultimately show ?thesis using obj k by (auto simp: fun_eq_iff)
qed

section \<open>Changes of one value\<close>

text \<open>A value of another place written at a key.\<close>

lemma put_child:
  assumes o: "apart (Suc n) h (Obj t a)" "\<not> opaque_tag t" "takes_key (h ! a) key"
    and w: "apart n h w" "cells n h w \<inter> cells (Suc n) h (Obj t a) = {}"
  defines "h1 \<equiv> h[a := put_own (h ! a) (key_name key) w]"
  shows "apart (Suc n) h1 (Obj t a)" "cells (Suc n) h1 (Obj t a) \<subseteq> cells (Suc n) h (Obj t a) \<union> cells n h w"
    "tree_of (Suc n) h1 (Obj t a) = put_tree key (Some (tree_of n h w)) (tree_of (Suc n) h (Obj t a))"
proof -
  have a: "a < length h" "tree_cell t (h ! a)" "tidy (h ! a)" using o by auto
  note p = put_key [OF a(2,3) o(3), of w]
  have na: "a \<notin> cells n h w" using w(2) o(2) by auto
  have off: "h1 ! b = h ! b" if "b \<noteq> a" for b using that by (simp add: h1_def)
  then have "\<And>b. b \<in> cells n h w \<Longrightarrow> h1 ! b = h ! b" using na by metis
  then have w1: "apart n h1 w" "cells n h1 w = cells n h w" "tree_of n h1 w = tree_of n h w"
    using apart_frame [OF w(1), of h1] by (simp_all add: h1_def)
  have h1a: "h1 ! a = put_own (h ! a) (key_name key) w" using a by (simp add: h1_def)
  have keep: "cells n h1 w \<inter> cells n h (node_vals (h ! a) ! j) = {}" "b \<in> cells n h (node_vals (h ! a) ! j) \<Longrightarrow> h1 ! b = h ! b"
    if "j < length (node_vals (h ! a))" for j b
    using w(2) w1(2) apart_children [OF o(1,2) nth_mem [OF that]] off by (blast, metis)
  note r = apart_replace [OF o(1,2), of h1 "key_pos (h ! a) key" w]
  have pre: "length h \<le> length h1" "tree_cell t (h1 ! a)" "tidy (h1 ! a)" "node_vals (h1 ! a) = set_val (node_vals (h ! a)) (key_pos (h ! a) key) w"
    "key_pos (h ! a) key \<le> length (node_vals (h ! a))" "a \<notin> cells n h1 w"
    using p h1a takes_pos [OF a(2,3) o(3)] na w1(2) by (simp_all add: h1_def)
  show "apart (Suc n) h1 (Obj t a)" using r(1) pre w1(1) keep by blast
  show "cells (Suc n) h1 (Obj t a) \<subseteq> cells (Suc n) h (Obj t a) \<union> cells n h w" using r(2) pre w1 keep by blast
  have "tree_of n h1 (node_vals (h ! a) ! j) = tree_of n h (node_vals (h ! a) ! j)"
    if "j < length (node_vals (h ! a))" "j \<noteq> key_pos (h ! a) key" for j using r(3) pre w1(1) keep that by blast
  then show "tree_of (Suc n) h1 (Obj t a) = put_tree key (Some (tree_of n h w)) (tree_of (Suc n) h (Obj t a))"
    using put_node_tree [OF a(2,3) o(3), of "tree_of n h1" "tree_of n h" w] h1a o(2) w1(3) by simp
qed

text \<open>A value changed below the place where it is.\<close>

lemma change_child:
  assumes o: "apart (Suc n) h (Obj t a)" "\<not> opaque_tag t" "takes_key (h ! a) key" "key_pos (h ! a) key < length (node_vals (h ! a))"
  defines "x \<equiv> node_vals (h ! a) ! key_pos (h ! a) key"
  assumes h1: "length h \<le> length h1" "\<And>b. b < length h \<Longrightarrow> b \<notin> cells n h x \<Longrightarrow> h1 ! b = h ! b"
    and x: "apart n h1 x" "cells n h1 x \<subseteq> cells n h x \<union> {length h..<length h1}" "x \<noteq> Undefined"
  shows "apart (Suc n) h1 (Obj t a)" "cells (Suc n) h1 (Obj t a) \<subseteq> cells (Suc n) h (Obj t a) \<union> {length h..<length h1}"
    "tree_of (Suc n) h1 (Obj t a) = put_tree key (Some (tree_of n h1 x)) (tree_of (Suc n) h (Obj t a))"
proof -
  have a: "a < length h" "tree_cell t (h ! a)" "tidy (h ! a)" using o by auto
  have xs: "x \<in> set (node_vals (h ! a))" using o(4) by (simp add: x_def)
  note xc = apart_children [OF o(1,2) xs]
  have h1a: "h1 ! a = h ! a" using h1(2) a(1) xc(2) by blast
  have same: "put_own (h ! a) (key_name key) x = h ! a" using put_same [OF a(2,3) o(3,4)] x(3) by (simp add: x_def)
  have vals: "node_vals (h1 ! a) = set_val (node_vals (h ! a)) (key_pos (h ! a) key) x"
    using h1a o(4) by (simp add: set_val_def x_def)
  have na: "a \<notin> cells n h1 x" using x(2) xc(2) a(1) by auto
  have keep: "cells n h1 x \<inter> cells n h (node_vals (h ! a) ! j) = {}" "b \<in> cells n h (node_vals (h ! a) ! j) \<Longrightarrow> h1 ! b = h ! b"
    if "j < length (node_vals (h ! a))" "j \<noteq> key_pos (h ! a) key" for j b
  proof -
    have d: "cells n h x \<inter> cells n h (node_vals (h ! a) ! j) = {}" using o that by (auto simp: x_def)
    have bound: "cells n h (node_vals (h ! a) ! j) \<subseteq> {..<length h}"
      using cells_bound apart_children(1) [OF o(1,2) nth_mem [OF that(1)]] by blast
    show "cells n h1 x \<inter> cells n h (node_vals (h ! a) ! j) = {}" using x(2) d bound by fastforce
    show "b \<in> cells n h (node_vals (h ! a) ! j) \<Longrightarrow> h1 ! b = h ! b" using h1(2) [of b] d bound by blast
  qed
  note r = apart_replace [OF o(1,2) h1(1), of "key_pos (h ! a) key" x]
  have pre: "tree_cell t (h1 ! a)" "tidy (h1 ! a)" using a h1a by simp_all
  show "apart (Suc n) h1 (Obj t a)" using r(1) pre vals o(4) x(1) na keep by simp
  show "cells (Suc n) h1 (Obj t a) \<subseteq> cells (Suc n) h (Obj t a) \<union> {length h..<length h1}"
  proof -
    have "cells (Suc n) h1 (Obj t a) \<subseteq> cells (Suc n) h (Obj t a) \<union> cells n h1 x"
      using r(2) pre vals o(4) x(1) na keep by (simp del: cells.simps)
    then show ?thesis using x(2) xc(3) by blast
  qed
  have "tree_of n h1 (node_vals (h ! a) ! j) = tree_of n h (node_vals (h ! a) ! j)"
    if "j < length (node_vals (h ! a))" "j \<noteq> key_pos (h ! a) key" for j using r(3) pre vals o(4) x(1) na keep that by simp
  then show "tree_of (Suc n) h1 (Obj t a) = put_tree key (Some (tree_of n h1 x)) (tree_of (Suc n) h (Obj t a))"
    using put_node_tree [OF a(2,3) o(3), of "tree_of n h1" "tree_of n h" x] h1a same o(2) by simp
qed

section \<open>Copies of separate trees\<close>

text \<open>The copy of a cell when some of its values have been copied.\<close>

fun built :: "node \<Rightarrow> jsval list \<Rightarrow> node" where
  "built (ArrN es ps) ws = ArrN (map Some ws @ replicate (length es - length ws) None) []"
| "built (ObjN ps proto) ws = ObjN (zip (map fst ps) ws) None"

lemma cell_keys_tidy: "tidy (ObjN ps proto) \<Longrightarrow> cell_keys (ObjN ps proto) = map fst ps"
proof -
  assume "tidy (ObjN ps proto)"
  then have "filter (is_string_key \<circ> fst) ps = ps" "filter (\<lambda>p. \<not> is_string_key (fst p)) ps = []"
    by (auto simp: list_all_iff filter_id_conv filter_empty_conv)
  then show ?thesis by simp
qed

lemma built_Nil: "built n [] = blank n"
  by (cases n) simp_all

lemma built_put:
  assumes "tree_cell t n" "tidy n" "length ws < length (node_vals n)"
  shows "put_own (built n ws) (cell_keys n ! length ws) w = built n (ws @ [w])" "own_prop (built n ws) (cell_keys n ! length ws) = None"
    "length (cell_keys n) = length (node_vals n)" "own_val n (cell_keys n ! length ws) = node_vals n ! length ws"
proof -
  let ?i = "length ws"
  have "put_own (built n ws) (cell_keys n ! ?i) w = built n (ws @ [w]) \<and> own_prop (built n ws) (cell_keys n ! ?i) = None \<and>
    length (cell_keys n) = length (node_vals n) \<and> own_val n (cell_keys n ! ?i) = node_vals n ! ?i"
    using assms(1,2)
  proof (cases rule: cell_cases)
    case (arr es)
    then have "cell_keys n ! ?i = index_key ?i" "array_index (index_key ?i) = Some ?i" using assms(3) by simp_all
    moreover have "length es - ?i = Suc (length es - Suc ?i)" using arr(1) assms(3) by simp
    ultimately show ?thesis using arr assms(3) by (simp add: elem_put_def list_update_append own_val_def nth_append)
  next
    case (obj ps)
    let ?k = "fst (ps ! ?i)"
    have k: "cell_keys n ! ?i = ?k" using cell_keys_tidy [of ps None] assms obj(1) by simp
    have nth: "fst (ps ! j) \<noteq> ?k" if "j < ?i" for j
      using nth_eq_iff_index_eq [OF obj(3), of j ?i] that assms(3) obj(1) by auto
    then have new: "?k \<notin> fst ` set (zip (map fst ps) ws)" by (force simp: in_set_zip)
    have "zip (map fst ps) (ws @ [w]) = zip (map fst ps) ws @ [(?k, w)]"
      using assms(3) obj(1) by (intro nth_equalityI) (auto simp: nth_append less_Suc_eq)
    moreover have "map_of ps ?k = Some (snd (ps ! ?i))" using obj(1,3) assms(3) by (auto intro: map_of_is_SomeI simp: in_set_conv_nth)
    then have "elem_val (map_of ps ?k) = snd (ps ! ?i)" by (simp only: elem_val.simps)
    moreover have "map_of (zip (map fst ps) ws) ?k = None" using new by (simp add: map_of_eq_None_iff)
    ultimately show ?thesis using obj k new assms cell_keys_tidy [of ps None] assoc_put_append [OF new]
      by (simp add: own_val_def)
  qed
  then show "put_own (built n ws) (cell_keys n ! ?i) w = built n (ws @ [w])" "own_prop (built n ws) (cell_keys n ! ?i) = None"
    "length (cell_keys n) = length (node_vals n)" "own_val n (cell_keys n ! ?i) = node_vals n ! ?i" by auto
qed

lemma built_full:
  assumes "tree_cell t n" "tidy n" "length ws = length (node_vals n)"
  shows "node_vals (built n ws) = ws" "tree_cell t (built n ws)" "tidy (built n ws)"
    "(\<And>j. j < length ws \<Longrightarrow> f (ws ! j) = g (node_vals n ! j)) \<Longrightarrow> node_tree f (built n ws) = node_tree g n"
proof -
  have "node_vals (built n ws) = ws \<and> tree_cell t (built n ws) \<and> tidy (built n ws) \<and>
    ((\<forall>j<length ws. f (ws ! j) = g (node_vals n ! j)) \<longrightarrow> node_tree f (built n ws) = node_tree g n)"
    using assms(1,2)
  proof (cases rule: cell_cases)
    case (arr es)
    then show ?thesis using assms(3) by (auto simp: comp_def intro!: nth_equalityI)
  next
    case (obj ps)
    let ?qs = "zip (map fst ps) ws"
    have len: "length ws = length ps" using obj(1) assms(3) by simp
    then have fst: "map fst ?qs = map fst ps" by simp
    then have none: "map_of ?qs k = None \<longleftrightarrow> map_of ps k = None" for k by (metis map_of_eq_None_iff set_map)
    have "map_option f (map_of ?qs k) = map_option g (map_of ps k)" if "\<forall>j<length ws. f (ws ! j) = g (node_vals n ! j)" for k
    proof (cases "k \<in> fst ` set ps")
      case True
      then obtain j where j: "j < length ps" "fst (ps ! j) = k" by (auto simp: in_set_conv_nth)
      have "(k, ws ! j) \<in> set ?qs" using j len by (auto simp: in_set_zip intro!: exI [of _ j])
      then have "map_of ?qs k = Some (ws ! j)" using fst obj(3) by (intro map_of_is_SomeI) simp_all
      moreover have "map_of ps k = Some (snd (ps ! j))" using j obj(3) by (intro map_of_is_SomeI) (metis nth_mem prod.collapse)+
      ultimately show ?thesis using that j len obj(1) by simp
    next
      case False
      then have "map_of ps k = None" by (simp add: map_of_eq_None_iff)
      then show ?thesis using none [of k] by simp
    qed
    moreover have "list_all (is_string_key \<circ> fst) ?qs"
      using obj(4) fst by (metis list.pred_map)
    ultimately show ?thesis using obj len fst none by (auto simp: fun_eq_iff)
  qed
  then show "node_vals (built n ws) = ws" "tree_cell t (built n ws)" "tidy (built n ws)"
    "(\<And>j. j < length ws \<Longrightarrow> f (ws ! j) = g (node_vals n ! j)) \<Longrightarrow> node_tree f (built n ws) = node_tree g n" by auto
qed

text \<open>Copies of the first values of a cell, on new cells after the cell \<open>r\<close>.\<close>

definition copies_made :: "nat \<Rightarrow> heap \<Rightarrow> jsval list \<Rightarrow> nat \<Rightarrow> heap \<Rightarrow> jsval list \<Rightarrow> bool" where
  "copies_made n h0 vs r h ws \<longleftrightarrow> length ws \<le> length vs \<and> r < length h \<and>
     (\<forall>j<length ws. apart n h (ws ! j) \<and> cells n h (ws ! j) \<subseteq> {Suc r..<length h} \<and> tree_of n h (ws ! j) = tree_of n h0 (vs ! j)) \<and>
     (\<forall>j<length ws. \<forall>k<length ws. j \<noteq> k \<longrightarrow> cells n h (ws ! j) \<inter> cells n h (ws ! k) = {})"

definition free_stack :: "host \<Rightarrow> Stack \<Rightarrow> nat set \<Rightarrow> bool" where
  "free_stack host st C \<longleftrightarrow> stack_inv host st \<and> (\<forall>t b. b \<in> C \<longrightarrow> \<not> on_stack_val host st (Obj t b))"

definition clone_spec :: "host \<Rightarrow> nat \<Rightarrow> cloner \<Rightarrow> bool" where
  "clone_spec host n F \<longleftrightarrow>
     (\<forall>h v k st. apart n h v \<longrightarrow> free_stack host st (cells n h v) \<longrightarrow>
        (\<exists>w h1 st1. F h v (Some k) st = Some (w, h1, st1) \<and> take (length h) h1 = h \<and> apart n h1 w \<and>
           cells n h1 w \<subseteq> {length h..<length h1} \<and> tree_of n h1 w = tree_of n h v \<and>
           (\<forall>C. C \<inter> cells n h v = {} \<longrightarrow> free_stack host st C \<longrightarrow> free_stack host st1 C)))"

text \<open>The cells below the values from an index on.\<close>

definition rest_cells :: "nat \<Rightarrow> heap \<Rightarrow> jsval list \<Rightarrow> nat \<Rightarrow> nat set" where
  "rest_cells n h vs i = (\<Union>j\<in>{i..<length vs}. cells n h (vs ! j))"

lemma rest_cells_step: "i < length vs \<Longrightarrow> rest_cells n h vs i = cells n h (vs ! i) \<union> rest_cells n h vs (Suc i)"
proof -
  assume "i < length vs"
  then have "{i..<length vs} = insert i {Suc i..<length vs}" by auto
  then show ?thesis by (simp add: rest_cells_def)
qed

lemma rest_cells_apart:
  assumes "apart (Suc n) h (Obj t a)" "\<not> opaque_tag t" "i < length (node_vals (h ! a))"
  shows "cells n h (node_vals (h ! a) ! i) \<inter> rest_cells n h (node_vals (h ! a)) (Suc i) = {}"
proof -
  have "cells n h (node_vals (h ! a) ! i) \<inter> cells n h (node_vals (h ! a) ! j) = {}" if "j \<in> {Suc i..<length (node_vals (h ! a))}" for j
    using assms that by auto
  then show ?thesis unfolding rest_cells_def by blast
qed

lemma free_stack_mono: "free_stack host st D \<Longrightarrow> C \<subseteq> D \<Longrightarrow> free_stack host st C"
  by (auto simp: free_stack_def)

lemma take_prefix: "take (length h) h1 = h \<Longrightarrow> length h \<le> length h1 \<and> (\<forall>b<length h. h1 ! b = h ! b)"
  by (metis length_take min.cobounded2 min.commute nth_take)

lemma copies_frame:
  assumes "copies_made n h0 vs r h ws" "length h \<le> length h1" "\<And>b. b < length h \<Longrightarrow> b \<noteq> r \<Longrightarrow> h1 ! b = h ! b"
  shows "copies_made n h0 vs r h1 ws" "j < length ws \<Longrightarrow> cells n h1 (ws ! j) = cells n h (ws ! j)"
proof -
  have same: "apart n h1 (ws ! j) \<and> cells n h1 (ws ! j) = cells n h (ws ! j) \<and> tree_of n h1 (ws ! j) = tree_of n h (ws ! j)"
    if "j < length ws" for j
  proof (rule apart_frame)
    show "apart n h (ws ! j)" using assms(1) that by (simp add: copies_made_def)
    fix b assume "b \<in> cells n h (ws ! j)"
    then have "Suc r \<le> b" "b < length h" using assms(1) that unfolding copies_made_def by fastforce+
    then show "h1 ! b = h ! b" using assms(3) [of b] by simp
  qed (rule assms(2))
  then show "j < length ws \<Longrightarrow> cells n h1 (ws ! j) = cells n h (ws ! j)" by simp
  have "cells n h1 (ws ! j) \<subseteq> {Suc r..<length h1}" if "j < length ws" for j
    using assms(1,2) same [OF that] that unfolding copies_made_def by fastforce
  then show "copies_made n h0 vs r h1 ws" using assms(1,2) same by (simp add: copies_made_def)
qed

lemma copies_add:
  assumes "copies_made n h0 vs r h ws" "take (length h) h1 = h" "length ws < length vs"
    and "apart n h1 w" "cells n h1 w \<subseteq> {length h..<length h1}" "tree_of n h1 w = tree_of n h0 (vs ! length ws)"
  shows "copies_made n h0 vs r h1 (ws @ [w])"
proof -
  note p = take_prefix [OF assms(2)]
  have c: "copies_made n h0 vs r h1 ws" "\<And>j. j < length ws \<Longrightarrow> cells n h1 (ws ! j) = cells n h (ws ! j)"
    using copies_frame [OF assms(1), of h1] p by blast+
  have "cells n h1 (ws ! j) \<inter> cells n h1 w = {}" if "j < length ws" for j
  proof -
    have "cells n h1 (ws ! j) \<subseteq> {Suc r..<length h}" using that c(2) assms(1) by (simp add: copies_made_def)
    moreover have "x \<notin> cells n h1 w" if "x < length h" for x using that assms(5) by fastforce
    ultimately show ?thesis by fastforce
  qed
  moreover have "cells n h1 w \<subseteq> {Suc r..<length h1}" using assms(1,5) by (fastforce simp: copies_made_def)
  ultimately show ?thesis using c(1) assms(3,4,6) unfolding copies_made_def by (auto simp: nth_append less_Suc_eq)
qed

text \<open>The loop over the keys of a cell whose copy is the cell \<open>r\<close>.\<close>

lemma clone_loop_tree:
  assumes F: "clone_spec host n F" and a: "apart (Suc n) h0 (Obj t a)" "\<not> opaque_tag t"
  defines "vs \<equiv> node_vals (h0 ! a)"
  shows "copies_made n h0 vs r h ws \<Longrightarrow> length h0 \<le> r \<Longrightarrow> \<forall>b<length h0. h ! b = h0 ! b \<Longrightarrow> h ! r = built (h0 ! a) ws \<Longrightarrow>
    free_stack host st (rest_cells n h0 vs (length ws)) \<Longrightarrow>
    \<exists>h1 st1 us. clone_loop F (Obj t a) (Obj t r) (drop (length ws) (cell_keys (h0 ! a))) h st = Some (h1, st1) \<and>
      copies_made n h0 vs r h1 us \<and> length us = length vs \<and> h1 ! r = built (h0 ! a) us \<and>
      (\<forall>b<length h0. h1 ! b = h0 ! b) \<and>
      (\<forall>C. C \<inter> rest_cells n h0 vs (length ws) = {} \<longrightarrow> free_stack host st C \<longrightarrow> free_stack host st1 C)"
proof (induction "length vs - length ws" arbitrary: h st ws)
  case 0
  have cell: "tree_cell t (h0 ! a)" "tidy (h0 ! a)" using a by auto
  have "length ws = length vs" using 0 by (simp add: copies_made_def)
  moreover have "length (cell_keys (h0 ! a)) = length vs"
    using cell_cases [OF cell] cell_keys_tidy unfolding vs_def by (metis cell(2) cell_keys.simps(1) diff_zero length_map length_upt node_vals.simps)
  ultimately show ?case using 0 by (intro exI [of _ h] exI [of _ st] exI [of _ ws]) simp
next
  case (Suc m)
  let ?i = "length ws" and ?n = "h0 ! a"
  have cell: "a < length h0" "tree_cell t ?n" "tidy ?n" using a by auto
  have i: "?i < length vs" using Suc.hyps(2) by simp
  note b = built_put [OF cell(2,3), of ws, folded vs_def, OF i]
  let ?x = "vs ! ?i" and ?k = "cell_keys ?n ! ?i"
  have r: "r < length h" using Suc.prems(1) by (simp add: copies_made_def)
  have flat: "node_proto (h ! a) = None" using cell(2) Suc.prems(3) cell(1) by (cases ?n) (auto elim: plain.elims)
  have get: "get_prop h (Obj t a) ?k = ?x" using get_flat [OF flat, of t ?k] b(4) Suc.prems(2,3) cell(1) r by simp
  have x: "apart n h0 ?x" using apart_children(1) [OF a, of ?x] i by (simp add: vs_def)
  have xh: "apart n h ?x" "cells n h ?x = cells n h0 ?x" "tree_of n h ?x = tree_of n h0 ?x"
    using apart_frame [OF x, of h] cells_bound [OF x] Suc.prems(2,3) r by auto
  note rest = rest_cells_step [OF i, of n h0] rest_cells_apart [OF a, folded vs_def, OF i]
  have "free_stack host st (cells n h ?x)" using free_stack_mono [OF Suc.prems(5)] xh(2) rest(1) by simp
  then obtain w h1 st1 where w: "F h ?x (Some (?k, Obj t a)) st = Some (w, h1, st1)" "take (length h) h1 = h" "apart n h1 w"
    "cells n h1 w \<subseteq> {length h..<length h1}" "tree_of n h1 w = tree_of n h ?x"
    "\<And>C. C \<inter> cells n h ?x = {} \<Longrightarrow> free_stack host st C \<Longrightarrow> free_stack host st1 C"
    using F xh(1) unfolding clone_spec_def by meson
  note p = take_prefix [OF w(2)]
  let ?h2 = "h1[r := built ?n (ws @ [w])]"
  have "\<not> has_own h1 (Obj t r) ?k" using b(2) p r Suc.prems(4) by simp
  then have put: "assignValue h1 (Obj t r) ?k w = ?h2" using b(1) p r Suc.prems(4) by (auto simp: assignValue_def Let_def)
  have made: "copies_made n h0 vs r ?h2 (ws @ [w])"
    using copies_frame(1) [OF copies_add [OF Suc.prems(1) w(2) i w(3,4)], of ?h2] w(5) xh(3) by simp
  have "free_stack host st1 (rest_cells n h0 vs (Suc ?i))"
    using w(6) [of "rest_cells n h0 vs (Suc ?i)"] free_stack_mono [OF Suc.prems(5)] rest xh(2) by (simp add: Int_commute)
  moreover have "m = length vs - length (ws @ [w])" using Suc.hyps(2) by simp
  ultimately obtain h3 st3 us where l: "clone_loop F (Obj t a) (Obj t r) (drop (Suc ?i) (cell_keys ?n)) ?h2 st1 = Some (h3, st3)"
      "copies_made n h0 vs r h3 us" "length us = length vs" "h3 ! r = built ?n us" "\<forall>b<length h0. h3 ! b = h0 ! b"
      "\<And>C. C \<inter> rest_cells n h0 vs (Suc ?i) = {} \<Longrightarrow> free_stack host st1 C \<Longrightarrow> free_stack host st3 C"
    using Suc.hyps(1) [of "ws @ [w]" ?h2 st1] Suc.prems(2,3) made p r by auto
  have "drop ?i (cell_keys ?n) = ?k # drop (Suc ?i) (cell_keys ?n)" using i b(3) by (simp add: Cons_nth_drop_Suc)
  then have "clone_loop F (Obj t a) (Obj t r) (drop ?i (cell_keys ?n)) h st = Some (h3, st3)" using get w(1) put l(1) by simp
  moreover have "free_stack host st3 C" if "C \<inter> rest_cells n h0 vs ?i = {}" "free_stack host st C" for C
    using l(6) [of C] w(6) [of C] that rest(1) xh(2) by (simp add: Int_Un_distrib)
  ultimately show ?case using l(2-5) by blast
qed

lemma rest_cells_all: "rest_cells n h vs 0 = (\<Union>x\<in>set vs. cells n h x)"
  unfolding rest_cells_def set_conv_nth by fastforce

text \<open>Buffers are typed arrays.\<close>

definition buffers_typed :: "clone_host \<Rightarrow> bool" where
  "buffers_typed env \<longleftrightarrow> (\<forall>v. nativeIsBuffer env v \<longrightarrow> typed_array_tag (getTag v))"

lemma clone_opaque:
  assumes "buffers_typed env" "opaque_tag t"
  shows "clone_start env True True h (Obj t a) = (True, Obj t a, h)"
proof -
  have "\<not> nativeIsBuffer env (Obj t a)" using assms by (cases t) (auto simp: buffers_typed_def)
  then show ?thesis using assms(2) by (cases t) (auto simp: clone_start_def isArray_def)
qed

lemma start_tree:
  assumes "a < length h" "tree_cell t (h ! a)" "tidy (h ! a)" "buffers_typed env"
  shows "clone_start env True nested h (Obj t a) = (False, Obj t (length h), h @ [blank (h ! a)])"
    "clone_keys False (h @ xs) (Obj t a) = cell_keys (h ! a)"
proof -
  let ?h = "h @ xs"
  have at: "?h ! a = h ! a" "a < length ?h" using assms(1) by (simp_all add: nth_append)
  have flat: "node_proto (h ! a) = None" "node_proto (?h ! a) = None" using assms(2) at by (cases "h ! a"; auto elim: plain.elims)+
  note get = get_flat [OF flat(1) assms(1)] get_flat [OF flat(2) at(2)]
  have "clone_start env True nested h (Obj t a) = (False, Obj t (length h), h @ [blank (h ! a)]) \<and> clone_keys False ?h (Obj t a) = cell_keys (h ! a)"
    using assms(2,3)
  proof (cases rule: cell_cases)
    case (arr es)
    then have "\<not> has_own h (Obj t a) (PStr ''index'')" by (auto simp: reIsUint_def is_digit_def length_key_def)
    then show ?thesis using arr at by (simp add: clone_start_def isArray_def initCloneArray_def get value_length_own Let_def clone_keys_def del: has_own.simps)
  next
    case (obj ps)
    have p: "plain (h ! a)" "plain (?h ! a)" using obj at by simp_all
    then have "prop_find h (Obj t a) (PStr ''constructor'') = None" using obj plain_get(1) [OF p(1) assms(1)] by simp
    moreover have "keys ?h (Obj t a) = cell_keys (h ! a)"
      using plain_keys(1) [OF p(2) at(2)] cell_keys_tidy [of ps None] obj assms(3) at
      by (simp add: string_keys_def list_all_iff filter_id_conv)
    moreover have "\<not> nativeIsBuffer env (Obj t a)" using assms(4) obj(2) by (auto simp: buffers_typed_def)
    ultimately show ?thesis using obj assms(1) plain_kind(2) [OF p(1) assms(1), of t]
      by (simp add: clone_start_def isArray_def initCloneObject_def Let_def baseCreate_def new_object_def clone_keys_def)
  qed
  then show "clone_start env True nested h (Obj t a) = (False, Obj t (length h), h @ [blank (h ! a)])"
    "clone_keys False ?h (Obj t a) = cell_keys (h ! a)" by auto
qed

text \<open>A separate tree is copied to a separate tree on new cells.\<close>

lemma clone_cell_tree:
  assumes F: "clone_spec (caches env) n (baseClone m env True False None)" and buf: "buffers_typed env"
    and v: "apart (Suc n) h (Obj t a)" "\<not> opaque_tag t" "free_stack (caches env) st (cells (Suc n) h (Obj t a))"
  shows "\<exists>w h1 st1. baseClone (Suc m) env True False None h (Obj t a) place st = Some (w, h1, st1) \<and> take (length h) h1 = h \<and>
    apart (Suc n) h1 w \<and> cells (Suc n) h1 w \<subseteq> {length h..<length h1} \<and> tree_of (Suc n) h1 w = tree_of (Suc n) h (Obj t a) \<and>
    (\<forall>C. C \<inter> cells (Suc n) h (Obj t a) = {} \<longrightarrow> free_stack (caches env) st C \<longrightarrow> free_stack (caches env) st1 C)"
proof -
  let ?r = "length h" and ?vs = "node_vals (h ! a)" and ?h0 = "h @ [blank (h ! a)]" and ?C = "rest_cells n h (node_vals (h ! a)) 0"
  let ?st = "stackSet (caches env) st (Obj t a) (Obj t (length h))"
  have a: "a < length h" "tree_cell t (h ! a)" "tidy (h ! a)" using v by auto
  note start = start_tree [OF a buf]
  have "stackGet (caches env) st (Obj t a) = Undefined" using v(2,3) by (auto simp: free_stack_def on_stack_val_def)
  moreover have "isObject (Obj t a)" by (simp add: isObject_def)
  ultimately have run: "baseClone (Suc m) env True False None h (Obj t a) place st =
      (case clone_loop (baseClone m env True False None) (Obj t a) (Obj t ?r) (cell_keys (h ! a)) ?h0 ?st of
         None \<Rightarrow> None | Some (h2, st2) \<Rightarrow> Some (Obj t ?r, h2, st2))" using start by simp
  have cells: "cells (Suc n) h (Obj t a) = insert a ?C" using v(2) by (simp add: rest_cells_all)
  have "a \<notin> ?C" using v(1,2) by (auto simp: rest_cells_def)
  have set: "free_stack (caches env) ?st C" if "free_stack (caches env) st C" "a \<notin> C" for C
    using that stackSet_lookup [of "caches env" st, OF _ keyable_obj keyable_obj, where v = "Obj t ?r"] by (auto simp: free_stack_def on_stack_val_def)
  have made: "copies_made n h ?vs ?r ?h0 []" by (simp add: copies_made_def)
  have "free_stack (caches env) ?st ?C" using set free_stack_mono [OF v(3)] cells \<open>a \<notin> ?C\<close> by blast
  then obtain h1 st1 us where l: "clone_loop (baseClone m env True False None) (Obj t a) (Obj t ?r) (cell_keys (h ! a)) ?h0 ?st = Some (h1, st1)"
    "copies_made n h ?vs ?r h1 us" "length us = length ?vs" "h1 ! ?r = built (h ! a) us" "\<forall>b<length h. h1 ! b = h ! b"
    "\<And>C. C \<inter> ?C = {} \<Longrightarrow> free_stack (caches env) ?st C \<Longrightarrow> free_stack (caches env) st1 C"
    using clone_loop_tree [OF F v(1,2) made, of ?st] by (auto simp: nth_append built_Nil)
  have r: "?r < length h1" and us: "\<And>j. j < length us \<Longrightarrow> apart n h1 (us ! j) \<and> cells n h1 (us ! j) \<subseteq> {Suc ?r..<length h1} \<and>
      tree_of n h1 (us ! j) = tree_of n h (?vs ! j)" "\<And>j k. j < length us \<Longrightarrow> k < length us \<Longrightarrow> j \<noteq> k \<Longrightarrow> cells n h1 (us ! j) \<inter> cells n h1 (us ! k) = {}"
    using l(2) by (simp_all add: copies_made_def)
  note b = built_full [OF a(2,3) l(3)]
  have "apart (Suc n) h1 (Obj t ?r)" using r us b l(4) by fastforce
  moreover have "cells n h1 x \<subseteq> {length h..<length h1}" if "x \<in> set us" for x
    using us(1) that by (fastforce simp: in_set_conv_nth)
  then have "cells (Suc n) h1 (Obj t ?r) \<subseteq> {length h..<length h1}" using r b(1) l(4) by auto
  moreover have "tree_of (Suc n) h1 (Obj t ?r) = tree_of (Suc n) h (Obj t a)" using b(4) [of "tree_of n h1" "tree_of n h"] us(1) l(4) v(2) by simp
  moreover have "take (length h) h1 = h" using l(5) r by (intro nth_equalityI) simp_all
  moreover have "free_stack (caches env) st1 C" if "C \<inter> insert a ?C = {}" "free_stack (caches env) st C" for C
    using l(6) [of C] set [of C] that by auto
  ultimately show ?thesis using run l(1) cells by (intro exI [of _ "Obj t ?r"] exI [of _ h1] exI [of _ st1]) simp
qed

lemma clone_tree:
  assumes "buffers_typed env"
  shows "n \<le> m \<Longrightarrow> clone_spec (caches env) n (baseClone m env True False None)"
proof (induction n arbitrary: m)
  case (Suc n)
  then obtain m1 where m: "m = Suc m1" "n \<le> m1" by (cases m) auto
  show ?case unfolding clone_spec_def
  proof (intro allI impI)
    fix h v k st assume v: "apart (Suc n) h v" "free_stack (caches env) st (cells (Suc n) h v)"
    show "\<exists>w h1 st1. baseClone m env True False None h v (Some k) st = Some (w, h1, st1) \<and> take (length h) h1 = h \<and> apart (Suc n) h1 w \<and>
        cells (Suc n) h1 w \<subseteq> {length h..<length h1} \<and> tree_of (Suc n) h1 w = tree_of (Suc n) h v \<and>
        (\<forall>C. C \<inter> cells (Suc n) h v = {} \<longrightarrow> free_stack (caches env) st C \<longrightarrow> free_stack (caches env) st1 C)"
    proof (cases "\<exists>t a. v = Obj t a \<and> \<not> opaque_tag t")
      case True
      then show ?thesis using clone_cell_tree [OF Suc.IH [OF m(2)] assms] v m(1) by blast
    next
      case False
      then have "baseClone m env True False None h v (Some k) st = Some (v, h, st)" "cells (Suc n) h v = {}"
        using m(1) clone_opaque [OF assms] by (cases v; auto)+
      then show ?thesis using v by simp
    qed
  qed
qed (simp add: clone_spec_def)

end
