(* ===== verification/JsMerged.thy ===== *)
theory JsMerged
  imports JsApart
begin

text \<open>
  Merging of separate trees of arrays and plain objects with the functions of JsMerge: the result is the deep merge of the trees.
  The fuel is the height of the trees, since every level of the recursion goes one level down both.
\<close>

section \<open>Merged trees\<close>

text \<open>
  The merge of a source tree into what is at its place: undefined values of the source leave it alone, arrays and objects are
  merged with arrays and objects, anything else is replaced.
\<close>

definition merge_elems :: "(tree option \<Rightarrow> tree option) list \<Rightarrow> tree list \<Rightarrow> tree list" where
  "merge_elems ms ts =
     map (\<lambda>i. let old = (if i < length ts then Some (ts ! i) else None)
              in tree_or_undef (if i < length ms then (ms ! i) old else old)) [0..<max (length ms) (length ts)]"

definition merge_fields :: "(propkey \<Rightarrow> (tree option \<Rightarrow> tree option) option) \<Rightarrow> (propkey \<Rightarrow> tree option) \<Rightarrow> propkey \<Rightarrow> tree option" where
  "merge_fields ms g k = (case ms k of None \<Rightarrow> g k | Some m \<Rightarrow> m (g k))"

primrec merge_tree :: "tree \<Rightarrow> tree option \<Rightarrow> tree option" where
  "merge_tree (LeafT v) = (\<lambda>old. if v = Undefined then old else Some (LeafT v))"
| "merge_tree (ArrT ss) = (\<lambda>old. Some (case old of Some (ArrT ts) \<Rightarrow> ArrT (merge_elems (map merge_tree ss) ts) | _ \<Rightarrow> ArrT ss))"
| "merge_tree (ObjT f) = (\<lambda>old. Some (case old of Some (ObjT g) \<Rightarrow> ObjT (merge_fields (map_option merge_tree \<circ> f) g) | _ \<Rightarrow> ObjT f))"

text \<open>Trees that meet without an object of the source on an array or a function, or an array on a function.\<close>

primrec mergeable :: "tree \<Rightarrow> tree option \<Rightarrow> bool" where
  "mergeable (LeafT v) = (\<lambda>old. True)"
| "mergeable (ArrT ss) =
     (\<lambda>old. case old of
              None \<Rightarrow> True
            | Some t \<Rightarrow>
                (case t of
                   LeafT v \<Rightarrow> \<not> isObject v
                 | ArrT ts \<Rightarrow> (\<forall>i<length ss. (map mergeable ss ! i) (if i < length ts then Some (ts ! i) else None))
                 | ObjT g \<Rightarrow> True))"
| "mergeable (ObjT f) =
     (\<lambda>old. case old of
              None \<Rightarrow> True
            | Some t \<Rightarrow>
                (case t of
                   LeafT v \<Rightarrow> \<not> isObject v
                 | ArrT ts \<Rightarrow> False
                 | ObjT g \<Rightarrow> (\<forall>k. case (map_option mergeable \<circ> f) k of None \<Rightarrow> True | Some m \<Rightarrow> m (g k))))"

text \<open>A store after a merge into a value: only cells of the value have changed, and what is below it now is old or new.\<close>

definition merged :: "nat \<Rightarrow> heap \<Rightarrow> jsval \<Rightarrow> heap \<Rightarrow> tree \<Rightarrow> bool" where
  "merged n h v h1 T \<longleftrightarrow> length h \<le> length h1 \<and> (\<forall>b<length h. b \<notin> cells n h v \<longrightarrow> h1 ! b = h ! b) \<and> apart n h1 v \<and>
     cells n h1 v \<subseteq> cells n h v \<union> {length h..<length h1} \<and> tree_of n h1 v = T"

definition idle :: "host \<Rightarrow> Stack \<Rightarrow> nat set \<Rightarrow> bool" where
  "idle host st C \<longleftrightarrow> free_stack host st C \<and> (\<forall>t b. on_stack_val host st (Obj t b) \<longrightarrow> \<not> opaque_tag t)"

abbreviation stack_host :: "merge_host \<Rightarrow> host" where
  "stack_host host \<equiv> caches (copies host)"

definition merge_spec :: "merge_host \<Rightarrow> nat \<Rightarrow> merge_fun \<Rightarrow> bool" where
  "merge_spec host n F \<longleftrightarrow>
     (\<forall>h st t a b. apart n h (Obj t a) \<longrightarrow> \<not> opaque_tag t \<longrightarrow> apart n h (Obj t b) \<longrightarrow>
        cells n h (Obj t a) \<inter> cells n h (Obj t b) = {} \<longrightarrow> mergeable (tree_of n h (Obj t b)) (Some (tree_of n h (Obj t a))) \<longrightarrow>
        idle (stack_host host) st (cells n h (Obj t b) - {b}) \<longrightarrow>
        (\<exists>h1 st1. F (Obj t a) (Obj t b) h st = Some (h1, st1) \<and> restored (stack_host host) st st1 \<and>
           merged n h (Obj t a) h1 (the (merge_tree (tree_of n h (Obj t b)) (Some (tree_of n h (Obj t a)))))))"

lemma merged_trans:
  assumes "merged n h v h1 T" "merged n h1 v h2 U"
  shows "merged n h v h2 U"
proof -
  have "h2 ! b = h ! b" if "b < length h" "b \<notin> cells n h v" for b
  proof -
    have "b < length h1" "b \<notin> cells n h1 v" "h1 ! b = h ! b" using that assms(1) by (auto simp: merged_def)
    then show ?thesis using assms(2) by (simp add: merged_def)
  qed
  moreover have "cells n h2 v \<subseteq> cells n h v \<union> {length h..<length h2}" using assms by (fastforce simp: merged_def)
  ultimately show ?thesis using assms by (auto simp: merged_def)
qed

section \<open>One step of a merge\<close>

lemma put_get_tree: "takes_key n key \<Longrightarrow> key_pos n key < length (node_vals n) \<Longrightarrow> put_tree key (get_tree key (node_tree f n)) (node_tree f n) = node_tree f n"
  by (cases n; cases key) (auto simp: list_update_same_conv)

lemma eq_tree: "eq x w \<Longrightarrow> tree_of n h x = tree_of n h w"
  by (cases n; cases x; cases w) (auto simp: eq_iff_norm)

lemma tree_undef: "apart n h v \<Longrightarrow> tree_of n h Undefined = LeafT Undefined"
  by (cases n) auto

text \<open>Assigning a value on new cells.\<close>

lemma assign_merged:
  assumes o: "apart (Suc n) h (Obj t a)" "\<not> opaque_tag t" "takes_key (h ! a) key"
    and h2: "take (length h) h2 = h" "apart n h2 w" "cells n h2 w \<subseteq> {length h..<length h2}"
  defines "T \<equiv> tree_of (Suc n) h (Obj t a)"
  shows "merged (Suc n) h (Obj t a) (assignMergeValue h2 (Obj t a) key w)
    (put_tree key (if w = Undefined then get_tree key T else Some (tree_of n h2 w)) T)"
proof -
  note p = take_prefix [OF h2(1)]
  have bound: "cells (Suc n) h (Obj t a) \<subseteq> {..<length h}" by (rule cells_bound [OF o(1)])
  have o2: "apart (Suc n) h2 (Obj t a)" "cells (Suc n) h2 (Obj t a) = cells (Suc n) h (Obj t a)" "tree_of (Suc n) h2 (Obj t a) = T"
    using apart_frame [OF o(1), of h2] bound p unfolding T_def by blast+
  have a: "a < length h" "a < length h2" "h2 ! a = h ! a" "tree_cell t (h2 ! a)" "tidy (h2 ! a)" "takes_key (h2 ! a) key"
    using o p by auto
  have T: "T = node_tree (tree_of n h2) (h2 ! a)" using o2(3) o(2) by simp
  let ?i = "key_pos (h2 ! a) key" and ?vs = "node_vals (h2 ! a)"
  note get = get_key [OF a(2,4,5,6)]
  have same: "merged (Suc n) h (Obj t a) h2 X" if "X = T" for X
    using that o2 p bound by (auto simp: merged_def)
  have put: "merged (Suc n) h (Obj t a) (h2[a := put_own (h2 ! a) (key_name key) w]) (put_tree key (Some (tree_of n h2 w)) T)"
  proof -
    have "cells n h2 w \<inter> cells (Suc n) h2 (Obj t a) = {}" using h2(3) bound o2(2) by fastforce
    note c = put_child [OF o2(1) o(2) a(6) h2(2) this]
    have "a \<in> cells (Suc n) h (Obj t a)" using o(2) by simp
    then have "h2[a := put_own (h2 ! a) (key_name key) w] ! b = h ! b" if "b < length h" "b \<notin> cells (Suc n) h (Obj t a)" for b
      using p that by (metis nth_list_update_neq)
    then show ?thesis using c p h2(3) o2(2,3) unfolding merged_def by (auto simp del: cells.simps apart.simps tree_of.simps)
  qed
  show ?thesis
  proof (cases "w = Undefined")
    case True
    show ?thesis
    proof (cases "numeric key \<and> \<not> has_prop h2 (Obj t a) (key_name key)")
      case True
      then have "assignMergeValue h2 (Obj t a) key w = h2[a := put_own (h2 ! a) (key_name key) w]"
        using \<open>w = Undefined\<close> a(2) by (simp add: assignMergeValue_def)
      moreover have "put_tree key (get_tree key T) T = put_tree key (Some (tree_of n h2 w)) T"
      proof -
        obtain j where j: "key = NumK j" using True by (cases key) auto
        then obtain es where es: "h2 ! a = ArrN es []" using a(5,6) by (cases "h2 ! a") auto
        have "es ! j = None" if "j < length es" using True that j es a by (auto simp: has_prop_def lookup_flat)
        then show ?thesis using j es T tree_undef [OF h2(2)] \<open>w = Undefined\<close> by (cases "j < length es") simp_all
      qed
      ultimately show ?thesis using put \<open>w = Undefined\<close> by simp
    next
      case False
      then have "assignMergeValue h2 (Obj t a) key w = h2" using \<open>w = Undefined\<close> by (auto simp: assignMergeValue_def)
      moreover have "put_tree key (get_tree key T) T = T"
      proof (cases "?i < length ?vs")
        case True
        then show ?thesis using put_get_tree [OF a(6)] T by simp
      next
        case False
        then have "\<not> numeric key" "get_tree key T = None" using \<open>\<not> (numeric key \<and> _)\<close> get T by auto
        then show ?thesis using a(6) T by (cases key; cases "h2 ! a") (auto simp: fun_eq_iff)
      qed
      ultimately show ?thesis using same \<open>w = Undefined\<close> by simp
    qed
  next
    case False
    show ?thesis
    proof (cases "eq (get_prop h2 (Obj t a) (key_name key)) w")
      case True
      then have i: "?i < length ?vs" using get(1) False by (cases w) (auto simp: eq_iff_norm split: if_splits)
      then have "tree_of n h2 (?vs ! ?i) = tree_of n h2 w" using True get(1) eq_tree [of "?vs ! ?i" w n h2] by simp
      then have "put_tree key (Some (tree_of n h2 w)) T = T" using put_get_tree [OF a(6) i] get(4) i T by metis
      then show ?thesis using same True False by (auto simp: assignMergeValue_def)
    qed (use put False a(2) in \<open>simp add: assignMergeValue_def\<close>)
  qed
qed

text \<open>The entry of a source value in the stack while its parts are merged.\<close>

lemma leave_set:
  assumes "stack_inv host st" "restored host (stackSet host st (Obj t a) v) st1"
  shows "restored host st (snd (stackDelete host st1 (Obj t a)))"
proof -
  let ?k = "Obj t a"
  have keys: "on_stack_val host (stackSet host st ?k v) (Obj s b) \<Longrightarrow> Obj s b = ?k \<or> on_stack_val host st (Obj s b)" for s b
    using stackSet_lookup(1) [OF assms(1) keyable_obj keyable_obj, of t a v s b] by (auto simp: on_stack_val_def split: if_splits)
  have map: "restored host st (snd (stackDelete host (StackMap c) ?k))"
    if "map_cache_inv host c" "\<And>s b. on_stack_val host (StackMap c) (Obj s b) \<Longrightarrow> on_stack_val host (stackSet host st ?k v) (Obj s b)" for c
  proof -
    note hyps = that
    define c1 where "c1 = snd (mapCacheDelete host c ?k)"
    have c1: "snd (stackDelete host (StackMap c) ?k) = StackMap c1" "map_cache_inv host c1"
      using mapc.invar_del [OF hyps(1), of ?k] by (simp_all add: c1_def)
    have "Obj s b \<noteq> ?k \<and> on_stack_val host (StackMap c) (Obj s b)" if "on_stack_val host (StackMap c1) (Obj s b)" for s b
      using that mapc.get_del [OF hyps(1), of ?k "Obj s b"] by (simp add: on_stack_val_def c1_def split: if_splits)
    note c1 = c1 this
    have "on_stack_val host st (Obj s b)" if "on_stack_val host (StackMap c1) (Obj s b)" for s b
      using c1(3) [OF that] hyps(2) keys by blast
    then show ?thesis using c1(1,2) by (simp add: restored_def)
  qed
  show ?thesis
  proof (cases "st1 = stackSet host st ?k v")
    case True
    show ?thesis
    proof (cases st1)
      case (StackList d1)
      then obtain d where "st = StackList d" "d1 = d @ [(?k, v)]" using True by (cases st) (auto split: if_splits)
      then show ?thesis using StackList by (simp add: listCacheDelete_last)
    next
      case (StackMap c)
      then show ?thesis using map True stackSet_lookup(3) [OF assms(1) keyable_obj keyable_obj, of t a v] by simp
    qed
  next
    case False
    then obtain c where "st1 = StackMap c" "map_cache_inv host c"
      "\<And>s b. on_stack_val host st1 (Obj s b) \<Longrightarrow> on_stack_val host (stackSet host st ?k v) (Obj s b)"
      using assms(2) unfolding restored_def by blast
    then show ?thesis using map by blast
  qed
qed

lemma idle_restored: "idle host st C \<Longrightarrow> restored host st st1 \<Longrightarrow> idle host st1 C"
  unfolding idle_def free_stack_def restored_def by (metis stack_inv.simps(2))

lemma idle_set:
  assumes "idle host st C" "\<not> opaque_tag t" "a \<notin> D" "D \<subseteq> C"
  shows "idle host (stackSet host st (Obj t a) v) D"
proof -
  have "stack_inv host st" using assms(1) by (simp add: idle_def free_stack_def)
  note s = stackSet_lookup [OF this keyable_obj keyable_obj, of t a v]
  show ?thesis using assms s(3) by (auto simp: idle_def free_stack_def on_stack_val_def s(1) split: if_splits)
qed

lemma idle_get: "idle host st C \<Longrightarrow> b \<in> C \<or> opaque_tag t \<Longrightarrow> \<not> truthy (stackGet host st (Obj t b))"
  unfolding idle_def free_stack_def on_stack_val_def by (metis truthy.simps(1))

text \<open>What is done with a source value of a separate tree.\<close>

lemma target_opaque: "opaque_tag t \<Longrightarrow> merge_target host si h x (Obj t b) = Some (False, Obj t b, h)"
  by (cases t) (auto simp: merge_target_def isArray_def isTypedArray_def isPlainObject_def isArguments_def)

lemma cell_tests:
  assumes "b < length h" "tree_cell t (h ! b)" "tidy (h ! b)"
  shows "isArray (Obj t b) \<longleftrightarrow> t = ArrayTag" "\<not> isTypedArray h (Obj t b)" "t = ObjectTag \<Longrightarrow> isPlainObject ctor h (Obj t b)"
    "\<not> isArguments h (Obj t b)" "isObject (Obj t b)" "\<not> isFunction (Obj t b)" "t = ObjectTag \<Longrightarrow> \<not> isArrayLikeObject_js h (Obj t b)"
    "t = ArrayTag \<or> t = ObjectTag"
proof -
  have "(isArray (Obj t b) \<longleftrightarrow> t = ArrayTag) \<and> \<not> isTypedArray h (Obj t b) \<and> (t = ObjectTag \<longrightarrow> isPlainObject ctor h (Obj t b)) \<and>
    \<not> isArguments h (Obj t b) \<and> isObject (Obj t b) \<and> \<not> isFunction (Obj t b) \<and> (t = ObjectTag \<longrightarrow> \<not> isArrayLikeObject_js h (Obj t b)) \<and>
    (t = ArrayTag \<or> t = ObjectTag)"
    using assms(2,3)
  proof (cases rule: cell_cases)
    case (arr es)
    then show ?thesis by (simp add: isArray_def isTypedArray_def isArguments_def isObject_def isFunction_def)
  next
    case (obj ps)
    then have "plain (h ! b)" "get_proto h (Obj t b) = None" by simp_all
    then show ?thesis using obj plain_kind(1) [OF \<open>plain (h ! b)\<close> assms(1)]
      by (simp add: isArray_def isTypedArray_def isArguments_def isObject_def isFunction_def isPlainObject_def isObjectLike_def isArrayLikeObject_js_def)
  qed
  then show "isArray (Obj t b) \<longleftrightarrow> t = ArrayTag" "\<not> isTypedArray h (Obj t b)" "t = ObjectTag \<Longrightarrow> isPlainObject ctor h (Obj t b)"
    "\<not> isArguments h (Obj t b)" "isObject (Obj t b)" "\<not> isFunction (Obj t b)" "t = ObjectTag \<Longrightarrow> \<not> isArrayLikeObject_js h (Obj t b)"
    "t = ArrayTag \<or> t = ObjectTag" by auto
qed

lemma prim_tests:
  assumes "\<not> isObject x"
  shows "\<not> isArray x" "\<not> isArrayLikeObject_js h x" "\<not> isArguments h x"
  using assms by (cases x; auto simp: isArray_def isArrayLikeObject_js_def isArguments_def isObject_def isObjectLike_def)+

lemma copied_tree:
  assumes "buffers_typed (copies host)" "n \<le> copy_fuel host" "apart n h (Obj t b)" "\<not> opaque_tag t"
  shows "\<exists>w h1. copied host h (Obj t b) = Some (w, h1) \<and> take (length h) h1 = h \<and> apart n h1 w \<and>
    cells n h1 w \<subseteq> {length h..<length h1} \<and> tree_of n h1 w = tree_of n h (Obj t b) \<and> w \<noteq> Undefined"
proof -
  obtain m where n: "n = Suc m" using assms(3) by (cases n) auto
  obtain f where f: "copy_fuel host = Suc f" "m \<le> f" using assms(2) n by (cases "copy_fuel host") auto
  have "stack_inv (stack_host host) stackClear" by (simp add: stackClear_def)
  then have "free_stack (stack_host host) stackClear (cells (Suc m) h (Obj t b))"
    by (simp add: free_stack_def on_stack_val_def stackGet_clear)
  then obtain w h1 st1 where w: "baseClone (Suc f) (copies host) True False None h (Obj t b) None stackClear = Some (w, h1, st1)"
    "take (length h) h1 = h" "apart n h1 w" "cells n h1 w \<subseteq> {length h..<length h1}" "tree_of n h1 w = tree_of n h (Obj t b)"
    using clone_cell_tree [OF clone_tree [OF assms(1) f(2)] assms(1), of h t b stackClear None] assms(3,4) n by auto
  have "w \<noteq> Undefined" using w(5) n assms(4) by auto
  then show ?thesis using w f(1) by (auto simp: copied_def clone_result_def)
qed

text \<open>The cases of a source value that is an array or object.\<close>

lemma target_cases:
  assumes c: "apart n h (Obj u b)" "\<not> opaque_tag u" and x: "apart n h x \<or> x = Undefined"
    and m: "mergeable (tree_of n h (Obj u b)) (if x = Undefined then old else Some (tree_of n h x))"
  shows "(\<exists>d. x = Obj u d \<and> merge_target host si h x (Obj u b) = Some (True, x, h)) \<or>
    (merge_target host si h x (Obj u b) = map_option (\<lambda>(v, h1). (False, v, h1)) (copied host h (Obj u b)) \<and>
     (x \<noteq> Undefined \<longrightarrow> merge_tree (tree_of n h (Obj u b)) (Some (tree_of n h x)) = Some (tree_of n h (Obj u b))))"
proof -
  obtain k where n: "n = Suc k" using c(1) by (cases n) auto
  have b: "b < length h" "tree_cell u (h ! b)" "tidy (h ! b)" using c n by auto
  note tb = cell_tests [OF b]
  show ?thesis
  proof (cases "isObject x")
    case False
    then have "merge_target host si h x (Obj u b) = map_option (\<lambda>(v, h1). (False, v, h1)) (copied host h (Obj u b))"
      using prim_tests [OF False] tb by (auto simp: merge_target_def)
    moreover have "merge_tree (tree_of n h (Obj u b)) (Some (tree_of n h x)) = Some (tree_of n h (Obj u b))"
      using False n c(2) by (cases x; cases "h ! b") auto
    ultimately show ?thesis by blast
  next
    case True
    then obtain t d where xo: "x = Obj t d" by (cases x) auto
    then have tm: "mergeable (tree_of n h (Obj u b)) (Some (tree_of n h (Obj t d)))" "apart n h (Obj t d)" using m x by auto
    have "\<not> opaque_tag t" using tm n c(2) True xo by (cases "h ! b") auto
    then have d: "d < length h" "tree_cell t (h ! d)" "tidy (h ! d)" using tm(2) n by auto
    note td = cell_tests [OF d]
    have "\<not> (t = ArrayTag \<and> u = ObjectTag)" using tm(1) n c(2) \<open>\<not> opaque_tag t\<close> b(2) d(2) by (cases "h ! b"; cases "h ! d") auto
    then consider "t = u" | "t = ObjectTag" "u = ArrayTag" using tb(8) td(8) by blast
    then show ?thesis
    proof cases
      case 1
      then show ?thesis using tb td xo by (auto simp: merge_target_def)
    next
      case 2
      then have "merge_target host si h x (Obj u b) = map_option (\<lambda>(v, h1). (False, v, h1)) (copied host h (Obj u b))"
        using tb td xo by (auto simp: merge_target_def)
      moreover have "merge_tree (tree_of n h (Obj u b)) (Some (tree_of n h x)) = Some (tree_of n h (Obj u b))"
        using 2 n xo b(2) d(2) by (cases "h ! b"; cases "h ! d") auto
      ultimately show ?thesis by blast
    qed
  qed
qed

text \<open>A value of the source merged into the one at its place.\<close>

lemma merge_common:
  assumes F: "merge_spec host n F" and o: "apart (Suc n) h (Obj t a)" "\<not> opaque_tag t" "takes_key (h ! a) key"
    and c: "apart n h (Obj u b)" "\<not> opaque_tag u" "cells n h (Obj u b) \<inter> cells (Suc n) h (Obj t a) = {}"
    and x: "get_prop h (Obj t a) (key_name key) = Obj u d"
    and st: "idle (stack_host host) st (cells n h (Obj u b))"
    and m: "mergeable (tree_of n h (Obj u b)) (get_tree key (tree_of (Suc n) h (Obj t a)))"
  shows "\<exists>h3 st3. F (Obj u d) (Obj u b) h (stackSet (stack_host host) st (Obj u b) (Obj u d)) = Some (h3, st3) \<and>
    restored (stack_host host) st (snd (stackDelete (stack_host host) st3 (Obj u b))) \<and>
    merged (Suc n) h (Obj t a) (assignMergeValue h3 (Obj t a) key (Obj u d))
      (put_tree key (merge_tree (tree_of n h (Obj u b)) (get_tree key (tree_of (Suc n) h (Obj t a)))) (tree_of (Suc n) h (Obj t a)))"
proof -
  let ?x = "Obj u d" and ?c = "Obj u b" and ?T = "tree_of (Suc n) h (Obj t a)" and ?i = "key_pos (h ! a) key" and ?vs = "node_vals (h ! a)"
  have a: "a < length h" "tree_cell t (h ! a)" "tidy (h ! a)" using o by auto
  note get = get_key [OF a o(3)]
  have i: "?i < length ?vs" "?vs ! ?i = ?x" using x get(1) by (auto split: if_splits)
  note xc = apart_children [OF o(1,2) nth_mem [OF i(1)], unfolded i(2)]
  have T: "get_tree key ?T = Some (tree_of n h ?x)" using get(4) [of "tree_of n h"] i o(2) by simp
  have "b \<in> cells n h ?c" "b \<notin> cells n h ?c - {b}" using c(1,2) by (cases n; simp)+
  then have "idle (stack_host host) (stackSet (stack_host host) st ?c ?x) (cells n h ?c - {b})"
    using idle_set [OF st c(2), of b "cells n h ?c - {b}"] by blast
  moreover have "cells n h ?x \<inter> cells n h ?c = {}" using c(3) xc(3) by blast
  ultimately obtain h3 st3 where F1: "F ?x ?c h (stackSet (stack_host host) st ?c ?x) = Some (h3, st3)"
      "restored (stack_host host) (stackSet (stack_host host) st ?c ?x) st3"
      "merged n h ?x h3 (the (merge_tree (tree_of n h ?c) (Some (tree_of n h ?x))))"
    using F xc(1) c(1,2) m T unfolding merge_spec_def by metis
  have inv: "stack_inv (stack_host host) st" using st by (simp add: idle_def free_stack_def)
  have h3: "length h \<le> length h3" "\<And>b. b < length h \<Longrightarrow> b \<notin> cells n h ?x \<Longrightarrow> h3 ! b = h ! b" "apart n h3 ?x"
      "cells n h3 ?x \<subseteq> cells n h ?x \<union> {length h..<length h3}"
      "tree_of n h3 ?x = the (merge_tree (tree_of n h ?c) (Some (tree_of n h ?x)))"
    using F1(3) by (simp_all add: merged_def)
  note ch = change_child [OF o i(1), unfolded i(2), OF h3(1-4)]
  have "h3 ! a = h ! a" using h3(2) a(1) xc(2) by blast
  then have "get_prop h3 (Obj t a) (key_name key) = ?x"
    using get_key(1) [of a h3 t key] a o(3) h3(1) i by simp
  then have "assignMergeValue h3 (Obj t a) key ?x = h3" by (simp add: assignMergeValue_def)
  moreover have "merge_tree (tree_of n h ?c) (Some (tree_of n h ?x)) = Some (tree_of n h3 ?x)"
    using h3(5) c(1,2) by (cases n; cases "h ! b") auto
  moreover have "h3 ! e = h ! e" if "e < length h" "e \<notin> cells (Suc n) h (Obj t a)" for e using that h3(2) xc(3) by blast
  ultimately show ?thesis using F1(1) leave_set [OF inv F1(2)] ch h3(1) T unfolding merged_def
    by (auto simp del: cells.simps apart.simps tree_of.simps)
qed

lemma norm_undef [simp]: "val_norm c = Undefined \<longleftrightarrow> c = Undefined"
  by (cases c) auto

lemma merge_step_ok:
  assumes F: "merge_spec host n F" and host: "buffers_typed (copies host)" "n \<le> copy_fuel host"
    and o: "apart (Suc n) h (Obj t a)" "\<not> opaque_tag t" "takes_key (h ! a) key"
    and c: "get_prop h source (key_name key) = c" "apart n h c" "cells n h c \<inter> cells (Suc n) h (Obj t a) = {}"
    and st: "idle (stack_host host) st (cells n h c)"
  defines "T \<equiv> tree_of (Suc n) h (Obj t a)"
  assumes m: "mergeable (tree_of n h c) (get_tree key T)"
  shows "\<exists>h1 st1. merge_step host F None si (Obj t a) source key h st = Some (h1, st1) \<and> restored (stack_host host) st st1 \<and>
    merged (Suc n) h (Obj t a) h1 (put_tree key (merge_tree (tree_of n h c) (get_tree key T)) T)"
proof -
  have a: "a < length h" "tree_cell t (h ! a)" "tidy (h ! a)" using o by auto
  note get = get_key [OF a o(3)]
  let ?i = "key_pos (h ! a) key" and ?vs = "node_vals (h ! a)" and ?x = "get_prop h (Obj t a) (key_name key)"
  have T: "T = node_tree (tree_of n h) (h ! a)" using o(2) by (simp add: T_def)
  have leaf: "merged (Suc n) h (Obj t a) (assignMergeValue h (Obj t a) key c) (put_tree key (merge_tree (tree_of n h c) (get_tree key T)) T)"
    if "tree_of n h c = LeafT (val_norm c)" "cells n h c = {}"
    using that assign_merged [OF o _ c(2)] unfolding T_def by (auto split: if_splits)
  show ?thesis
  proof (cases "\<exists>u b. c = Obj u b \<and> \<not> opaque_tag u")
    case False
    then have l: "tree_of n h c = LeafT (val_norm c)" "cells n h c = {}" using c(2) by (cases n; cases c; auto)+
    have "merge_step host F None si (Obj t a) source key h st = Some (assignMergeValue h (Obj t a) key c, st)"
    proof (cases "isObject c")
      case True
      then obtain u b where "c = Obj u b" "opaque_tag u" using False by (cases c) auto
      then show ?thesis using True c(1) target_opaque idle_get [OF st, of b u]
        by (simp add: merge_step_def baseMergeDeep_def customized_def Let_def)
    qed (use c(1) in \<open>simp add: merge_step_def customized_def\<close>)
    then show ?thesis using leaf [OF l] by simp
  next
    case True
    then obtain u b where cb: "c = Obj u b" "\<not> opaque_tag u" by blast
    obtain k where n: "n = Suc k" using c(2) by (cases n) auto
    have "b \<in> cells n h c" using cb n by simp
    then have free: "\<not> truthy (stackGet (stack_host host) st c)" using idle_get [OF st] cb by simp
    have x: "apart n h ?x \<or> ?x = Undefined" "get_tree key T = (if ?i < length ?vs then Some (tree_of n h ?x) else None)"
      using get T apart_children(1) [OF o(1,2)] by (auto split: if_splits)
    have mx: "mergeable (tree_of n h (Obj u b)) (if ?x = Undefined then get_tree key T else Some (tree_of n h ?x))"
      using m cb(1) get(1) x(2) by (auto split: if_splits)
    have isO: "isObject c" using cb(1) by (simp add: isObject_def)
    have run: "merge_step host F None si (Obj t a) source key h st =
      (case merge_target host si h ?x c of None \<Rightarrow> None
       | Some (isCommon, newValue, h2) \<Rightarrow>
           if isCommon then (case F newValue c h2 (stackSet (stack_host host) st c newValue) of None \<Rightarrow> None
             | Some (h3, st3) \<Rightarrow> Some (assignMergeValue h3 (Obj t a) key newValue, snd (stackDelete (stack_host host) st3 c)))
           else Some (assignMergeValue h2 (Obj t a) key newValue, st))"
      using free c(1) isO by (simp add: merge_step_def baseMergeDeep_def customized_def Let_def)
    note cases = target_cases [OF c(2)[unfolded cb(1)] cb(2) x(1) mx, of host si]
    have undef: "merge_tree (tree_of n h c) (get_tree key T) = Some (tree_of n h c)" if "?x = Undefined"
      using that x(2) cb n tree_undef [OF c(2)] by (cases "h ! b") auto
    from cases show ?thesis
    proof (elim disjE exE conjE)
      fix d assume d: "?x = Obj u d" "merge_target host si h ?x (Obj u b) = Some (True, ?x, h)"
      obtain h3 st3 where F1: "F (Obj u d) (Obj u b) h (stackSet (stack_host host) st (Obj u b) (Obj u d)) = Some (h3, st3)"
        "restored (stack_host host) st (snd (stackDelete (stack_host host) st3 (Obj u b)))"
        "merged (Suc n) h (Obj t a) (assignMergeValue h3 (Obj t a) key (Obj u d)) (put_tree key (merge_tree (tree_of n h (Obj u b)) (get_tree key T)) T)"
        using merge_common [OF F o c(2)[unfolded cb(1)] cb(2) _ d(1)] c(3) st m cb(1) unfolding T_def by blast
      then show ?thesis using run d cb(1) by simp
    next
      assume t: "merge_target host si h ?x (Obj u b) = map_option (\<lambda>(v, h1). (False, v, h1)) (copied host h (Obj u b))"
        "?x \<noteq> Undefined \<longrightarrow> merge_tree (tree_of n h (Obj u b)) (Some (tree_of n h ?x)) = Some (tree_of n h (Obj u b))"
      obtain w h1 where w: "copied host h (Obj u b) = Some (w, h1)" "take (length h) h1 = h" "apart n h1 w"
          "cells n h1 w \<subseteq> {length h..<length h1}" "tree_of n h1 w = tree_of n h (Obj u b)" "w \<noteq> Undefined"
        using copied_tree [OF host c(2)[unfolded cb(1)] cb(2)] by blast
      have "merge_tree (tree_of n h c) (get_tree key T) = Some (tree_of n h c)"
        using undef t(2) x(2) get(1) cb(1) by (cases "?x = Undefined") auto
      then show ?thesis using run t(1) w cb(1) assign_merged [OF o w(2-4)] unfolding T_def by simp
    qed
  qed
qed

section \<open>The loop over a source\<close>

fun fits_tree :: "merge_key \<Rightarrow> tree \<Rightarrow> bool" where
  "fits_tree (NumK i) (ArrT ts) = (i \<le> length ts \<and> int i < MAX_ARRAY_LENGTH)"
| "fits_tree (NameK k) (ObjT g) = (is_string_key k \<and> k \<noteq> length_key \<and> k \<noteq> PStr ''constructor'' \<and> k \<noteq> PStr ''__wrapped__'')"
| "fits_tree key T = False"

fun fits_all :: "merge_key list \<Rightarrow> tree \<Rightarrow> bool" where
  "fits_all [] T = True"
| "fits_all (key # ks) T = (fits_tree key T \<and> (\<forall>x. fits_all ks (put_tree key x T)))"

lemma takes_fits: "takes_key n key \<longleftrightarrow> fits_tree key (node_tree f n)"
  by (cases n; cases key) auto

lemma get_put_tree: "fits_tree key1 T \<Longrightarrow> key \<noteq> key1 \<Longrightarrow> get_tree key (put_tree key1 x T) = get_tree key T"
  by (cases key; cases key1; cases T) (auto simp: nth_append)

lemma fits_names: "(\<And>k. k \<in> set ks \<Longrightarrow> fits_tree (NameK k) (ObjT g)) \<Longrightarrow> fits_all (map NameK ks) (ObjT g)"
  by (induction ks arbitrary: g) auto

lemma fits_nums: "j \<le> length ts \<Longrightarrow> int l \<le> MAX_ARRAY_LENGTH \<Longrightarrow> fits_all (map NumK [j..<l]) (ArrT ts)"
proof (induction "l - j" arbitrary: j ts)
  case (Suc d)
  then have j: "j < l" "[j..<l] = j # [Suc j..<l]" by (simp_all add: upt_conv_Cons)
  show ?case using Suc.hyps(1) [of "Suc j"] Suc.hyps(2) Suc.prems j by auto
qed simp

definition merge_at :: "(merge_key \<Rightarrow> tree) \<Rightarrow> merge_key \<Rightarrow> tree \<Rightarrow> tree" where
  "merge_at S key T = put_tree key (merge_tree (S key) (get_tree key T)) T"

lemma merge_loop_ok:
  assumes F: "merge_spec host n F" and host: "buffers_typed (copies host)" "n \<le> copy_fuel host"
    and t: "\<not> opaque_tag t"
    and s: "s < length h0" "node_proto (h0 ! s) = None" "C \<subseteq> {..<length h0}"
  shows "apart (Suc n) h (Obj t a) \<Longrightarrow> length h0 \<le> length h \<Longrightarrow> (\<And>e. e \<in> insert s C \<Longrightarrow> h ! e = h0 ! e) \<Longrightarrow>
    cells (Suc n) h (Obj t a) \<inter> insert s C = {} \<Longrightarrow> fits_all ks (tree_of (Suc n) h (Obj t a)) \<Longrightarrow> distinct ks \<Longrightarrow>
    (\<And>key. key \<in> set ks \<Longrightarrow> apart n h0 (get_prop h0 (Obj u s) (key_name key)) \<and> cells n h0 (get_prop h0 (Obj u s) (key_name key)) \<subseteq> C \<and>
       mergeable (tree_of n h0 (get_prop h0 (Obj u s) (key_name key))) (get_tree key (tree_of (Suc n) h (Obj t a)))) \<Longrightarrow>
    idle (stack_host host) st C \<Longrightarrow>
    \<exists>h1 st1. merge_loop (merge_step host F None si (Obj t a) (Obj u s)) ks h st = Some (h1, st1) \<and> restored (stack_host host) st st1 \<and>
      merged (Suc n) h (Obj t a) h1
        (fold (merge_at (\<lambda>key. tree_of n h0 (get_prop h0 (Obj u s) (key_name key)))) ks (tree_of (Suc n) h (Obj t a)))"
proof (induction ks arbitrary: h st)
  case Nil
  then show ?case by (auto simp: merged_def)
next
  case (Cons key ks)
  let ?o = "Obj t a" and ?S = "\<lambda>key. get_prop h0 (Obj u s) (key_name key)" and ?c = "get_prop h0 (Obj u s) (key_name key)"
  let ?T = "tree_of (Suc n) h ?o"
  have tk: "takes_key (h ! a) key" using Cons.prems(5) takes_fits [of "h ! a" key "tree_of n h"] t by simp
  have hs: "h ! s = h0 ! s" "s < length h" using Cons.prems(2,3) s(1) by auto
  have get: "get_prop h (Obj u s) (key_name key) = ?c"
    using get_flat [of h s u "key_name key"] get_flat [OF s(2,1), of u "key_name key"] hs s(2) by simp
  have c0: "apart n h0 ?c" "cells n h0 ?c \<subseteq> C" "mergeable (tree_of n h0 ?c) (get_tree key ?T)" using Cons.prems(7) [of key] by simp_all
  have c: "apart n h ?c" "cells n h ?c = cells n h0 ?c" "tree_of n h ?c = tree_of n h0 ?c"
    using apart_frame [OF c0(1), of h] Cons.prems(2,3) c0(2) by blast+
  have "idle (stack_host host) st (cells n h ?c)" using Cons.prems(8) c(2) c0(2) free_stack_mono unfolding idle_def by metis
  moreover have "cells n h ?c \<inter> cells (Suc n) h ?o = {}" using Cons.prems(4) c(2) c0(2) by blast
  ultimately obtain h1 st1 where h1: "merge_step host F None si ?o (Obj u s) key h st = Some (h1, st1)" "restored (stack_host host) st st1"
      "merged (Suc n) h ?o h1 (merge_at (\<lambda>key. tree_of n h0 (?S key)) key ?T)"
    using merge_step_ok [OF F host Cons.prems(1) t tk get c(1)] c0(3) c(3) unfolding merge_at_def by metis
  have m: "length h \<le> length h1" "\<And>e. e < length h \<Longrightarrow> e \<notin> cells (Suc n) h ?o \<Longrightarrow> h1 ! e = h ! e" "apart (Suc n) h1 ?o"
      "cells (Suc n) h1 ?o \<subseteq> cells (Suc n) h ?o \<union> {length h..<length h1}" "tree_of (Suc n) h1 ?o = merge_at (\<lambda>key. tree_of n h0 (?S key)) key ?T"
    using h1(3) by (simp_all add: merged_def del: cells.simps apart.simps tree_of.simps)
  have sC: "insert s C \<subseteq> {..<length h0}" using s(1,3) by simp
  have keep: "h1 ! e = h0 ! e" if "e \<in> insert s C" for e
    using m(2) [of e] that Cons.prems(2-4) sC by (metis (no_types, lifting) IntI empty_iff lessThan_iff less_le_trans subset_iff)
  have disj: "cells (Suc n) h1 ?o \<inter> insert s C = {}"
    using m(4) Cons.prems(2,4) sC by (fastforce simp del: cells.simps)
  have "fits_all ks (tree_of (Suc n) h1 ?o)" using Cons.prems(5) m(5) by (simp add: merge_at_def del: tree_of.simps)
  moreover have "get_tree k (tree_of (Suc n) h1 ?o) = get_tree k ?T" if "k \<in> set ks" for k
    using that get_put_tree [of key ?T k] Cons.prems(5,6) m(5) by (auto simp: merge_at_def simp del: tree_of.simps)
  ultimately obtain h2 st2 where h2: "merge_loop (merge_step host F None si ?o (Obj u s)) ks h1 st1 = Some (h2, st2)"
      "restored (stack_host host) st1 st2" "merged (Suc n) h1 ?o h2 (fold (merge_at (\<lambda>key. tree_of n h0 (?S key))) ks (tree_of (Suc n) h1 ?o))"
    using Cons.IH [OF m(3) _ keep disj, of st1] Cons.prems(2,6,7) m(1) idle_restored [OF Cons.prems(8) h1(2)] by (auto simp del: tree_of.simps cells.simps apart.simps)
  have "merged (Suc n) h ?o h2 (fold (merge_at (\<lambda>key. tree_of n h0 (?S key))) ks (tree_of (Suc n) h1 ?o))"
    by (rule merged_trans [OF h1(3) h2(3)])
  then show ?case using h1(1) h2(1) restored_trans [OF h1(2) h2(2)] m(5) by (simp del: tree_of.simps)
qed

lemma fold_names:
  "distinct ks \<Longrightarrow> fold (merge_at S) (map NameK ks) (ObjT g) = ObjT (\<lambda>k. if k \<in> set ks then merge_tree (S (NameK k)) (g k) else g k)"
proof (induction ks arbitrary: g)
  case (Cons k ks)
  then show ?case by (auto simp: merge_at_def fun_eq_iff)
qed simp

lemma fold_nums: "fold (merge_at S) (map NumK [0..<l]) (ArrT ts) = ArrT (merge_elems (map (\<lambda>i. merge_tree (S (NumK i))) [0..<l]) ts)"
proof (induction l)
  case 0
  then show ?case by (auto simp: merge_elems_def intro!: nth_equalityI)
next
  case (Suc l)
  show ?case
  proof (cases "l < length ts")
    case True
    then show ?thesis using Suc by (auto simp: merge_at_def merge_elems_def nth_list_update nth_append Let_def less_Suc_eq intro!: nth_equalityI)
  next
    case False
    then show ?thesis using Suc by (auto simp: merge_at_def merge_elems_def Let_def nth_append less_Suc_eq max_def intro!: nth_equalityI)
  qed
qed

section \<open>Merging separate trees\<close>

text \<open>The keys of a source, and what it has at them.\<close>

lemma source_keys:
  assumes "b < length h" "tree_cell t (h ! b)" "tidy (h ! b)"
  shows "distinct (merge_keys h (Obj t b))" "key \<in> set (merge_keys h (Obj t b)) \<Longrightarrow> get_prop h (Obj t b) (key_name key) \<in> set (node_vals (h ! b))"
proof -
  have "distinct (merge_keys h (Obj t b)) \<and> (key \<in> set (merge_keys h (Obj t b)) \<longrightarrow> get_prop h (Obj t b) (key_name key) \<in> set (node_vals (h ! b)))"
    using assms(2,3)
  proof (cases rule: cell_cases)
    case (arr es)
    note c = array_cell [OF arr(1) assms(1) arr(3)]
    have "merge_keys h (Obj t b) = map NumK [0..<length es]" using arr(2) c(1) by (simp add: merge_keys_def isArray_def)
    then show ?thesis using c(2) arr(1,2) by (auto simp: distinct_map inj_on_def)
  next
    case (obj ps)
    then have p: "plain (h ! b)" by simp
    have "merge_keys h (Obj t b) = map NameK (string_keys (h ! b))"
      using keysIn_plain [OF p assms(1)] cell_tests [OF assms] obj(2) by (simp add: merge_keys_def)
    moreover have "distinct (string_keys (h ! b))" using obj by (simp add: string_keys_def distinct_filter)
    ultimately show ?thesis using object_cell(4) [OF p assms(1)] obj(2) by (auto simp: distinct_map inj_on_def)
  qed
  then show "distinct (merge_keys h (Obj t b))" "key \<in> set (merge_keys h (Obj t b)) \<Longrightarrow> get_prop h (Obj t b) (key_name key) \<in> set (node_vals (h ! b))"
    by auto
qed

text \<open>The loop computes the merge of the trees.\<close>

lemma source_merge:
  fixes n :: nat
  assumes a: "a < length h" "tree_cell t (h ! a)" "tidy (h ! a)" and b: "b < length h" "tree_cell t (h ! b)" "tidy (h ! b)"
    and op: "\<not> opaque_tag t"
  defines "S \<equiv> \<lambda>key. tree_of n h (get_prop h (Obj t b) (key_name key))" and "T \<equiv> tree_of (Suc n) h (Obj t a)"
    and "ks \<equiv> merge_keys h (Obj t b)"
  shows "fits_all ks T" "fold (merge_at S) ks T = the (merge_tree (tree_of (Suc n) h (Obj t b)) (Some T))"
    "mergeable (tree_of (Suc n) h (Obj t b)) (Some T) \<Longrightarrow> key \<in> set ks \<Longrightarrow> mergeable (S key) (get_tree key T)"
proof -
  have "fits_all ks T \<and> fold (merge_at S) ks T = the (merge_tree (tree_of (Suc n) h (Obj t b)) (Some T)) \<and>
    (mergeable (tree_of (Suc n) h (Obj t b)) (Some T) \<longrightarrow> key \<in> set ks \<longrightarrow> mergeable (S key) (get_tree key T))"
    using b(2,3)
  proof (cases rule: cell_cases)
    case (arr es)
    note c = array_cell [OF arr(1) b(1) arr(3)]
    have ks: "ks = map NumK [0..<length es]" using arr(2) c(1) by (simp add: ks_def merge_keys_def isArray_def)
    obtain fs where T: "T = ArrT fs" using a(2) arr(2) op by (cases "h ! a") (auto simp: T_def)
    have S: "S (NumK i) = tree_of n h (elem_val (es ! i))" if "i < length es" for i using that c(2) arr(2) by (simp add: S_def)
    have tb: "tree_of (Suc n) h (Obj t b) = ArrT (map (\<lambda>i. S (NumK i)) [0..<length es])"
      using arr op S by (auto intro!: nth_equalityI)
    have "fits_all ks T" using ks T fits_nums [of 0 fs "length es"] arr(3) by simp
    moreover have "fold (merge_at S) ks T = the (merge_tree (tree_of (Suc n) h (Obj t b)) (Some T))"
      unfolding ks T tb by (simp add: fold_nums comp_def)
    moreover have "mergeable (S key) (get_tree key T)" if "mergeable (tree_of (Suc n) h (Obj t b)) (Some T)" "key \<in> set ks"
      using that T ks unfolding tb by auto
    ultimately show ?thesis by blast
  next
    case (obj ps)
    then have p: "plain (h ! b)" by simp
    have str: "string_keys (h ! b) = map fst ps" using obj(1,4) by (simp add: string_keys_def list_all_iff filter_id_conv)
    have ks: "ks = map NameK (map fst ps)"
      using keysIn_plain [OF p b(1)] str cell_tests [OF b] obj(2) by (simp add: ks_def merge_keys_def)
    obtain g where T: "T = ObjT g" using a(2) obj(2) op by (cases "h ! a") (auto simp: T_def)
    have S: "map_of ps k = Some v \<Longrightarrow> S (NameK k) = tree_of n h v" for k v using object_cell(2) [OF p b(1)] obj(1,2) by (simp add: S_def)
    have strk: "map_of ps k = Some v \<Longrightarrow> is_string_key k" for k v using obj(4) by (force simp: list_all_iff dest: map_of_SomeD)
    let ?f = "\<lambda>k. if k \<in> fst ` set ps then Some (S (NameK k)) else None"
    have "(if is_string_key k then map_option (tree_of n h) (map_of ps k) else None) = ?f k" for k
      using S strk by (cases "map_of ps k") (force simp: map_of_eq_None_iff dest: map_of_SomeD)+
    then have tb: "tree_of (Suc n) h (Obj t b) = ObjT ?f" using obj(1) op by (simp add: fun_eq_iff)
    have "fits_tree (NameK k) (ObjT g)" if "k \<in> set (map fst ps)" for k
      using that strk [of k] obj(5-7) by (cases "map_of ps k") (auto simp: map_of_eq_None_iff [of ps k])
    then have "fits_all ks T" unfolding ks T by (rule fits_names)
    moreover have "fold (merge_at S) ks T = the (merge_tree (tree_of (Suc n) h (Obj t b)) (Some T))"
      unfolding ks T tb fold_names [OF obj(3)] by (auto simp: merge_fields_def fun_eq_iff)
    moreover have "mergeable (S key) (get_tree key T)" if "mergeable (tree_of (Suc n) h (Obj t b)) (Some T)" "key \<in> set ks"
    proof -
      note hyps = that
      obtain k where k: "key = NameK k" "k \<in> fst ` set ps" using hyps(2) ks by auto
      have "case (map_option mergeable \<circ> ?f) k of None \<Rightarrow> True | Some m \<Rightarrow> m (g k)" using hyps(1) T unfolding tb by simp
      then show ?thesis using k T by simp
    qed
    ultimately show ?thesis by blast
  qed
  then show "fits_all ks T" "fold (merge_at S) ks T = the (merge_tree (tree_of (Suc n) h (Obj t b)) (Some T))"
    "mergeable (tree_of (Suc n) h (Obj t b)) (Some T) \<Longrightarrow> key \<in> set ks \<Longrightarrow> mergeable (S key) (get_tree key T)" by auto
qed

lemma baseMerge_ok:
  assumes host: "buffers_typed (copies host)"
  shows "n \<le> m \<Longrightarrow> n \<le> Suc (copy_fuel host) \<Longrightarrow> merge_spec host n (baseMerge m host si None)"
proof (induction n arbitrary: m)
  case (Suc n)
  then obtain m1 where m: "m = Suc m1" "n \<le> m1" by (cases m) auto
  have F: "merge_spec host n (baseMerge m1 host si None)" using Suc.IH m(2) Suc.prems(2) by simp
  show ?case unfolding merge_spec_def
  proof (intro allI impI)
    fix h st t a b
    assume o: "apart (Suc n) h (Obj t a)" "\<not> opaque_tag t" and s: "apart (Suc n) h (Obj t b)"
      and d: "cells (Suc n) h (Obj t a) \<inter> cells (Suc n) h (Obj t b) = {}"
      and mg: "mergeable (tree_of (Suc n) h (Obj t b)) (Some (tree_of (Suc n) h (Obj t a)))"
      and st: "idle (stack_host host) st (cells (Suc n) h (Obj t b) - {b})"
    have a: "a < length h" "tree_cell t (h ! a)" "tidy (h ! a)" and b: "b < length h" "tree_cell t (h ! b)" "tidy (h ! b)"
      using o s by auto
    have neq: "a \<noteq> b" using d o(2) by auto
    let ?C = "cells (Suc n) h (Obj t b) - {b}" and ?ks = "merge_keys h (Obj t b)"
    have flat: "node_proto (h ! b) = None" using b(2) by (cases "h ! b") (auto elim: plain.elims)
    have C: "?C \<subseteq> {..<length h}" using cells_bound [OF s] by blast
    have bC: "insert b ?C = cells (Suc n) h (Obj t b)" using o(2) by auto
    note sk = source_keys [OF b] and sm = source_merge [OF a b o(2), of n]
    have child: "apart n h (get_prop h (Obj t b) (key_name key)) \<and> cells n h (get_prop h (Obj t b) (key_name key)) \<subseteq> ?C \<and>
        mergeable (tree_of n h (get_prop h (Obj t b) (key_name key))) (get_tree key (tree_of (Suc n) h (Obj t a)))" if "key \<in> set ?ks" for key
      using apart_children [OF s o(2) sk(2) [OF that]] sm(3) [OF mg that] by blast
    have "n \<le> copy_fuel host" using Suc.prems(2) by simp
    from merge_loop_ok [OF F host this o(2) b(1) flat C o(1) le_refl refl, of ?ks t st si] d bC sm(1) sk(1) child st
    obtain h1 st1 where "merge_loop (merge_step host (baseMerge m1 host si None) None si (Obj t a) (Obj t b)) ?ks h st = Some (h1, st1)"
      "restored (stack_host host) st st1" "merged (Suc n) h (Obj t a) h1
        (fold (merge_at (\<lambda>key. tree_of n h (get_prop h (Obj t b) (key_name key)))) ?ks (tree_of (Suc n) h (Obj t a)))" by metis
    then show "\<exists>h1 st1. baseMerge m host si None (Obj t a) (Obj t b) h st = Some (h1, st1) \<and> restored (stack_host host) st st1 \<and>
        merged (Suc n) h (Obj t a) h1 (the (merge_tree (tree_of (Suc n) h (Obj t b)) (Some (tree_of (Suc n) h (Obj t a)))))"
      using m(1) neq sm(2) by (simp del: tree_of.simps)
  qed
qed (simp add: merge_spec_def)

text \<open>Sources one after the other.\<close>

fun mergeable_all :: "tree list \<Rightarrow> tree \<Rightarrow> bool" where
  "mergeable_all [] T = True"
| "mergeable_all (s # ss) T = (mergeable s (Some T) \<and> mergeable_all ss (the (merge_tree s (Some T))))"

definition merge_trees :: "tree list \<Rightarrow> tree \<Rightarrow> tree" where
  "merge_trees ss T = fold (\<lambda>s U. the (merge_tree s (Some U))) ss T"

lemma merge_sources_ok:
  assumes host: "buffers_typed (copies host)" "n \<le> m" "n \<le> Suc (copy_fuel host)" and t: "\<not> opaque_tag t"
  shows "apart n h (Obj t a) \<Longrightarrow> (\<And>i b. (i, b) \<in> set ss \<Longrightarrow> apart n h (Obj t b) \<and> cells n h (Obj t b) \<inter> cells n h (Obj t a) = {}) \<Longrightarrow>
    mergeable_all (map (\<lambda>(i, b). tree_of n h (Obj t b)) ss) (tree_of n h (Obj t a)) \<Longrightarrow>
    \<exists>h1. merge_sources m host None (Obj t a) (map (\<lambda>(i, b). (i, Obj t b)) ss) h = Some h1 \<and>
      merged n h (Obj t a) h1 (merge_trees (map (\<lambda>(i, b). tree_of n h (Obj t b)) ss) (tree_of n h (Obj t a)))"
proof (induction ss arbitrary: h)
  case Nil
  then show ?case by (auto simp: merged_def merge_trees_def)
next
  case (Cons s ss)
  obtain i b where s: "s = (i, b)" by (cases s)
  let ?o = "Obj t a" and ?T = "tree_of n h (Obj t a)" and ?S = "\<lambda>h. map (\<lambda>(i, b). tree_of n h (Obj t b)) ss"
  have b: "apart n h (Obj t b)" "cells n h ?o \<inter> cells n h (Obj t b) = {}" using Cons.prems(2) [of i b] s by auto
  have "stack_inv (stack_host host) stackClear" by (simp add: stackClear_def)
  then have "idle (stack_host host) stackClear C" for C by (simp add: idle_def free_stack_def on_stack_val_def stackGet_clear)
  moreover have "mergeable (tree_of n h (Obj t b)) (Some ?T)" using Cons.prems(3) s by simp
  ultimately obtain h1 st1 where h1: "baseMerge m host i None ?o (Obj t b) h stackClear = Some (h1, st1)"
      "merged n h ?o h1 (the (merge_tree (tree_of n h (Obj t b)) (Some ?T)))"
    using baseMerge_ok [OF host, of i, unfolded merge_spec_def, rule_format, OF Cons.prems(1) t b] by blast
  have m: "length h \<le> length h1" "\<And>e. e < length h \<Longrightarrow> e \<notin> cells n h ?o \<Longrightarrow> h1 ! e = h ! e" "apart n h1 ?o"
      "cells n h1 ?o \<subseteq> cells n h ?o \<union> {length h..<length h1}" using h1(2) by (simp_all add: merged_def)
  have src: "apart n h1 (Obj t c) \<and> cells n h1 (Obj t c) \<inter> cells n h1 ?o = {} \<and> tree_of n h1 (Obj t c) = tree_of n h (Obj t c)"
    if "(j, c) \<in> set ss" for j c
  proof -
    have c: "apart n h (Obj t c)" "cells n h (Obj t c) \<inter> cells n h ?o = {}" using Cons.prems(2) that by auto
    then have "\<And>e. e \<in> cells n h (Obj t c) \<Longrightarrow> h1 ! e = h ! e" using m(2) cells_bound by blast
    note same = apart_frame [OF c(1) this m(1)]
    have "x \<notin> cells n h1 ?o" if "x \<in> cells n h (Obj t c)" for x
    proof -
      have "x < length h" "x \<notin> cells n h ?o" using that c cells_bound [OF c(1)] by blast+
      then show ?thesis using m(4) by fastforce
    qed
    then show ?thesis using same by blast
  qed
  then have same: "?S h1 = ?S h" by auto
  have T1: "tree_of n h1 ?o = the (merge_tree (tree_of n h (Obj t b)) (Some ?T))" using h1(2) by (simp add: merged_def)
  then have "mergeable_all (?S h1) (tree_of n h1 ?o)" using Cons.prems(3) unfolding s same by simp
  then obtain h2 where h2: "merge_sources m host None ?o (map (\<lambda>(i, b). (i, Obj t b)) ss) h1 = Some h2"
      "merged n h1 ?o h2 (merge_trees (?S h1) (tree_of n h1 ?o))"
    using Cons.IH [OF m(3)] src by blast
  have "merge_trees (map (\<lambda>(i, b). tree_of n h (Obj t b)) (s # ss)) ?T = merge_trees (?S h1) (tree_of n h1 ?o)"
    unfolding T1 same by (simp add: merge_trees_def s)
  then show ?case using h1(1) h2(1) s merged_trans [OF h1(2) h2(2)] by simp
qed

section \<open>Properties\<close>

text \<open>
  (C15) \<open>merge\<close> returns and computes the deep merge of trees. The target and the sources are of one kind, trees of arrays and
  plain objects on cells that the target shares with no source, and no object meets an array or a function. Afterwards the target is a tree
  again, its tree is that of the sources merged one after the other into the old one, and no cell outside of the target has changed.
\<close>

theorem merge_deep:
  assumes "buffers_typed (copies host)" "n \<le> m" "n \<le> Suc (copy_fuel host)" "\<not> opaque_tag t" "apart n h (Obj t a)"
    "\<And>b. b \<in> set bs \<Longrightarrow> apart n h (Obj t b) \<and> cells n h (Obj t b) \<inter> cells n h (Obj t a) = {}"
    "mergeable_all (map (\<lambda>b. tree_of n h (Obj t b)) bs) (tree_of n h (Obj t a))"
  shows "\<exists>h1. merge_js m host h (Obj t a) (map (Obj t) bs) = Some (Obj t a, h1) \<and> apart n h1 (Obj t a) \<and>
    tree_of n h1 (Obj t a) = merge_trees (map (\<lambda>b. tree_of n h (Obj t b)) bs) (tree_of n h (Obj t a)) \<and>
    (\<forall>e<length h. e \<notin> cells n h (Obj t a) \<longrightarrow> h1 ! e = h ! e)"
proof -
  have e: "map (\<lambda>(i, b). (i, Obj t b)) (enumerate 0 bs) = enumerate 0 (map (Obj t) bs)"
    "map (\<lambda>(i, b). tree_of n h (Obj t b)) (enumerate 0 bs) = map (\<lambda>b. tree_of n h (Obj t b)) bs"
    by (auto simp: enumerate_eq_zip zip_map2 intro!: nth_equalityI)
  have src: "apart n h (Obj t b) \<and> cells n h (Obj t b) \<inter> cells n h (Obj t a) = {}" if "(i, b) \<in> set (enumerate 0 bs)" for i b
    using that assms(6) by (auto simp: enumerate_eq_zip dest: set_zip_rightD)
  obtain h1 where "merge_sources m host None (Obj t a) (enumerate 0 (map (Obj t) bs)) h = Some h1"
    "merged n h (Obj t a) h1 (merge_trees (map (\<lambda>b. tree_of n h (Obj t b)) bs) (tree_of n h (Obj t a)))"
    using merge_sources_ok [OF assms(1-5), of "enumerate 0 bs"] src assms(7) unfolding e by blast
  then show ?thesis by (auto simp: merge_js_def mergeWith_def isNil_def merged_def)
qed

theorem merge_deep_witness:
  "\<exists>h1. merge_js 3 \<lparr>copies = \<lparr>caches = \<lparr>nativeCreate = True, nativeMap = True, nativeSet = True\<rparr>, nativeIsBuffer = (\<lambda>v. False),
        bufferCopy = (\<lambda>h v d. (v, h)), slotCopy = (\<lambda>t h v d. (v, h))\<rparr>, object_ctor = (\<lambda>v. False), copy_fuel = 2\<rparr>
      [ArrN [Some (Obj ArrayTag 1)] [], ArrN [Some (Bool True), Some Null] [],
       ArrN [Some (Obj ArrayTag 3), Some (Str ''x'')] [], ArrN [Some (Bool False)] []]
      (Obj ArrayTag 0) [Obj ArrayTag 2] = Some (Obj ArrayTag 0, h1) \<and>
    tree_of 3 h1 (Obj ArrayTag 0) = ArrT [ArrT [LeafT (Bool False), LeafT Null], LeafT (Str ''x'')]"
  (is "\<exists>h1. merge_js 3 ?host ?h _ _ = _ \<and> _")
proof -
  define h host where "h = ?h" and "host = ?host"
  have t: "apart 3 h (Obj ArrayTag 0)" "apart 3 h (Obj ArrayTag 2)" "cells 3 h (Obj ArrayTag 2) \<inter> cells 3 h (Obj ArrayTag 0) = {}"
    "tree_of 3 h (Obj ArrayTag 0) = ArrT [ArrT [LeafT (Bool True), LeafT Null]]"
    "tree_of 3 h (Obj ArrayTag 2) = ArrT [ArrT [LeafT (Bool False)], LeafT (Str ''x'')]"
    by (auto simp: h_def numeral_3_eq_3 MAX_ARRAY_LENGTH_def less_Suc_eq nth_Cons')
  have m: "mergeable_all [tree_of 3 h (Obj ArrayTag 2)] (tree_of 3 h (Obj ArrayTag 0))"
    "merge_trees [tree_of 3 h (Obj ArrayTag 2)] (tree_of 3 h (Obj ArrayTag 0)) =
      ArrT [ArrT [LeafT (Bool False), LeafT Null], LeafT (Str ''x'')]"
    unfolding t(4,5) by (auto simp: merge_trees_def merge_elems_def less_Suc_eq nth_Cons' upt_rec)
  have "\<exists>h1. merge_js 3 host h (Obj ArrayTag 0) (map (Obj ArrayTag) [2]) = Some (Obj ArrayTag 0, h1) \<and> apart 3 h1 (Obj ArrayTag 0) \<and>
    tree_of 3 h1 (Obj ArrayTag 0) = merge_trees (map (\<lambda>b. tree_of 3 h (Obj ArrayTag b)) [2]) (tree_of 3 h (Obj ArrayTag 0)) \<and>
    (\<forall>e<length h. e \<notin> cells 3 h (Obj ArrayTag 0) \<longrightarrow> h1 ! e = h ! e)"
    by (rule merge_deep) (use t m in \<open>simp_all add: host_def buffers_typed_def\<close>)
  then show ?thesis using m(2) unfolding h_def host_def by auto
qed

end
