(* ===== verification/Spec2Isabelle.thy ===== *)
theory Spec2Isabelle
  imports Chain JsLazy JsCollections JsCycles JsSuite JsFlow JsRound JsMerged
begin

text \<open>
  Verification of parts of Syscoin Core: the arithmetic and the block tree of the node, and the
  JavaScript libraries that the sources carry with the benchmarks of the immer containers.

  \<^bold>\<open>The program.\<close> The node is written in C++ (src/src). Its consensus code keeps a tree of block headers, each with
  its cumulative work as a 256-bit integer, and an active chain that is a path of that tree; everything above it (validation,
  network, wallet, masternodes) asks that tree for ancestors, forks and work. The JavaScript sources are
  src/src/immer/extra/js: index.js, a benchmark suite for the immer vectors, and the libraries it loads,
  benchmark.js (the runner), lodash.js (used by the runner), platform.js and mori.js.

  \<^bold>\<open>Theories.\<close>

  \<^item> Prelude: lemmas on lists, on words, on index loops, and the collections of simplification rules.
  \<^item> Arith256: base_uint of arith_uint256.h and arith_uint256.cpp as a list of eight 32-bit limbs. One definition per
    operator; the loops are recursions over the limbs. The lemmas show that the value of the result is the
    arithmetic result modulo 2 to the 256, that division is exact, and that the compact encoding SetCompact/GetCompact
    loses only the low bytes of the mantissa.
  \<^item> Blob: base_blob and uint256 of uint256.h and uint256.cpp, and UintToArith256/ArithToUint256.
  \<^item> Chain: CBlockIndex, CChain and the functions of chain.h and chain.cpp, and AddToBlockIndex of
    node/blockstorage.cpp. A pointer is the hash of its block and the memory a map from hashes to entries; a null dereference, a failed
    assertion and a height beyond 32 bits are error values. GetAncestor is shown equal to a plain walk, and every block manager
    reached by AddToBlockIndex from headers that do not name themselves as predecessors keeps the invariant of the tree. SetTip, FindFork and
    LastCommonAncestor run on fuel: the height of the block plus one, the length of its path, which the lemmas show to be enough.
  \<^item> JsValue: the values and numbers of JavaScript, equality, type tests and integer conversions of lodash.js. Numbers
    are NaN, the infinities, negative zero or an exact rational; the arithmetic is exact but for the code that rests on JsDouble.
  \<^item> JsCache: Hash, ListCache, MapCache, SetCache, Stack and memoize, for every combination of native facilities
    that the code branches on. The locale keyed_cache is the contract of a cache, interpreted for each of them.
  \<^item> JsArray and JsArrayApi: the loops over arrays and the array functions built on them. An array is a list, a
    falsy argument None; a read out of range gives undefined.
  \<^item> JsSets: uniq, difference, intersection, union, xor on the scan, cache and native set paths.
  \<^item> JsTimers: debounce and throttle as a state machine with the host's pending timers.
  \<^item> JsFunctions: counters, argument transformers, partial application, currying and the metadata of wrappers.
  \<^item> JsMath: arithmetic, relational operators, conversion to numbers, sums, extrema, ranges, times, random.
    The locale extremum_order is what baseExtremum needs of its comparator, interpreted for max and for min.
  \<^item> JsDouble: double precision numbers as the rationals they stand for: rounding to the nearest, ties to even, with overflow and
    gradual underflow, arithmetic with it, and the shortest decimal that reads as a double.
  \<^item> JsStrings: repetition, padding, escaping, trimming, truncation, on code units up to 255.
  \<^item> JsSorted: binary search, comparators, orderBy and sortBy. The sort method of the host is a parameter; its
    contract, that it sorts by consistent comparators, is a named hypothesis, and insertion sort meets it.
  \<^item> JsBenchmark: the statistics, cycles, listeners and the abort protocol of benchmark.js. The cycles compute in doubles.
  \<^item> JsLazy: chains of method calls on wrapped arrays in lodash.js and their lazy evaluation.
  \<^item> JsPaths: path strings and their keys. JsObjects: a store of arrays and objects, keys, and paths in it.
  \<^item> JsProps: assignment, picking, inverting and mapping of properties. JsCollections: traversal, aggregation and samples.
  \<^item> JsStore: typings of the store, kept by the operations of JsObjects and JsProps; the locale typed_assigner is what
    the assignment functions promise.
  \<^item> JsClone: deep copies. The fuel is the number of cells of the store plus one, since every level of the recursion but the last
    visits a new cell. JsEqual: deep comparison and matching, whose fuel is the height of the trees compared. JsCycles: a comparison of cyclic
    values that does not return. JsCopies: copies unfold to the same trees.
  \<^item> JsSuite: the invocation of methods on benchmarks and runs of suites, as steps of a machine. While an asynchronous benchmark runs,
    other code may change the suite; its completion is a step that the machine waits for.
  \<^item> JsFlow: composition of functions, the methods of wrappers, and small helpers. JsRound: rounding to decimal places,
    on doubles. That a function of a flow is a laziable method or a plain function is a constructor of its type here; the code reads it from
    names and metadata.
  \<^item> JsTests: type tests on values in the store. JsMerge: deep merging with its stack. JsApart: trees of the store that meet no cell
    twice, and what writes and copies do to them. JsMerged: merging of such trees returns and computes the deep merge; the fuel is the
    height of the trees.

  \<^bold>\<open>Loops.\<close> Loops over an index are functions with a measure. The binary search with a 32-bit shift and the cycles of a benchmark
  may run forever on their own; they are partial functions into option, with theorems that they return.

  \<^bold>\<open>Not modelled.\<close> The manifest lists every other part of the system with the reason. In short: code that is input and output, threads, or
  disk state (network, databases, RPC, graphical interface); code that rests on libraries outside the
  sources (signatures, the external EVM node, LevelDB); the script interpreter, the wallet and the mempool; mori.js, which is compiled
  code; and of lodash.js the template compiler, the functions on regular expressions and what depends on the host's object model.
\<close>

section \<open>Copies compare as equal\<close>

text \<open>
  (C14) A deep copy of a value that unfolds to a finite tree compares as equal to the value, in the store that the copy
  leaves.
\<close>

theorem cloneDeep_isEqual:
  assumes "copy_graph cenv ts h" "val_ok ts v" "copied_val v" "length h < m" "tree_ok n h v"
  shows "\<exists>w h1. cloneDeep m cenv h v = Some (w, h1) \<and> isEqual n env h1 v w = Some True"
proof -
  obtain f h1 where c: "cloneDeep m cenv h v = Some (copy_val f v, h1)" "take (length h) h1 = h"
    "\<And>a. leads_to h v a \<Longrightarrow> f a < length h1 \<and> h1 ! f a = copy_node f (h ! a)"
    using cloneDeep_graph [OF assms(1-4)] by blast
  then show ?thesis
    using isEqual_tree [of n h1 v "copy_val f v" env] tree_copy [OF assms(5) c(3)] tree_prefix [OF c(2) assms(5)] by auto
qed

theorem cloneDeep_isEqual_witness:
  "\<exists>w h1. cloneDeep 4 \<lparr>caches = \<lparr>nativeCreate = True, nativeMap = True, nativeSet = True\<rparr>, nativeIsBuffer = (\<lambda>v. False),
        bufferCopy = (\<lambda>h v d. (v, h)), slotCopy = (\<lambda>t h v d. (v, h))\<rparr>
      [ArrN [Some (Obj ObjectTag 1), None, Some (Obj ObjectTag 1)] [], ObjN [(PStr ''f'', Obj FuncTag 2), (PStr ''n'', Num NaN)] None, ObjN [] None]
      (Obj ArrayTag 0) = Some (w, h1) \<and>
    isEqual 3 \<lparr>eq_caches = \<lparr>nativeCreate = True, nativeMap = True, nativeSet = True\<rparr>, slotEqual = (\<lambda>t h v w. False),
       mapEntries = (\<lambda>v. []), setValues = (\<lambda>v. []), unwrapped = (\<lambda>h v. v)\<rparr> h1 (Obj ArrayTag 0) w = Some True"
  by (rule cloneDeep_isEqual [where ts = "[ArrayTag, ObjectTag, FuncTag]"])
    (simp_all add: copy_graph_def store_ok_def props_ok_def MAX_ARRAY_LENGTH_def length_key_def upt_rec numeral_eq_Suc)

end
